(* ===== verification/Pika_Prelude.thy ===== *)
theory Pika_Prelude
  imports Main "HOL-Library.Word" "HOL-Library.Monad_Syntax"
begin

text \<open>
  What every component of the development shares: the C characters and strings of the
  sources, bounds-checked reads and writes of a buffer, the copy loop
  \<open>for (...) out[k++] = in[i]\<close>, unsigned 32-bit arithmetic with its wrap-around, and the
  generic list lemmas.

  An operation that may have no defined result returns an \<open>option\<close>: \<open>None\<close> stands for
  undefined behaviour (a read or a write out of bounds, a dereferenced null or dangling
  pointer), for a failed \<open>pika_assert\<close> (which aborts the program) and for a loop that does not
  end. Error codes and null results that the code itself returns are ordinary values. A theorem
  that an operation is \<open>Some\<close> therefore says that it returns and that it stays inside its
  buffers.
\<close>

named_theorems buf_simps \<open>facts on bounds-checked buffer accesses\<close>

section \<open>Characters and C strings\<close>

type_synonym byte = "8 word"
type_synonym u16 = "16 word"
type_synonym u32 = "32 word"
type_synonym u64 = "64 word"

abbreviation NUL :: char where "NUL \<equiv> CHR 0x00"
abbreviation CH_BS :: char where "CH_BS \<equiv> CHR 0x5C"
abbreviation CH_SQ :: char where "CH_SQ \<equiv> CHR 0x27"
abbreviation CH_DQ :: char where "CH_DQ \<equiv> CHR 0x22"
abbreviation CH_NL :: char where "CH_NL \<equiv> CHR 0x0A"
abbreviation CH_CR :: char where "CH_CR \<equiv> CHR 0x0D"
abbreviation CH_TAB :: char where "CH_TAB \<equiv> CHR 0x09"

text \<open>
  A C string argument is the list of its characters before the terminator; \<open>cstring\<close> says
  that the list holds no terminator. \<open>c_str\<close> reads the C string that a buffer starts with.
\<close>

definition cstring :: "string \<Rightarrow> bool" where
  "cstring s \<longleftrightarrow> NUL \<notin> set s"

definition c_str :: "string \<Rightarrow> string" where
  "c_str buf = takeWhile (\<lambda>c. c \<noteq> NUL) buf"

text \<open>Reading a character of a C string: the terminator is part of the array.\<close>

definition str_at :: "string \<Rightarrow> nat \<Rightarrow> char" where
  "str_at s i = (if i < length s then s ! i else NUL)"

lemma cstring_simps [simp]:
  "cstring []"
  "cstring (c # s) \<longleftrightarrow> c \<noteq> NUL \<and> cstring s"
  "cstring (s @ t) \<longleftrightarrow> cstring s \<and> cstring t"
  by (auto simp: cstring_def)

lemma cstring_take [simp]: "cstring s \<Longrightarrow> cstring (take n s)"
  by (auto simp: cstring_def dest: in_set_takeD)

lemma cstring_drop [simp]: "cstring s \<Longrightarrow> cstring (drop n s)"
  by (auto simp: cstring_def dest: in_set_dropD)

lemma cstring_filter [simp]: "cstring s \<Longrightarrow> cstring (filter P s)"
  by (auto simp: cstring_def)

lemma cstring_takeWhile [simp]: "cstring s \<Longrightarrow> cstring (takeWhile P s)"
  by (auto simp: cstring_def dest: set_takeWhileD)

lemma cstring_dropWhile [simp]: "cstring s \<Longrightarrow> cstring (dropWhile P s)"
  by (auto simp: cstring_def dest: set_dropWhileD)

lemma cstring_rev [simp]: "cstring (rev s) \<longleftrightarrow> cstring s"
  by (simp add: cstring_def)

lemma cstring_nth: "cstring s \<Longrightarrow> i < length s \<Longrightarrow> s ! i \<noteq> NUL"
  by (metis cstring_def nth_mem)

lemma c_str_Nil [simp]: "c_str [] = []"
  by (simp add: c_str_def)

lemma c_str_app_NUL: "cstring s \<Longrightarrow> c_str (s @ NUL # t) = s"
  by (induction s) (auto simp: c_str_def)

lemma c_str_cstring [simp]: "cstring s \<Longrightarrow> c_str s = s"
  by (simp add: c_str_def cstring_def takeWhile_eq_all_conv) blast

lemma cstring_c_str [simp]: "cstring (c_str b)"
  by (auto simp: c_str_def cstring_def dest: set_takeWhileD)

lemma c_str_replicate_NUL: "cstring s \<Longrightarrow> c_str (s @ replicate n NUL) = s"
  by (cases n) (simp_all add: c_str_app_NUL)

section \<open>Bounds-checked buffers\<close>

definition rd :: "'a list \<Rightarrow> nat \<Rightarrow> 'a option" where
  "rd buf i = (if i < length buf then Some (buf ! i) else None)"

definition wr :: "'a list \<Rightarrow> nat \<Rightarrow> 'a \<Rightarrow> 'a list option" where
  "wr buf i x = (if i < length buf then Some (buf[i := x]) else None)"

text \<open>The write loop \<open>out[k++] = x\<close> over the elements \<open>x\<close> of a list.\<close>

fun put_loop :: "'a list \<Rightarrow> nat \<Rightarrow> 'a list \<Rightarrow> 'a list option" where
  "put_loop out k [] = Some out"
| "put_loop out k (x # xs) = do { out' \<leftarrow> wr out k x; put_loop out' (Suc k) xs }"

text \<open>\<open>memcpy\<close> into a buffer at an offset, all or nothing.\<close>

definition put_at :: "'a list \<Rightarrow> nat \<Rightarrow> 'a list \<Rightarrow> 'a list option" where
  "put_at buf k xs =
     (if k + length xs \<le> length buf
      then Some (take k buf @ xs @ drop (k + length xs) buf) else None)"

lemma wr_Some [buf_simps]: "i < length buf \<Longrightarrow> wr buf i x = Some (buf[i := x])"
  by (simp add: wr_def)

lemma wr_None [buf_simps]: "length buf \<le> i \<Longrightarrow> wr buf i x = None"
  by (simp add: wr_def)

lemma rd_Some [buf_simps]: "i < length buf \<Longrightarrow> rd buf i = Some (buf ! i)"
  by (simp add: rd_def)

lemma put_at_length: "put_at buf k xs = Some b \<Longrightarrow> length b = length buf"
  by (auto simp: put_at_def split: if_splits)

lemma put_at_step:
  assumes "k < length out"
  shows "put_at (out[k := x]) (Suc k) xs = put_at out k (x # xs)"
  using assms
  by (auto simp: put_at_def take_Suc_conv_app_nth upd_conv_take_nth_drop drop_update_swap
        add.commute [of k])

text \<open>
  The write loop is a \<open>memcpy\<close> when the destination has room and undefined behaviour when
  it has none: every copy loop of the sources is reduced to this fact.
\<close>

lemma put_loop_put_at:
  assumes "k \<le> length out"
  shows "put_loop out k xs = put_at out k xs"
  using assms
proof (induction xs arbitrary: out k)
  case Nil
  then show ?case by (simp add: put_at_def)
next
  case (Cons x xs)
  show ?case
  proof (cases "k < length out")
    case True
    with Cons.IH [of "Suc k" "out[k := x]"] show ?thesis
      by (simp add: wr_def put_at_step)
  next
    case False
    then show ?thesis by (simp add: wr_def put_at_def)
  qed
qed

lemma put_loop_Some [buf_simps]:
  assumes "k + length xs \<le> length out"
  shows "put_loop out k xs = Some (take k out @ xs @ drop (k + length xs) out)"
  using assms by (simp add: put_loop_put_at put_at_def)

lemma put_loop_None:
  "k \<le> length out \<Longrightarrow> length out < k + length xs \<Longrightarrow> put_loop out k xs = None"
  by (simp add: put_loop_put_at put_at_def)

text \<open>A copy followed by the terminator, the usual end of a string routine.\<close>

lemma upd_put [buf_simps]:
  assumes "n = length ys" "n < length out"
  shows "(ys @ drop n out)[n := z] = ys @ z # drop (Suc n) out"
  using assms by (simp add: list_update_append Cons_nth_drop_Suc [symmetric])

lemma upd_put_append [buf_simps]:
  assumes "n = length ys + length xs" "n < length out"
  shows "(ys @ xs @ drop n out)[n := z] = ys @ xs @ z # drop (Suc n) out"
  using upd_put [of n "ys @ xs" out z] assms by simp

section \<open>Unsigned 32-bit arithmetic\<close>

definition U32 :: nat where
  "U32 = 2 ^ 32"

definition u32_add :: "nat \<Rightarrow> nat \<Rightarrow> nat" where
  "u32_add a b = (a + b) mod U32"

definition u32_sub :: "nat \<Rightarrow> nat \<Rightarrow> nat" where
  "u32_sub a b = (a + (U32 - b mod U32)) mod U32"

definition u32_mul :: "nat \<Rightarrow> nat \<Rightarrow> nat" where
  "u32_mul a b = (a * b) mod U32"

lemma U32_pos [simp]: "0 < U32"
  by (simp add: U32_def)

lemma u32_add_small: "a + b < U32 \<Longrightarrow> u32_add a b = a + b"
  by (simp add: u32_add_def)

lemma u32_mul_small: "a * b < U32 \<Longrightarrow> u32_mul a b = a * b"
  by (simp add: u32_mul_def)

lemma u32_sub_small:
  assumes "b \<le> a" "a < U32"
  shows "u32_sub a b = a - b"
proof -
  have "a + (U32 - b mod U32) = (a - b) + U32"
    using assms by simp
  then show ?thesis using assms by (simp only: u32_sub_def mod_add_self2) simp
qed

lemma u32_sub_add:
  assumes "x < U32"
  shows "u32_sub (m + x) m = x"
proof -
  have "m = U32 * (m div U32) + m mod U32" "m mod U32 < U32" by simp_all
  then have "m + x + (U32 - m mod U32) = x + (U32 * (m div U32) + U32)" by linarith
  also have "\<dots> = x + U32 * (m div U32 + 1)" by simp
  finally show ?thesis using assms by (simp only: u32_sub_def mod_mult_self2) simp
qed

lemma u32_add_1 [simp]: "Suc a < U32 \<Longrightarrow> u32_add a (Suc 0) = Suc a"
  by (simp add: u32_add_def)

lemma u32_bounds [simp]: "u32_add a b < U32" "u32_sub a b < U32" "u32_mul a b < U32"
  by (simp_all add: u32_add_def u32_sub_def u32_mul_def)

section \<open>Lists\<close>

lemma take_drop_nth_upto: "map ((!) xs) [i..<j] = take (j - i) (drop i xs)" if "j \<le> length xs"
  using that by (intro nth_equalityI) auto

lemma takeWhile_neq [simp]: "c \<notin> set s \<Longrightarrow> takeWhile (\<lambda>x. x \<noteq> c) s = s"
  by (induction s) auto

text \<open>Pairwise disjointness of a list of sets, positions counting.\<close>

primrec disj_list :: "'a set list \<Rightarrow> bool" where
  "disj_list [] = True"
| "disj_list (A # As) \<longleftrightarrow> (\<forall>B \<in> set As. A \<inter> B = {}) \<and> disj_list As"

lemma disj_list_insert:
  "disj_list (us @ A # vs) \<longleftrightarrow> disj_list (us @ vs) \<and> (\<forall>B \<in> set (us @ vs). A \<inter> B = {})"
  by (induction us) auto

lemma disj_list_nth:
  "disj_list As \<Longrightarrow> i < length As \<Longrightarrow> j < length As \<Longrightarrow> i \<noteq> j \<Longrightarrow> As ! i \<inter> As ! j = {}"
proof (induction As arbitrary: i j)
  case Nil
  then show ?case by simp
next
  case (Cons A As)
  then show ?case by (cases i; cases j) (auto dest: nth_mem)
qed

lemma nth_last_index:
  "x \<in> set xs \<Longrightarrow> \<exists>i < length xs. xs ! i = x \<and> (\<forall>j < length xs. i < j \<longrightarrow> xs ! j \<noteq> x)"
proof (induction xs rule: rev_induct)
  case Nil
  then show ?case by simp
next
  case (snoc y ys)
  show ?case
  proof (cases "y = x")
    case True
    then show ?thesis by (intro exI [of _ "length ys"]) (auto simp: nth_append)
  next
    case False
    with snoc obtain i where "i < length ys" "ys ! i = x" "\<forall>j < length ys. i < j \<longrightarrow> ys ! j \<noteq> x"
      by auto
    with False show ?thesis
      by (intro exI [of _ i]) (auto simp: nth_append less_Suc_eq)
  qed
qed

section \<open>Little-endian encoding\<close>

text \<open>The bytes of an unsigned value of \<open>n\<close> bytes in memory, and the value that bytes hold.\<close>

fun le_bytes :: "nat \<Rightarrow> nat \<Rightarrow> byte list" where
  "le_bytes 0 x = []"
| "le_bytes (Suc n) x = of_nat (x mod 256) # le_bytes n (x div 256)"

fun le_nat :: "byte list \<Rightarrow> nat" where
  "le_nat [] = 0"
| "le_nat (b # bs) = unat b + 256 * le_nat bs"

definition get_le :: "nat \<Rightarrow> byte list \<Rightarrow> nat option" where
  "get_le n bs = (if n \<le> length bs then Some (le_nat (take n bs)) else None)"

lemma length_le_bytes [simp]: "length (le_bytes n x) = n"
  by (induction n arbitrary: x) auto

lemma unat_of_nat_byte: "unat (of_nat (x mod 256) :: byte) = x mod 256"
  by (simp add: unat_of_nat take_bit_eq_mod)

lemma le_nat_le_bytes: "le_nat (le_bytes n x) = x mod 256 ^ n"
proof (induction n arbitrary: x)
  case 0
  then show ?case by simp
next
  case (Suc n)
  then show ?case by (simp only: le_bytes.simps le_nat.simps unat_of_nat_byte)
      (simp add: mod_mult2_eq)
qed

text \<open>A value stored at the start of a buffer is read back.\<close>

locale byte_codec =
  fixes width :: nat and enc :: "'v \<Rightarrow> byte list" and dec :: "byte list \<Rightarrow> 'v option"
  assumes enc_length: "length (enc v) = width"
    and dec_enc: "dec (enc v @ rest) = Some v"
begin

lemma dec_take: "take width bs = enc v \<Longrightarrow> dec bs = Some v"
  using dec_enc [of v "drop width bs"] by (metis append_take_drop_id)

lemma enc_inject: "enc v = enc w \<Longrightarrow> v = w"
  using dec_enc [of v "[]"] dec_enc [of w "[]"] by simp

lemma dec_put: "put_at buf 0 (enc v) = Some buf' \<Longrightarrow> dec buf' = Some v"
  by (auto simp: put_at_def dec_enc split: if_splits)

end

definition enc_u64 :: "u64 \<Rightarrow> byte list" where "enc_u64 w = le_bytes 8 (unat w)"
definition dec_u64 :: "byte list \<Rightarrow> u64 option" where "dec_u64 bs = map_option of_nat (get_le 8 bs)"

interpretation u64: byte_codec 8 enc_u64 dec_u64
proof
  fix v :: u64 and rest
  show "length (enc_u64 v) = 8" by (simp add: enc_u64_def)
  have "unat v < 2 ^ 64" using unsigned_less [of v] by simp
  then have "unat v < 256 ^ 8" by simp
  then show "dec_u64 (enc_u64 v @ rest) = Some v"
    by (simp add: enc_u64_def dec_u64_def get_le_def le_nat_le_bytes)
qed

end
