(* ===== verification/Pika_String.thy ===== *)
theory Pika_String
  imports Pika_Prelude
begin

text \<open>
  The string routines of \<open>src/src/dataString.c\<close>. The routines that fill a caller's buffer are
  modelled on the buffer itself: the list holds every byte of it, each write is bounds-checked,
  and the result is the buffer afterwards. A buffer from \<open>pikaMalloc\<close> is not initialised; it is
  filled with the byte \<open>0xCC\<close> here, so that a routine that relied on its contents would show it.
  String lengths are natural numbers: the truncation of a length to \<open>int32_t\<close> is out of scope,
  strings being shorter than 2 GiB.
\<close>

section \<open>Search loops\<close>

text \<open>\<open>for (i = 0; i < size; i++) if (s[i] == c) ... break\<close> and its downward counterpart.\<close>

fun scan_fwd :: "char \<Rightarrow> string \<Rightarrow> nat \<Rightarrow> nat option" where
  "scan_fwd c [] i = None"
| "scan_fwd c (x # xs) i = (if x = c then Some i else scan_fwd c xs (Suc i))"

fun scan_bwd :: "char \<Rightarrow> string \<Rightarrow> nat \<Rightarrow> nat option" where
  "scan_bwd c s 0 = None"
| "scan_bwd c s (Suc i) = (if s ! i = c then Some i else scan_bwd c s i)"

definition malloc_buf :: "nat \<Rightarrow> string" where
  "malloc_buf n = replicate n (CHR 0xCC)"

section \<open>Operations\<close>

definition strGetSize :: "string \<Rightarrow> nat" where
  "strGetSize s = length s"

definition strCut :: "string \<Rightarrow> string \<Rightarrow> char \<Rightarrow> char \<Rightarrow> (string \<times> bool) option" where
  "strCut strOut strIn startSign endSign =
     (let Size = strGetSize strIn;
          st = scan_fwd startSign strIn 0;
          en = scan_bwd endSign strIn Size;
          iStart = (case st of None \<Rightarrow> 0 | Some i \<Rightarrow> i);
          iEnd = (case en of None \<Rightarrow> Size | Some i \<Rightarrow> i);
          mid = map ((!) strIn) [iStart + 1..<iEnd]
      in do {
        out1 \<leftarrow> put_loop strOut 0 mid;
        out2 \<leftarrow> wr out1 (length mid) NUL;
        Some (out2, st \<noteq> None \<and> en \<noteq> None)
      })"

fun deleteChar_loop :: "string \<Rightarrow> nat \<Rightarrow> string \<Rightarrow> char \<Rightarrow> (string \<times> nat) option" where
  "deleteChar_loop out iOut [] ch = Some (out, iOut)"
| "deleteChar_loop out iOut (c # cs) ch =
     (if ch = c then deleteChar_loop out iOut cs ch
      else do { out' \<leftarrow> wr out iOut c; deleteChar_loop out' (Suc iOut) cs ch })"

definition strDeleteChar :: "string \<Rightarrow> string \<Rightarrow> char \<Rightarrow> string option" where
  "strDeleteChar strOut strIn ch = do {
     (out, iOut) \<leftarrow> deleteChar_loop strOut 0 strIn ch;
     wr out iOut NUL
   }"

text \<open>
  \<open>pData\<close> is the array the caller passes: reading more of it than it holds is undefined.
  \<open>strAppend\<close> passes the string with its terminator.
\<close>

definition strAppendWithSize :: "string \<Rightarrow> string \<Rightarrow> nat \<Rightarrow> string option" where
  "strAppendWithSize strOut pData Size =
     (if Size \<le> length pData then
        let strOut_i = strGetSize (c_str strOut) in do {
          out \<leftarrow> put_loop strOut strOut_i (take Size pData);
          wr out (strOut_i + Size) NUL
        }
      else None)"

definition strAppend :: "string \<Rightarrow> string \<Rightarrow> string option" where
  "strAppend strOut pData = strAppendWithSize strOut (pData @ [NUL]) (strGetSize pData)"

definition bracketStart :: string where
  "bracketStart = [CHR ''('', CHR ''['', CHR ''{'', CH_SQ, CH_DQ]"

definition bracketEnd :: string where
  "bracketEnd = [CHR '')'', CHR '']'', CHR ''}'', CH_SQ, CH_DQ]"

fun bracket_loop :: "char \<Rightarrow> (char \<times> char) list \<Rightarrow> int \<Rightarrow> int" where
  "bracket_loop c [] depth = depth"
| "bracket_loop c ((b, e) # bs) depth =
     bracket_loop c bs (if c = b then depth + 1 else if c = e then depth - 1 else depth)"

fun countSign_loop :: "string \<Rightarrow> char \<Rightarrow> bool \<Rightarrow> int \<Rightarrow> int \<Rightarrow> bool \<Rightarrow> int" where
  "countSign_loop [] sign bracketDepth0 iCount iTotalDepth bEscaped = iCount"
| "countSign_loop (c # cs) sign bracketDepth0 iCount iTotalDepth bEscaped =
     (if \<not> bracketDepth0 then
        countSign_loop cs sign bracketDepth0 (if c = sign then iCount + 1 else iCount)
          iTotalDepth bEscaped
      else if c = CH_BS then
        countSign_loop cs sign bracketDepth0 iCount iTotalDepth (\<not> bEscaped)
      else
        let depth = (if bEscaped then iTotalDepth
                     else bracket_loop c (zip bracketStart bracketEnd) iTotalDepth)
        in countSign_loop cs sign bracketDepth0
             (if c = sign \<and> depth = 0 then iCount + 1 else iCount) depth False)"

definition strCountSign_ex :: "string \<Rightarrow> char \<Rightarrow> bool \<Rightarrow> int" where
  "strCountSign_ex strIn sign bracketDepth0 = countSign_loop strIn sign bracketDepth0 0 0 False"

definition strCountSign :: "string \<Rightarrow> char \<Rightarrow> int" where
  "strCountSign strIn sign = strCountSign_ex strIn sign False"

definition strGetLineNum :: "string \<Rightarrow> int" where
  "strGetLineNum strIn = strCountSign strIn CH_NL + 1"

definition strGetTokenNum :: "string \<Rightarrow> char \<Rightarrow> int" where
  "strGetTokenNum strIn sign = strCountSign strIn sign + 1"

text \<open>
  The array after the call and the offset the returned pointer has in it: \<open>strReplaceChar\<close>
  returns the pointer it walked with, so the offset is that of the terminator.
\<close>

fun replaceChar_loop :: "string \<Rightarrow> char \<Rightarrow> char \<Rightarrow> string" where
  "replaceChar_loop [] src dst = []"
| "replaceChar_loop (c # cs) src dst = (if c = src then dst else c) # replaceChar_loop cs src dst"

definition strReplaceChar :: "string \<Rightarrow> char \<Rightarrow> char \<Rightarrow> string \<times> nat" where
  "strReplaceChar strIn src dst = (replaceChar_loop strIn src dst, strGetSize strIn)"

fun strIsContain :: "string \<Rightarrow> char \<Rightarrow> bool" where
  "strIsContain [] ch = False"
| "strIsContain (c # cs) ch = (if c = ch then True else strIsContain cs ch)"

text \<open>A pointer into the argument is its offset.\<close>

definition strPointToLastToken :: "string \<Rightarrow> char \<Rightarrow> nat" where
  "strPointToLastToken strIn sign =
     (if \<not> strIsContain strIn sign then 0
      else case scan_bwd sign strIn (strGetSize strIn) of Some i \<Rightarrow> i + 1 | None \<Rightarrow> 0)"

definition strPopLastToken :: "string \<Rightarrow> char \<Rightarrow> string \<times> nat" where
  "strPopLastToken strIn sign =
     (let last_token = strPointToLastToken strIn sign in
      if last_token \<noteq> 0 then (strIn[last_token - 1 := NUL], last_token)
      else (strIn, last_token))"

fun lastTok_fill :: "string \<Rightarrow> string \<Rightarrow> char \<Rightarrow> nat \<Rightarrow> nat \<Rightarrow> (string \<times> nat) option" where
  "lastTok_fill out s sign 0 buffSize = Some (out, buffSize)"
| "lastTok_fill out s sign (Suc i) buffSize =
     (if s ! i \<noteq> sign then do {
        out' \<leftarrow> wr out (length s - i - 1) (s ! i);
        lastTok_fill out' s sign i (Suc buffSize)
      } else Some (out, buffSize))"

fun swap_loop :: "string \<Rightarrow> nat \<Rightarrow> nat list \<Rightarrow> string option" where
  "swap_loop out n [] = Some out"
| "swap_loop out n (i # is) = do {
     buff \<leftarrow> rd out i;
     y \<leftarrow> rd out (n - i - 1);
     out1 \<leftarrow> wr out i y;
     out2 \<leftarrow> wr out1 (n - i - 1) buff;
     swap_loop out2 n is
   }"

definition strGetLastToken :: "string \<Rightarrow> string \<Rightarrow> char \<Rightarrow> string option" where
  "strGetLastToken strOut strIn sign = do {
     (out, buffSize) \<leftarrow> lastTok_fill strOut strIn sign (strGetSize strIn) 0;
     out' \<leftarrow> swap_loop out buffSize [0..<buffSize div 2];
     wr out' buffSize NUL
   }"

text \<open>
  \<open>strPopFirstToken\<close> cuts the argument in place: the array it leaves, the token it returns
  (offset 0) and the offset of the rest.
\<close>

definition strPopFirstToken :: "string \<Rightarrow> char \<Rightarrow> string \<times> nat" where
  "strPopFirstToken strIn sign =
     (case scan_fwd sign strIn 0 of
        Some pos \<Rightarrow> (strIn[pos := NUL], pos + 1)
      | None \<Rightarrow> (strIn, length strIn))"

fun firstTok_fill :: "string \<Rightarrow> string \<Rightarrow> char \<Rightarrow> nat \<Rightarrow> string option" where
  "firstTok_fill out [] sign i = Some out"
| "firstTok_fill out (c # cs) sign i =
     (if c \<noteq> sign then do { out' \<leftarrow> wr out i c; firstTok_fill out' cs sign (Suc i) }
      else Some out)"

definition strGetFirstToken :: "string \<Rightarrow> string \<Rightarrow> char \<Rightarrow> string option" where
  "strGetFirstToken strOut strIn sign = firstTok_fill strOut strIn sign 0"

definition strIsStartWith :: "string option \<Rightarrow> string option \<Rightarrow> bool" where
  "strIsStartWith str strStart =
     (case (str, strStart) of
        (Some s, Some t) \<Rightarrow>
          if str_at s 0 \<noteq> str_at t 0 then False
          else take (strGetSize t) s = t
      | _ \<Rightarrow> False)"

definition strEqu :: "string option \<Rightarrow> string option \<Rightarrow> bool" where
  "strEqu str1 str2 =
     (case (str1, str2) of
        (Some s, Some t) \<Rightarrow> if str_at s 0 \<noteq> str_at t 0 then False else s = t
      | _ \<Rightarrow> False)"

definition strRemovePrefix :: "string \<Rightarrow> string \<Rightarrow> string \<Rightarrow> (string option) option" where
  "strRemovePrefix inputStr prefix outputStr =
     (if \<not> strIsStartWith (Some inputStr) (Some prefix) then Some None
      else map_option Some
        (put_loop outputStr 0 (map ((!) inputStr) [strGetSize prefix..<strGetSize inputStr])))"

definition strCopy :: "string \<Rightarrow> string \<Rightarrow> string option" where
  "strCopy strBuff strIn =
     (if str_at strIn 0 = NUL then Some strBuff
      else put_at strBuff 0 (strIn @ [NUL]))"

text \<open>The loop has no test for the terminator: it runs past a string without a newline.\<close>

fun strGetLineSize :: "string \<Rightarrow> nat \<Rightarrow> nat option" where
  "strGetLineSize [] i = None"
| "strGetLineSize (c # cs) i = (if c = CH_NL then Some i else strGetLineSize cs (Suc i))"

definition strGetLine :: "string \<Rightarrow> string \<Rightarrow> string option" where
  "strGetLine strOut strIn = do {
     lineSize \<leftarrow> strGetLineSize strIn 0;
     out \<leftarrow> put_at strOut 0 (take lineSize strIn);
     wr out lineSize NUL
   }"

definition strGetLastLine :: "string \<Rightarrow> string \<Rightarrow> string option" where
  "strGetLastLine strOut strIn =
     (let size = strGetSize strIn;
          beginIndex = (case scan_bwd CH_NL strIn (size - 1) of Some i \<Rightarrow> i + 1 | None \<Rightarrow> 0)
      in do {
        out \<leftarrow> put_at strOut 0 (drop beginIndex strIn);
        wr out (size - beginIndex + 1) NUL
      })"

definition strPathFormat :: "string \<Rightarrow> string \<Rightarrow> (string \<times> nat) option" where
  "strPathFormat input output = do {
     out \<leftarrow> put_loop output 0 (map (\<lambda>c. if c = CH_BS then CHR ''/'' else c) input);
     out' \<leftarrow> wr out (length input) NUL;
     Some (out', length input)
   }"

definition strPathJoin :: "string \<Rightarrow> string \<Rightarrow> string \<Rightarrow> (string \<times> nat) option" where
  "strPathJoin input1 input2 output =
     (if length input1 = 0 then do {
        (out, _) \<leftarrow> strPathFormat input2 output;
        Some (out, 0)
      } else do {
        (b1, _) \<leftarrow> strPathFormat input1 (malloc_buf (length input1 + 1));
        (b2, _) \<leftarrow> strPathFormat input2 (malloc_buf (length input2 + 1));
        let f1 = c_str b1;
        let f2 = c_str b2;
        out1 \<leftarrow> put_loop output 0 f1;
        (out2, j) \<leftarrow> (if f1 ! (length f1 - 1) \<noteq> CHR ''/''
                     then do { o2 \<leftarrow> wr out1 (length f1) (CHR ''/''); Some (o2, length f1 + 1) }
                     else Some (out1, length f1));
        let rest = drop (if str_at f2 0 = CHR ''/'' then 1 else 0) f2;
        out3 \<leftarrow> put_loop out2 j rest;
        out4 \<leftarrow> wr out3 (j + length rest) NUL;
        Some (out4, j + length rest)
      })"

text \<open>\<open>for (i = 0; i < len; i++) if (s[i] == '/') j = i;\<close>\<close>

fun lastSlash_loop :: "string \<Rightarrow> nat \<Rightarrow> nat \<Rightarrow> nat" where
  "lastSlash_loop [] i j = j"
| "lastSlash_loop (c # cs) i j = lastSlash_loop cs (Suc i) (if c = CHR ''/'' then i else j)"

definition strPathGetFolder :: "string \<Rightarrow> string \<Rightarrow> (string \<times> nat) option" where
  "strPathGetFolder input output = do {
     (b, _) \<leftarrow> strPathFormat input (malloc_buf (length input + 1));
     let f = c_str b;
     let j = lastSlash_loop f 0 0;
     out \<leftarrow> put_loop output 0 (take j f);
     out' \<leftarrow> wr out j NUL;
     Some (out', j)
   }"

definition strPathGetFileName :: "string \<Rightarrow> string \<Rightarrow> (string \<times> nat) option" where
  "strPathGetFileName input output =
     (if \<not> strIsContain input (CHR ''/'') \<and> \<not> strIsContain input CH_BS then do {
        out \<leftarrow> strCopy output input;
        Some (out, 0)
      } else do {
        (b, _) \<leftarrow> strPathFormat input (malloc_buf (length input + 1));
        let f = c_str b;
        let j = lastSlash_loop f 0 0;
        out \<leftarrow> put_loop output 0 (drop (j + 1) f);
        out' \<leftarrow> wr out (length f - j - 1) NUL;
        Some (out', length f - j - 1)
      })"

fun strGetIndent :: "string \<Rightarrow> nat" where
  "strGetIndent [] = 0"
| "strGetIndent (c # cs) = (if c = CHR '' '' then Suc (strGetIndent cs) else 0)"

definition charIsBlank :: "char \<Rightarrow> bool" where
  "charIsBlank ch \<longleftrightarrow> ch = CHR '' '' \<or> ch = CH_TAB \<or> ch = CH_CR \<or> ch = CH_NL"

fun strIsBlank :: "string \<Rightarrow> bool" where
  "strIsBlank [] = True"
| "strIsBlank (c # cs) = (if \<not> charIsBlank c then False else strIsBlank cs)"

fun only_loop :: "string \<Rightarrow> char \<Rightarrow> bool" where
  "only_loop [] ch = True"
| "only_loop (c # cs) ch = (if c \<noteq> ch then False else only_loop cs ch)"

definition strOnly :: "string \<Rightarrow> char \<Rightarrow> bool" where
  "strOnly string ch = (if strGetSize string = 0 then False else only_loop string ch)"

definition strFind :: "string \<Rightarrow> char \<Rightarrow> nat option" where
  "strFind string ch = scan_fwd ch string 0"

section \<open>Search loops and predicates\<close>

lemma scan_fwd_eq:
  "scan_fwd c s i = (if c \<in> set s then Some (i + length (takeWhile (\<lambda>x. x \<noteq> c) s)) else None)"
  by (induction s arbitrary: i) auto

lemma scan_bwd_None: "n \<le> length s \<Longrightarrow> scan_bwd c s n = None \<longleftrightarrow> c \<notin> set (take n s)"
  by (induction n) (auto simp: take_Suc_conv_app_nth)

lemma scan_bwd_Some:
  "scan_bwd c s n = Some i \<Longrightarrow> i < n \<and> s ! i = c \<and> (\<forall>j. i < j \<longrightarrow> j < n \<longrightarrow> s ! j \<noteq> c)"
proof (induction n)
  case 0
  then show ?case by simp
next
  case (Suc n)
  then show ?case by (cases "s ! n = c") (auto simp: less_Suc_eq)
qed

lemma strIsContain_iff [simp]: "strIsContain s c \<longleftrightarrow> c \<in> set s"
  by (induction s) auto

lemma strEqu_iff [simp]: "strEqu (Some s) (Some t) \<longleftrightarrow> s = t"
  by (auto simp: strEqu_def)

lemma strEqu_null [simp]: "\<not> strEqu None t" "\<not> strEqu s None"
  by (auto simp: strEqu_def split: option.splits)

lemma str_at_0: "cstring s \<Longrightarrow> str_at s 0 = NUL \<longleftrightarrow> s = []"
  by (cases s) (auto simp: str_at_def)

lemma strIsStartWith_iff:
  assumes "cstring s" "cstring t"
  shows "strIsStartWith (Some s) (Some t)
         \<longleftrightarrow> take (length t) s = t \<and> (t \<noteq> [] \<or> s = [])"
  using assms
  by (cases s; cases t) (auto simp: strIsStartWith_def str_at_def strGetSize_def)

lemma countSign_plain: "countSign_loop s c False n d e = n + int (count_list s c)"
  by (induction s arbitrary: n) auto

lemma strCountSign_eq: "strCountSign s c = int (count_list s c)"
  by (simp add: strCountSign_def strCountSign_ex_def countSign_plain)

lemma replaceChar_loop_eq: "replaceChar_loop s a b = map (\<lambda>c. if c = a then b else c) s"
  by (induction s) auto

lemma strGetIndent_eq: "strGetIndent s = length (takeWhile (\<lambda>c. c = CHR '' '') s)"
  by (induction s) auto

lemma strIsBlank_iff: "strIsBlank s \<longleftrightarrow> (\<forall>c \<in> set s. charIsBlank c)"
  by (induction s) auto

lemma strOnly_iff: "strOnly s ch \<longleftrightarrow> s \<noteq> [] \<and> set s = {ch}"
proof -
  have "only_loop s ch \<longleftrightarrow> set s \<subseteq> {ch}" for s by (induction s) auto
  then show ?thesis by (cases s) (auto simp: strOnly_def strGetSize_def)
qed

section \<open>Copying into a buffer\<close>

lemma deleteChar_loop_eq:
  "deleteChar_loop out i s ch
   = map_option (\<lambda>o'. (o', i + length (filter (\<lambda>c. c \<noteq> ch) s)))
       (put_loop out i (filter (\<lambda>c. c \<noteq> ch) s))"
  by (induction s arbitrary: out i) (auto split: bind_splits)

text \<open>A put at offset 0 that leaves room for the terminator.\<close>

lemma put_NUL_c_str:
  assumes "length xs < length out" "cstring xs"
  shows "\<exists>o1 o2. put_loop out 0 xs = Some o1 \<and> wr o1 (length xs) NUL = Some o2
           \<and> c_str o2 = xs \<and> length o2 = length out"
  using assms by (simp add: buf_simps c_str_app_NUL)

lemma strDeleteChar_spec:
  assumes "cstring s" "length (filter (\<lambda>c. c \<noteq> ch) s) < length out"
  shows "\<exists>o'. strDeleteChar out s ch = Some o' \<and> c_str o' = filter (\<lambda>c. c \<noteq> ch) s"
  using assms
  by (simp add: strDeleteChar_def deleteChar_loop_eq buf_simps c_str_app_NUL)

lemma strCopy_spec:
  assumes "cstring s" "s \<noteq> []" "length s < length out"
  shows "strCopy out s = Some (s @ NUL # drop (Suc (length s)) out)"
  using assms by (auto simp: strCopy_def str_at_0 put_at_def)

lemma strCopy_empty [simp]: "strCopy out [] = Some out"
  by (simp add: strCopy_def str_at_def)

text \<open>
  Into a zeroed buffer, as \<open>args_getBuff\<close> gives it, the copy is right for the empty string too.
\<close>

lemma strCopy_zeroed:
  assumes "cstring s"
  shows "strCopy (replicate (Suc (length s) + n) NUL) s = Some (s @ replicate (Suc n) NUL)"
proof (cases "s = []")
  case True
  then show ?thesis by simp
next
  case False
  with assms show ?thesis by (simp add: strCopy_spec)
qed

lemma c_str_split: "c_str out @ drop (length (c_str out)) out = out"
  unfolding c_str_def by (metis dropWhile_eq_drop takeWhile_dropWhile_id)

lemma strAppend_Some:
  assumes "length (c_str out) + length p < length out" "cstring p"
  shows "strAppend out p = Some (c_str out @ p @ NUL # drop (Suc (length (c_str out) + length p)) out)"
proof -
  have "take (length (c_str out)) out = c_str out"
    by (metis append_eq_conv_conj c_str_split)
  with assms show ?thesis
    by (simp add: strAppend_def strAppendWithSize_def strGetSize_def Let_def buf_simps)
qed

lemma strAppend_None:
  assumes "length out \<le> length (c_str out) + length p" "NUL \<in> set out"
  shows "strAppend out p = None"
proof -
  have le: "length (c_str out) \<le> length out"
    by (simp add: c_str_def length_takeWhile_le)
  show ?thesis
  proof (cases "length (c_str out) + length p = length out")
    case True
    with le show ?thesis
      by (simp add: strAppend_def strAppendWithSize_def strGetSize_def put_loop_put_at
          put_at_def wr_def)
  next
    case False
    with assms le show ?thesis
      by (simp add: strAppend_def strAppendWithSize_def strGetSize_def put_loop_None)
  qed
qed

lemma firstTok_fill_eq:
  "firstTok_fill out s sign i = put_loop out i (takeWhile (\<lambda>c. c \<noteq> sign) s)"
  by (induction s arbitrary: out i) auto

lemma strGetLineSize_eq:
  "strGetLineSize s i
   = (if CH_NL \<in> set s then Some (i + length (takeWhile (\<lambda>c. c \<noteq> CH_NL) s)) else None)"
  by (induction s arbitrary: i) auto

lemma take_takeWhile_len: "take (length (takeWhile P s)) s = takeWhile P s"
  by (induction s) auto

lemma strGetLine_spec:
  assumes "CH_NL \<in> set s" "cstring s" "length (takeWhile (\<lambda>c. c \<noteq> CH_NL) s) < length out"
  shows "\<exists>o'. strGetLine out s = Some o' \<and> c_str o' = takeWhile (\<lambda>c. c \<noteq> CH_NL) s"
proof -
  let ?l = "takeWhile (\<lambda>c. c \<noteq> CH_NL) s"
  have "strGetLine out s = do { o1 \<leftarrow> put_loop out 0 ?l; wr o1 (length ?l) NUL }"
    using assms by (simp add: strGetLine_def strGetLineSize_eq take_takeWhile_len put_loop_put_at)
  then show ?thesis using put_NUL_c_str [of ?l out] assms by auto
qed

section \<open>Tokens\<close>

text \<open>The last token of a string: what follows the last separator.\<close>

definition last_token :: "char \<Rightarrow> string \<Rightarrow> string" where
  "last_token sign s = rev (takeWhile (\<lambda>c. c \<noteq> sign) (rev s))"

lemma lastTok_fill_eq:
  assumes "i \<le> length s" "n = length s - i"
  shows "lastTok_fill out s sign i n
         = map_option (\<lambda>o'. (o', n + length (takeWhile (\<lambda>c. c \<noteq> sign) (rev (take i s)))))
             (put_loop out n (takeWhile (\<lambda>c. c \<noteq> sign) (rev (take i s))))"
  using assms
proof (induction i arbitrary: out n)
  case 0
  then show ?case by simp
next
  case (Suc i)
  have rt: "rev (take (Suc i) s) = s ! i # rev (take i s)"
    using Suc.prems by (simp add: take_Suc_conv_app_nth)
  have n: "length s - i - 1 = n" "Suc n = length s - i"
    using Suc.prems by auto
  show ?case
  proof (cases "s ! i = sign")
    case True
    with rt show ?thesis by simp
  next
    case False
    have IH: "lastTok_fill o' s sign i (Suc n)
      = map_option (\<lambda>o'. (o', Suc n + length (takeWhile (\<lambda>c. c \<noteq> sign) (rev (take i s)))))
          (put_loop o' (Suc n) (takeWhile (\<lambda>c. c \<noteq> sign) (rev (take i s))))" for o'
      using Suc.IH [of "Suc n" o'] Suc.prems(1) n(2) by simp
    show ?thesis
      unfolding lastTok_fill.simps rt n(1) using False IH
      by (cases "wr out n (s ! i)") simp_all
  qed
qed

lemma swap_loop_append:
  "swap_loop out n (a @ b) = Option.bind (swap_loop out n a) (\<lambda>o'. swap_loop o' n b)"
  by (induction a arbitrary: out) (auto split: bind_splits)

lemma swap_loop_upto:
  assumes "n \<le> length out" "k \<le> n div 2"
  shows "\<exists>o'. swap_loop out n [0..<k] = Some o' \<and> length o' = length out \<and>
           (\<forall>j < length out. o' ! j
              = (if j < k \<or> n - k \<le> j \<and> j < n then out ! (n - 1 - j) else out ! j))"
  using assms(2)
proof (induction k)
  case 0
  then show ?case by auto
next
  case (Suc k)
  then obtain o' where o': "swap_loop out n [0..<k] = Some o'" "length o' = length out"
    "\<And>j. j < length out \<Longrightarrow>
       o' ! j = (if j < k \<or> n - k \<le> j \<and> j < n then out ! (n - 1 - j) else out ! j)"
    by auto
  have k: "k < n" "n - k - 1 < length o'" "k < length o'" "k < n - k - 1" "n - k - 1 < n"
    using Suc.prems assms(1) o'(2) by auto
  have "swap_loop out n [0..<Suc k] = Some (o'[k := o' ! (n - k - 1), n - k - 1 := o' ! k])"
    using o'(1) k by (simp add: swap_loop_append rd_def wr_def)
  moreover have "\<forall>j < length out.
      o'[k := o' ! (n - k - 1), n - k - 1 := o' ! k] ! j
      = (if j < Suc k \<or> n - Suc k \<le> j \<and> j < n then out ! (n - 1 - j) else out ! j)"
    using k o'(2,3) assms(1) by (auto simp: nth_list_update less_Suc_eq)
  ultimately show ?case using o'(2) by auto
qed

lemma swap_loop_rev:
  assumes "n \<le> length out"
  shows "swap_loop out n [0..<n div 2] = Some (rev (take n out) @ drop n out)"
proof -
  obtain o' where o': "swap_loop out n [0..<n div 2] = Some o'" "length o' = length out"
    "\<forall>j < length out. o' ! j
       = (if j < n div 2 \<or> n - n div 2 \<le> j \<and> j < n then out ! (n - 1 - j) else out ! j)"
    using swap_loop_upto [OF assms, of "n div 2"] by auto
  have "o' ! j = (rev (take n out) @ drop n out) ! j" if j: "j < length o'" for j
  proof (cases "j < n")
    case True
    have "n - 1 - j = j" if "\<not> j < n div 2" "\<not> n - n div 2 \<le> j"
      using that by linarith
    with o'(3) [rule_format, of j] o'(2) j True have "o' ! j = out ! (n - 1 - j)" by auto
    with True assms show ?thesis by (simp add: nth_append rev_nth)
  next
    case False
    then have "\<not> j < n div 2" by linarith
    with False have "o' ! j = out ! j" using o'(3) [rule_format, of j] o'(2) j by simp
    with False j o'(2) assms show ?thesis by (simp add: nth_append)
  qed
  then have "o' = rev (take n out) @ drop n out"
    using assms o'(2) by (intro nth_equalityI) simp_all
  with o'(1) show ?thesis by simp
qed

lemma strGetLastToken_spec:
  assumes "cstring s" "length (last_token sign s) < length out"
  shows "\<exists>o'. strGetLastToken out s sign = Some o' \<and> c_str o' = last_token sign s
           \<and> length o' = length out"
proof -
  let ?t = "takeWhile (\<lambda>c. c \<noteq> sign) (rev s)"
  have t: "length ?t < length out" "cstring (rev ?t)"
    using assms by (auto simp: last_token_def)
  have "strGetLastToken out s sign = Some (rev ?t @ NUL # drop (Suc (length ?t)) out)"
    using t by (simp add: strGetLastToken_def strGetSize_def lastTok_fill_eq swap_loop_rev
        buf_simps)
  then show ?thesis using t by (simp add: c_str_app_NUL last_token_def)
qed

lemma last_token_no_sign: "sign \<notin> set s \<Longrightarrow> last_token sign s = s"
  by (simp add: last_token_def)

lemma last_token_append: "sign \<notin> set t \<Longrightarrow> last_token sign (s @ sign # t) = t"
  by (simp add: last_token_def takeWhile_append)

text \<open>The pointer routines cut at the same separators.\<close>

lemma strPointToLastToken_drop: "drop (strPointToLastToken s sign) s = last_token sign s"
proof (cases "sign \<in> set s")
  case True
  then obtain i where i: "scan_bwd sign s (length s) = Some i"
    using scan_bwd_None [of "length s" s sign] by auto
  from scan_bwd_Some [OF this] have
    "i < length s" "s ! i = sign" "sign \<notin> set (drop (Suc i) s)"
    by (auto simp: in_set_conv_nth)
  then have "last_token sign s = drop (Suc i) s"
    using last_token_append [of sign "drop (Suc i) s" "take i s"] id_take_nth_drop by metis
  with i True show ?thesis by (simp add: strPointToLastToken_def strGetSize_def)
next
  case False
  then show ?thesis by (simp add: strPointToLastToken_def last_token_no_sign)
qed

lemma takeWhile_dropWhile_token:
  "c \<in> set s \<Longrightarrow> s = takeWhile (\<lambda>x. x \<noteq> c) s @ c # drop (Suc (length (takeWhile (\<lambda>x. x \<noteq> c) s))) s"
  by (induction s) auto

lemma strPopFirstToken_spec:
  assumes "cstring s"
  shows "c_str (fst (strPopFirstToken s sign)) = takeWhile (\<lambda>c. c \<noteq> sign) s"
    and "drop (snd (strPopFirstToken s sign)) s
         = (if sign \<in> set s then drop (Suc (length (takeWhile (\<lambda>c. c \<noteq> sign) s))) s else [])"
proof -
  let ?t = "takeWhile (\<lambda>c. c \<noteq> sign) s"
  have upd: "s[length ?t := NUL] = ?t @ NUL # drop (Suc (length ?t)) s" if "sign \<in> set s"
    using takeWhile_dropWhile_token [OF that] by (metis list_update_length)
  show "c_str (fst (strPopFirstToken s sign)) = ?t"
    using assms
    by (auto simp: strPopFirstToken_def scan_fwd_eq upd c_str_app_NUL)
  show "drop (snd (strPopFirstToken s sign)) s
        = (if sign \<in> set s then drop (Suc (length ?t)) s else [])"
    by (simp add: strPopFirstToken_def scan_fwd_eq)
qed

lemma strCut_between:
  assumes "cstring s" "length s \<le> length out" "a \<in> set s" "b \<in> set s"
  shows "\<exists>o' i j. strCut out s a b = Some (o', True) \<and> scan_fwd a s 0 = Some i \<and>
           scan_bwd b s (length s) = Some j \<and> c_str o' = take (j - Suc i) (drop (Suc i) s)"
proof -
  obtain i where i: "scan_fwd a s 0 = Some i" using assms(3) by (simp add: scan_fwd_eq)
  obtain j where j: "scan_bwd b s (length s) = Some j"
    using scan_bwd_None [of "length s" s b] assms(4) by auto
  let ?m = "take (j - Suc i) (drop (Suc i) s)"
  have jl: "j < length s" using scan_bwd_Some [OF j] by simp
  then have m: "map ((!) s) [i + 1..<j] = ?m" by (simp add: take_drop_nth_upto)
  have "length ?m < length out" using jl assms(2) by simp
  with put_NUL_c_str [of ?m out] assms(1) obtain o1 o2 where
    "put_loop out 0 ?m = Some o1" "wr o1 (length ?m) NUL = Some o2" "c_str o2 = ?m"
    by auto
  with i j m have "strCut out s a b = Some (o2, True)"
    by (simp add: strCut_def strGetSize_def Let_def del: length_map)
  with i j \<open>c_str o2 = ?m\<close> show ?thesis by blast
qed

section \<open>Paths\<close>

definition slashes :: "string \<Rightarrow> string" where
  "slashes s = map (\<lambda>c. if c = CH_BS then CHR ''/'' else c) s"

lemma slashes_simps [simp]:
  "length (slashes s) = length s"
  "slashes (s @ t) = slashes s @ slashes t"
  "slashes [] = []"
  "slashes (c # s) = (if c = CH_BS then CHR ''/'' else c) # slashes s"
  "slashes s = [] \<longleftrightarrow> s = []"
  by (simp_all add: slashes_def)

lemma cstring_slashes [simp]: "cstring s \<Longrightarrow> cstring (slashes s)"
  by (auto simp: cstring_def slashes_def)

lemma slashes_idem [simp]: "slashes (slashes s) = slashes s"
  by (simp add: slashes_def)

lemma slash_in_slashes: "CHR ''/'' \<in> set (slashes s) \<longleftrightarrow> CHR ''/'' \<in> set s \<or> CH_BS \<in> set s"
  by (auto simp: slashes_def)

lemma strPathFormat_spec:
  assumes "length s < length out"
  shows "strPathFormat s out
         = Some (slashes s @ NUL # drop (Suc (length s)) out, length s)"
  using assms by (simp add: strPathFormat_def slashes_def [symmetric] buf_simps)

lemma strPathFormat_malloc:
  assumes "cstring s"
  shows "\<exists>b. strPathFormat s (malloc_buf (length s + 1)) = Some (b, length s) \<and> c_str b = slashes s"
  using assms by (simp add: strPathFormat_spec malloc_buf_def c_str_app_NUL)

lemma lastSlash_loop_eq:
  "lastSlash_loop s i j
   = (if CHR ''/'' \<in> set s then i + length s - Suc (length (last_token (CHR ''/'') s)) else j)"
proof (induction s rule: rev_induct)
  case Nil
  then show ?case by simp
next
  case (snoc c s)
  have "lastSlash_loop (s @ t) i j = lastSlash_loop t (i + length s) (lastSlash_loop s i j)" for t
    by (induction s arbitrary: i j) auto
  with snoc show ?case by (auto simp: last_token_def)
qed

text \<open>The folder of a path and its file name, on the path with forward slashes.\<close>

definition path_folder :: "string \<Rightarrow> string" where
  "path_folder p = take (lastSlash_loop (slashes p) 0 0) (slashes p)"

lemma strPathGetFolder_spec:
  assumes "cstring p" "length p < length out"
  shows "\<exists>o'. strPathGetFolder p out = Some (o', length (path_folder p)) \<and> c_str o' = path_folder p"
proof -
  let ?f = "slashes p"
  let ?j = "lastSlash_loop ?f 0 0"
  obtain b where b: "strPathFormat p (malloc_buf (length p + 1)) = Some (b, length p)"
    "c_str b = ?f" using strPathFormat_malloc [OF assms(1)] by auto
  have j: "?j \<le> length p" by (simp add: lastSlash_loop_eq)
  with put_NUL_c_str [of "take ?j ?f" out] assms obtain o1 o2 where
    "put_loop out 0 (take ?j ?f) = Some o1" "wr o1 ?j NUL = Some o2" "c_str o2 = take ?j ?f"
    by (auto simp: min_absorb2)
  with b j show ?thesis by (simp add: strPathGetFolder_def path_folder_def min_absorb2)
qed

lemma lastSlash_token:
  assumes "CHR ''/'' \<in> set f"
  shows "drop (Suc (lastSlash_loop f 0 0)) f = last_token (CHR ''/'') f"
    and "f = take (lastSlash_loop f 0 0) f @ CHR ''/'' # last_token (CHR ''/'') f"
proof -
  obtain u v where f: "f = u @ CHR ''/'' # v" "CHR ''/'' \<notin> set v"
    using split_list_last [OF assms] by blast
  then have "last_token (CHR ''/'') f = v" by (simp add: last_token_append)
  moreover have "lastSlash_loop f 0 0 = length u"
    using f \<open>last_token (CHR ''/'') f = v\<close> by (simp add: lastSlash_loop_eq)
  ultimately show "drop (Suc (lastSlash_loop f 0 0)) f = last_token (CHR ''/'') f"
    and "f = take (lastSlash_loop f 0 0) f @ CHR ''/'' # last_token (CHR ''/'') f"
    using f by simp_all
qed

lemma strPathGetFileName_slash:
  assumes "cstring p" "length p < length out" "CHR ''/'' \<in> set (slashes p)"
  shows "\<exists>o' n. strPathGetFileName p out = Some (o', n) \<and>
           c_str o' = last_token (CHR ''/'') (slashes p)"
proof -
  let ?f = "slashes p"
  let ?j = "lastSlash_loop ?f 0 0"
  let ?t = "last_token (CHR ''/'') ?f"
  obtain b where b: "strPathFormat p (malloc_buf (length p + 1)) = Some (b, length p)"
    "c_str b = ?f" using strPathFormat_malloc [OF assms(1)] by auto
  have t: "length ?t = length p - ?j - 1"
    using lastSlash_token(1) [OF assms(3), symmetric] by simp
  then have lt: "length ?t < length out" using assms(2) by linarith
  have "cstring ?t" using assms(1) by (simp add: last_token_def)
  with put_NUL_c_str [OF lt] obtain o1 o2 where
    "put_loop out 0 ?t = Some o1" "wr o1 (length ?t) NUL = Some o2" "c_str o2 = ?t"
    by auto
  with b t assms(3) lastSlash_token(1) [OF assms(3)] show ?thesis
    by (auto simp: strPathGetFileName_def slash_in_slashes)
qed

text \<open>What \<open>strPathJoin\<close> computes on two paths in slash form, the first not empty.\<close>

definition path_join :: "string \<Rightarrow> string \<Rightarrow> string" where
  "path_join f1 f2 =
     f1 @ (if last f1 \<noteq> CHR ''/'' then ''/'' else []) @
     (if str_at f2 0 = CHR ''/'' then drop 1 f2 else f2)"

lemma cstring_path_join: "cstring f1 \<Longrightarrow> cstring f2 \<Longrightarrow> cstring (path_join f1 f2)"
  by (simp add: path_join_def)

lemma length_path_join: "length (path_join f1 f2) \<le> length f1 + length f2 + 1"
  by (auto simp: path_join_def)

lemma put_loop_append:
  "put_loop out k (xs @ ys)
   = Option.bind (put_loop out k xs) (\<lambda>o1. put_loop o1 (k + length xs) ys)"
  by (induction xs arbitrary: out k) (auto split: bind_splits)

lemma strPathJoin_eq:
  assumes "cstring p1" "cstring p2" "p1 \<noteq> []"
  defines "r \<equiv> path_join (slashes p1) (slashes p2)"
  shows "strPathJoin p1 p2 out
         = do { o1 \<leftarrow> put_loop out 0 r; o2 \<leftarrow> wr o1 (length r) NUL; Some (o2, length r) }"
proof -
  let ?f1 = "slashes p1" and ?f2 = "slashes p2"
  obtain b1 where b1: "strPathFormat p1 (malloc_buf (length p1 + 1)) = Some (b1, length p1)"
    "c_str b1 = ?f1" using strPathFormat_malloc [OF assms(1)] by auto
  obtain b2 where b2: "strPathFormat p2 (malloc_buf (length p2 + 1)) = Some (b2, length p2)"
    "c_str b2 = ?f2" using strPathFormat_malloc [OF assms(2)] by auto
  have last: "?f1 ! (length p1 - Suc 0) = last ?f1"
    using assms(3) by (simp add: last_conv_nth)
  show ?thesis
    using assms(3) b1 b2 last
    by (cases "put_loop out 0 ?f1")
      (auto simp: strPathJoin_def r_def path_join_def put_loop_append split: bind_splits)
qed

lemma strPathJoin_spec:
  assumes "cstring p1" "cstring p2" "p1 \<noteq> []" "length p1 + length p2 + 1 < length out"
  shows "\<exists>o'. strPathJoin p1 p2 out = Some (o', length (path_join (slashes p1) (slashes p2)))
           \<and> c_str o' = path_join (slashes p1) (slashes p2)"
proof -
  let ?r = "path_join (slashes p1) (slashes p2)"
  have "length ?r < length out"
    using length_path_join [of "slashes p1" "slashes p2"] assms(4) by simp
  with put_NUL_c_str [of ?r out] assms obtain o1 o2 where
    "put_loop out 0 ?r = Some o1" "wr o1 (length ?r) NUL = Some o2" "c_str o2 = ?r"
    by (auto simp: cstring_path_join)
  then show ?thesis using strPathJoin_eq [OF assms(1-3)] by simp
qed

text \<open>Splitting a path with \<open>strPathGetFolder\<close> and \<open>strPathGetFileName\<close> and joining the two
  parts with \<open>strPathJoin\<close> gives the path back, with its separators written as forward
  slashes, and none of the three calls leaves its buffer. The path has a separator, the folder
  is not empty and does not end in a second separator.
\<close>

theorem strPath_split_join:
  assumes "cstring p" "CHR ''/'' \<in> set (slashes p)"
    and "path_folder p \<noteq> []" "last (path_folder p) \<noteq> CHR ''/''"
    and "length p < length out1" "length p < length out2" "length p < length out3"
  shows "\<exists>b1 n1 b2 n2 b3.
           strPathGetFolder p out1 = Some (b1, n1) \<and>
           strPathGetFileName p out2 = Some (b2, n2) \<and>
           strPathJoin (c_str b1) (c_str b2) out3 = Some (b3, length p) \<and>
           c_str b3 = slashes p"
proof -
  define fo fi where "fo = path_folder p" and "fi = last_token (CHR ''/'') (slashes p)"
  have dec: "slashes p = fo @ CHR ''/'' # fi"
    using lastSlash_token(2) [OF assms(2)] by (simp add: path_folder_def fo_def fi_def)
  obtain b1 n1 where b1: "strPathGetFolder p out1 = Some (b1, n1)" "c_str b1 = fo"
    using strPathGetFolder_spec [OF assms(1,5)] by (auto simp: fo_def)
  obtain b2 n2 where b2: "strPathGetFileName p out2 = Some (b2, n2)" "c_str b2 = fi"
    using strPathGetFileName_slash [OF assms(1,6,2)] by (auto simp: fi_def)
  have "slashes (fo @ CHR ''/'' # fi) = fo @ CHR ''/'' # fi"
    using slashes_idem [of p] unfolding dec .
  then have sl: "slashes fo = fo" "slashes fi = fi" by auto
  have cs: "cstring fo" "cstring fi"
    using cstring_slashes [OF assms(1)] by (simp_all add: dec)
  have "CHR ''/'' \<notin> set fi" by (auto simp: fi_def last_token_def dest: set_takeWhileD)
  then have "str_at fi 0 \<noteq> CHR ''/''" by (cases fi) (auto simp: str_at_def)
  then have join: "path_join fo fi = slashes p"
    using assms(4) dec by (simp add: path_join_def fo_def)
  have len: "length fo + length fi + 1 = length p"
    using arg_cong [OF dec, of length] by simp
  with strPathJoin_spec [OF cs assms(3) [folded fo_def], of out3] sl join assms(7) obtain b3 where
    "strPathJoin fo fi out3 = Some (b3, length p)" "c_str b3 = slashes p"
    by auto
  with b1 b2 show ?thesis by auto
qed

theorem strPath_split_join_witness:
  "\<exists>b1 n1 b2 n2 b3.
     strPathGetFolder ''a/b.py'' (replicate 8 NUL) = Some (b1, n1) \<and>
     strPathGetFileName ''a/b.py'' (replicate 8 NUL) = Some (b2, n2) \<and>
     strPathJoin (c_str b1) (c_str b2) (replicate 8 NUL) = Some (b3, 6) \<and>
     c_str b3 = ''a/b.py''"
proof -
  have s: "slashes ''a/b.py'' = ''a/b.py''" by code_simp
  have f: "path_folder ''a/b.py'' = ''a''" by code_simp
  show ?thesis
    using strPath_split_join [of "''a/b.py''" "replicate 8 NUL" "replicate 8 NUL" "replicate 8 NUL"]
    by (simp add: s f eval_nat_numeral)
qed

text \<open>\<open>strGetLastToken\<close> fills its buffer backwards and then reverses it in place. Into a
  buffer that has room for the token and its terminator it returns, without leaving the
  buffer, exactly what follows the last separator (the whole string when there is none); and
  the token is what \<open>strPointToLastToken\<close> points to.
\<close>

theorem strGetLastToken_correct:
  assumes "cstring s" "length s < length out"
  shows "\<exists>o'. strGetLastToken out s sign = Some o' \<and>
           c_str o' = drop (strPointToLastToken s sign) s \<and>
           sign \<notin> set (c_str o') \<and>
           (sign \<in> set s \<longrightarrow> (\<exists>u. s = u @ sign # c_str o')) \<and>
           (sign \<notin> set s \<longrightarrow> c_str o' = s)"
proof -
  have "length (last_token sign s) \<le> length s"
    unfolding last_token_def by (metis length_rev length_takeWhile_le)
  with strGetLastToken_spec [OF assms(1)] assms(2) obtain o' where
    o': "strGetLastToken out s sign = Some o'" "c_str o' = last_token sign s"
    by (meson le_less_trans)
  have "sign \<notin> set (last_token sign s)"
    by (auto simp: last_token_def dest: set_takeWhileD)
  moreover have "\<exists>u. s = u @ sign # last_token sign s" if sg: "sign \<in> set s"
  proof -
    from split_list_last [OF sg] obtain u v where "s = u @ sign # v" "sign \<notin> set v" by blast
    then show ?thesis by (auto simp: last_token_append)
  qed
  ultimately show ?thesis
    using o' by (auto simp: strPointToLastToken_drop last_token_no_sign)
qed

theorem strGetLastToken_correct_witness:
  "\<exists>o'. strGetLastToken (replicate 8 NUL) ''a.b.cd'' (CHR ''.'') = Some o' \<and> c_str o' = ''cd''"
proof -
  have p: "strPointToLastToken ''a.b.cd'' (CHR ''.'') = 4" by code_simp
  show ?thesis
    using strGetLastToken_correct [of "''a.b.cd''" "replicate 8 NUL" "CHR ''.''"]
    by (auto simp: p)
qed

text \<open>\<open>strAppend\<close> stays inside its buffer exactly when the two strings and the terminator fit
  into it: then the buffer holds their concatenation, otherwise the append is an
  out-of-bounds write.
\<close>

theorem strAppend_safe_iff:
  assumes "cstring p" "NUL \<in> set out"
  shows "(strAppend out p \<noteq> None \<longleftrightarrow> length (c_str out) + length p < length out) \<and>
         (\<forall>o'. strAppend out p = Some o' \<longrightarrow> c_str o' = c_str out @ p \<and> length o' = length out)"
proof (cases "length (c_str out) + length p < length out")
  case True
  have "c_str (c_str out @ p @ NUL # r) = c_str out @ p" for r
    using c_str_app_NUL [of "c_str out @ p" r] assms(1) by simp
  with True show ?thesis using strAppend_Some [OF True assms(1)] by simp
next
  case False
  then show ?thesis using strAppend_None [of out p] assms(2) by simp
qed

theorem strAppend_safe_iff_witness:
  "c_str (the (strAppend (''ab'' @ replicate 6 NUL) ''cd'')) = ''abcd''
   \<and> strAppend (''ab'' @ replicate 2 NUL) ''cd'' = None"
proof -
  have "c_str (''ab'' @ replicate 6 NUL) = ''ab''" "c_str (''ab'' @ replicate 2 NUL) = ''ab''"
    by (simp_all add: c_str_def)
  then show ?thesis
    using strAppend_safe_iff [of "''cd''" "''ab'' @ replicate 6 NUL"]
      strAppend_safe_iff [of "''cd''" "''ab'' @ replicate 2 NUL"] by auto
qed

text \<open>\<open>strGetLastLine\<close> writes its terminator one byte too far: the byte right after the copied
  line keeps whatever the buffer held, so the result is the last line only if that byte
  happened to be the terminator already, and a buffer with room for just the line and its
  terminator is overrun.
\<close>

theorem strGetLastLine_terminator:
  assumes "s \<noteq> []" "cstring s"
    and line: "line = drop (case scan_bwd CH_NL s (length s - 1) of Some i \<Rightarrow> i + 1 | None \<Rightarrow> 0) s"
  shows "(length out = length line + 1 \<longrightarrow> strGetLastLine out s = None) \<and>
         (length line + 1 < length out \<longrightarrow>
           (\<exists>o'. strGetLastLine out s = Some o' \<and> o' ! length line = out ! length line \<and>
             (c_str o' = line \<longleftrightarrow> out ! length line = NUL)))"
proof -
  have cl: "cstring line" using assms(2) by (simp add: line)
  have eq: "strGetLastLine out s = do { o1 \<leftarrow> put_at out 0 line; wr o1 (length line + 1) NUL }"
    unfolding line by (simp add: strGetLastLine_def strGetSize_def Let_def)
  have "\<exists>o'. strGetLastLine out s = Some o' \<and> o' ! length line = out ! length line \<and>
      (c_str o' = line \<longleftrightarrow> out ! length line = NUL)" if room: "length line + 1 < length out"
  proof -
    from room obtain y r where r: "drop (length line) out = out ! length line # y # r"
      by (metis Cons_nth_drop_Suc Suc_eq_plus1 add_lessD1)
    let ?x = "out ! length line"
    have o': "strGetLastLine out s = Some (line @ ?x # NUL # r)"
      using room r by (simp add: eq put_at_def wr_def list_update_append)
    have "c_str (line @ ?x # NUL # r) = line \<longleftrightarrow> ?x = NUL"
      using cl c_str_app_NUL [of "line @ [?x]" r]
      by (cases "?x = NUL") (simp_all add: c_str_app_NUL)
    with o' show ?thesis by (auto simp: nth_append)
  qed
  then show ?thesis by (simp add: eq put_at_def wr_def)
qed

theorem strGetLastLine_terminator_witness:
  "strGetLastLine (replicate 3 (CHR ''?'')) [CHR ''a'', CH_NL, CHR ''b'', CHR ''c''] = None \<and>
   c_str (the (strGetLastLine (replicate 8 (CHR ''?'')) [CHR ''a'', CH_NL, CHR ''b'', CHR ''c'']))
     \<noteq> ''bc''"
proof -
  have sc: "scan_bwd CH_NL [CHR ''a'', CH_NL, CHR ''b'', CHR ''c''] 3 = Some 1" by code_simp
  have "\<exists>o'. strGetLastLine (replicate 8 (CHR ''?'')) [CHR ''a'', CH_NL, CHR ''b'', CHR ''c'']
        = Some o' \<and> c_str o' \<noteq> ''bc''"
    using strGetLastLine_terminator [of "[CHR ''a'', CH_NL, CHR ''b'', CHR ''c'']" "''bc''"
        "replicate 8 (CHR ''?'')"] by (auto simp: sc eval_nat_numeral)
  moreover have "strGetLastLine (replicate 3 (CHR ''?'')) [CHR ''a'', CH_NL, CHR ''b'', CHR ''c'']
        = None"
    using strGetLastLine_terminator [of "[CHR ''a'', CH_NL, CHR ''b'', CHR ''c'']" "''bc''"
        "replicate 3 (CHR ''?'')"] by (auto simp: sc eval_nat_numeral)
  ultimately show ?thesis by auto
qed

end
