(* ===== verification/Pika_Memory.thy ===== *)
theory Pika_Memory
  imports Pika_Prelude
begin

unbundle bit_operations_syntax

text \<open>
  \<open>src/src/dataMemory.c\<close>: the bitmap, the block pool behind \<open>pika_user_malloc\<close> when
  \<open>PIKA_POOL_ENABLE\<close> is set, and the accounting of \<open>pikaMalloc\<close> and \<open>pikaFree\<close>. A bitmap is the
  list of its bytes. Block indices and sizes are the 32-bit values of the code read as natural
  numbers; where the code's arithmetic can wrap (\<open>purl_free_block_start + block_num_need - 1\<close>,
  \<open>block_index + block_num - 1\<close>, the pointer difference) the wrap-around is written out. The
  addresses the platform's \<open>malloc\<close> returns are arguments of \<open>pool_init\<close>.
\<close>

section \<open>Bitmap\<close>

text \<open>\<open>block\<close> is what the platform's \<open>malloc\<close> returned: \<open>None\<close> is the null pointer.\<close>

definition bitmap_bytes :: "nat \<Rightarrow> nat" where
  "bitmap_bytes sz = u32_add (u32_sub sz 1 div 8) 1"

definition bitmap_init :: "nat \<Rightarrow> bool \<Rightarrow> byte list option" where
  "bitmap_init sz malloc_ok =
     (if malloc_ok then Some (replicate (bitmap_bytes sz) 0) else None)"

definition bitmap_set :: "byte list \<Rightarrow> nat \<Rightarrow> bool \<Rightarrow> byte list option" where
  "bitmap_set bitmap index b =
     (let index_byte = index div 8;
          x = push_bit (index mod 8) (1 :: byte)
      in do {
        old \<leftarrow> rd bitmap index_byte;
        wr bitmap index_byte (if b then old OR x else old AND NOT x)
      })"

definition bitmap_getByte :: "byte list \<Rightarrow> nat \<Rightarrow> byte option" where
  "bitmap_getByte bitmap index = rd bitmap (index div 8)"

definition bitmap_get :: "byte list \<Rightarrow> nat \<Rightarrow> bool option" where
  "bitmap_get bitmap index =
     (let x = push_bit (index mod 8) (1 :: byte)
      in do { byte \<leftarrow> rd bitmap (index div 8); Some (0 < byte AND x) })"

section \<open>Pool\<close>

record pool =
  bitmap :: "byte list option"
  mem :: "nat option"
  aline :: nat
  psize :: nat
  first_free_block :: nat
  purl_free_block_start :: nat
  inited :: bool

definition pool_getBlockIndex_byMemSize :: "nat \<Rightarrow> nat \<Rightarrow> nat" where
  "pool_getBlockIndex_byMemSize al sz = (if sz = 0 then 0 else (sz - 1) div al + 1)"

definition pool_aline :: "nat \<Rightarrow> nat \<Rightarrow> nat" where
  "pool_aline al sz = u32_mul (pool_getBlockIndex_byMemSize al sz) al"

text \<open>
  \<open>bm_ok\<close> says whether the bitmap could be allocated, \<open>addr\<close> is the address of the pool's memory.
\<close>

definition pool_init :: "nat \<Rightarrow> nat \<Rightarrow> bool \<Rightarrow> nat option \<Rightarrow> pool" where
  "pool_init sz al bm_ok addr =
     (let block_size = pool_getBlockIndex_byMemSize al sz in
      \<lparr> bitmap = bitmap_init block_size bm_ok, mem = addr, aline = al,
        psize = pool_aline al sz, first_free_block = 0, purl_free_block_start = 0,
        inited = True \<rparr>)"

text \<open>The bitmap is freed, so no later access to it is defined; \<open>inited\<close> is left as it was.\<close>

definition pool_deinit :: "pool \<Rightarrow> pool" where
  "pool_deinit p = p\<lparr> mem := None, bitmap := None \<rparr>"

definition pool_getBytes_byBlockIndex :: "pool \<Rightarrow> nat \<Rightarrow> nat option" where
  "pool_getBytes_byBlockIndex p block_index =
     map_option (\<lambda>m. m + u32_mul block_index (aline p)) (mem p)"

definition pool_getBlockIndex_byMem :: "pool \<Rightarrow> nat \<Rightarrow> nat option" where
  "pool_getBlockIndex_byMem p a =
     map_option (\<lambda>m. pool_getBlockIndex_byMemSize (aline p) (u32_sub a m)) (mem p)"

text \<open>
  The low speed search of \<open>pool_malloc\<close>: the loop over \<open>block_index\<close> with its run length
  \<open>block_num_found\<close>. A full byte is skipped in one step. It returns the last block of the run
  it found, if any, and the new \<open>first_free_block\<close>.
\<close>

function pool_search ::
  "byte list \<Rightarrow> nat \<Rightarrow> nat \<Rightarrow> nat \<Rightarrow> nat \<Rightarrow> bool \<Rightarrow> nat \<Rightarrow> (nat option \<times> nat) option" where
  "pool_search bm need purl block_index found ff first =
     (if block_index < purl then
        case bitmap_getByte bm block_index of
          None \<Rightarrow> None
        | Some bitmap_byte \<Rightarrow>
            if bitmap_byte = 0xFF then
              pool_search bm need purl (8 * (block_index div 8) + 7 + 1) 0 ff first
            else (case bitmap_get bm block_index of
              None \<Rightarrow> None
            | Some used \<Rightarrow>
                let found' = (if \<not> used then found + 1 else 0);
                    first' = (if \<not> used \<and> \<not> ff then block_index else first);
                    ff' = (ff \<or> \<not> used)
                in if need \<le> found' then Some (Some block_index, first')
                   else pool_search bm need purl (block_index + 1) found' ff' first')
      else Some (None, first))"
  by pat_completeness auto
termination
  by (relation "measure (\<lambda>(bm, need, purl, bi, found, ff, first). purl - bi)") auto

text \<open>\<open>for (i = 0; i < n; i++) bitmap_set(bitmap, block_index - i, 1)\<close> and the loop of \<open>pool_free\<close>.\<close>

fun set_down :: "byte list \<Rightarrow> nat \<Rightarrow> nat \<Rightarrow> nat \<Rightarrow> byte list option" where
  "set_down bm block_index i 0 = Some bm"
| "set_down bm block_index i (Suc n) =
     do { bm' \<leftarrow> bitmap_set bm (u32_sub block_index i) True; set_down bm' block_index (Suc i) n }"

fun clear_up :: "byte list \<Rightarrow> nat \<Rightarrow> nat \<Rightarrow> nat \<Rightarrow> byte list option" where
  "clear_up bm block_index i 0 = Some bm"
| "clear_up bm block_index i (Suc n) =
     do { bm' \<leftarrow> bitmap_set bm (u32_add block_index i) False; clear_up bm' block_index (Suc i) n }"

text \<open>The part of \<open>pool_malloc\<close> after the label \<open>found\<close>.\<close>

definition pool_take :: "pool \<Rightarrow> byte list \<Rightarrow> nat \<Rightarrow> nat \<Rightarrow> (pool \<times> nat option) option" where
  "pool_take p bm need block_index = do {
     bm' \<leftarrow> set_down bm block_index 0 need;
     let p' = p\<lparr> bitmap := Some bm',
                 purl_free_block_start :=
                   (if purl_free_block_start p \<le> block_index then block_index + 1
                    else purl_free_block_start p) \<rparr>;
     a \<leftarrow> pool_getBytes_byBlockIndex p' (u32_add (u32_sub block_index need) 1);
     Some (p', Some a)
   }"

definition pool_malloc :: "pool \<Rightarrow> nat \<Rightarrow> (pool \<times> nat option) option" where
  "pool_malloc p sz =
     (let block_index_max = pool_getBlockIndex_byMemSize (aline p) (psize p);
          need = pool_getBlockIndex_byMemSize (aline p) sz;
          high = u32_sub (u32_add (purl_free_block_start p) need) 1
      in do {
        bm \<leftarrow> bitmap p;
        if high < block_index_max then pool_take p bm need high
        else do {
          (hit, first) \<leftarrow> pool_search bm need (purl_free_block_start p) (first_free_block p) 0 False
                            (first_free_block p);
          let p' = p\<lparr> first_free_block := first \<rparr>;
          (case hit of
             Some block_index \<Rightarrow> pool_take p' bm need block_index
           | None \<Rightarrow> if high < block_index_max then pool_take p' bm need high
                     else Some (p', None))
        }
      })"

text \<open>\<open>while (0 == bitmap_get(first_pure_free_block - 1)) ...\<close>\<close>

fun walk_back :: "byte list \<Rightarrow> nat \<Rightarrow> nat option" where
  "walk_back bm 0 = Some 0"
| "walk_back bm (Suc n) =
     do { used \<leftarrow> bitmap_get bm n; if \<not> used then walk_back bm n else Some (Suc n) }"

definition pool_free :: "pool \<Rightarrow> nat \<Rightarrow> nat \<Rightarrow> pool option" where
  "pool_free p a sz =
     (let block_num = pool_getBlockIndex_byMemSize (aline p) sz in do {
        bm \<leftarrow> bitmap p;
        block_index \<leftarrow> pool_getBlockIndex_byMem p a;
        bm' \<leftarrow> clear_up bm block_index 0 block_num;
        let p1 = p\<lparr> bitmap := Some bm',
                    first_free_block := (if block_index < first_free_block p then block_index
                                         else first_free_block p) \<rparr>;
        let block_end = u32_sub (u32_add block_index block_num) 1;
        if block_end = u32_sub (purl_free_block_start p) 1 then do {
          start \<leftarrow> walk_back bm' block_index;
          Some (p1\<lparr> purl_free_block_start := start \<rparr>)
        } else Some p1
      })"

section \<open>Allocation with accounting\<close>

record PikaMemInfo =
  heapUsed :: u32
  heapUsedMax :: u32

record mem_state =
  info :: PikaMemInfo
  pikaPool :: pool

definition mem_align :: "nat \<Rightarrow> nat" where
  "mem_align sz = 4 * (u32_sub (u32_add sz 4) 1 div 4)"

definition pika_user_malloc :: "mem_state \<Rightarrow> nat \<Rightarrow> (mem_state \<times> nat option) option" where
  "pika_user_malloc s sz = do {
     (p, a) \<leftarrow> pool_malloc (pikaPool s) sz;
     Some (s\<lparr> pikaPool := p \<rparr>, a)
   }"

definition pika_user_free :: "mem_state \<Rightarrow> nat \<Rightarrow> nat \<Rightarrow> mem_state option" where
  "pika_user_free s a sz = do {
     p \<leftarrow> pool_free (pikaPool s) a sz;
     Some (s\<lparr> pikaPool := p \<rparr>)
   }"

text \<open>Out of memory, \<open>pikaMalloc\<close> prints a message and loops for ever: \<open>None\<close>.\<close>

definition pikaMalloc :: "mem_state \<Rightarrow> nat \<Rightarrow> (mem_state \<times> nat) option" where
  "pikaMalloc s sz0 =
     (let sz = mem_align sz0;
          used = heapUsed (info s) + of_nat sz;
          s1 = s\<lparr> info := \<lparr> heapUsed = used,
                            heapUsedMax = (if heapUsedMax (info s) < used then used
                                           else heapUsedMax (info s)) \<rparr> \<rparr>
      in do {
        (s2, a) \<leftarrow> pika_user_malloc s1 sz;
        a' \<leftarrow> a;
        Some (s2, a')
      })"

definition pikaFree :: "mem_state \<Rightarrow> nat \<Rightarrow> nat \<Rightarrow> mem_state option" where
  "pikaFree s a sz0 =
     (let sz = mem_align sz0 in do {
        s1 \<leftarrow> pika_user_free s a sz;
        Some (s1\<lparr> info := (info s1)\<lparr> heapUsed := heapUsed (info s1) - of_nat sz \<rparr> \<rparr>)
      })"

definition pikaMemNow :: "mem_state \<Rightarrow> u32" where
  "pikaMemNow s = heapUsed (info s)"

definition pikaMemMax :: "mem_state \<Rightarrow> u32" where
  "pikaMemMax s = heapUsedMax (info s)"

definition pikaMemMaxReset :: "mem_state \<Rightarrow> mem_state" where
  "pikaMemMaxReset s = s\<lparr> info := (info s)\<lparr> heapUsedMax := 0 \<rparr> \<rparr>"

definition PIKA_POOL_SIZE :: nat where "PIKA_POOL_SIZE = 0x4000"
definition PIKA_POOL_ALIGN :: nat where "PIKA_POOL_ALIGN = 8"

definition mem_pool_init :: "mem_state \<Rightarrow> bool \<Rightarrow> nat option \<Rightarrow> mem_state" where
  "mem_pool_init s bm_ok addr =
     (if \<not> inited (pikaPool s)
      then s\<lparr> pikaPool := pool_init PIKA_POOL_SIZE PIKA_POOL_ALIGN bm_ok addr \<rparr> else s)"

definition mem_pool_deinit :: "mem_state \<Rightarrow> mem_state" where
  "mem_pool_deinit s = s\<lparr> pikaPool := pool_deinit (pikaPool s) \<rparr>"

section \<open>Bitmap lemmas\<close>

declare pool_search.simps [simp del]

text \<open>Block \<open>i\<close> is in use.\<close>

definition used_bit :: "byte list \<Rightarrow> nat \<Rightarrow> bool" where
  "used_bit bm i \<longleftrightarrow> bit (bm ! (i div 8)) (i mod 8)"

lemma div8_less: "i < 8 * n \<longleftrightarrow> i div 8 < n" for i n :: nat
  by (simp add: less_mult_imp_div_less div_less_iff_less_mult mult.commute)

lemma and_push_bit_pos:
  fixes w :: byte
  assumes "k < 8"
  shows "0 < w AND push_bit k 1 \<longleftrightarrow> bit w k"
proof -
  have "w AND push_bit k 1 = (if bit w k then push_bit k 1 else 0)"
    using assms by (intro bit_word_eqI) (auto simp: bit_simps)
  moreover have "push_bit k (1 :: byte) \<noteq> 0"
    using assms by (simp add: push_bit_eq_0_iff take_bit_eq_0_iff word_gt_0)
  ultimately show ?thesis by (simp add: word_gt_0)
qed

lemma bitmap_get_eq [simp]:
  assumes "i < 8 * length bm"
  shows "bitmap_get bm i = Some (used_bit bm i)"
  using assms and_push_bit_pos [of "i mod 8" "bm ! (i div 8)"]
  by (simp add: bitmap_get_def rd_def div8_less used_bit_def)

lemma bitmap_set_eq:
  assumes "i < 8 * length bm"
  shows "\<exists>bm'. bitmap_set bm i b = Some bm' \<and> length bm' = length bm \<and>
           (\<forall>j. used_bit bm' j = (if j = i then b else used_bit bm j))"
proof -
  let ?x = "push_bit (i mod 8) (1 :: byte)"
  let ?w = "if b then bm ! (i div 8) OR ?x else bm ! (i div 8) AND NOT ?x"
  have eq: "bitmap_set bm i b = Some (bm[i div 8 := ?w])"
    using assms by (simp add: bitmap_set_def rd_def wr_def div8_less Let_def)
  have w: "bit ?w k = (if k = i mod 8 then b else bit (bm ! (i div 8)) k)" if "k < 8" for k
    using that by (auto simp: bit_simps)
  have "used_bit (bm[i div 8 := ?w]) j = (if j = i then b else used_bit bm j)" for j
  proof (cases "j div 8 = i div 8")
    case True
    then have "j mod 8 = i mod 8 \<longleftrightarrow> j = i" by (metis div_mult_mod_eq)
    with True w [of "j mod 8"] assms show ?thesis by (simp add: used_bit_def div8_less)
  next
    case False
    then show ?thesis by (auto simp: used_bit_def)
  qed
  with eq show ?thesis by auto
qed

lemma bitmap_byte_full:
  assumes "i < 8 * length bm"
  shows "\<exists>w. bitmap_getByte bm i = Some w \<and>
           (w = 0xFF \<longrightarrow> (\<forall>j. j div 8 = i div 8 \<longrightarrow> used_bit bm j))"
proof -
  have m1: "(0xFF :: byte) = -1" by simp
  have "bit (0xFF :: byte) k" if "k < 8" for k
    unfolding m1 using that by (simp only: bit_minus_1_iff) simp
  then show ?thesis
    using assms by (auto simp: bitmap_getByte_def rd_def div8_less used_bit_def)
qed

lemma set_down_eq:
  assumes "i + n \<le> Suc r" "r < 8 * length bm" "r < U32"
  shows "\<exists>bm'. set_down bm r i n = Some bm' \<and> length bm' = length bm \<and>
           (\<forall>j. used_bit bm' j \<longleftrightarrow> used_bit bm j \<or> j + i + n > r \<and> j + i \<le> r)"
  using assms
proof (induction n arbitrary: bm i)
  case 0
  then show ?case by auto
next
  case (Suc n)
  have idx: "u32_sub r i = r - i" using Suc.prems by (intro u32_sub_small) auto
  obtain b1 where b1: "bitmap_set bm (r - i) True = Some b1" "length b1 = length bm"
    "\<And>j. used_bit b1 j = (if j = r - i then True else used_bit bm j)"
    using bitmap_set_eq [of "r - i" bm True] Suc.prems(2) by (meson diff_le_self le_less_trans)
  obtain b2 where "set_down b1 r (Suc i) n = Some b2" "length b2 = length b1"
    "\<And>j. used_bit b2 j \<longleftrightarrow> used_bit b1 j \<or> j + Suc i + n > r \<and> j + Suc i \<le> r"
    using Suc.IH [of "Suc i" b1] Suc.prems b1(2) by auto
  with b1 Suc.prems show ?case by (auto simp: idx)
qed

lemma clear_up_eq:
  assumes "s + i + n \<le> 8 * length bm" "s + i + n \<le> U32"
  shows "\<exists>bm'. clear_up bm s i n = Some bm' \<and> length bm' = length bm \<and>
           (\<forall>j. used_bit bm' j \<longleftrightarrow> used_bit bm j \<and> \<not> (s + i \<le> j \<and> j < s + i + n))"
  using assms
proof (induction n arbitrary: bm i)
  case 0
  then show ?case by auto
next
  case (Suc n)
  obtain b1 where b1: "bitmap_set bm (s + i) False = Some b1" "length b1 = length bm"
    "\<And>j. used_bit b1 j = (if j = s + i then False else used_bit bm j)"
    using bitmap_set_eq [of "s + i" bm False] Suc.prems by auto
  obtain b2 where "clear_up b1 s (Suc i) n = Some b2" "length b2 = length b1"
    "\<And>j. used_bit b2 j \<longleftrightarrow> used_bit b1 j \<and> \<not> (s + Suc i \<le> j \<and> j < s + Suc i + n)"
    using Suc.IH [of "Suc i" b1] Suc.prems b1(2) by auto
  moreover have "u32_add s i = s + i" using Suc.prems by (intro u32_add_small) auto
  ultimately show ?case using b1 by auto
qed

lemma walk_back_eq:
  assumes "n \<le> 8 * length bm"
  shows "\<exists>m. walk_back bm n = Some m \<and> m \<le> n \<and> (\<forall>j. m \<le> j \<and> j < n \<longrightarrow> \<not> used_bit bm j) \<and>
           (m = 0 \<or> used_bit bm (m - 1))"
  using assms
proof (induction n)
  case 0
  then show ?case by simp
next
  case (Suc n)
  show ?case
  proof (cases "used_bit bm n")
    case True
    with Suc.prems show ?thesis by auto
  next
    case False
    with Suc obtain m where "walk_back bm n = Some m" "m \<le> n"
      "\<forall>j. m \<le> j \<and> j < n \<longrightarrow> \<not> used_bit bm j" "m = 0 \<or> used_bit bm (m - 1)"
      by auto
    with False Suc.prems show ?thesis by (auto simp: less_Suc_eq)
  qed
qed

section \<open>The search loop\<close>

text \<open>A run of \<open>n\<close> free blocks from \<open>s\<close> on.\<close>

definition free_run :: "byte list \<Rightarrow> nat \<Rightarrow> nat \<Rightarrow> bool" where
  "free_run bm s n \<longleftrightarrow> (\<forall>j. s \<le> j \<and> j < s + n \<longrightarrow> \<not> used_bit bm j)"

text \<open>
  What one call of the loop promises from a state in which the \<open>found\<close> blocks before
  \<open>block_index\<close> are free: a hit ends a free run of the wanted length, a miss rules every such
  run out, and \<open>first\<close> either stays or moves to the first free block.
\<close>

definition search_post ::
  "byte list \<Rightarrow> nat \<Rightarrow> nat \<Rightarrow> nat \<Rightarrow> nat \<Rightarrow> bool \<Rightarrow> nat \<Rightarrow> nat option \<Rightarrow> nat \<Rightarrow> bool" where
  "search_post bm need purl bi found ff first hit first' \<longleftrightarrow>
     (case hit of
        Some r \<Rightarrow> bi \<le> r \<and> r < purl \<and> need \<le> Suc r \<and> free_run bm (Suc r - need) need
      | None \<Rightarrow> \<forall>s. bi \<le> s + found \<longrightarrow> s + need \<le> purl \<longrightarrow> \<not> free_run bm s need) \<and>
     (first' = first \<or>
      \<not> ff \<and> bi \<le> first' \<and> first' < purl \<and> \<not> used_bit bm first' \<and>
      (\<forall>j. bi \<le> j \<and> j < first' \<longrightarrow> used_bit bm j))"

lemma search_post_skip:
  assumes post: "search_post bm need purl bi' 0 ff first hit first'"
    and "bi < bi'" "found < need" and full: "\<And>j. bi \<le> j \<Longrightarrow> j < bi' \<Longrightarrow> used_bit bm j"
  shows "search_post bm need purl bi found ff first hit first'"
proof -
  have "\<not> free_run bm s need" if "bi \<le> s + found" "s < bi'" for s
  proof -
    have "s \<le> max s bi" "max s bi < s + need" "bi \<le> max s bi" "max s bi < bi'"
      using that assms(2,3) by auto
    with full show ?thesis unfolding free_run_def by blast
  qed
  with post full \<open>bi < bi'\<close> show ?thesis
    unfolding search_post_def by (auto split: option.splits) (metis leI le_trans less_imp_le)+
qed

lemma search_post_free:
  assumes post: "search_post bm need purl (Suc bi) (Suc found) True first1 hit first'"
    and "\<not> used_bit bm bi" "bi < purl" "first1 = (if ff then first else bi)"
  shows "search_post bm need purl bi found ff first hit first'"
  using assms unfolding search_post_def by (auto split: option.splits)

lemma pool_search_correct:
  assumes "purl \<le> 8 * length bm" "found < need" "found \<le> bi"
    and "\<forall>j. bi \<le> j + found \<and> j < bi \<longrightarrow> \<not> used_bit bm j"
  shows "\<exists>hit first'. pool_search bm need purl bi found ff first = Some (hit, first') \<and>
           search_post bm need purl bi found ff first hit first'"
  using assms
proof (induction bm need purl bi found ff first rule: pool_search.induct)
  case (1 bm need purl bi found ff first)
  show ?case
  proof (cases "bi < purl")
    case False
    with "1.prems" show ?thesis
      by (simp add: pool_search.simps [of bm need purl bi] search_post_def)
  next
    case True
    with "1.prems" have bi: "bi < 8 * length bm" by simp
    then obtain w where w: "bitmap_getByte bm bi = Some w"
      "w = 0xFF \<longrightarrow> (\<forall>j. j div 8 = bi div 8 \<longrightarrow> used_bit bm j)"
      using bitmap_byte_full by blast
    note unf = pool_search.simps [of bm need purl bi found ff first]
    note IH = "1.IH" [OF True w(1)]
    show ?thesis
    proof (cases "w = 0xFF")
      case ff: True
      let ?b = "8 * (bi div 8) + 7 + 1"
      have full: "used_bit bm j" if "bi \<le> j" "j < ?b" for j
      proof -
        have "j div 8 = bi div 8" using that by linarith
        with w(2) ff show ?thesis by blast
      qed
      from IH(1) [OF ff] "1.prems" obtain hit first' where
        "pool_search bm need purl ?b 0 ff first = Some (hit, first')"
        "search_post bm need purl ?b 0 ff first hit first'" by auto
      with search_post_skip [OF this(2), of bi found] full "1.prems"(2) unf True w(1) ff
      show ?thesis by auto
    next
      case nff: False
      note IH2 = IH(2) [OF nff bitmap_get_eq [OF bi] refl refl refl]
      show ?thesis
      proof (cases "used_bit bm bi")
        case used: True
        with IH2 "1.prems" obtain hit first' where
          "pool_search bm need purl (bi + 1) 0 ff first = Some (hit, first')"
          "search_post bm need purl (bi + 1) 0 ff first hit first'" by auto
        with search_post_skip [OF this(2), of bi found] used "1.prems"(2) unf True w(1) nff bi
        show ?thesis by (auto simp: less_Suc_eq)
      next
        case free: False
        let ?f = "if ff then first else bi"
        show ?thesis
        proof (cases "need \<le> found + 1")
          case hit: True
          have "free_run bm (Suc bi - need) need"
            using "1.prems"(2-4) hit free by (auto simp: free_run_def less_Suc_eq)
          with hit free unf True w(1) nff bi "1.prems"(2,3) show ?thesis
            by (auto simp: search_post_def)
        next
          case cont: False
          have fr: "\<forall>j. bi + 1 \<le> j + (found + 1) \<and> j < bi + 1 \<longrightarrow> \<not> used_bit bm j"
            using "1.prems"(4) free by (auto simp: less_Suc_eq)
          from IH2 free cont "1.prems"(1,3) fr obtain hit first' where
            s: "pool_search bm need purl (Suc bi) (Suc found) True ?f = Some (hit, first')"
            "search_post bm need purl (Suc bi) (Suc found) True ?f hit first'"
            by (cases ff) auto
          have "search_post bm need purl bi found ff first hit first'"
            by (rule search_post_free [OF s(2) free True]) simp
          with s(1) free cont unf True w(1) nff bi show ?thesis by (cases ff) auto
        qed
      qed
    qed
  qed
qed

lemma pool_search_start:
  assumes "purl \<le> 8 * length bm" "0 < need"
  shows "\<exists>hit first'. pool_search bm need purl bi 0 ff first = Some (hit, first') \<and>
           search_post bm need purl bi 0 ff first hit first'"
  by (rule pool_search_correct) (use assms in auto)

section \<open>The pool invariant\<close>

definition pool_blocks :: "pool \<Rightarrow> nat" where
  "pool_blocks p = pool_getBlockIndex_byMemSize (aline p) (psize p)"

definition pool_used :: "pool \<Rightarrow> nat \<Rightarrow> bool" where
  "pool_used p i \<longleftrightarrow> (case bitmap p of None \<Rightarrow> False | Some bm \<Rightarrow> i < 8 * length bm \<and> used_bit bm i)"

text \<open>
  The bitmap covers the pool, no block from \<open>purl_free_block_start\<close> on is used and the one
  before it is, every block before \<open>first_free_block\<close> is used, and the sizes stay below \<open>2 ^ 32\<close>.
\<close>

definition pool_ok :: "pool \<Rightarrow> bool" where
  "pool_ok p \<longleftrightarrow>
     bitmap p \<noteq> None \<and> mem p \<noteq> None \<and> 0 < aline p \<and> psize p = pool_blocks p * aline p \<and>
     psize p < U32 \<and> pool_blocks p + 8 \<le> U32 \<and> pool_blocks p \<le> 8 * length (the (bitmap p)) \<and>
     first_free_block p \<le> purl_free_block_start p \<and> purl_free_block_start p \<le> pool_blocks p \<and>
     (\<forall>i < first_free_block p. pool_used p i) \<and>
     (\<forall>i \<ge> purl_free_block_start p. \<not> pool_used p i) \<and>
     (purl_free_block_start p = 0 \<or> pool_used p (purl_free_block_start p - 1))"

lemma pool_blocks_update [simp]:
  "pool_blocks (p\<lparr>bitmap := b\<rparr>) = pool_blocks p"
  "pool_blocks (p\<lparr>first_free_block := f\<rparr>) = pool_blocks p"
  "pool_blocks (p\<lparr>purl_free_block_start := f\<rparr>) = pool_blocks p"
  by (simp_all add: pool_blocks_def)

lemma pool_used_update [simp]:
  "pool_used (p\<lparr>first_free_block := f\<rparr>) = pool_used p"
  "pool_used (p\<lparr>purl_free_block_start := f\<rparr>) = pool_used p"
  by (simp_all add: pool_used_def fun_eq_iff)

lemma pool_used_bitmap: "bitmap p = Some bm \<Longrightarrow> pool_used p i \<longleftrightarrow> i < 8 * length bm \<and> used_bit bm i"
  by (simp add: pool_used_def)

text \<open>The geometry of a pool, which no operation changes.\<close>

definition same_pool :: "pool \<Rightarrow> pool \<Rightarrow> bool" where
  "same_pool p q \<longleftrightarrow> aline q = aline p \<and> psize q = psize p \<and> mem q = mem p"

lemma same_pool_blocks: "same_pool p q \<Longrightarrow> pool_blocks q = pool_blocks p"
  by (simp add: same_pool_def pool_blocks_def)

lemma u32_block_start:
  assumes "0 < n" "n \<le> Suc r" "r < U32"
  shows "u32_add (u32_sub r n) 1 = Suc r - n"
proof (cases "n \<le> r")
  case True
  with assms show ?thesis by (simp add: u32_sub_small u32_add_def)
next
  case False
  with assms have n: "n = Suc r" by simp
  have "r + (U32 - n mod U32) = U32 - 1 \<or> n = U32" using n assms(3) by (cases "n = U32") auto
  with n assms(3) show ?thesis by (auto simp: u32_sub_def u32_add_def)
qed

lemma pool_take_ok:
  assumes ok: "pool_ok p" and bm: "bitmap p = Some bm" and m: "mem p = Some m"
    and n: "0 < n" "n \<le> Suc r" "r < pool_blocks p"
    and run: "free_run bm (Suc r - n) n"
    and pos: "r < purl_free_block_start p \<or> Suc r - n = purl_free_block_start p"
  shows "\<exists>p'. pool_take p bm n r = Some (p', Some (m + (Suc r - n) * aline p)) \<and> pool_ok p' \<and>
           same_pool p p' \<and>
           (\<forall>i. pool_used p' i \<longleftrightarrow> pool_used p i \<or> Suc r - n \<le> i \<and> i < Suc r)"
proof -
  note okd = ok [unfolded pool_ok_def bm m, simplified]
  have r: "r < 8 * length bm" using n okd by simp
  obtain bm' where bm': "set_down bm r 0 n = Some bm'" "length bm' = length bm"
    "\<And>j. used_bit bm' j \<longleftrightarrow> used_bit bm j \<or> j + n > r \<and> j \<le> r"
    using set_down_eq [of 0 n r bm] n r okd by auto
  let ?purl = "if purl_free_block_start p \<le> r then r + 1 else purl_free_block_start p"
  let ?p = "p\<lparr>bitmap := Some bm', purl_free_block_start := ?purl\<rparr>"
  have used: "pool_used ?p i \<longleftrightarrow> pool_used p i \<or> Suc r - n \<le> i \<and> i < Suc r" for i
  proof -
    have "pool_used ?p i \<longleftrightarrow> i < 8 * length bm \<and> (used_bit bm i \<or> r < i + n \<and> i \<le> r)"
      by (simp add: pool_used_def bm'(2,3))
    moreover have "r < i + n \<longleftrightarrow> Suc r - n \<le> i" by linarith
    ultimately show ?thesis using r by (auto simp: pool_used_bitmap [OF bm])
  qed
  have "(Suc r - n) * aline p < U32"
  proof -
    have "(Suc r - n) * aline p \<le> pool_blocks p * aline p"
      using n by (intro mult_le_mono1) linarith
    then show ?thesis using okd by linarith
  qed
  then have addr: "pool_getBytes_byBlockIndex ?p (u32_add (u32_sub r n) 1)
      = Some (m + (Suc r - n) * aline p)"
    using n okd u32_block_start [of n r]
    by (simp add: pool_getBytes_byBlockIndex_def m u32_mul_small)
  have u1: "\<not> pool_used ?p i" if "?purl \<le> i" for i
    using that okd n(1) unfolding used by (auto split: if_splits)
  have u2: "pool_used ?p (?purl - 1)" if "?purl \<noteq> 0"
    using that okd n(1) unfolding used by (auto split: if_splits)
  have u3: "pool_used ?p i" if "i < first_free_block p" for i
    using that okd unfolding used by blast
  have u4: "first_free_block p \<le> ?purl" "?purl \<le> pool_blocks p"
    using okd n(3) by auto
  have "pool_ok ?p"
    unfolding pool_ok_def using okd bm'(2) u1 u2 u3 u4 by (simp add: m)
  then show ?thesis
    using bm'(1) addr used by (auto simp: pool_take_def Let_def same_pool_def)
qed

section \<open>Allocation and release\<close>

definition need_blocks :: "pool \<Rightarrow> nat \<Rightarrow> nat" where
  "need_blocks p sz = pool_getBlockIndex_byMemSize (aline p) sz"

text \<open>A run of free blocks inside the pool.\<close>

definition pool_run :: "pool \<Rightarrow> nat \<Rightarrow> nat \<Rightarrow> bool" where
  "pool_run p s n \<longleftrightarrow> s + n \<le> pool_blocks p \<and> (\<forall>i. s \<le> i \<and> i < s + n \<longrightarrow> \<not> pool_used p i)"

text \<open>The answer of \<open>pool_malloc\<close> to a request of \<open>n\<close> blocks.\<close>

definition malloc_post :: "pool \<Rightarrow> nat \<Rightarrow> pool \<Rightarrow> nat option \<Rightarrow> bool" where
  "malloc_post p n p' r \<longleftrightarrow>
     pool_ok p' \<and> same_pool p p' \<and>
     (case r of
        Some a \<Rightarrow> \<exists>s. a = the (mem p) + s * aline p \<and> pool_run p s n \<and>
                    (\<forall>i. pool_used p' i \<longleftrightarrow> pool_used p i \<or> s \<le> i \<and> i < s + n)
      | None \<Rightarrow> pool_used p' = pool_used p \<and> (\<forall>s. \<not> pool_run p s n))"

lemma need_blocks_pos: "0 < sz \<Longrightarrow> 0 < need_blocks p sz"
  by (simp add: need_blocks_def pool_getBlockIndex_byMemSize_def)

lemma free_run_pool:
  assumes "bitmap p = Some bm" "s + n \<le> 8 * length bm"
  shows "free_run bm s n \<longleftrightarrow> (\<forall>i. s \<le> i \<and> i < s + n \<longrightarrow> \<not> pool_used p i)"
  using assms by (auto simp: free_run_def pool_used_def)

lemma pool_take_post:
  assumes ok: "pool_ok p" and q: "q = p\<lparr>first_free_block := f\<rparr>" and okq: "pool_ok q"
    and bm: "bitmap p = Some bm" and m: "mem p = Some m"
    and n: "0 < n" "n \<le> Suc r" "r < pool_blocks p"
    and run: "free_run bm (Suc r - n) n"
    and pos: "r < purl_free_block_start p \<or> Suc r - n = purl_free_block_start p"
  shows "\<exists>p' a. pool_take q bm n r = Some (p', a) \<and> malloc_post p n p' a"
proof -
  obtain p' where p': "pool_take q bm n r = Some (p', Some (m + (Suc r - n) * aline q))"
    "pool_ok p'" "same_pool q p'"
    "\<forall>i. pool_used p' i \<longleftrightarrow> pool_used q i \<or> Suc r - n \<le> i \<and> i < Suc r"
    using pool_take_ok [OF okq, of bm m n r] q bm m n run pos by auto
  have len: "pool_blocks p \<le> 8 * length bm" using ok bm by (simp add: pool_ok_def)
  have "pool_run p (Suc r - n) n"
    using run free_run_pool [OF bm, of "Suc r - n" n] n len by (simp add: pool_run_def)
  with p' m n q show ?thesis by (auto simp: malloc_post_def same_pool_def)
qed

lemma high_eq:
  assumes "0 < n" "a + n < U32"
  shows "u32_sub (u32_add a n) 1 = a + n - 1"
  using assms by (simp add: u32_add_small u32_sub_small)

lemma no_run_iff:
  assumes ok: "pool_ok p" and bm: "bitmap p = Some bm" and n: "0 < n"
    and full: "pool_blocks p < purl_free_block_start p + n"
    and miss: "\<forall>s. first_free_block p \<le> s \<longrightarrow> s + n \<le> purl_free_block_start p \<longrightarrow> \<not> free_run bm s n"
  shows "\<not> pool_run p s n"
proof
  assume run: "pool_run p s n"
  note okd = ok [unfolded pool_ok_def bm, simplified]
  have sn: "s + n \<le> 8 * length bm" using run okd by (simp add: pool_run_def)
  have fr: "free_run bm s n"
    using run free_run_pool [OF bm sn] by (simp add: pool_run_def)
  have nu: "\<not> pool_used p i" if "s \<le> i" "i < s + n" for i
    using run that by (simp add: pool_run_def)
  show False
  proof (cases "s + n \<le> purl_free_block_start p")
    case True
    then have "s < first_free_block p" using miss fr by (meson not_le)
    then show False using okd nu [of s] n by auto
  next
    case False
    have "s < purl_free_block_start p" using run full by (simp add: pool_run_def)
    with False have "s \<le> purl_free_block_start p - 1" "purl_free_block_start p - 1 < s + n"
      "purl_free_block_start p \<noteq> 0" by linarith+
    then show False using okd nu [of "purl_free_block_start p - 1"] by auto
  qed
qed

lemma pool_ok_first:
  assumes "pool_ok p" "f \<le> purl_free_block_start p" "\<And>i. i < f \<Longrightarrow> pool_used p i"
  shows "pool_ok (p\<lparr>first_free_block := f\<rparr>)"
  using assms by (simp add: pool_ok_def)

lemma pool_malloc_low:
  assumes ok: "pool_ok p" and bm: "bitmap p = Some bm" and m: "mem p = Some m" and n: "0 < n"
    and full: "pool_blocks p < purl_free_block_start p + n"
    and s: "pool_search bm n (purl_free_block_start p) (first_free_block p) 0 False
              (first_free_block p) = Some (hit, first)"
  shows "\<exists>p' a. (case hit of
             Some r \<Rightarrow> pool_take (p\<lparr>first_free_block := first\<rparr>) bm n r
           | None \<Rightarrow> Some (p\<lparr>first_free_block := first\<rparr>, None)) = Some (p', a) \<and>
           malloc_post p n p' a"
proof -
  let ?q = "p\<lparr>first_free_block := first\<rparr>"
  note okd = ok [unfolded pool_ok_def bm, simplified]
  have "purl_free_block_start p \<le> 8 * length bm" using okd by linarith
  then have post: "search_post bm n (purl_free_block_start p) (first_free_block p) 0 False
      (first_free_block p) hit first"
    using pool_search_start [OF _ n, of "purl_free_block_start p" bm "first_free_block p" False
        "first_free_block p"] s by auto
  then have f: "first \<le> purl_free_block_start p" "\<And>i. i < first \<Longrightarrow> pool_used p i"
    using okd by (auto simp: search_post_def pool_used_bitmap [OF bm]) (meson not_le)+
  have okq: "pool_ok ?q" using pool_ok_first [OF ok f] .
  show ?thesis
  proof (cases hit)
    case None
    have "\<not> pool_run p s n" for s
      using no_run_iff [OF ok bm n full] post None by (simp add: search_post_def)
    with okq None show ?thesis by (simp add: malloc_post_def same_pool_def)
  next
    case (Some r)
    with post have r: "r < purl_free_block_start p" "n \<le> Suc r" "free_run bm (Suc r - n) n"
      by (simp_all add: search_post_def)
    then show ?thesis
      using pool_take_post [OF ok refl okq bm m n r(2) _ r(3)] Some okd by auto
  qed
qed

lemma pool_malloc_spec:
  assumes ok: "pool_ok p" and sz: "0 < sz"
    and fits: "pool_blocks p + need_blocks p sz < U32"
  shows "\<exists>p' r. pool_malloc p sz = Some (p', r) \<and> malloc_post p (need_blocks p sz) p' r"
proof -
  let ?n = "need_blocks p sz" and ?purl = "purl_free_block_start p"
  obtain bm m where bm: "bitmap p = Some bm" and m: "mem p = Some m"
    using ok by (auto simp: pool_ok_def)
  note okd = ok [unfolded pool_ok_def bm, simplified]
  have n: "0 < ?n" using need_blocks_pos [OF sz] .
  have high: "u32_sub (u32_add ?purl ?n) 1 = ?purl + ?n - 1"
    using okd fits n by (intro high_eq) linarith+
  have "need_blocks p (psize p) = pool_blocks p" by (simp add: need_blocks_def pool_blocks_def)
  note unf = pool_malloc_def [of p sz, folded need_blocks_def, unfolded this Let_def high bm]
  show ?thesis
  proof (cases "?purl + ?n - 1 < pool_blocks p")
    case True
    have "\<not> pool_used p i" if "?purl \<le> i" for i using okd that by blast
    moreover have "?purl + ?n \<le> 8 * length bm" using True okd by linarith
    ultimately have "free_run bm ?purl ?n" using free_run_pool [OF bm] by blast
    then have "free_run bm (Suc (?purl + ?n - 1) - ?n) ?n" using n by simp
    from pool_take_post [OF ok, of p "first_free_block p", OF _ ok bm m n _ True this] n True unf
    show ?thesis by simp
  next
    case False
    have p8: "?purl \<le> 8 * length bm" using okd by linarith
    obtain hit first where "pool_search bm ?n ?purl (first_free_block p) 0 False
        (first_free_block p) = Some (hit, first)"
      using pool_search_start [OF p8 n] by blast
    with pool_malloc_low [OF ok bm m n _ this] False unf n show ?thesis
      by (cases hit) auto
  qed
qed

text \<open>Block addresses and sizes are turned back into block indices exactly.\<close>

lemma block_index_mult:
  assumes "0 < al"
  shows "pool_getBlockIndex_byMemSize al (s * al) = s"
proof (cases s)
  case 0
  then show ?thesis by (simp add: pool_getBlockIndex_byMemSize_def)
next
  case (Suc k)
  have "(al + k * al - 1) div al = k"
    using assms by (intro div_nat_eqI) (simp_all add: mult.commute)
  with Suc assms show ?thesis by (simp add: pool_getBlockIndex_byMemSize_def)
qed

lemma pool_free_spec:
  assumes ok: "pool_ok p" and sz: "0 < sz" and run: "s + need_blocks p sz \<le> pool_blocks p"
    and live: "\<And>i. s \<le> i \<Longrightarrow> i < s + need_blocks p sz \<Longrightarrow> pool_used p i"
  shows "\<exists>p'. pool_free p (the (mem p) + s * aline p) sz = Some p' \<and> pool_ok p' \<and> same_pool p p' \<and>
           (\<forall>i. pool_used p' i \<longleftrightarrow> pool_used p i \<and> \<not> (s \<le> i \<and> i < s + need_blocks p sz))"
proof -
  let ?n = "need_blocks p sz" and ?purl = "purl_free_block_start p"
  obtain bm m where bm: "bitmap p = Some bm" and m: "mem p = Some m"
    using ok by (auto simp: pool_ok_def)
  note okd = ok [unfolded pool_ok_def bm, simplified]
  have n: "0 < ?n" using need_blocks_pos [OF sz] .
  have "s * aline p \<le> pool_blocks p * aline p" using run by (intro mult_le_mono1) linarith
  then have "s * aline p < U32" using okd by linarith
  then have idx: "pool_getBlockIndex_byMem p (m + s * aline p) = Some s"
    using okd by (simp add: pool_getBlockIndex_byMem_def m u32_sub_add block_index_mult)
  obtain bm' where bm': "clear_up bm s 0 ?n = Some bm'" "length bm' = length bm"
    "\<And>j. used_bit bm' j \<longleftrightarrow> used_bit bm j \<and> \<not> (s \<le> j \<and> j < s + ?n)"
    using clear_up_eq [of s 0 ?n bm] run okd by auto
  have "pool_used p (s + ?n - 1)" using n by (intro live) linarith+
  then have "s + ?n - 1 < ?purl" using okd by (meson not_le)
  then have lt: "s + ?n \<le> ?purl" by linarith
  let ?f = "if s < first_free_block p then s else first_free_block p"
  define p1 where "p1 = p\<lparr>bitmap := Some bm', first_free_block := ?f\<rparr>"
  have used: "pool_used p1 i \<longleftrightarrow> pool_used p i \<and> \<not> (s \<le> i \<and> i < s + ?n)" for i
    by (simp add: p1_def pool_used_def bm bm'(2,3))
  have ends: "u32_sub (u32_add s ?n) 1 = s + ?n - 1" "u32_sub ?purl 1 = ?purl - 1"
    using n lt okd by (intro high_eq u32_sub_small; linarith)+
  have iff: "u32_sub (u32_add s ?n) 1 = u32_sub ?purl 1 \<longleftrightarrow> s + ?n = ?purl"
    using ends n lt by linarith
  have eq: "pool_free p (m + s * aline p) sz =
      (if s + ?n = ?purl
       then do { start \<leftarrow> walk_back bm' s; Some (p1\<lparr>purl_free_block_start := start\<rparr>) } else Some p1)"
    using iff by (simp add: pool_free_def bm idx bm'(1) p1_def need_blocks_def [symmetric] Let_def)
  have fu: "pool_used p1 i" if "i < ?f" for i
    using that okd unfolding used by (auto split: if_splits)
  have fields: "bitmap p1 = Some bm'" "mem p1 = mem p" "aline p1 = aline p" "psize p1 = psize p"
    "first_free_block p1 = ?f" "purl_free_block_start p1 = ?purl" "pool_blocks p1 = pool_blocks p"
    by (simp_all add: p1_def)
  have ok': "pool_ok (p1\<lparr>purl_free_block_start := start\<rparr>)"
    if st: "start \<le> ?purl" "\<And>i. start \<le> i \<Longrightarrow> \<not> pool_used p1 i"
      "start = 0 \<or> pool_used p1 (start - 1)" for start
  proof -
    have "?f \<le> start" using st(2) [of start] fu [of start] by (meson le_refl not_le)
    then show ?thesis
      unfolding pool_ok_def using okd st fu bm'(2) by (simp add: fields m)
  qed
  show ?thesis
  proof (cases "s + ?n = ?purl")
    case True
    obtain start where st: "walk_back bm' s = Some start" "start \<le> s"
      "\<And>j. start \<le> j \<Longrightarrow> j < s \<Longrightarrow> \<not> used_bit bm' j" "start = 0 \<or> used_bit bm' (start - 1)"
      using walk_back_eq [of s bm'] lt okd bm'(2) by (auto simp: True)
    have "\<not> pool_used p1 i" if "start \<le> i" for i
    proof (cases "i < s")
      case True
      with st(3) that show ?thesis by (simp add: pool_used_bitmap [OF fields(1)])
    next
      case False
      have "\<not> pool_used p i" if "\<not> i < s + ?n"
        using okd that unfolding True by simp
      with False show ?thesis unfolding used by auto
    qed
    moreover have "start = 0 \<or> pool_used p1 (start - 1)"
      using st(2,4) lt okd bm'(2) by (auto simp: pool_used_bitmap [OF fields(1)])
    ultimately have "pool_ok (p1\<lparr>purl_free_block_start := start\<rparr>)"
      using st(2) lt by (intro ok') linarith+
    with st(1) used True show ?thesis by (auto simp: eq m same_pool_def fields)
  next
    case False
    have "pool_ok (p1\<lparr>purl_free_block_start := ?purl\<rparr>)"
      using okd False lt by (intro ok') (auto simp: used)
    moreover have "p1\<lparr>purl_free_block_start := ?purl\<rparr> = p1" by (simp add: p1_def)
    ultimately show ?thesis using used False by (simp add: eq m same_pool_def fields)
  qed
qed

lemma pool_init_ok:
  assumes "0 < al" "0 < sz" "sz < U32 - al" "sz div al + 9 \<le> U32"
  shows "pool_ok (pool_init sz al True (Some m)) \<and> (\<forall>i. \<not> pool_used (pool_init sz al True (Some m)) i)"
proof -
  let ?k = "(sz - 1) div al + 1"
  have kal: "?k * al < U32"
  proof -
    have "(sz - 1) div al * al \<le> sz - 1" by (rule div_times_less_eq_dividend)
    moreover have "?k * al = (sz - 1) div al * al + al" by (simp add: add_mult_distrib)
    ultimately show ?thesis using assms(2,3) by linarith
  qed
  have k: "pool_getBlockIndex_byMemSize al sz = ?k" "pool_aline al sz = ?k * al"
    using assms kal by (simp_all add: pool_aline_def pool_getBlockIndex_byMemSize_def u32_mul_small)
  have "(sz - 1) div al \<le> sz div al" by (simp add: div_le_mono)
  then have k8: "?k + 8 \<le> U32" using assms(4) by linarith
  have bits: "\<not> used_bit (replicate n 0) i" if "i < 8 * n" for n i
    using that by (simp add: used_bit_def div8_less)
  have "bitmap_bytes ?k = (?k - 1) div 8 + 1"
    using k8 by (simp add: bitmap_bytes_def u32_sub_small u32_add_small)
  moreover have "?k \<le> 8 * ((?k - 1) div 8 + 1)"
    using dividend_less_times_div [of 8 "?k - 1"] by simp
  ultimately have cover: "?k \<le> 8 * bitmap_bytes ?k" by simp
  have blocks: "pool_blocks (pool_init sz al True (Some m)) = ?k"
    using block_index_mult [OF assms(1), of ?k]
    by (simp add: pool_blocks_def pool_init_def k del: mult_Suc)
  show ?thesis
    unfolding pool_ok_def blocks using assms(1) kal k8 cover bits
    by (simp add: pool_init_def k bitmap_init_def pool_used_def Let_def)
qed

section \<open>The allocator contract\<close>

text \<open>
  What a client of \<open>pika_user_malloc\<close> relies on: a state that is \<open>ok\<close>, the units \<open>inuse\<close>, the
  units \<open>span\<close> that an allocation covers. An allocation covers only units that were free, a
  release gives back exactly its units.
\<close>

locale block_allocator =
  fixes ok :: "'s \<Rightarrow> bool"
    and geo :: "'s \<Rightarrow> 'g"
    and inuse :: "'s \<Rightarrow> nat \<Rightarrow> bool"
    and span :: "'g \<Rightarrow> nat \<Rightarrow> nat \<Rightarrow> nat set"
    and request :: "'g \<Rightarrow> nat \<Rightarrow> bool"
    and handle :: "'g \<Rightarrow> nat \<Rightarrow> nat \<Rightarrow> bool"
    and malloc :: "'s \<Rightarrow> nat \<Rightarrow> ('s \<times> nat option) option"
    and free :: "'s \<Rightarrow> nat \<Rightarrow> nat \<Rightarrow> 's option"
  assumes malloc_total: "ok s \<Longrightarrow> request (geo s) n \<Longrightarrow> malloc s n \<noteq> None"
    and malloc_some: "ok s \<Longrightarrow> request (geo s) n \<Longrightarrow> malloc s n = Some (s', Some a) \<Longrightarrow>
      ok s' \<and> geo s' = geo s \<and> handle (geo s) a n \<and> (\<forall>i \<in> span (geo s) a n. \<not> inuse s i) \<and>
      (\<forall>i. inuse s' i \<longleftrightarrow> inuse s i \<or> i \<in> span (geo s) a n)"
    and malloc_none: "ok s \<Longrightarrow> request (geo s) n \<Longrightarrow> malloc s n = Some (s', None) \<Longrightarrow>
      ok s' \<and> geo s' = geo s \<and> inuse s' = inuse s"
    and free_some: "ok s \<Longrightarrow> request (geo s) n \<Longrightarrow> handle (geo s) a n \<Longrightarrow>
      (\<forall>i \<in> span (geo s) a n. inuse s i) \<Longrightarrow>
      \<exists>s'. free s a n = Some s' \<and> ok s' \<and> geo s' = geo s \<and>
        (\<forall>i. inuse s' i \<longleftrightarrow> inuse s i \<and> i \<notin> span (geo s) a n)"
begin

text \<open>The live allocations are disjoint and cover exactly the units in use.\<close>

definition live_ok :: "'s \<Rightarrow> (nat \<times> nat) list \<Rightarrow> bool" where
  "live_ok s L \<longleftrightarrow> ok s \<and> (\<forall>(a, n) \<in> set L. request (geo s) n \<and> handle (geo s) a n) \<and>
     disj_list (map (\<lambda>(a, n). span (geo s) a n) L) \<and>
     (\<forall>i. inuse s i \<longleftrightarrow> (\<exists>(a, n) \<in> set L. i \<in> span (geo s) a n))"

lemma live_ok_malloc:
  assumes "live_ok s L" "request (geo s) n" "malloc s n = Some (s', Some a)"
  shows "live_ok s' ((a, n) # L)"
proof -
  have ok: "ok s" using assms(1) by (simp add: live_ok_def)
  note post = malloc_some [OF ok assms(2,3)]
  have "span (geo s) a n \<inter> span (geo s) b k = {}" if "(b, k) \<in> set L" for b k
    using post assms(1) that unfolding live_ok_def by blast
  with post assms show ?thesis by (auto simp: live_ok_def)
qed

lemma live_ok_malloc_none:
  "live_ok s L \<Longrightarrow> request (geo s) n \<Longrightarrow> malloc s n = Some (s', None) \<Longrightarrow> live_ok s' L"
  using malloc_none [of s n s'] by (auto simp: live_ok_def)

lemma live_ok_free:
  assumes "live_ok s (us @ (a, n) # vs)"
  shows "\<exists>s'. free s a n = Some s' \<and> live_ok s' (us @ vs)"
proof -
  let ?sp = "\<lambda>(a, n). span (geo s) a n"
  have ok: "ok s" and rq: "request (geo s) n" "handle (geo s) a n"
    and all: "\<forall>i \<in> span (geo s) a n. inuse s i"
    using assms by (auto simp: live_ok_def)
  obtain s' where s': "free s a n = Some s'" "ok s'" "geo s' = geo s"
    "\<And>i. inuse s' i \<longleftrightarrow> inuse s i \<and> i \<notin> span (geo s) a n"
    using free_some [OF ok rq all] by blast
  have dj: "disj_list (map ?sp us @ map ?sp vs)"
    "\<And>b k. (b, k) \<in> set (us @ vs) \<Longrightarrow> span (geo s) a n \<inter> span (geo s) b k = {}"
    using assms by (auto simp: live_ok_def disj_list_insert)
  have "inuse s' i \<longleftrightarrow> (\<exists>(b, k) \<in> set (us @ vs). i \<in> span (geo s) b k)" for i
    using assms dj(2) unfolding s'(4) live_ok_def by fastforce
  with s' dj(1) assms show ?thesis by (auto simp: live_ok_def)
qed

end

text \<open>The pool keeps that contract; its geometry is its memory, block size and size.\<close>

type_synonym pool_geo = "nat option \<times> nat \<times> nat"

definition pool_geo :: "pool \<Rightarrow> pool_geo" where
  "pool_geo p = (mem p, aline p, psize p)"

fun pool_span :: "pool_geo \<Rightarrow> nat \<Rightarrow> nat \<Rightarrow> nat set" where
  "pool_span (m, al, ps) a n =
     {(a - the m) div al ..< (a - the m) div al + pool_getBlockIndex_byMemSize al n}"

fun pool_request :: "pool_geo \<Rightarrow> nat \<Rightarrow> bool" where
  "pool_request (m, al, ps) n \<longleftrightarrow>
     0 < n \<and> pool_getBlockIndex_byMemSize al ps + pool_getBlockIndex_byMemSize al n < U32"

fun pool_handle :: "pool_geo \<Rightarrow> nat \<Rightarrow> nat \<Rightarrow> bool" where
  "pool_handle (m, al, ps) a n \<longleftrightarrow>
     (\<exists>s. a = the m + s * al \<and>
        s + pool_getBlockIndex_byMemSize al n \<le> pool_getBlockIndex_byMemSize al ps)"

lemma pool_geo_simps:
  "pool_request (pool_geo p) n \<longleftrightarrow> 0 < n \<and> pool_blocks p + need_blocks p n < U32"
  "pool_handle (pool_geo p) a n \<longleftrightarrow>
     (\<exists>s. a = the (mem p) + s * aline p \<and> s + need_blocks p n \<le> pool_blocks p)"
  "0 < aline p \<Longrightarrow> pool_span (pool_geo p) (the (mem p) + s * aline p) n = {s ..< s + need_blocks p n}"
  "pool_geo p = pool_geo q \<longleftrightarrow> same_pool p q"
  by (auto simp: pool_geo_def pool_blocks_def need_blocks_def same_pool_def)

interpretation pool_alloc: block_allocator pool_ok pool_geo pool_used pool_span pool_request
  pool_handle pool_malloc pool_free
proof (unfold_locales, goal_cases)
  case (1 p n)
  then show ?case using pool_malloc_spec [of p n] by (auto simp: pool_geo_simps)
next
  case (2 p n p' a)
  then have post: "malloc_post p (need_blocks p n) p' (Some a)" and al: "0 < aline p"
    using pool_malloc_spec [of p n] by (auto simp: pool_geo_simps pool_ok_def)
  then obtain s where "a = the (mem p) + s * aline p" "pool_run p s (need_blocks p n)"
    "\<forall>i. pool_used p' i \<longleftrightarrow> pool_used p i \<or> s \<le> i \<and> i < s + need_blocks p n"
    by (auto simp: malloc_post_def)
  with post al pool_geo_simps(4) [of p' p] show ?case
    by (auto simp: malloc_post_def pool_geo_simps(2,3) pool_run_def same_pool_def)
next
  case (3 p n p')
  then show ?case
    using pool_malloc_spec [of p n] pool_geo_simps(4) [of p' p]
    by (auto simp: pool_geo_simps(1) malloc_post_def same_pool_def)
next
  case (4 p n a)
  then obtain s where s: "a = the (mem p) + s * aline p" "s + need_blocks p n \<le> pool_blocks p"
    by (auto simp: pool_geo_simps)
  have al: "0 < aline p" using 4(1) by (simp add: pool_ok_def)
  obtain p' where p': "pool_free p a n = Some p'" "pool_ok p'" "same_pool p p'"
    "\<And>i. pool_used p' i \<longleftrightarrow> pool_used p i \<and> \<not> (s \<le> i \<and> i < s + need_blocks p n)"
    using pool_free_spec [of p n s] 4 s al by (auto simp: pool_geo_simps)
  from p'(3) have "pool_geo p' = pool_geo p" by (simp add: pool_geo_def same_pool_def)
  with p' s(1) al show ?case by (auto simp: pool_geo_simps(3))
qed

section \<open>Every history of the pool\<close>

text \<open>
  The states a program reaches from a fresh pool by any sequence of allocations and releases of
  what it holds, with the list of the (address, size) pairs it holds.
\<close>

inductive pool_reach :: "pool \<Rightarrow> pool \<Rightarrow> (nat \<times> nat) list \<Rightarrow> bool" for p0 where
  start: "pool_reach p0 p0 []"
| alloc: "pool_reach p0 p L \<Longrightarrow> 0 < n \<Longrightarrow> pool_blocks p + need_blocks p n < U32 \<Longrightarrow>
    pool_malloc p n = Some (p', Some a) \<Longrightarrow> pool_reach p0 p' ((a, n) # L)"
| full: "pool_reach p0 p L \<Longrightarrow> 0 < n \<Longrightarrow> pool_blocks p + need_blocks p n < U32 \<Longrightarrow>
    pool_malloc p n = Some (p', None) \<Longrightarrow> pool_reach p0 p' L"
| release: "pool_reach p0 p (us @ (a, n) # vs) \<Longrightarrow> pool_free p a n = Some p' \<Longrightarrow>
    pool_reach p0 p' (us @ vs)"

lemma pool_reach_live:
  assumes "pool_reach p0 p L" "pool_ok p0" "\<And>i. \<not> pool_used p0 i"
  shows "pool_alloc.live_ok p L \<and> pool_geo p = pool_geo p0"
  using assms
proof (induction rule: pool_reach.induct)
  case start
  then show ?case by (simp add: pool_alloc.live_ok_def)
next
  case (alloc p L n p' a)
  have rq: "pool_request (pool_geo p) n" using alloc(2,3) by (simp add: pool_geo_simps(1))
  have live: "pool_alloc.live_ok p L" using alloc by blast
  then have ok: "pool_ok p" by (simp add: pool_alloc.live_ok_def)
  from pool_alloc.live_ok_malloc [OF live rq alloc(4)] pool_alloc.malloc_some [OF ok rq alloc(4)]
    alloc show ?case by simp
next
  case (full p L n p')
  have rq: "pool_request (pool_geo p) n" using full(2,3) by (simp add: pool_geo_simps(1))
  have live: "pool_alloc.live_ok p L" using full by blast
  then have ok: "pool_ok p" by (simp add: pool_alloc.live_ok_def)
  from pool_alloc.live_ok_malloc_none [OF live rq full(4)] pool_alloc.malloc_none [OF ok rq full(4)]
    full show ?case by simp
next
  case (release p us a n vs p')
  then have live: "pool_alloc.live_ok p (us @ (a, n) # vs)" by auto
  then have "pool_ok p" "pool_request (pool_geo p) n" "pool_handle (pool_geo p) a n"
    "\<forall>i \<in> pool_span (pool_geo p) a n. pool_used p i"
    by (auto simp: pool_alloc.live_ok_def)
  from pool_alloc.free_some [OF this] pool_alloc.live_ok_free [OF live] release
  show ?case by auto
qed

text \<open>The bytes of an allocation lie in its blocks.\<close>

lemma bytes_in_blocks:
  assumes "0 < al" "x < n"
  shows "x div al < pool_getBlockIndex_byMemSize al n"
proof -
  have "x div al \<le> (n - 1) div al" using assms by (intro div_le_mono) simp
  with assms show ?thesis by (simp add: pool_getBlockIndex_byMemSize_def)
qed

lemma byte_in_span:
  assumes "0 < aline p" "a = the (mem p) + s * aline p" "a \<le> x" "x < a + n"
  shows "(x - the (mem p)) div aline p \<in> pool_span (pool_geo p) a n"
proof -
  let ?d = "(x - a) div aline p"
  have "(x - the (mem p)) div aline p = s + ?d"
  proof -
    have "x - the (mem p) = s * aline p + (x - a)" using assms(2,3) by simp
    then show ?thesis using assms(1) by simp
  qed
  moreover have "?d < need_blocks p n"
    unfolding need_blocks_def using assms by (intro bytes_in_blocks) auto
  ultimately show ?thesis using assms(1,2) by (simp add: pool_geo_simps(3))
qed

lemma live_bytes_disjoint:
  assumes ok: "pool_ok p" and h: "pool_handle (pool_geo p) a n" "pool_handle (pool_geo p) b k"
    and dj: "pool_span (pool_geo p) a n \<inter> pool_span (pool_geo p) b k = {}"
  shows "{a ..< a + n} \<inter> {b ..< b + k} = {}"
proof -
  have al: "0 < aline p" using ok by (simp add: pool_ok_def)
  obtain s t where st: "a = the (mem p) + s * aline p" "b = the (mem p) + t * aline p"
    using h by (auto simp: pool_geo_simps)
  have False if "a \<le> x" "x < a + n" "b \<le> x" "x < b + k" for x
    using byte_in_span [OF al st(1), of x n] byte_in_span [OF al st(2), of x k] that dj by blast
  then show ?thesis by fastforce
qed

lemma live_bytes_inside:
  assumes ok: "pool_ok p" and h: "pool_handle (pool_geo p) a n" and n: "0 < n"
  shows "the (mem p) \<le> a \<and> a + n \<le> the (mem p) + psize p"
proof -
  have al: "0 < aline p" and ps: "psize p = pool_blocks p * aline p"
    using ok by (simp_all add: pool_ok_def)
  obtain s where s: "a = the (mem p) + s * aline p" "s + need_blocks p n \<le> pool_blocks p"
    using h by (auto simp: pool_geo_simps)
  have "n - 1 < ((n - 1) div aline p + 1) * aline p"
    using dividend_less_times_div [OF al, of "n - 1"] by (simp add: mult.commute)
  then have "n \<le> need_blocks p n * aline p"
    using n by (simp add: need_blocks_def pool_getBlockIndex_byMemSize_def)
  moreover have "s * aline p + need_blocks p n * aline p \<le> psize p"
    unfolding ps using s(2) by (metis add_mult_distrib mult_le_mono1)
  ultimately show ?thesis using s(1) by linarith
qed

lemma mem_align_small: "sz + 4 < U32 \<Longrightarrow> mem_align sz = 4 * ((sz + 3) div 4)"
  by (simp add: mem_align_def u32_add_small u32_sub_small)

section \<open>Properties\<close>

text \<open>C6: on a well-formed pool \<open>pool_malloc\<close> always returns; an address it returns is the start of
  a run of free blocks inside the pool that is long enough, exactly those blocks become used and
  the pool stays well-formed; it answers the null pointer only when the pool has no such run.\<close>

theorem pool_malloc_correct:
  assumes "pool_ok p" "0 < sz" "pool_blocks p + need_blocks p sz < U32"
  shows "\<exists>p' r. pool_malloc p sz = Some (p', r) \<and> pool_ok p' \<and> same_pool p p' \<and>
    (case r of
       Some a \<Rightarrow> \<exists>s. a = the (mem p) + s * aline p \<and> pool_run p s (need_blocks p sz) \<and>
         (\<forall>i. pool_used p' i \<longleftrightarrow> pool_used p i \<or> s \<le> i \<and> i < s + need_blocks p sz)
     | None \<Rightarrow> pool_used p' = pool_used p \<and> (\<nexists>s. pool_run p s (need_blocks p sz)))"
  using pool_malloc_spec [OF assms] by (auto simp: malloc_post_def split: option.splits)

definition demo_pool :: pool where
  "demo_pool = pool_init 64 8 True (Some 4096)"

lemma demo_pool_ok: "pool_ok demo_pool" "\<And>i. \<not> pool_used demo_pool i"
  using pool_init_ok [of 8 64 4096] by (simp_all add: demo_pool_def U32_def)

lemma demo_pool_simps:
  "demo_pool = \<lparr> bitmap = Some [0], mem = Some 4096, aline = 8, psize = 64, first_free_block = 0,
     purl_free_block_start = 0, inited = True \<rparr>"
  by (simp add: demo_pool_def pool_init_def pool_getBlockIndex_byMemSize_def pool_aline_def
      bitmap_init_def bitmap_bytes_def u32_mul_def u32_add_def u32_sub_def U32_def)

lemma set_down_numeral:
  "set_down bm r i (numeral k) =
     do { bm' \<leftarrow> bitmap_set bm (u32_sub r i) True; set_down bm' r (Suc i) (pred_numeral k) }"
  by (simp add: numeral_eq_Suc)

lemmas pool_eval = pool_malloc_def set_down_numeral pool_blocks_def pool_take_def pool_getBlockIndex_byMemSize_def need_blocks_def
  pool_getBytes_byBlockIndex_def bitmap_set_def rd_def wr_def Let_def
  u32_mul_def u32_add_def u32_sub_def U32_def

theorem pool_malloc_correct_witness:
  "\<exists>p' r. pool_malloc demo_pool 20 = Some (p', r) \<and> pool_ok p' \<and> same_pool demo_pool p' \<and>
    (case r of
       Some a \<Rightarrow> \<exists>s. a = the (mem demo_pool) + s * aline demo_pool \<and>
         pool_run demo_pool s (need_blocks demo_pool 20) \<and>
         (\<forall>i. pool_used p' i \<longleftrightarrow> pool_used demo_pool i \<or> s \<le> i \<and> i < s + need_blocks demo_pool 20)
     | None \<Rightarrow> pool_used p' = pool_used demo_pool \<and>
         (\<nexists>s. pool_run demo_pool s (need_blocks demo_pool 20)))"
  by (rule pool_malloc_correct [OF demo_pool_ok(1)])
    (simp_all add: pool_eval demo_pool_simps)

text \<open>C5: after any sequence of allocations and releases on a fresh pool, what the program holds
  lies inside the pool, any two live allocations have no byte in common, and every live allocation
  can be released (no access of \<open>pool_free\<close> leaves the bitmap).\<close>

theorem pool_history_safe:
  assumes "pool_reach (pool_init sz al True (Some m)) p L"
    and "0 < al" "0 < sz" "sz < U32 - al" "sz div al + 9 \<le> U32"
  shows "(\<forall>(a, n) \<in> set L. m \<le> a \<and> a + n \<le> m + pool_aline al sz \<and> pool_free p a n \<noteq> None) \<and>
    (\<forall>i j. i < length L \<longrightarrow> j < length L \<longrightarrow> i \<noteq> j \<longrightarrow>
       {fst (L ! i) ..< fst (L ! i) + snd (L ! i)} \<inter> {fst (L ! j) ..< fst (L ! j) + snd (L ! j)} = {})"
proof -
  let ?p0 = "pool_init sz al True (Some m)"
  have live: "pool_alloc.live_ok p L" and geo: "pool_geo p = pool_geo ?p0"
    using pool_reach_live [OF assms(1)] pool_init_ok [OF assms(2-5)] by auto
  have pg: "the (mem p) = m" "psize p = pool_aline al sz"
    using geo by (simp_all add: pool_geo_def pool_init_def Let_def)
  have ok: "pool_ok p" and all: "\<And>a n. (a, n) \<in> set L \<Longrightarrow> pool_request (pool_geo p) n \<and> pool_handle (pool_geo p) a n"
    and dj: "disj_list (map (\<lambda>(a, n). pool_span (pool_geo p) a n) L)"
    using live by (auto simp: pool_alloc.live_ok_def)
  have "m \<le> a \<and> a + n \<le> m + pool_aline al sz \<and> pool_free p a n \<noteq> None" if an: "(a, n) \<in> set L" for a n
  proof -
    obtain us vs where "L = us @ (a, n) # vs" using split_list [OF an] by blast
    then show ?thesis
      using live_bytes_inside [OF ok, of a n] all [OF an] pool_alloc.live_ok_free [of p us a n vs] live
      by (auto simp: pg pool_geo_simps(1))
  qed
  moreover have "{fst (L ! i) ..< fst (L ! i) + snd (L ! i)} \<inter> {fst (L ! j) ..< fst (L ! j) + snd (L ! j)} = {}"
    if "i < length L" "j < length L" "i \<noteq> j" for i j
  proof -
    have "(fst (L ! i), snd (L ! i)) \<in> set L" "(fst (L ! j), snd (L ! j)) \<in> set L"
      using that by simp_all
    then show ?thesis
      using disj_list_nth [OF dj, of i j] that all
      by (intro live_bytes_disjoint [OF ok]) (auto simp: case_prod_beta)
  qed
  ultimately show ?thesis by auto
qed

definition demo_pool2 :: pool where
  "demo_pool2 = demo_pool\<lparr> bitmap := Some [31], purl_free_block_start := 5 \<rparr>"

lemma demo_reach: "pool_reach demo_pool demo_pool2 [(4120, 9), (4096, 20)]"
proof -
  let ?p1 = "demo_pool\<lparr> bitmap := Some [7], purl_free_block_start := 3 \<rparr>"
  have "pool_malloc demo_pool 20 = Some (?p1, Some 4096)"
    by (simp add: pool_eval demo_pool_simps)
  then have r1: "pool_reach demo_pool ?p1 [(4096, 20)]"
    by (rule pool_reach.alloc [OF pool_reach.start, rotated 2])
      (simp_all add: pool_eval demo_pool_simps)
  have "pool_malloc ?p1 9 = Some (demo_pool2, Some 4120)"
    by (simp add: pool_eval demo_pool_simps demo_pool2_def)
  then show ?thesis
    by (rule pool_reach.alloc [OF r1, rotated 2]) (simp_all add: pool_eval demo_pool_simps)
qed

theorem pool_history_safe_witness:
  "{4120 ..< 4129} \<inter> {4096 ..< 4116 :: nat} = {} \<and>
   pool_free demo_pool2 4096 20 \<noteq> None"
proof -
  let ?L = "[(4120, 9), (4096, 20)] :: (nat \<times> nat) list"
  have h: "(\<forall>(a, n) \<in> set ?L. 4096 \<le> a \<and> a + n \<le> 4096 + pool_aline 8 64 \<and> pool_free demo_pool2 a n \<noteq> None) \<and>
    (\<forall>i j. i < length ?L \<longrightarrow> j < length ?L \<longrightarrow> i \<noteq> j \<longrightarrow>
      {fst (?L ! i) ..< fst (?L ! i) + snd (?L ! i)} \<inter> {fst (?L ! j) ..< fst (?L ! j) + snd (?L ! j)} = {})"
    by (rule pool_history_safe [of 64 8 4096, folded demo_pool_def, OF demo_reach])
      (simp_all add: U32_def)
  from conjunct1 [OF h] have "pool_free demo_pool2 4096 20 \<noteq> None" by simp
  with conjunct2 [OF h, rule_format, of 0 1] show ?thesis by simp
qed

text \<open>\<open>pikaFree\<close> undoes \<open>pikaMalloc\<close>: it returns, the bytes counted as used are again what
  they were, the peak is at least what was in use, and the pool's blocks are free again.\<close>

theorem pikaMalloc_pikaFree:
  assumes "pool_ok (pikaPool s)" "0 < sz" "sz + 4 < U32"
    and "pool_blocks (pikaPool s) + need_blocks (pikaPool s) (mem_align sz) < U32"
    and malloc: "pikaMalloc s sz = Some (s1, a)"
  shows "\<exists>s2. pikaFree s1 a sz = Some s2 \<and> pikaMemNow s2 = pikaMemNow s \<and>
    pikaMemNow s1 = pikaMemNow s + of_nat (mem_align sz) \<and> pikaMemNow s1 \<le> pikaMemMax s1 \<and>
    pikaMemMax s2 = pikaMemMax s1 \<and> pool_ok (pikaPool s2) \<and>
    pool_used (pikaPool s2) = pool_used (pikaPool s)"
proof -
  let ?n = "mem_align sz" and ?p = "pikaPool s"
  have n: "0 < ?n" using assms(2,3) by (simp add: mem_align_small div_greater_zero_iff)
  obtain p1 where p1: "pool_malloc ?p ?n = Some (p1, Some a)" "pikaPool s1 = p1"
    "pikaMemNow s1 = pikaMemNow s + of_nat ?n" "pikaMemNow s1 \<le> pikaMemMax s1"
    using malloc
    by (auto simp: pikaMalloc_def pika_user_malloc_def Let_def pikaMemNow_def pikaMemMax_def
        bind_eq_Some_conv not_less split: if_splits)
  have rq: "pool_request (pool_geo ?p) ?n" using n assms(4) by (simp add: pool_geo_simps)
  note m = pool_alloc.malloc_some [OF assms(1) rq p1(1)]
  then obtain p2 where p2: "pool_free p1 a ?n = Some p2" "pool_ok p2"
    "\<forall>i. pool_used p2 i \<longleftrightarrow> pool_used p1 i \<and> i \<notin> pool_span (pool_geo p1) a ?n"
    using pool_alloc.free_some [of p1 ?n a] rq by auto
  moreover have "pool_used p2 = pool_used ?p" using m p2(3) by fastforce
  ultimately show ?thesis
    using p1 by (auto simp: pikaFree_def pika_user_free_def Let_def pikaMemNow_def pikaMemMax_def)
qed

definition demo_mem :: mem_state where
  "demo_mem = \<lparr> info = \<lparr> heapUsed = 100, heapUsedMax = 120 \<rparr>, pikaPool = demo_pool \<rparr>"

theorem pikaMalloc_pikaFree_witness:
  "\<exists>s1 a s2. pikaMalloc demo_mem 13 = Some (s1, a) \<and> pikaFree s1 a 13 = Some s2 \<and>
     pikaMemNow s2 = 100 \<and> pool_used (pikaPool s2) = pool_used demo_pool"
proof -
  have pool: "pikaPool demo_mem = demo_pool" "pikaMemNow demo_mem = 100"
    by (simp_all add: demo_mem_def pikaMemNow_def)
  have fits: "pool_blocks demo_pool + need_blocks demo_pool (mem_align 13) < U32"
    by (simp add: pool_eval demo_pool_simps mem_align_def)
  have m: "pikaMalloc demo_mem 13 = Some (fst (the (pikaMalloc demo_mem 13)), 4096)"
    by (simp add: pikaMalloc_def pika_user_malloc_def demo_mem_def mem_align_def pool_eval demo_pool_simps)
  from pikaMalloc_pikaFree [of demo_mem 13, unfolded pool, OF demo_pool_ok(1) _ _ fits m] m
  show ?thesis by (auto simp: U32_def)
qed

text \<open>\<open>mem_pool_deinit\<close> followed by \<open>mem_pool_init\<close> does not give a usable pool: \<open>inited\<close> is
  still set, so the pool is not set up again and the next allocation uses the freed bitmap.\<close>

theorem mem_pool_reinit_unusable:
  "pika_user_malloc (mem_pool_init (mem_pool_deinit (mem_pool_init s b1 m1)) b2 m2) sz = None"
  by (simp add: mem_pool_init_def mem_pool_deinit_def pool_deinit_def pool_init_def Let_def
      pika_user_malloc_def pool_malloc_def)

end
