(* ===== verification/Pika_Args.thy ===== *)
theory Pika_Args
  imports Pika_Arg
begin

text \<open>
  \<open>src/src/dataLink.c\<close>, \<open>src/src/dataLinkNode.c\<close> and \<open>src/src/dataArgs.c\<close>: the linked list of
  variable cells and the name table \<open>Args\<close> built on it. A \<open>Link\<close> holds the address of the first
  cell; the list is threaded through the cells of the store. The loops that follow the list are
  partial functions: on a cyclic or dangling list they have no result. The lemmas show that they
  have one on every well-formed list.
\<close>

section \<open>Link\<close>

record Link =
  firstNode :: "nat option"

datatype PIKA_RES =
    PIKA_RES_OK
  | PIKA_RES_ERR_RUNTIME_ERROR
  | PIKA_RES_ERR_ARG_NO_FOUND
  | PIKA_RES_ERR_UNKNOWN_INSTRUCTION
  | PIKA_RES_ERR_OUT_OF_RANGE
  | PIKA_RES_ERR_IO_ERROR
  | PIKA_RES_ERR_INSUFFICIENT_RESOURCE
  | PIKA_RES_ERR_INVALID_PARAM
  | PIKA_RES_ERR_INVALID_PTR
  | PIKA_RES_ERR_UNALIGNED_PTR
  | PIKA_RES_ERR_INVALID_VERSION_NUMBER
  | PIKA_RES_ERR_ILLEGAL_MAGIC_CODE
  | PIKA_RES_ERR_OPERATION_FAILED
  | PIKA_RES_ERR_UNKNOWN
  | PIKA_RES_ERR_SYNTAX_ERROR
  | PIKA_RES_ERR_IO
  | PIKA_RES_ERR_ASSERT
  | PIKA_RES_ERR_SIGNAL_EVENT_FULL
  | PIKA_RES_ERR_SIGNAL_EVENT_EMPTY
  | PIKA_RES_ERR_INDEX

definition SIZEOF_LINK :: nat where "SIZEOF_LINK = 8"

definition link_init :: "Link \<Rightarrow> Link" where
  "link_init self = self\<lparr> firstNode := None \<rparr>"

definition New_link :: "heap \<Rightarrow> heap \<times> Link" where
  "New_link h = (h\<lparr> used := used h + of_nat (mem_align SIZEOF_LINK) \<rparr>, link_init \<lparr> firstNode = None \<rparr>)"

definition linkNode_deinit :: "heap \<Rightarrow> nat \<Rightarrow> heap option" where
  "linkNode_deinit h a = arg_deinit h a"

definition node_next :: "heap \<Rightarrow> nat \<Rightarrow> nat option option" where
  "node_next h a = do { c \<leftarrow> cells h a; arg_getNext c }"

definition node_setNext :: "heap \<Rightarrow> nat \<Rightarrow> nat option \<Rightarrow> heap option" where
  "node_setNext h a n = do { c \<leftarrow> cells h a; Some (set_cell h a (arg_setNext c n)) }"

definition link_addNode :: "heap \<Rightarrow> Link \<Rightarrow> nat \<Rightarrow> (heap \<times> Link) option" where
  "link_addNode h self target = do {
     let secondNode = firstNode self;
     h' \<leftarrow> node_setNext h target secondNode;
     Some (h', self\<lparr> firstNode := Some target \<rparr>)
   }"

text \<open>
  The search of \<open>_link_removeNode\<close>: the node found, if any, and the node before it.
\<close>

partial_function (option) find_node ::
  "heap \<Rightarrow> nat \<Rightarrow> nat option \<Rightarrow> nat option \<Rightarrow> (nat option \<times> nat option) option" where
  "find_node h target nodeNow priorNode =
     (case nodeNow of
        None \<Rightarrow> Some (None, priorNode)
      | Some n \<Rightarrow>
          if n = target then Some (Some n, priorNode)
          else do { nx \<leftarrow> node_next h n; find_node h target nx (Some n) })"

definition link_removeNode_ex :: "heap \<Rightarrow> Link \<Rightarrow> nat \<Rightarrow> bool \<Rightarrow> (heap \<times> Link) option" where
  "link_removeNode_ex h self target is_deinit_node = do {
     (nodeToDelete, priorNode) \<leftarrow> find_node h target (firstNode self) None;
     (case nodeToDelete of
        None \<Rightarrow> if is_deinit_node then None else Some (h, self)
      | Some d \<Rightarrow> do {
          nextNode \<leftarrow> node_next h d;
          let self1 = (if firstNode self = Some d then self\<lparr> firstNode := nextNode \<rparr> else self);
          (h2, self2) \<leftarrow> (case priorNode of
              None \<Rightarrow> Some (h, self1\<lparr> firstNode := nextNode \<rparr>)
            | Some p \<Rightarrow> do { h' \<leftarrow> node_setNext h p nextNode; Some (h', self1) });
          if is_deinit_node then do { h3 \<leftarrow> linkNode_deinit h2 d; Some (h3, self2) }
          else Some (h2, self2)
        })
   }"

definition link_removeNode :: "heap \<Rightarrow> Link \<Rightarrow> nat \<Rightarrow> (heap \<times> Link) option" where
  "link_removeNode h self target = link_removeNode_ex h self target True"

definition link_removeNode_notDeinitNode :: "heap \<Rightarrow> Link \<Rightarrow> nat \<Rightarrow> (heap \<times> Link) option" where
  "link_removeNode_notDeinitNode h self target = link_removeNode_ex h self target False"

partial_function (option) size_loop :: "heap \<Rightarrow> nat option \<Rightarrow> nat \<Rightarrow> nat option" where
  "size_loop h nowNode sz =
     (case nowNode of
        None \<Rightarrow> Some sz
      | Some n \<Rightarrow> do { nx \<leftarrow> node_next h n; size_loop h nx (sz + 1) })"

definition link_getSize :: "heap \<Rightarrow> Link \<Rightarrow> nat option" where
  "link_getSize h self = size_loop h (firstNode self) 0"

partial_function (option) deinit_loop :: "heap \<Rightarrow> nat option \<Rightarrow> heap option" where
  "deinit_loop h nowNode =
     (case nowNode of
        None \<Rightarrow> Some h
      | Some n \<Rightarrow> do {
          nodeNext \<leftarrow> node_next h n;
          h' \<leftarrow> linkNode_deinit h n;
          deinit_loop h' nodeNext
        })"

definition link_deinit_pyload :: "heap \<Rightarrow> Link \<Rightarrow> (heap \<times> Link) option" where
  "link_deinit_pyload h self = do {
     h' \<leftarrow> deinit_loop h (firstNode self);
     Some (h', \<lparr> firstNode = None \<rparr>)
   }"

definition link_deinit_ex :: "heap \<Rightarrow> Link \<Rightarrow> heap option" where
  "link_deinit_ex h self = do {
     (h', self') \<leftarrow> link_deinit_pyload h self;
     Some (h'\<lparr> used := used h' - of_nat (mem_align SIZEOF_LINK) \<rparr>)
   }"

definition link_deinit :: "heap \<Rightarrow> Link \<Rightarrow> heap option" where
  "link_deinit h self = link_deinit_ex h self"

definition link_deinit_stack :: "heap \<Rightarrow> Link \<Rightarrow> (heap \<times> Link) option" where
  "link_deinit_stack h self = link_deinit_pyload h self"

section \<open>Args: lookup\<close>

definition New_args :: "heap \<Rightarrow> heap \<times> Link" where
  "New_args h = New_link h"

partial_function (option) getNode_loop :: "heap \<Rightarrow> u32 \<Rightarrow> nat option \<Rightarrow> nat option option" where
  "getNode_loop h nameHash node =
     (case node of
        None \<Rightarrow> Some None
      | Some n \<Rightarrow> do {
          c \<leftarrow> cells h n;
          if name_hash c = nameHash then Some (Some n)
          else do { nx \<leftarrow> node_next h n; getNode_loop h nameHash nx }
        })"

definition args_getNode_hash :: "heap \<Rightarrow> Link \<Rightarrow> u32 \<Rightarrow> nat option option" where
  "args_getNode_hash h self nameHash = getNode_loop h nameHash (firstNode self)"

definition args_getNode :: "heap \<Rightarrow> Link \<Rightarrow> string \<Rightarrow> nat option option" where
  "args_getNode h self name = args_getNode_hash h self (hash_time33 name)"

definition args_getArg_hash :: "heap \<Rightarrow> Link \<Rightarrow> u32 \<Rightarrow> nat option option" where
  "args_getArg_hash h self nameHash = args_getNode_hash h self nameHash"

definition args_getArg :: "heap \<Rightarrow> Link \<Rightarrow> string \<Rightarrow> nat option option" where
  "args_getArg h self name = args_getNode h self name"

definition args_isArgExist_hash :: "heap \<Rightarrow> Link \<Rightarrow> u32 \<Rightarrow> bool option" where
  "args_isArgExist_hash h self nameHash = do { n \<leftarrow> args_getArg_hash h self nameHash; Some (n \<noteq> None) }"

definition args_isArgExist :: "heap \<Rightarrow> Link \<Rightarrow> string \<Rightarrow> bool option" where
  "args_isArgExist h self name = do { n \<leftarrow> args_getArg h self name; Some (n \<noteq> None) }"

definition args_getSize :: "heap \<Rightarrow> Link \<Rightarrow> nat option" where
  "args_getSize h self = link_getSize h self"

fun index_loop :: "heap \<Rightarrow> nat option \<Rightarrow> nat \<Rightarrow> nat option option" where
  "index_loop h nodeNow 0 = Some nodeNow"
| "index_loop h nodeNow (Suc k) =
     (case nodeNow of None \<Rightarrow> None | Some n \<Rightarrow> do { nx \<leftarrow> node_next h n; index_loop h nx k })"

definition args_getArgByIndex :: "heap \<Rightarrow> Link \<Rightarrow> int \<Rightarrow> nat option option" where
  "args_getArgByIndex h self index =
     (case firstNode self of None \<Rightarrow> Some None | Some n \<Rightarrow> index_loop h (Some n) (nat index))"

text \<open>A getter applied to the cell that a name is found at, with its value for a missing name.\<close>

definition with_arg :: "heap \<Rightarrow> Link \<Rightarrow> string \<Rightarrow> 'v \<Rightarrow> (Arg \<Rightarrow> 'v option) \<Rightarrow> 'v option" where
  "with_arg h self name missing get = do {
     arg \<leftarrow> args_getArg h self name;
     (case arg of None \<Rightarrow> Some missing | Some a \<Rightarrow> do { c \<leftarrow> cells h a; get c })
   }"

definition args_getPtr :: "heap \<Rightarrow> Link \<Rightarrow> string \<Rightarrow> u64 option" where
  "args_getPtr h self name = with_arg h self name 0 arg_getPtr"

definition args_getInt :: "heap \<Rightarrow> Link \<Rightarrow> string \<Rightarrow> u64 option" where
  "args_getInt h self name = with_arg h self name PIKA_INT_ERR
     (\<lambda>arg. if atype arg = ARG_TYPE_INT then arg_getInt arg
            else if atype arg = ARG_TYPE_FLOAT then do { f \<leftarrow> arg_getFloat arg; f64_to_int 32 f }
            else if atype arg = ARG_TYPE_BOOL then arg_getBool arg
            else Some PIKA_INT_ERR)"

definition args_getBool :: "heap \<Rightarrow> Link \<Rightarrow> string \<Rightarrow> u64 option" where
  "args_getBool h self name = with_arg h self name PIKA_BOOL_ERR arg_getBool"

definition args_getFloat :: "heap \<Rightarrow> Link \<Rightarrow> string \<Rightarrow> u64 option" where
  "args_getFloat h self name = with_arg h self name PIKA_FLOAT_ERR
     (\<lambda>arg. if atype arg = ARG_TYPE_FLOAT then arg_getFloat arg
            else if atype arg = ARG_TYPE_INT then do { i \<leftarrow> arg_getInt arg; Some (f64_of_i64 i) }
            else Some PIKA_FLOAT_ERR)"

definition args_getType :: "heap \<Rightarrow> Link \<Rightarrow> string \<Rightarrow> ArgType option" where
  "args_getType h self name = with_arg h self name ARG_TYPE_NONE (\<lambda>arg. Some (atype arg))"

text \<open>The pointer results: the null pointer, or what is read at the content.\<close>

definition args_getStr :: "heap \<Rightarrow> Link \<Rightarrow> string \<Rightarrow> string option option" where
  "args_getStr h self name = with_arg h self name None
     (\<lambda>arg. do {
        b \<leftarrow> arg_getContent arg;
        (case b of None \<Rightarrow> Some None | Some bs \<Rightarrow> do { s \<leftarrow> bytes_str bs; Some (Some s) })
      })"

definition args_getBytes :: "heap \<Rightarrow> Link \<Rightarrow> string \<Rightarrow> byte list option option" where
  "args_getBytes h self name = with_arg h self name None
     (\<lambda>arg. do {
        b \<leftarrow> arg_getContent arg;
        (case b of None \<Rightarrow> Some None | Some bs \<Rightarrow> do { s \<leftarrow> arg_getBytes arg; Some (Some s) })
      })"

definition args_getBytesSize :: "heap \<Rightarrow> Link \<Rightarrow> string \<Rightarrow> nat option" where
  "args_getBytesSize h self name = with_arg h self name 0 arg_getBytesSize"

definition args_getStruct :: "heap \<Rightarrow> Link \<Rightarrow> string \<Rightarrow> byte list option option" where
  "args_getStruct h self name = with_arg h self name None arg_getContent"

definition args_getHeapStruct :: "heap \<Rightarrow> Link \<Rightarrow> string \<Rightarrow> byte list option option" where
  "args_getHeapStruct h self name =
     with_arg h self name None (\<lambda>arg. do { s \<leftarrow> arg_getHeapStruct arg; Some (Some s) })"

section \<open>Args: update\<close>

definition args_pushArg :: "heap \<Rightarrow> Link \<Rightarrow> nat \<Rightarrow> (heap \<times> Link) option" where
  "args_pushArg h self arg = do {
     c \<leftarrow> cells h arg;
     s \<leftarrow> arg_isSerialized c;
     (h', new_arg) \<leftarrow> (if \<not> s then do {
         (h1, n) \<leftarrow> arg_copy h (Some arg);
         h2 \<leftarrow> arg_deinit h1 arg;
         n' \<leftarrow> n;
         Some (h2, n')
       } else Some (h, arg));
     link_addNode h' self new_arg
   }"

definition args_pushArg_name :: "heap \<Rightarrow> Link \<Rightarrow> string \<Rightarrow> nat \<Rightarrow> (heap \<times> Link) option" where
  "args_pushArg_name h self name arg = do {
     (h1, a) \<leftarrow> arg_setName h (Some arg) name;
     args_pushArg h1 self a
   }"

text \<open>The search of \<open>_updateArg\<close>, which only looks at a next node that exists.\<close>

partial_function (option) update_loop ::
  "heap \<Rightarrow> u32 \<Rightarrow> nat \<Rightarrow> nat option \<Rightarrow> (nat option \<times> nat option) option" where
  "update_loop h nameHash nodeNow priorNode = do {
     c \<leftarrow> cells h nodeNow;
     if name_hash c = nameHash then Some (Some nodeNow, priorNode)
     else do {
       nx \<leftarrow> arg_getNext c;
       (case nx of None \<Rightarrow> Some (None, priorNode) | Some n \<Rightarrow> update_loop h nameHash n (Some nodeNow))
     }
   }"

definition updateArg :: "heap \<Rightarrow> Link \<Rightarrow> nat \<Rightarrow> (heap \<times> Link \<times> PIKA_RES) option" where
  "updateArg h self argNew = (case firstNode self of
     None \<Rightarrow> Some (h, self, PIKA_RES_ERR_ARG_NO_FOUND)
   | Some first \<Rightarrow> do {
       new \<leftarrow> cells h argNew;
       (node, priorNode) \<leftarrow> update_loop h (name_hash new) first None;
       (case node of
          None \<Rightarrow> Some (h, self, PIKA_RES_ERR_ARG_NO_FOUND)
        | Some d \<Rightarrow> do {
            h1 \<leftarrow> arg_deinitHeap h d;
            (h2, n) \<leftarrow> arg_copy_content h1 (Some d) argNew;
            (h3, self3) \<leftarrow> (case priorNode of
                None \<Rightarrow> Some (h2, self\<lparr> firstNode := Some n \<rparr>)
              | Some p \<Rightarrow> do { h' \<leftarrow> node_setNext h2 p (Some n); Some (h', self) });
            new' \<leftarrow> cells h3 argNew;
            s \<leftarrow> arg_isSerialized new';
            if \<not> s then Some (h3, self3, PIKA_RES_OK)
            else do { h4 \<leftarrow> arg_freeContent h3 argNew; Some (h4, self3, PIKA_RES_OK) }
          })
     })"

definition args_setArg :: "heap \<Rightarrow> Link \<Rightarrow> nat \<Rightarrow> (heap \<times> Link) option" where
  "args_setArg h self arg = do {
     (h1, self1, res) \<leftarrow> updateArg h self arg;
     if res = PIKA_RES_OK then Some (h1, self1) else args_pushArg h1 self1 arg
   }"

text \<open>Writing eight bytes at the content of the cell at \<open>a\<close>, as \<open>*val_ptr = val\<close> does.\<close>

definition poke_u64 :: "heap \<Rightarrow> nat \<Rightarrow> u64 \<Rightarrow> heap option" where
  "poke_u64 h a val = do { c \<leftarrow> cells h a; c' \<leftarrow> content_write c 0 (enc_u64 val); Some (set_cell h a c') }"

definition args_setInt :: "heap \<Rightarrow> Link \<Rightarrow> string \<Rightarrow> u64 \<Rightarrow> (heap \<times> Link) option" where
  "args_setInt h self name val = do {
     arg \<leftarrow> args_getArg h self name;
     t \<leftarrow> (case arg of None \<Rightarrow> Some None | Some a \<Rightarrow> do { c \<leftarrow> cells h a; Some (Some (atype c)) });
     (case arg of
        Some a \<Rightarrow> if t = Some ARG_TYPE_INT then do { h' \<leftarrow> poke_u64 h a val; Some (h', self) }
                  else do { (h1, n) \<leftarrow> arg_setInt h None [] val; args_pushArg_name h1 self name n }
      | None \<Rightarrow> do { (h1, n) \<leftarrow> arg_setInt h None [] val; args_pushArg_name h1 self name n })
   }"

definition args_setPtrWithType :: "heap \<Rightarrow> Link \<Rightarrow> string \<Rightarrow> ArgType \<Rightarrow> u64 \<Rightarrow> (heap \<times> Link) option" where
  "args_setPtrWithType h self name t val = do {
     arg \<leftarrow> args_getArg h self name;
     (case arg of
        None \<Rightarrow> do { (h1, n) \<leftarrow> arg_setPtr h None [] t val; args_pushArg_name h1 self name n }
      | Some a \<Rightarrow> do {
          h1 \<leftarrow> poke_u64 h a val;
          c \<leftarrow> cells h1 a;
          Some (set_cell h1 a (arg_setType c t), self)
        })
   }"

definition args_setPtr :: "heap \<Rightarrow> Link \<Rightarrow> string \<Rightarrow> u64 \<Rightarrow> (heap \<times> Link) option" where
  "args_setPtr h self name val = args_setPtrWithType h self name ARG_TYPE_POINTER val"

definition args_setFloat :: "heap \<Rightarrow> Link \<Rightarrow> string \<Rightarrow> u64 \<Rightarrow> (heap \<times> Link) option" where
  "args_setFloat h self name val = do { (h1, n) \<leftarrow> arg_setFloat h None name val; args_setArg h1 self n }"

definition args_setRef :: "heap \<Rightarrow> Link \<Rightarrow> string \<Rightarrow> u64 \<Rightarrow> (heap \<times> Link) option" where
  "args_setRef h self name val = do { (h1, n) \<leftarrow> arg_setRef h None name val; args_setArg h1 self n }"

definition args_setStr :: "heap \<Rightarrow> Link \<Rightarrow> string \<Rightarrow> string option \<Rightarrow> (heap \<times> Link \<times> PIKA_RES) option" where
  "args_setStr h self name str = do {
     (h1, n) \<leftarrow> arg_setStr h None name str;
     (case n of
        None \<Rightarrow> Some (h1, self, PIKA_RES_ERR_INVALID_PTR)
      | Some a \<Rightarrow> do { (h2, self2) \<leftarrow> args_setArg h1 self a; Some (h2, self2, PIKA_RES_OK) })
   }"

definition args_setNone :: "heap \<Rightarrow> Link \<Rightarrow> string \<Rightarrow> (heap \<times> Link) option" where
  "args_setNone h self name = do {
     (h1, n) \<leftarrow> arg_setNone h None;
     (h2, n) \<leftarrow> arg_setName h1 (Some n) name;
     args_setArg h2 self n
   }"

definition args_setBytes :: "heap \<Rightarrow> Link \<Rightarrow> string \<Rightarrow> byte list option \<Rightarrow> nat \<Rightarrow> (heap \<times> Link) option" where
  "args_setBytes h self name src sz = do { (h1, n) \<leftarrow> arg_setBytes h name src sz; args_setArg h1 self n }"

definition args_setStructWithSize ::
  "heap \<Rightarrow> Link \<Rightarrow> string \<Rightarrow> byte list option \<Rightarrow> nat \<Rightarrow> (heap \<times> Link \<times> PIKA_RES) option" where
  "args_setStructWithSize h self name struct_ptr struct_size = do {
     (h1, n) \<leftarrow> arg_setStruct h None name struct_ptr struct_size;
     (case n of
        None \<Rightarrow> Some (h1, self, PIKA_RES_ERR_ARG_NO_FOUND)
      | Some a \<Rightarrow> do { (h2, self2) \<leftarrow> args_setArg h1 self a; Some (h2, self2, PIKA_RES_OK) })
   }"

definition args_setHeapStructWithSize ::
  "heap \<Rightarrow> Link \<Rightarrow> string \<Rightarrow> byte list option \<Rightarrow> nat \<Rightarrow> u64 \<Rightarrow> (heap \<times> Link \<times> PIKA_RES) option" where
  "args_setHeapStructWithSize h self name struct_ptr struct_size deinit_fun = do {
     (h1, n) \<leftarrow> arg_setHeapStruct h name struct_ptr struct_size deinit_fun;
     (case n of
        None \<Rightarrow> Some (h1, self, PIKA_RES_ERR_ARG_NO_FOUND)
      | Some a \<Rightarrow> do { (h2, self2) \<leftarrow> args_setArg h1 self a; Some (h2, self2, PIKA_RES_OK) })
   }"

definition args_copyArg :: "heap \<Rightarrow> Link \<Rightarrow> nat option \<Rightarrow> (heap \<times> Link \<times> PIKA_RES) option" where
  "args_copyArg h self arg = (case arg of
     None \<Rightarrow> Some (h, self, PIKA_RES_ERR_INVALID_PTR)
   | Some a \<Rightarrow> do {
       (h1, n) \<leftarrow> arg_copy h (Some a);
       n' \<leftarrow> n;
       (h2, self2) \<leftarrow> args_setArg h1 self n';
       Some (h2, self2, PIKA_RES_OK)
     })"

definition args_copyArgByName :: "heap \<Rightarrow> Link \<Rightarrow> string \<Rightarrow> Link \<Rightarrow> (heap \<times> Link) option" where
  "args_copyArgByName h self name directArgs = do {
     a \<leftarrow> args_getArg h self name;
     (h1, d, res) \<leftarrow> args_copyArg h directArgs a;
     Some (h1, d)
   }"

text \<open>The buffer is the content of the new first cell.\<close>

definition args_getBuff :: "heap \<Rightarrow> Link \<Rightarrow> nat \<Rightarrow> (heap \<times> Link \<times> nat) option" where
  "args_getBuff h self sz = do {
     (h1, n) \<leftarrow> arg_newContent h (u32_add sz 1);
     (h2, self2) \<leftarrow> args_pushArg h1 self n;
     Some (h2, self2, n)
   }"

section \<open>Args: order, removal, release\<close>

partial_function (option) reverse_loop :: "heap \<Rightarrow> nat option \<Rightarrow> nat option \<Rightarrow> (heap \<times> nat option) option" where
  "reverse_loop h nodeNow nodePrior =
     (case nodeNow of
        None \<Rightarrow> Some (h, nodePrior)
      | Some n \<Rightarrow> do {
          nodeNext \<leftarrow> node_next h n;
          h' \<leftarrow> node_setNext h n nodePrior;
          reverse_loop h' nodeNext (Some n)
        })"

definition args_reverse :: "heap \<Rightarrow> Link \<Rightarrow> (heap \<times> Link) option" where
  "args_reverse h self = do {
     (h', p) \<leftarrow> reverse_loop h (firstNode self) None;
     Some (h', self\<lparr> firstNode := p \<rparr>)
   }"

text \<open>The handler may change the store and a context of any type.\<close>

partial_function (option) foreach_loop ::
  "(nat \<Rightarrow> heap \<times> 's \<Rightarrow> (heap \<times> 's) option) \<Rightarrow> heap \<times> 's \<Rightarrow> nat \<Rightarrow> (heap \<times> 's) option" where
  "foreach_loop eachHandle hs nodeNow = do {
     nextNode \<leftarrow> node_next (fst hs) nodeNow;
     hs' \<leftarrow> eachHandle nodeNow hs;
     (case nextNode of None \<Rightarrow> Some hs' | Some n \<Rightarrow> foreach_loop eachHandle hs' n)
   }"

definition args_foreach ::
  "(nat \<Rightarrow> heap \<times> 's \<Rightarrow> (heap \<times> 's) option) \<Rightarrow> heap \<times> 's \<Rightarrow> Link \<Rightarrow> (heap \<times> 's) option" where
  "args_foreach eachHandle hs self =
     (case firstNode self of None \<Rightarrow> Some hs | Some n \<Rightarrow> foreach_loop eachHandle hs n)"

definition args_removeArg :: "heap \<Rightarrow> Link \<Rightarrow> nat option \<Rightarrow> (heap \<times> Link \<times> PIKA_RES) option" where
  "args_removeArg h self argNow = (case argNow of
     None \<Rightarrow> Some (h, self, PIKA_RES_ERR_INVALID_PTR)
   | Some a \<Rightarrow> do { (h1, self1) \<leftarrow> link_removeNode h self a; Some (h1, self1, PIKA_RES_OK) })"

definition args_removeArg_notDeinitArg :: "heap \<Rightarrow> Link \<Rightarrow> nat option \<Rightarrow> (heap \<times> Link \<times> PIKA_RES) option" where
  "args_removeArg_notDeinitArg h self argNow = (case argNow of
     None \<Rightarrow> Some (h, self, PIKA_RES_ERR_INVALID_PTR)
   | Some a \<Rightarrow> do { (h1, self1) \<leftarrow> link_removeNode_notDeinitNode h self a; Some (h1, self1, PIKA_RES_OK) })"

definition args_moveArg :: "heap \<Rightarrow> Link \<Rightarrow> Link \<Rightarrow> nat option \<Rightarrow> (heap \<times> Link \<times> Link \<times> PIKA_RES) option" where
  "args_moveArg h self dict argNow = (case argNow of
     None \<Rightarrow> Some (h, self, dict, PIKA_RES_ERR_INVALID_PTR)
   | Some a \<Rightarrow> do {
       (h1, self1) \<leftarrow> link_removeNode_notDeinitNode h self a;
       (h2, dict2) \<leftarrow> args_pushArg h1 dict a;
       Some (h2, self1, dict2, PIKA_RES_OK)
     })"

definition args_deinit_ex :: "heap \<Rightarrow> Link \<Rightarrow> heap option" where
  "args_deinit_ex h self = link_deinit_ex h self"

definition args_deinit :: "heap \<Rightarrow> Link \<Rightarrow> heap option" where
  "args_deinit h self = args_deinit_ex h self"

definition args_deinit_stack :: "heap \<Rightarrow> Link \<Rightarrow> (heap \<times> Link) option" where
  "args_deinit_stack h self = link_deinit_stack h self"

definition args_cacheStr :: "heap \<Rightarrow> Link \<Rightarrow> string option \<Rightarrow> (heap \<times> Link \<times> string option) option" where
  "args_cacheStr h self str = do {
     (h1, self1, res) \<leftarrow> args_setStr h self ''@sc'' str;
     s \<leftarrow> args_getStr h1 self1 ''@sc'';
     Some (h1, self1, s)
   }"

section \<open>Lists threaded through the store\<close>

primrec lseg :: "(nat \<rightharpoonup> Arg) \<Rightarrow> nat option \<Rightarrow> nat list \<Rightarrow> nat option \<Rightarrow> bool" where
  "lseg m p [] q \<longleftrightarrow> p = q"
| "lseg m p (a # as) q \<longleftrightarrow> p = Some a \<and> (\<exists>c nx. m a = Some c \<and> union c = Next nx \<and> lseg m nx as q)"

abbreviation lst :: "(nat \<rightharpoonup> Arg) \<Rightarrow> nat option \<Rightarrow> nat list \<Rightarrow> bool" where
  "lst m p xs \<equiv> lseg m p xs None"

lemma lseg_append: "lseg m p (xs @ ys) q \<longleftrightarrow> (\<exists>r. lseg m p xs r \<and> lseg m r ys q)"
  by (induction xs arbitrary: p) auto

lemma lseg_frame: "a \<notin> set xs \<Longrightarrow> lseg (m(a := v)) p xs q = lseg m p xs q"
  by (induction xs arbitrary: p) auto

lemma lseg_same_union:
  "m a = Some c \<Longrightarrow> union c' = union c \<Longrightarrow> lseg (m(a \<mapsto> c')) p xs q = lseg m p xs q"
  by (induction xs arbitrary: p) auto

lemma lseg_cong: "(\<And>b. b \<in> set xs \<Longrightarrow> m' b = m b) \<Longrightarrow> lseg m' p xs q = lseg m p xs q"
  by (induction xs arbitrary: p) auto

lemma lst_None [simp]: "lst m None xs \<longleftrightarrow> xs = []"
  by (cases xs) auto

lemma lst_unique: "lst m p xs \<Longrightarrow> lst m p ys \<Longrightarrow> xs = ys"
proof (induction xs arbitrary: p ys)
  case Nil
  then show ?case by simp
next
  case (Cons x xs)
  then show ?case by (cases ys) auto
qed

lemma lst_hd_notin:
  assumes "lst m (Some a) (a # xs)"
  shows "a \<notin> set xs"
proof
  assume "a \<in> set xs"
  then obtain us vs where xs: "xs = us @ a # vs" by (meson split_list)
  then obtain nx c where "m a = Some c" "union c = Next nx" "lst m nx xs" "lst m nx vs"
    using assms by (auto simp: lseg_append)
  with lst_unique have "xs = vs" by blast
  with xs show False by simp
qed

lemma lst_distinct: "lst m p xs \<Longrightarrow> distinct xs"
proof (induction xs arbitrary: p)
  case Nil
  then show ?case by simp
next
  case (Cons x xs)
  then show ?case using lst_hd_notin [of m x xs] by auto
qed

lemma lseg_dom: "lseg m p xs q \<Longrightarrow> a \<in> set xs \<Longrightarrow> \<exists>c nx. m a = Some c \<and> union c = Next nx"
  by (induction xs arbitrary: p) auto

lemma lst_Cons: "lst m (Some a) xs \<longleftrightarrow> (\<exists>c nx ys. xs = a # ys \<and> m a = Some c \<and> union c = Next nx \<and> lst m nx ys)"
  by (cases xs) auto

text \<open>Changing the successor of the last cell of a segment redirects it.\<close>

lemma lseg_redirect:
  "lseg m p (xs @ [a]) q \<Longrightarrow> a \<notin> set xs \<Longrightarrow> union c' = Next r \<Longrightarrow> lseg (m(a \<mapsto> c')) p (xs @ [a]) r"
  by (auto simp: lseg_append lseg_frame)

lemma node_next_eq: "cells h a = Some c \<Longrightarrow> union c = Next nx \<Longrightarrow> node_next h a = Some nx"
  by (simp add: node_next_def arg_getNext_def)

lemma node_setNext_eq: "cells h a = Some c \<Longrightarrow> node_setNext h a n = Some (set_cell h a (c\<lparr>union := Next n\<rparr>))"
  by (simp add: node_setNext_def arg_setNext_def)

section \<open>The loops return\<close>

lemma getNode_loop_eq:
  "lst (cells h) p xs \<Longrightarrow>
   getNode_loop h k p = Some (List.find (\<lambda>a. name_hash (the (cells h a)) = k) xs)"
proof (induction xs arbitrary: p)
  case Nil
  then show ?case by (subst getNode_loop.simps) simp
next
  case (Cons a xs)
  then show ?case by (subst getNode_loop.simps) (auto simp: node_next_eq)
qed

lemma size_loop_eq: "lst (cells h) p xs \<Longrightarrow> size_loop h p n = Some (n + length xs)"
proof (induction xs arbitrary: p n)
  case Nil
  then show ?case by (subst size_loop.simps) simp
next
  case (Cons a xs)
  then show ?case by (subst size_loop.simps) (auto simp: node_next_eq)
qed

lemma find_node_found:
  "lst (cells h) p (us @ d # vs) \<Longrightarrow> d \<notin> set us \<Longrightarrow>
   find_node h d p pr = Some (Some d, if us = [] then pr else Some (last us))"
proof (induction us arbitrary: p pr)
  case Nil
  then show ?case by (subst find_node.simps) auto
next
  case (Cons a us)
  then show ?case by (subst find_node.simps) (auto simp: node_next_eq)
qed

lemma find_node_none:
  "lst (cells h) p xs \<Longrightarrow> d \<notin> set xs \<Longrightarrow> \<exists>q. find_node h d p pr = Some (None, q)"
proof (induction xs arbitrary: p pr)
  case Nil
  then show ?case by (subst find_node.simps) auto
next
  case (Cons a xs)
  then show ?case by (subst find_node.simps) (auto simp: node_next_eq)
qed

lemma update_loop_found:
  "lst (cells h) (Some p) (us @ d # vs) \<Longrightarrow> \<forall>u \<in> set us. name_hash (the (cells h u)) \<noteq> k \<Longrightarrow>
   name_hash (the (cells h d)) = k \<Longrightarrow>
   update_loop h k p pr = Some (Some d, if us = [] then pr else Some (last us))"
proof (induction us arbitrary: p pr)
  case Nil
  then show ?case by (subst update_loop.simps) auto
next
  case (Cons a us)
  then obtain c n where c: "cells h a = Some c" "union c = Next (Some n)" "p = a"
    "lst (cells h) (Some n) (us @ d # vs)" "name_hash c \<noteq> k"
    by (cases us) auto
  with Cons.IH [of n "Some a"] Cons.prems show ?case
    by (subst update_loop.simps) (simp add: arg_getNext_def)
qed

lemma update_loop_none:
  "lst (cells h) (Some p) xs \<Longrightarrow> \<forall>u \<in> set xs. name_hash (the (cells h u)) \<noteq> k \<Longrightarrow>
   \<exists>q. update_loop h k p pr = Some (None, q)"
proof (induction xs arbitrary: p pr)
  case Nil
  then show ?case by simp
next
  case (Cons a xs)
  then obtain c nx where c: "cells h a = Some c" "union c = Next nx" "p = a" "lst (cells h) nx xs" "name_hash c \<noteq> k"
    by auto
  show ?case
  proof (cases nx)
    case None
    then show ?thesis using c by (subst update_loop.simps) (simp add: arg_getNext_def)
  next
    case (Some n)
    then show ?thesis using c Cons.IH [of n "Some a"] Cons.prems
      by (subst update_loop.simps) (simp add: arg_getNext_def)
  qed
qed

lemma index_loop_eq:
  "lst (cells h) p xs \<Longrightarrow> k \<le> length xs \<Longrightarrow>
   index_loop h p k = Some (if k < length xs then Some (xs ! k) else None)"
proof (induction k arbitrary: p xs)
  case 0
  then show ?case by (cases xs) auto
next
  case (Suc k)
  then obtain a ys where "xs = a # ys" by (cases xs) auto
  with Suc show ?case by (auto simp: node_next_eq)
qed

text \<open>The loop of \<open>args_reverse\<close> reverses what is left in front of what is done.\<close>

lemma reverse_loop_eq:
  assumes "lst (cells h) p xs" "lst (cells h) q ys" "set xs \<inter> set ys = {}" "distinct xs"
  shows "\<exists>h' r. reverse_loop h p q = Some (h', r) \<and> lst (cells h') r (rev xs @ ys) \<and>
    (\<forall>a. cells h' a = (if a \<in> set xs then map_option (\<lambda>c. c\<lparr>union := union (the (cells h' a))\<rparr>) (cells h a) else cells h a)) \<and>
    fresh h' = fresh h \<and> used h' = used h \<and> objs h' = objs h \<and> events h' = events h"
  using assms
proof (induction xs arbitrary: h p q ys)
  case Nil
  then show ?case by (subst reverse_loop.simps) simp
next
  case (Cons a xs)
  then obtain c nx where c: "p = Some a" "cells h a = Some c" "union c = Next nx" "lst (cells h) nx xs" by auto
  let ?h = "set_cell h a (c\<lparr>union := Next q\<rparr>)"
  have a: "a \<notin> set xs" "a \<notin> set ys" using Cons.prems by auto
  have "lst (cells ?h) nx xs" "lst (cells ?h) (Some a) (a # ys)"
    using a c Cons.prems(2) by (simp_all add: lseg_frame)
  from Cons.IH [OF this] Cons.prems(3,4) obtain h' r where
    IH: "reverse_loop ?h nx (Some a) = Some (h', r)" "lst (cells h') r (rev xs @ a # ys)"
    "\<And>b. cells h' b = (if b \<in> set xs then map_option (\<lambda>c. c\<lparr>union := union (the (cells h' b))\<rparr>) (cells ?h b) else cells ?h b)"
    "fresh h' = fresh ?h" "used h' = used ?h" "objs h' = objs ?h" "events h' = events ?h"
    by (auto simp del: lseg.simps(2))
  have "cells h' a = Some (c\<lparr>union := Next q\<rparr>)" using IH(3) [of a] a by simp
  then have "cells h' b = (if b \<in> set (a # xs) then map_option (\<lambda>c. c\<lparr>union := union (the (cells h' b))\<rparr>) (cells h b) else cells h b)" for b
    using IH(3) [of b] c(2) a by (cases "b = a") auto
  with IH c show ?case
    by (subst reverse_loop.simps) (simp add: node_next_eq node_setNext_eq)
qed

section \<open>Replacing and removing a cell of a list\<close>

lemma lst_split:
  assumes "lst m p (us @ d # vs)"
  shows "\<exists>c nx. m d = Some c \<and> union c = Next nx \<and> lseg m p us (Some d) \<and> lst m nx vs \<and>
    d \<notin> set us \<and> d \<notin> set vs \<and> set us \<inter> set vs = {} \<and> distinct us \<and> distinct vs"
  using assms lst_distinct [OF assms] by (auto simp: lseg_append)

lemma lst_replace_first:
  assumes "lst m p (d # vs)" "m d = Some c" "union c' = union c" "a = d \<or> a \<notin> set vs"
  shows "lst ((m(d := None))(a \<mapsto> c')) (Some a) (a # vs)"
  using lst_split [of m p "[]" d vs] assms by (auto simp: lseg_frame)

lemma lst_replace_inner:
  assumes l: "lst m p (us @ q # d # vs)" and d: "m d = Some c" "union c' = union c"
    and q: "m q = Some cq" and a: "a = d \<or> a \<notin> set (us @ q # d # vs)"
  shows "lst ((m(d := None, a \<mapsto> c'))(q \<mapsto> cq\<lparr>union := Next (Some a)\<rparr>)) p (us @ q # a # vs)"
proof -
  obtain nx where s: "lseg m p us (Some q)" "union c = Next nx" "lst m nx vs"
    using l d q by (auto simp: lseg_append)
  have dist: "distinct (us @ q # d # vs)" using lst_distinct [OF l] .
  let ?m = "(m(d := None, a \<mapsto> c'))(q \<mapsto> cq\<lparr>union := Next (Some a)\<rparr>)"
  have "lseg ?m p us (Some q)" "lst ?m nx vs"
    using s(1,3) dist a by (auto simp: lseg_frame)
  moreover have "?m a = Some c'" using a dist by auto
  ultimately show ?thesis using d s(2) by (auto simp: lseg_append)
qed

lemma lst_remove_first:
  assumes "lst m p (d # vs)" "m d = Some c" "union c = Next nx"
  shows "lst m nx vs"
  using assms by auto

lemma lst_remove_inner:
  assumes l: "lst m p (us @ q # d # vs)" and d: "m d = Some c" "union c = Next nx" and q: "m q = Some cq"
  shows "lst (m(q \<mapsto> cq\<lparr>union := Next nx\<rparr>)) p (us @ q # vs)"
proof -
  have s: "lseg m p us (Some q)" "lst m nx vs" using l d q by (auto simp: lseg_append)
  have "distinct (us @ q # d # vs)" using lst_distinct [OF l] .
  with s have "lseg (m(q \<mapsto> cq\<lparr>union := Next nx\<rparr>)) p us (Some q)" "lst (m(q \<mapsto> cq\<lparr>union := Next nx\<rparr>)) nx vs"
    by (auto simp: lseg_frame)
  then show ?thesis by (auto simp: lseg_append)
qed

section \<open>The table invariant and its view\<close>

definition args_ok :: "heap \<Rightarrow> Link \<Rightarrow> nat list \<Rightarrow> bool" where
  "args_ok h l xs \<longleftrightarrow> heap_ok h \<and> lst (cells h) (firstNode l) xs"

text \<open>A cell without its link: what the getters see.\<close>

definition view :: "Arg \<Rightarrow> Arg" where
  "view c = c\<lparr>union := Next None\<rparr>"

definition finds :: "heap \<Rightarrow> u32 \<Rightarrow> nat list \<Rightarrow> nat option" where
  "finds h k xs = List.find (\<lambda>a. name_hash (the (cells h a)) = k) xs"

definition lookup :: "heap \<Rightarrow> nat list \<Rightarrow> u32 \<Rightarrow> Arg option" where
  "lookup h xs k = do { a \<leftarrow> finds h k xs; c \<leftarrow> cells h a; Some (view c) }"

lemma view_simps [simp]:
  "asize (view c) = asize c" "atype (view c) = atype c" "flag (view c) = flag c"
  "name_hash (view c) = name_hash c" "content (view c) = content c" "block (view c) = block c"
  "serialized (view c) = serialized c" "weak (view c) = weak c" "keyword (view c) = keyword c"
  "view (view c) = view c" "view (c\<lparr>union := u\<rparr>) = view c"
  by (simp_all add: view_def)

lemma view_payload: "serialized c \<Longrightarrow> payload (view c) = payload c"
  by (simp add: payload_def)

lemma view_arg_ok: "serialized c \<Longrightarrow> arg_ok (view c) = arg_ok c"
  by (simp add: arg_ok_def)

lemma linked_serialized: "arg_ok c \<Longrightarrow> union c = Next nx \<Longrightarrow> serialized c"
  by (auto simp: arg_ok_def split: if_splits)

lemma args_ok_cell:
  assumes "args_ok h l xs" "a \<in> set xs"
  shows "\<exists>c nx. cells h a = Some c \<and> union c = Next nx \<and> arg_ok c \<and> serialized c \<and> a < fresh h"
proof -
  obtain c nx where "cells h a = Some c" "union c = Next nx"
    using assms lseg_dom unfolding args_ok_def by metis
  then show ?thesis using assms(1) heap_okD linked_serialized unfolding args_ok_def by blast
qed

lemma args_getNode_hash_eq: "args_ok h l xs \<Longrightarrow> args_getNode_hash h l k = Some (finds h k xs)"
  by (simp add: args_getNode_hash_def args_ok_def finds_def getNode_loop_eq)

lemma finds_cong:
  "(\<And>a. a \<in> set xs \<Longrightarrow> name_hash (the (cells h' a)) = name_hash (the (cells h a))) \<Longrightarrow>
   finds h' k xs = finds h k xs"
  unfolding finds_def by (induction xs) auto

lemma finds_append: "finds h k (us @ vs) = (case finds h k us of None \<Rightarrow> finds h k vs | Some a \<Rightarrow> Some a)"
  by (induction us) (auto simp: finds_def)

lemma finds_simps [simp]:
  "finds h k [] = None"
  "finds h k (a # xs) = (if name_hash (the (cells h a)) = k then Some a else finds h k xs)"
  by (simp_all add: finds_def)

lemma finds_None: "finds h k xs = None \<longleftrightarrow> (\<forall>a \<in> set xs. name_hash (the (cells h a)) \<noteq> k)"
  by (induction xs) auto

lemma finds_SomeD:
  "finds h k xs = Some d \<Longrightarrow> \<exists>us vs. xs = us @ d # vs \<and> name_hash (the (cells h d)) = k \<and>
     (\<forall>u \<in> set us. name_hash (the (cells h u)) \<noteq> k)"
proof (induction xs)
  case Nil
  then show ?case by simp
next
  case (Cons a xs)
  show ?case
  proof (cases "name_hash (the (cells h a)) = k")
    case True
    with Cons.prems show ?thesis by (intro exI [of _ "[]"] exI [of _ xs]) simp
  next
    case False
    with Cons obtain us vs where "xs = us @ d # vs" "name_hash (the (cells h d)) = k"
      "\<forall>u \<in> set us. name_hash (the (cells h u)) \<noteq> k" by auto
    with False show ?thesis by (intro exI [of _ "a # us"] exI [of _ vs]) auto
  qed
qed

lemma lookup_cong:
  "(\<And>a. a \<in> set xs \<Longrightarrow> map_option view (cells h' a) = map_option view (cells h a)) \<Longrightarrow>
   (\<And>a. a \<in> set xs \<Longrightarrow> cells h a \<noteq> None) \<Longrightarrow> lookup h' xs k = lookup h xs k"
proof (induction xs)
  case Nil
  then show ?case by (simp add: lookup_def)
next
  case (Cons a xs)
  from Cons.prems(1) [of a] Cons.prems(2) [of a] obtain c c' where
    "cells h a = Some c" "cells h' a = Some c'" "view c' = view c" by auto
  moreover have "name_hash c' = name_hash c" using \<open>view c' = view c\<close> by (metis view_simps(4))
  moreover have "lookup h' xs k = lookup h xs k" using Cons by simp
  ultimately show ?case by (simp add: lookup_def)
qed

lemma lookup_append:
  "lookup h (us @ vs) k = (case finds h k us of None \<Rightarrow> lookup h vs k | Some a \<Rightarrow> lookup h us k)"
  by (simp add: lookup_def finds_append split: option.splits)

lemma lookup_Cons:
  "lookup h (a # xs) k =
     (if name_hash (the (cells h a)) = k then map_option view (cells h a) else lookup h xs k)"
  by (cases "cells h a") (simp_all add: lookup_def)

lemma lookup_set_other: "n \<notin> set xs \<Longrightarrow> lookup (set_cell h n c) xs k = lookup h xs k"
proof (induction xs)
  case Nil
  then show ?case by (simp add: lookup_def)
next
  case (Cons a xs)
  then show ?case by (simp add: lookup_Cons)
qed

section \<open>Reference counts\<close>

text \<open>
  A cell of type \<open>OBJECT\<close> that is not weak owns one reference. The counts are sound when no object
  has more owning cells than its count says; then every owned object is alive.
\<close>

definition owns :: "u64 \<Rightarrow> Arg \<Rightarrow> bool" where
  "owns p c \<longleftrightarrow> \<not> weak c \<and> atype c = ARG_TYPE_OBJECT \<and> arg_getPtr c = Some p"

definition refs :: "(nat \<rightharpoonup> Arg) \<Rightarrow> u64 \<Rightarrow> nat" where
  "refs m p = tally (\<lambda>c. if owns p c then 1 else 0) m"

text \<open>The types whose value takes eight bytes.\<close>

definition sized :: "Arg \<Rightarrow> bool" where
  "sized c \<longleftrightarrow>
     (atype c \<in> {ARG_TYPE_INT, ARG_TYPE_BOOL, ARG_TYPE_FLOAT, ARG_TYPE_POINTER, ARG_TYPE_OBJECT,
        ARG_TYPE_OBJECT_WEAK, ARG_TYPE_OBJECT_META, ARG_TYPE_OBJECT_NEW, ARG_TYPE_STRUCT_HEAP} \<longrightarrow>
      8 \<le> asize c)"

definition rc_ok :: "heap \<Rightarrow> bool" where
  "rc_ok h \<longleftrightarrow> (\<forall>a c. cells h a = Some c \<longrightarrow> sized c) \<and>
     (\<forall>p. 0 < refs (cells h) p \<longrightarrow>
        (\<exists>ob. objs h p = Some ob \<and> \<not> in_del ob \<and> refs (cells h) p \<le> unat (refcnt ob)))"

lemmas refs_upd = tally_upd [where f = "\<lambda>c. if owns p c then 1 else 0" for p, folded refs_def]
lemmas refs_del = tally_del [where f = "\<lambda>c. if owns p c then 1 else 0" for p, folded refs_def]

lemma refs_same:
  "finite (dom m) \<Longrightarrow> m a = Some c \<Longrightarrow> (\<And>p. owns p c' = owns p c) \<Longrightarrow> refs (m(a \<mapsto> c')) p = refs m p"
  unfolding refs_def by (rule tally_same) simp_all

lemma owner_ptr:
  assumes "arg_ok c" "sized c" "\<not> weak c" "atype c = ARG_TYPE_OBJECT"
  shows "\<exists>p. arg_getPtr c = Some p"
proof -
  have "8 \<le> length (payload c)" using assms by (simp add: sized_def)
  then show ?thesis
    using payload_u64(3) [OF assms(1)] assms by (simp add: sized_def dec_u64_def get_le_def)
qed

text \<open>Releasing the object of a cell and dropping the cell keeps the counts sound.\<close>

lemma gc_step_rc:
  assumes h: "heap_ok h" "rc_ok h" and c: "cells h a = Some c"
  shows "\<exists>h1. gc_step c h = Some h1 \<and> rc_ok (h1\<lparr>cells := (cells h1)(a := None)\<rparr>)"
proof -
  let ?del = "\<lambda>h1. h1\<lparr>cells := (cells h1)(a := None)\<rparr>"
  have ok: "arg_ok c" "sized c" "finite (dom (cells h))"
    using h c by (auto simp: heap_ok_def rc_ok_def)
  have del: "refs (cells h) p = (if owns p c then 1 else 0) + refs ((cells h)(a := None)) p" for p
    using refs_del [OF ok(3) c] .
  have szd: "sized x" if "((cells h)(a := None)) b = Some x" for b x
    using h(2) that by (auto simp: rc_ok_def split: if_splits)
  show ?thesis
  proof (cases "\<not> weak c \<and> atype c = ARG_TYPE_OBJECT")
    case False
    then have no: "\<not> owns p c" for p by (auto simp: owns_def)
    obtain b where b: "content_bytes c = Some b" "asize c \<le> length b" using arg_ok_content [OF ok(1)] by auto
    have "\<exists>h1. gc_step c h = Some h1 \<and> objs h1 = objs h \<and> cells h1 = cells h"
    proof (cases "atype c = ARG_TYPE_STRUCT_HEAP \<and> \<not> weak c")
      case True
      then have "8 \<le> length b" using ok(2) b by (simp add: sized_def)
      with True b show ?thesis
        by (simp add: gc_step_def arg_getHeapStructDeinitFun_def arg_getHeapStruct_def dec_u64_def get_le_def)
    next
      case False2: False
      with False show ?thesis by (auto simp: gc_step_def)
    qed
    then obtain h1 where h1: "gc_step c h = Some h1" "objs h1 = objs h" "cells h1 = cells h" by blast
    moreover have "rc_ok (?del h1)"
      using h(2) h1(2,3) szd del no by (simp add: rc_ok_def)
    ultimately show ?thesis by blast
  next
    case True
    then obtain p where p: "arg_getPtr c = Some p" using owner_ptr [OF ok(1,2)] by blast
    with True have own: "owns q c \<longleftrightarrow> q = p" for q by (auto simp: owns_def)
    have "0 < refs (cells h) p" using del [of p] own by simp
    then obtain ob where ob: "objs h p = Some ob" "\<not> in_del ob" "refs (cells h) p \<le> unat (refcnt ob)"
      using h(2) unfolding rc_ok_def by blast
    have pos: "1 \<le> unat (refcnt ob)" using del [of p] own ob(3) by simp
    then have dec: "unat (refcnt ob - 1) = unat (refcnt ob) - 1"
      by (simp add: unat_sub word_le_nat_alt)
    have left: "refs ((cells h)(a := None)) p \<le> unat (refcnt ob - 1)"
      using del [of p] own ob(3) dec by simp
    have oth: "refs ((cells h)(a := None)) q = refs (cells h) q" if "q \<noteq> p" for q
      using del [of q] own that by simp
    let ?ob = "ob\<lparr>refcnt := refcnt ob - 1\<rparr>"
    show ?thesis
    proof (cases "refcnt ob - 1 = 0")
      case zero: True
      let ?h1 = "h\<lparr>objs := (objs h)(p := None), events := events h @ [ObjDeinit p]\<rparr>"
      have "gc_step c h = Some ?h1"
        using True p ob zero by (simp add: gc_step_def obj_GC_def obj_refcntDec_def set_obj_def)
      moreover have "refs ((cells h)(a := None)) p = 0" using left zero by simp
      then have "rc_ok (?del ?h1)"
        using h(2) szd oth by (auto simp: rc_ok_def)
      ultimately show ?thesis by blast
    next
      case False
      then have "gc_step c h = Some (set_obj h p ?ob)"
        using True p ob by (simp add: gc_step_def obj_GC_def obj_refcntDec_def word_gt_0 not_le)
      moreover have "rc_ok (?del (set_obj h p ?ob))"
        using h(2) szd oth left ob(2) by (auto simp: rc_ok_def set_obj_def)
      ultimately show ?thesis by blast
    qed
  qed
qed

lemma isSerialized_union [simp]: "arg_isSerialized (c\<lparr>union := u\<rparr>) = arg_isSerialized c"
  by (simp add: arg_isSerialized_def get_flag_def)

lemma getContent_union: "serialized c \<Longrightarrow> arg_ok c \<Longrightarrow> arg_getContent (c\<lparr>union := u\<rparr>) = arg_getContent c"
  by (simp add: arg_getContent_def flag_getters arg_ok_def)

lemma owns_union: "serialized c \<Longrightarrow> arg_ok c \<Longrightarrow> owns p (c\<lparr>union := u\<rparr>) = owns p c"
  by (simp add: owns_def arg_getPtr_def getContent_union)

lemma sized_union [simp]: "sized (c\<lparr>union := u\<rparr>) = sized c"
  by (simp add: sized_def)

lemma carries_sized: "carries c s \<Longrightarrow> sized s \<Longrightarrow> sized c"
  unfolding carries_def sized_def by (metis le_trans)

lemma carries_owns:
  assumes "carries c s" "arg_ok s" "sized s"
  shows "owns p c = owns p s"
proof (cases "atype s = ARG_TYPE_OBJECT")
  case True
  have 8: "8 \<le> asize s" "8 \<le> asize c" using assms True by (auto simp: sized_def carries_def)
  have "take (asize s) (payload c) = payload s" "asize s \<le> length (payload c)"
    using assms(1) by (auto simp: carries_def)
  then have "dec_u64 (payload c) = dec_u64 (payload s)" using dec_u64_take [OF 8(1)] by metis
  then show ?thesis
    using payload_u64(3) [OF _ 8(2)] payload_u64(3) [OF assms(2) 8(1)] assms(1) True
    by (simp add: owns_def carries_def)
qed (use assms in \<open>simp add: owns_def carries_def\<close>)

section \<open>Setting a variable\<close>

text \<open>What \<open>_updateArg\<close> leaves: one cell replaced, the new cell's memory given back.\<close>

definition updated :: "heap \<Rightarrow> heap \<Rightarrow> nat list \<Rightarrow> nat \<Rightarrow> nat list \<Rightarrow> nat \<Rightarrow> Arg \<Rightarrow> heap \<Rightarrow> Link \<Rightarrow> nat \<Rightarrow> bool" where
  "updated h h1 us d vs n s h' l' a \<longleftrightarrow>
     args_ok h' l' (us @ a # vs) \<and> (a = d \<or> a = fresh h) \<and>
     (\<exists>c. cells h' a = Some c \<and> carries c s) \<and>
     (\<forall>b \<in> set (us @ vs). map_option view (cells h' b) = map_option view (cells h b)) \<and>
     cells h' n = None \<and> (a \<noteq> d \<longrightarrow> cells h' d = None) \<and>
     others h' = others h \<and> objs h' = objs h1 \<and> events h' = events h1 \<and>
     (sized s \<longrightarrow> (\<forall>p. refs (cells h') p = refs ((cells h)(d := None)) p)) \<and>
     (\<forall>b. b \<notin> set (us @ d # vs) \<longrightarrow> b \<noteq> n \<longrightarrow> b \<noteq> a \<longrightarrow> cells h' b = cells h b)"

text \<open>Linking the replacement in, when the cell was the first of the list and when it was not.\<close>

lemma link_in_first:
  assumes "heap_ok h2" "lst m p (d # vs)" "m d = Some c" "cells h2 = (m(d := None))(a \<mapsto> c')"
    "union c' = union c" "a = d \<or> a \<notin> set vs"
  shows "args_ok h2 (l\<lparr>firstNode := Some a\<rparr>) (a # vs)"
  using lst_replace_first [OF assms(2,3,5,6)] assms(1,4) by (simp add: args_ok_def)

lemma link_in_inner:
  assumes h2: "heap_ok h2" "cells h2 = (m(d := None))(a \<mapsto> c')"
    and l: "lst m (firstNode l) (us @ q # d # vs)" and d: "m d = Some c" "union c' = union c"
    and a: "a = d \<or> a \<notin> set (us @ q # d # vs)"
  shows "\<exists>cq. m q = Some cq \<and> node_setNext h2 q (Some a) = Some (set_cell h2 q (cq\<lparr>union := Next (Some a)\<rparr>)) \<and>
    args_ok (set_cell h2 q (cq\<lparr>union := Next (Some a)\<rparr>)) l (us @ q # a # vs) \<and>
    others (set_cell h2 q (cq\<lparr>union := Next (Some a)\<rparr>)) = others h2"
proof -
  have dist: "distinct (us @ q # d # vs)" using lst_distinct [OF l] .
  obtain cq nx where q: "m q = Some cq" "union cq = Next nx" using l by (auto simp: lseg_append)
  then have q2: "cells h2 q = Some cq" using h2(2) dist a by auto
  then have "arg_ok cq" "serialized cq" using heap_okD [OF h2(1)] q linked_serialized by blast+
  then have "arg_ok (cq\<lparr>union := Next (Some a)\<rparr>)" by (simp add: arg_ok_def)
  from set_cell_ok [OF h2(1) q2 this] lst_replace_inner [OF l d q(1) a] q2 q(1) h2(2) show ?thesis
    by (simp add: args_ok_def node_setNext_eq)
qed

lemma updateArg_found:
  assumes ok: "args_ok h l (us @ d # vs)" and new: "cells h n = Some s" "serialized s" "fits (asize s)"
    and nx: "n \<notin> set (us @ d # vs)"
    and key: "name_hash (the (cells h d)) = name_hash s" "\<forall>u \<in> set us. name_hash (the (cells h u)) \<noteq> name_hash s"
    and gc: "gc_step (the (cells h d)) h = Some h1"
  shows "\<exists>h' l' a. updateArg h l n = Some (h', l', PIKA_RES_OK) \<and> updated h h1 us d vs n s h' l' a"
proof -
  have hok: "heap_ok h" and lok: "lst (cells h) (firstNode l) (us @ d # vs)"
    using ok by (simp_all add: args_ok_def)
  obtain c nxt where d: "cells h d = Some c" "union c = Next nxt" "arg_ok c"
    using args_ok_cell [OF ok, of d] by auto
  have dist: "distinct (us @ d # vs)" using lst_distinct [OF lok] .
  have inf: "b < fresh h" if "b \<in> set (us @ d # vs)" for b using args_ok_cell [OF ok that] by blast
  have nf: "n < fresh h" and oks: "arg_ok s" using heap_okD [OF hok new(1)] by auto
  note fr = gc_step_frame [OF gc]
  have h1: "heap_ok h1" "cells h1 d = Some c" "cells h1 n = Some s" using fr hok d new by auto
  obtain h2 a c' where h2: "arg_copy_content h1 (Some d) n = Some (h2, a)" "a = d \<or> a = fresh h"
    "cells h2 = ((cells h)(d := None))(a \<mapsto> c')" "carries c' s" "union c' = Next nxt" "heap_ok h2"
    "others h2 = others h" "objs h2 = objs h1" "events h2 = events h1"
    using arg_copy_content_upd [OF h1(1,2) d(2) h1(3) new(3)] fr by auto
  have a: "a = d \<or> a \<notin> set (us @ d # vs)" "a \<noteq> n" using h2(2) inf nf nx by auto
  have un: "union c' = union c" using h2(5) d(2) by simp
  obtain first where first: "firstNode l = Some first" using lok by (cases us) auto
  have loop: "update_loop h (name_hash s) first None = Some (Some d, if us = [] then None else Some (last us))"
    using update_loop_found [of h first us d vs "name_hash s" None] lok key first by simp
  define fin where "fin h3 = del_cell h3 n s" for h3
  have link: "\<exists>h3 l3. (case if us = [] then None else Some (last us) of
        None \<Rightarrow> Some (h2, l\<lparr>firstNode := Some a\<rparr>)
      | Some p \<Rightarrow> do { h' \<leftarrow> node_setNext h2 p (Some a); Some (h', l) }) = Some (h3, l3) \<and>
      args_ok h3 l3 (us @ a # vs) \<and> others h3 = others h2 \<and> objs h3 = objs h2 \<and> events h3 = events h2 \<and>
      (\<forall>p. refs (cells h3) p = refs (cells h2) p) \<and>
      (\<forall>b. map_option view (cells h3 b) = map_option view (cells h2 b)) \<and>
      (\<forall>b. b \<notin> set us \<longrightarrow> cells h3 b = cells h2 b)"
  proof (cases us rule: rev_cases)
    case Nil
    then show ?thesis
      using link_in_first [OF h2(6) _ d(1) h2(3) un, of "firstNode l" vs l] lok a by auto
  next
    case (snoc ws q)
    obtain cq where cq: "cells h q = Some cq" "node_setNext h2 q (Some a) = Some (set_cell h2 q (cq\<lparr>union := Next (Some a)\<rparr>))"
      "args_ok (set_cell h2 q (cq\<lparr>union := Next (Some a)\<rparr>)) l (ws @ q # a # vs)"
      "others (set_cell h2 q (cq\<lparr>union := Next (Some a)\<rparr>)) = others h2"
      using link_in_inner [OF h2(6,3) _ d(1) un, of l ws q vs] lok a snoc by auto
    have q2: "cells h2 q = Some cq" using cq(1) h2(3) dist a snoc by auto
    have "arg_ok cq" "serialized cq" using args_ok_cell [OF ok, of q] cq(1) snoc by auto
    then have "refs ((cells h2)(q \<mapsto> cq\<lparr>union := Next (Some a)\<rparr>)) p = refs (cells h2) p" for p
      using h2(6) q2 owns_union by (intro refs_same) (auto simp: heap_ok_def)
    with cq q2 snoc show ?thesis by auto
  qed
  then obtain h3 l3 where h3: "args_ok h3 l3 (us @ a # vs)" "others h3 = others h2" "objs h3 = objs h2"
    "events h3 = events h2" "\<And>b. map_option view (cells h3 b) = map_option view (cells h2 b)"
    "\<And>b. b \<notin> set us \<Longrightarrow> cells h3 b = cells h2 b" "\<And>p. refs (cells h3) p = refs (cells h2) p"
    and lk: "(case if us = [] then None else Some (last us) of
        None \<Rightarrow> Some (h2, l\<lparr>firstNode := Some a\<rparr>)
      | Some p \<Rightarrow> do { h' \<leftarrow> node_setNext h2 p (Some a); Some (h', l) }) = Some (h3, l3)" by blast
  have n3: "cells h3 n = Some s" using h3(6) [of n] h2(3) new(1) a(2) nx by auto
  have a3: "cells h3 a = Some c'" using h3(6) [of a] h2(3) a dist by auto
  have steps: "arg_deinitHeap h d = Some h1" "arg_isSerialized s = Some True" "arg_freeContent h3 n = Some (fin h3)"
    using arg_deinitHeap_eq [OF d(1,3)] gc d(1) oks new(2) arg_freeContent_eq [OF n3 oks new(2)]
    by (simp_all add: flag_getters arg_ok_def fin_def)
  have "updateArg h l n = Some (fin h3, l3, PIKA_RES_OK)"
    using loop lk unfolding updateArg_def first
    by (cases "us = []") (auto simp: new(1) steps h2(1) n3 bind_eq_Some_conv)
  moreover have "args_ok (fin h3) l3 (us @ a # vs)" "others (fin h3) = others h"
    using del_cell_ok [of h3 n s] h3(1,2) h2(7) n3 nx a(2) unfolding args_ok_def fin_def
    by (auto simp: lseg_frame)
  moreover have "map_option view (cells (fin h3) b) = map_option view (cells h b)" if "b \<in> set (us @ vs)" for b
  proof -
    have "b \<noteq> n" "b \<noteq> a" "b \<noteq> d" using that nx dist a by auto
    with h3(5) [of b] h2(3) show ?thesis by (simp add: fin_def)
  qed
  moreover have "cells (fin h3) b = cells h b" if "b \<notin> set (us @ d # vs)" "b \<noteq> n" "b \<noteq> a" for b
    using that h3(6) [of b] h2(3) by (simp add: fin_def)
  moreover have "cells (fin h3) a = Some c'" "cells (fin h3) n = None" using a3 a(2) by (simp_all add: fin_def)
  moreover have "refs (cells (fin h3)) p = refs ((cells h)(d := None)) p" if "sized s" for p
  proof -
    have "finite (dom (cells h))" using hok by (simp add: heap_ok_def)
    then have "refs (cells h2) p = (if owns p c' then 1 else 0) + refs ((cells h)(d := None)) p"
      unfolding h2(3) using a(1) h2(2) heap_ok_fresh [OF hok] by (intro refs_upd) auto
    moreover have "finite (dom (cells h3))" using h3(1) by (simp add: args_ok_def heap_ok_def)
    then have "refs (cells h3) p = (if owns p s then 1 else 0) + refs ((cells h3)(n := None)) p"
      using n3 by (rule refs_del)
    ultimately show ?thesis
      using carries_owns [OF h2(4) oks that] h3(7) by (simp add: fin_def)
  qed
  moreover have "cells (fin h3) d = None" if "a \<noteq> d"
    using that h3(6) [of d] h2(3) dist by (simp add: fin_def)
  moreover have "objs (fin h3) = objs h1" "events (fin h3) = events h1"
    using h2(8,9) h3(3,4) by (simp_all add: fin_def)
  ultimately show ?thesis unfolding updated_def using h2(2,4) by blast
qed

lemma updateArg_missing:
  assumes ok: "args_ok h l xs" and new: "cells h n = Some s"
    and key: "\<forall>u \<in> set xs. name_hash (the (cells h u)) \<noteq> name_hash s"
  shows "updateArg h l n = Some (h, l, PIKA_RES_ERR_ARG_NO_FOUND)"
proof (cases "firstNode l")
  case None
  then show ?thesis by (simp add: updateArg_def)
next
  case (Some p)
  then obtain q where "update_loop h (name_hash s) p None = Some (None, q)"
    using update_loop_none [of h p xs "name_hash s" None] ok key by (auto simp: args_ok_def)
  then show ?thesis using Some new by (simp add: updateArg_def)
qed

lemma link_addNode_ok:
  assumes ok: "args_ok h l xs" and new: "cells h n = Some s" "serialized s" "n \<notin> set xs"
  shows "link_addNode h l n = Some (set_cell h n (s\<lparr>union := Next (firstNode l)\<rparr>), l\<lparr>firstNode := Some n\<rparr>) \<and>
    args_ok (set_cell h n (s\<lparr>union := Next (firstNode l)\<rparr>)) (l\<lparr>firstNode := Some n\<rparr>) (n # xs) \<and>
    others (set_cell h n (s\<lparr>union := Next (firstNode l)\<rparr>)) = others h"
proof -
  have hok: "heap_ok h" "lst (cells h) (firstNode l) xs" using ok by (simp_all add: args_ok_def)
  have "arg_ok (s\<lparr>union := Next (firstNode l)\<rparr>)"
    using heap_okD [OF hok(1) new(1)] new(2) by (simp add: arg_ok_def)
  from set_cell_ok [OF hok(1) new(1) this] show ?thesis
    using hok(2) new by (simp add: link_addNode_def node_setNext_eq args_ok_def lseg_frame)
qed

lemma args_pushArg_ok:
  assumes ok: "args_ok h l xs" and new: "cells h n = Some s" "serialized s" "n \<notin> set xs"
  shows "args_pushArg h l n = link_addNode h l n"
proof -
  have "arg_ok s" using ok heap_okD new(1) unfolding args_ok_def by blast
  then show ?thesis using new by (simp add: args_pushArg_def flag_getters arg_ok_def)
qed

lemma view_carries: "serialized c \<Longrightarrow> carries (view c) s = carries c s"
  by (simp add: carries_def view_arg_ok view_payload)

lemma carries_refl: "arg_ok s \<Longrightarrow> serialized s \<Longrightarrow> carries s s"
  by (simp add: carries_def)

text \<open>
  The contract of the setters: the table stays well-formed with sound reference counts and no
  memory lost, the name is bound to a cell that satisfies \<open>Q\<close>, every other name to what it was
  bound to.
\<close>

definition bound_to ::
  "heap \<Rightarrow> nat list \<Rightarrow> heap \<Rightarrow> Link \<Rightarrow> nat list \<Rightarrow> u32 \<Rightarrow> (Arg \<Rightarrow> bool) \<Rightarrow> bool" where
  "bound_to h xs h' l' xs' k Q \<longleftrightarrow> args_ok h' l' xs' \<and> rc_ok h' \<and> others h' = others h \<and>
     (\<exists>c. lookup h' xs' k = Some c \<and> arg_ok c \<and> serialized c \<and> Q c) \<and>
     (\<forall>j. j \<noteq> k \<longrightarrow> lookup h' xs' j = lookup h xs j)"

lemma rc_ok_sized: "rc_ok h \<Longrightarrow> cells h a = Some c \<Longrightarrow> sized c"
  by (auto simp: rc_ok_def)

lemma rc_ok_set_cell:
  assumes "heap_ok h" "rc_ok h" "cells h a = Some c" "\<And>p. owns p c' = owns p c" "sized c'"
  shows "rc_ok (set_cell h a c')"
  using assms refs_same [of "cells h" a c c'] by (auto simp: rc_ok_def heap_ok_def split: if_splits)

lemma set_other_args:
  assumes "args_ok h l xs" "rc_ok h" "n \<notin> set xs" "cells h n = Some c" "arg_ok c'" "block c' = block c" "sized c'"
    "\<And>p. owns p c' = owns p c"
  shows "args_ok (set_cell h n c') l xs" "rc_ok (set_cell h n c')"
proof -
  have hok: "heap_ok h" using assms(1) by (simp add: args_ok_def)
  show "args_ok (set_cell h n c') l xs"
    using set_cell_ok(1) [OF hok assms(4-6)] assms(1,3) by (simp add: args_ok_def lseg_frame)
  show "rc_ok (set_cell h n c')" using rc_ok_set_cell [OF hok assms(2,4,8,7)] .
qed

lemma owns_name: "owns p (c\<lparr>name_hash := k\<rparr>) = owns p c"
  by (simp add: owns_def arg_getPtr_def arg_getContent_def arg_isSerialized_def get_flag_def)

lemma updated_bound:
  assumes ok: "args_ok h l (us @ d # vs)" and up: "updated h h1 us d vs n s h' l' a"
    and key: "name_hash (the (cells h d)) = name_hash s" "\<forall>u \<in> set us. name_hash (the (cells h u)) \<noteq> name_hash s"
    and rc: "rc_ok h'"
  shows "bound_to h (us @ d # vs) h' l' (us @ a # vs) (name_hash s) (\<lambda>c. carries c s)"
proof -
  obtain c where c: "cells h' a = Some c" "carries c s" using up by (auto simp: updated_def)
  have vw: "map_option view (cells h' b) = map_option view (cells h b)" if "b \<in> set (us @ vs)" for b
    using up that by (simp add: updated_def)
  have ex: "cells h b \<noteq> None" if "b \<in> set (us @ d # vs)" for b using args_ok_cell [OF ok that] by auto
  have nh: "name_hash (the (cells h' b)) = name_hash (the (cells h b))" if b: "b \<in> set us" for b
  proof -
    obtain x y where "cells h b = Some x" "cells h' b = Some y" "view y = view x"
      using vw [of b] ex [of b] b by auto
    then show ?thesis by (metis option.sel view_simps(4))
  qed
  have fu: "finds h' k us = finds h k us" for k by (rule finds_cong) (rule nh)
  have lu: "lookup h' us k = lookup h us k" "lookup h' vs k = lookup h vs k" for k
    by (rule lookup_cong; use vw ex in auto)+
  have "finds h (name_hash s) us = None" using key(2) by (simp add: finds_None)
  moreover have "name_hash c = name_hash s" "serialized c" "arg_ok c" using c(2) by (simp_all add: carries_def)
  ultimately have "lookup h' (us @ a # vs) (name_hash s) = Some (view c)" "carries (view c) s"
    "arg_ok (view c)" "serialized (view c)"
    using c by (simp_all add: lookup_append fu lookup_Cons view_carries view_arg_ok)
  moreover have "lookup h' (us @ a # vs) k = lookup h (us @ d # vs) k" if "k \<noteq> name_hash s" for k
    using that key(1) c by (auto simp: lookup_append fu lu lookup_Cons carries_def split: option.splits)
  ultimately show ?thesis using up rc by (auto simp: bound_to_def updated_def)
qed

lemma updated_rc:
  assumes up: "updated h h1 us d vs n s h' l' a" and h: "heap_ok h" "rc_ok h" and s: "cells h n = Some s"
    and ok: "args_ok h l (us @ d # vs)" and rc: "rc_ok (h1\<lparr>cells := (cells h1)(d := None)\<rparr>)" "cells h1 = cells h"
  shows "rc_ok h'"
proof -
  have sz: "sized s" using rc_ok_sized [OF h(2) s] .
  have "sized c" if c: "cells h' b = Some c" for b c
  proof (cases "b = a \<or> b = n")
    case True
    then show ?thesis using up c sz carries_sized by (auto simp: updated_def)
  next
    case False
    show ?thesis
    proof (cases "b \<in> set (us @ vs)")
      case True
      then have "map_option view (cells h' b) = map_option view (cells h b)"
        using up unfolding updated_def by blast
      then have "map_option view (cells h b) = Some (view c)" using c by simp
      then obtain c0 where "cells h b = Some c0" "view c0 = view c" by auto
      then show ?thesis
        using rc_ok_sized [OF h(2), of b c0] unfolding sized_def by (metis view_simps(1,2))
    next
      case nin: False
      then show ?thesis
      proof (cases "b = d")
        case True
        have "a \<noteq> d" using False True by simp
        then show ?thesis using True up c by (simp add: updated_def)
      next
        case False2: False
        then show ?thesis using up c False nin rc_ok_sized [OF h(2)] by (auto simp: updated_def)
      qed
    qed
  qed
  moreover have "refs (cells h') p = refs ((cells h)(d := None)) p" for p
    using up sz by (simp add: updated_def)
  moreover have "objs h' = objs h1" using up by (simp add: updated_def)
  ultimately show ?thesis using rc by (simp add: rc_ok_def)
qed

text \<open>The counts are sound, so whatever a name is bound to can be released.\<close>

lemma args_setArg_bound:
  assumes ok: "args_ok h l xs" "rc_ok h" and new: "cells h n = Some s" "serialized s" "n \<notin> set xs"
  shows "\<exists>h' l' xs'. args_setArg h l n = Some (h', l') \<and>
    bound_to h xs h' l' xs' (name_hash s) (\<lambda>c. carries c s)"
proof -
  have hok: "heap_ok h" using ok by (simp add: args_ok_def)
  have oks: "arg_ok s" using heap_okD [OF hok new(1)] by simp
  show ?thesis
  proof (cases "finds h (name_hash s) xs")
    case None
    then have key: "\<forall>u \<in> set xs. name_hash (the (cells h u)) \<noteq> name_hash s" by (simp add: finds_None)
    let ?s = "s\<lparr>union := Next (firstNode l)\<rparr>" and ?l = "l\<lparr>firstNode := Some n\<rparr>"
    let ?h = "set_cell h n ?s"
    have add: "args_setArg h l n = Some (?h, ?l)" "args_ok ?h ?l (n # xs)" "others ?h = others h"
      using link_addNode_ok [OF ok(1) new] args_pushArg_ok [OF ok(1) new] updateArg_missing [OF ok(1) new(1) key]
      by (simp_all add: args_setArg_def)
    have c: "carries (view s) s" using view_carries [OF new(2)] carries_refl oks new(2) by simp
    have "lookup ?h xs k = lookup h xs k" for k
      using new(3) args_ok_cell [OF ok(1)] by (intro lookup_cong) fastforce+
    moreover have "rc_ok ?h"
      using rc_ok_set_cell [OF hok ok(2) new(1), of ?s] owns_union [OF new(2) oks] rc_ok_sized [OF ok(2) new(1)]
      by simp
    ultimately have "bound_to h xs ?h ?l (n # xs) (name_hash s) (\<lambda>c. carries c s)"
      using add c new(2) oks view_arg_ok [OF new(2)] by (auto simp: bound_to_def lookup_Cons)
    with add(1) show ?thesis by blast
  next
    case (Some d)
    then obtain us vs where xs: "xs = us @ d # vs" and key: "name_hash (the (cells h d)) = name_hash s"
      "\<forall>u \<in> set us. name_hash (the (cells h u)) \<noteq> name_hash s" using finds_SomeD by blast
    obtain c where c: "cells h d = Some c" "arg_ok c" using args_ok_cell [OF ok(1), of d] xs by auto
    obtain h1 where gc: "gc_step (the (cells h d)) h = Some h1" "rc_ok (h1\<lparr>cells := (cells h1)(d := None)\<rparr>)"
      using gc_step_rc [OF hok ok(2) c(1)] c(1) by auto
    have fit: "fits (asize s)" using oks new(2) by (simp add: arg_ok_def)
    obtain h' l' a where up: "updateArg h l n = Some (h', l', PIKA_RES_OK)" "updated h h1 us d vs n s h' l' a"
      using updateArg_found [OF ok(1) [unfolded xs] new(1,2) fit _ key gc(1)] new(3) xs by auto
    have "rc_ok h'"
      using updated_rc [OF up(2) hok ok(2) new(1) ok(1) [unfolded xs] gc(2)] gc_step_frame(1) [OF gc(1)] by simp
    from updated_bound [OF ok(1) [unfolded xs] up(2) key this] up(1) xs show ?thesis
      by (auto simp: args_setArg_def)
  qed
qed

text \<open>Setting a variable to a new cell.\<close>

lemma add_cell_args:
  assumes "args_ok h l xs" "rc_ok h" "arg_ok c" "sized c" "\<And>p. \<not> owns p c"
  shows "args_ok (add_cell h c) l xs" "rc_ok (add_cell h c)" "others (add_cell h c) = others h"
    "fresh h \<notin> set xs" "lookup (add_cell h c) xs k = lookup h xs k"
proof -
  have hok: "heap_ok h" using assms(1) by (simp add: args_ok_def)
  show nin: "fresh h \<notin> set xs" using args_ok_cell [OF assms(1), of "fresh h"] by auto
  then show "args_ok (add_cell h c) l xs" "others (add_cell h c) = others h"
    using assms(1) add_cell_ok [OF hok assms(3)] by (simp_all add: args_ok_def lseg_frame)
  have "refs ((cells h)(fresh h \<mapsto> c)) p = refs (cells h) p" for p
    using refs_upd [of "cells h" "fresh h" c p] hok assms(5) by (simp add: heap_ok_def)
  then show "rc_ok (add_cell h c)" using assms(2,4) by (auto simp: rc_ok_def split: if_splits)
  show "lookup (add_cell h c) xs k = lookup h xs k"
    using nin args_ok_cell [OF assms(1)] by (intro lookup_cong) fastforce+
qed

lemma args_setNew:
  assumes ok: "args_ok h l xs" "rc_ok h" and c: "arg_ok c" "serialized c" "sized c" "\<And>p. \<not> owns p c"
  shows "\<exists>h' l' xs'. args_setArg (add_cell h c) l (fresh h) = Some (h', l') \<and>
    bound_to h xs h' l' xs' (name_hash c) (\<lambda>x. carries x c)"
proof -
  note add = add_cell_args [OF ok c(1,3,4)]
  have "cells (add_cell h c) (fresh h) = Some c" by simp
  from args_setArg_bound [OF add(1,2) this c(2) add(4)] show ?thesis
    using add(3,5) by (auto simp: bound_to_def)
qed

lemma args_pushNew:
  assumes ok: "args_ok h l xs" "rc_ok h" and c: "arg_ok c" "serialized c" "sized c" "\<And>p. \<not> owns p c"
  shows "\<exists>h' l' xs'. args_pushArg (add_cell h c) l (fresh h) = Some (h', l') \<and>
    bound_to h xs h' l' xs' (name_hash c) (\<lambda>x. x = view c) \<and> xs' = fresh h # xs \<and>
    cells h' = (cells h)(fresh h \<mapsto> c\<lparr>union := Next (firstNode l)\<rparr>)"
proof -
  note add = add_cell_args [OF ok c(1,3,4)]
  let ?s = "c\<lparr>union := Next (firstNode l)\<rparr>" and ?l = "l\<lparr>firstNode := Some (fresh h)\<rparr>"
  let ?h = "set_cell (add_cell h c) (fresh h) ?s"
  have new: "cells (add_cell h c) (fresh h) = Some c" by simp
  have push: "args_pushArg (add_cell h c) l (fresh h) = Some (?h, ?l)" "args_ok ?h ?l (fresh h # xs)"
    "others ?h = others h"
    using link_addNode_ok [OF add(1) new c(2) add(4)] args_pushArg_ok [OF add(1) new c(2) add(4)] add(3) by simp_all
  have "rc_ok ?h"
    using rc_ok_set_cell [OF _ add(2) new, of ?s] add(1) owns_union [OF c(2,1)] c(3) by (simp add: args_ok_def)
  moreover have "lookup ?h xs k = lookup h xs k" for k
    using add(4,5) args_ok_cell [OF ok(1)] by (intro lookup_cong) fastforce+
  ultimately have "bound_to h xs ?h ?l (fresh h # xs) (name_hash c) (\<lambda>x. x = view c)"
    using push(2,3) c(1,2) view_arg_ok [OF c(2)] by (auto simp: bound_to_def lookup_Cons)
  moreover have "cells ?h = (cells h)(fresh h \<mapsto> ?s)" by simp
  ultimately show ?thesis using push(1) by blast
qed

section \<open>Releasing cells\<close>

lemma arg_deinit_rc:
  assumes h: "heap_ok h" "rc_ok h" and c: "cells h a = Some c" "serialized c"
  shows "\<exists>h'. arg_deinit h a = Some h' \<and> heap_ok h' \<and> rc_ok h' \<and> cells h' = (cells h)(a := None) \<and>
    others h' = others h \<and> fresh h' = fresh h"
proof -
  have ok: "arg_ok c" using heap_okD [OF h(1) c(1)] by simp
  obtain h1 where h1: "gc_step c h = Some h1" "rc_ok (h1\<lparr>cells := (cells h1)(a := None)\<rparr>)"
    using gc_step_rc [OF h c(1)] by blast
  note fr = gc_step_frame [OF h1(1)]
  have "arg_deinit h a = Some (del_cell h1 a c)" by (rule arg_deinit_eq [OF c(1) ok c(2) h1(1)])
  moreover have "rc_ok (del_cell h1 a c)" using h1(2) by (simp add: rc_ok_def)
  moreover have "heap_ok (del_cell h1 a c)" "others (del_cell h1 a c) = others h"
    using del_cell_ok [of h1 a c] fr h(1) c(1) by simp_all
  ultimately show ?thesis using fr by auto
qed

text \<open>Releasing a whole list.\<close>

lemma deinit_loop_ok:
  assumes "heap_ok h" "rc_ok h" "lst (cells h) p xs"
  shows "\<exists>h'. deinit_loop h p = Some h' \<and> heap_ok h' \<and> rc_ok h' \<and> others h' = others h \<and>
    cells h' = (\<lambda>a. if a \<in> set xs then None else cells h a)"
  using assms
proof (induction xs arbitrary: h p)
  case Nil
  then show ?case by (subst deinit_loop.simps) simp
next
  case (Cons a xs)
  then obtain c nx where c: "p = Some a" "cells h a = Some c" "union c = Next nx" "lst (cells h) nx xs" by auto
  have a: "a \<notin> set xs" using lst_hd_notin Cons.prems(3) c(1) by blast
  have "serialized c" using heap_okD [OF Cons.prems(1) c(2)] linked_serialized c(3) by blast
  from arg_deinit_rc [OF Cons.prems(1,2) c(2) this] obtain h1 where
    h1: "arg_deinit h a = Some h1" "heap_ok h1" "rc_ok h1" "cells h1 = (cells h)(a := None)" "others h1 = others h"
    by blast
  have "lst (cells h1) nx xs" using c(4) a h1(4) by (simp add: lseg_frame)
  from Cons.IH [OF h1(2,3) this] obtain h' where
    IH: "deinit_loop h1 nx = Some h'" "heap_ok h'" "rc_ok h'" "others h' = others h1"
    "cells h' = (\<lambda>b. if b \<in> set xs then None else cells h1 b)" by blast
  have "deinit_loop h p = Some h'"
    using c h1(1) IH(1) by (subst deinit_loop.simps) (simp add: node_next_eq linkNode_deinit_def)
  moreover have "cells h' = (\<lambda>b. if b \<in> set (a # xs) then None else cells h b)"
    using IH(5) h1(4) by (auto simp: fun_eq_iff)
  ultimately show ?case using IH h1 by simp
qed

section \<open>Removing a cell\<close>

lemma link_removeNode_ok:
  assumes ok: "args_ok h l (us @ d # vs)"
  shows "\<exists>h' l'. link_removeNode_notDeinitNode h l d = Some (h', l') \<and>
    link_removeNode h l d = do { h3 \<leftarrow> arg_deinit h' d; Some (h3, l') } \<and>
    args_ok h' l' (us @ vs) \<and> cells h' d = cells h d \<and> others h' = others h \<and> fresh h' = fresh h \<and>
    objs h' = objs h \<and> events h' = events h \<and>
    (\<forall>b. map_option view (cells h' b) = map_option view (cells h b)) \<and>
    (\<forall>b. b \<notin> set us \<longrightarrow> cells h' b = cells h b) \<and> (\<forall>p. refs (cells h') p = refs (cells h) p)"
proof -
  have hok: "heap_ok h" and lok: "lst (cells h) (firstNode l) (us @ d # vs)"
    using ok by (simp_all add: args_ok_def)
  have dist: "distinct (us @ d # vs)" using lst_distinct [OF lok] .
  obtain c nx where c: "cells h d = Some c" "union c = Next nx" using args_ok_cell [OF ok, of d] by auto
  have find: "find_node h d (firstNode l) None = Some (Some d, if us = [] then None else Some (last us))"
    using find_node_found [OF lok, of None] dist by simp
  note defs = link_removeNode_notDeinitNode_def link_removeNode_def link_removeNode_ex_def linkNode_deinit_def
  show ?thesis
  proof (cases us rule: rev_cases)
    case Nil
    then have "firstNode l = Some d" using lok by simp
    then have "link_removeNode_notDeinitNode h l d = Some (h, l\<lparr>firstNode := nx\<rparr>)"
      "link_removeNode h l d = do { h3 \<leftarrow> arg_deinit h d; Some (h3, l\<lparr>firstNode := nx\<rparr>) }"
      using find Nil c by (simp_all add: defs node_next_eq)
    moreover have "args_ok h (l\<lparr>firstNode := nx\<rparr>) vs"
      using lst_remove_first [of "cells h" "firstNode l" d vs] lok c hok Nil by (simp add: args_ok_def)
    ultimately show ?thesis using Nil by auto
  next
    case (snoc ws q)
    obtain cq nq where q: "cells h q = Some cq" "union cq = Next nq" "arg_ok cq" "serialized cq"
      using args_ok_cell [OF ok, of q] snoc by auto
    have fd: "firstNode l \<noteq> Some d" using lok dist snoc by (cases ws) auto
    let ?c = "cq\<lparr>union := Next nx\<rparr>" and ?h = "set_cell h q (cq\<lparr>union := Next nx\<rparr>)"
    have "link_removeNode_notDeinitNode h l d = Some (?h, l)"
      "link_removeNode h l d = do { h3 \<leftarrow> arg_deinit ?h d; Some (h3, l) }"
      using find snoc c q fd by (simp_all add: defs node_next_eq node_setNext_eq)
    moreover have "arg_ok ?c" using q by (simp add: arg_ok_def)
    then have "args_ok ?h l (us @ vs)" "others ?h = others h"
      using set_cell_ok [OF hok q(1), of ?c] lst_remove_inner [of "cells h" "firstNode l" ws q d vs] lok c q snoc
      by (simp_all add: args_ok_def)
    moreover have "d \<noteq> q" using dist snoc by auto
    moreover have "refs (cells ?h) p = refs (cells h) p" for p
      using hok q owns_union by (simp add: heap_ok_def refs_same)
    ultimately show ?thesis
      using q(1) snoc by (intro exI [of _ ?h] exI [of _ l] conjI) auto
  qed
qed

section \<open>Reading a variable\<close>

lemma getContent_view: "serialized c \<Longrightarrow> arg_ok c \<Longrightarrow> arg_getContent (view c) = arg_getContent c"
  by (simp add: view_def getContent_union)

lemma with_arg_lookup:
  assumes ok: "args_ok h l xs" and get: "\<And>c. serialized c \<Longrightarrow> arg_ok c \<Longrightarrow> get (view c) = get c"
  shows "with_arg h l name miss get =
    (case lookup h xs (hash_time33 name) of None \<Rightarrow> Some miss | Some c \<Rightarrow> get c)"
proof (cases "finds h (hash_time33 name) xs")
  case None
  then show ?thesis
    using args_getNode_hash_eq [OF ok] by (simp add: with_arg_def args_getArg_def args_getNode_def lookup_def)
next
  case (Some a)
  then have "a \<in> set xs" using finds_SomeD by fastforce
  then obtain c where "cells h a = Some c" "arg_ok c" "serialized c" using args_ok_cell [OF ok] by blast
  with Some get show ?thesis
    using args_getNode_hash_eq [OF ok] by (simp add: with_arg_def args_getArg_def args_getNode_def lookup_def)
qed

lemma getters_view:
  assumes "serialized c" "arg_ok c"
  shows "arg_getInt (view c) = arg_getInt c" "arg_getFloat (view c) = arg_getFloat c"
    "arg_getBool (view c) = arg_getBool c" "arg_getPtr (view c) = arg_getPtr c"
    "arg_getBytesSize (view c) = arg_getBytesSize c" "arg_getBytes (view c) = arg_getBytes c"
  using getContent_view [OF assms]
  by (simp_all add: arg_getInt_def arg_getFloat_def arg_getBool_def arg_getPtr_def arg_getBytesSize_def
      arg_getBytes_def content_bytes_def cong: if_cong)

lemma args_getInt_lookup:
  "args_ok h l xs \<Longrightarrow> args_getInt h l name =
     (case lookup h xs (hash_time33 name) of
        None \<Rightarrow> Some PIKA_INT_ERR
      | Some arg \<Rightarrow> if atype arg = ARG_TYPE_INT then arg_getInt arg
            else if atype arg = ARG_TYPE_FLOAT then do { f \<leftarrow> arg_getFloat arg; f64_to_int 32 f }
            else if atype arg = ARG_TYPE_BOOL then arg_getBool arg
            else Some PIKA_INT_ERR)"
  unfolding args_getInt_def by (rule with_arg_lookup) (simp_all add: getters_view)

lemma args_getStr_lookup:
  "args_ok h l xs \<Longrightarrow> args_getStr h l name =
     (case lookup h xs (hash_time33 name) of
        None \<Rightarrow> Some None
      | Some arg \<Rightarrow> do {
          b \<leftarrow> arg_getContent arg;
          (case b of None \<Rightarrow> Some None | Some bs \<Rightarrow> do { s \<leftarrow> bytes_str bs; Some (Some s) }) })"
  unfolding args_getStr_def by (rule with_arg_lookup) (simp_all add: getContent_view)

lemma args_getFloat_lookup:
  "args_ok h l xs \<Longrightarrow> args_getFloat h l name =
     (case lookup h xs (hash_time33 name) of
        None \<Rightarrow> Some PIKA_FLOAT_ERR
      | Some arg \<Rightarrow> if atype arg = ARG_TYPE_FLOAT then arg_getFloat arg
            else if atype arg = ARG_TYPE_INT then do { i \<leftarrow> arg_getInt arg; Some (f64_of_i64 i) }
            else Some PIKA_FLOAT_ERR)"
  unfolding args_getFloat_def by (rule with_arg_lookup) (simp_all add: getters_view)

section \<open>Integers, floats and strings in the table\<close>

lemma set_cell_bound:
  assumes ok: "args_ok h l xs" "rc_ok h" and a: "finds h k xs = Some a" "cells h a = Some c"
    and c': "arg_ok c'" "serialized c'" "union c' = union c" "name_hash c' = name_hash c" "block c' = block c"
      "sized c'" "\<And>p. owns p c' = owns p c"
  shows "bound_to h xs (set_cell h a c') l xs k (\<lambda>x. x = view c')"
proof -
  have hok: "heap_ok h" using ok by (simp add: args_ok_def)
  have nh: "name_hash (the (cells (set_cell h a c') b)) = name_hash (the (cells h b))" for b
    using a(2) c'(4) by simp
  have f: "finds (set_cell h a c') j xs = finds h j xs" for j by (rule finds_cong) (rule nh)
  have "args_ok (set_cell h a c') l xs" "others (set_cell h a c') = others h"
    using set_cell_ok [OF hok a(2) c'(1,5)] ok(1) a(2) c'(3) by (simp_all add: args_ok_def lseg_same_union)
  moreover have "rc_ok (set_cell h a c')" using rc_ok_set_cell [OF hok ok(2) a(2) c'(7,6)] .
  moreover have "lookup (set_cell h a c') xs k = Some (view c')" using a f by (simp add: lookup_def)
  moreover have "lookup (set_cell h a c') xs j = lookup h xs j" if "j \<noteq> k" for j
  proof -
    have "finds h j xs \<noteq> Some a" using a(1) that finds_SomeD by metis
    then show ?thesis by (cases "finds h j xs") (auto simp: lookup_def f)
  qed
  ultimately show ?thesis using c' by (simp add: bound_to_def view_arg_ok)
qed

lemma new_u64:
  assumes "t \<noteq> ARG_TYPE_OBJECT"
  shows "\<exists>c. arg_set h None nm t (Some (enc_u64 v)) 8 = Some (add_cell h c, fresh h) \<and> arg_ok c \<and> serialized c \<and>
    sized c \<and> (\<forall>p. \<not> owns p c) \<and> name_hash c = hash_time33 nm \<and> atype c = t \<and> payload c = enc_u64 v \<and>
    asize c = 8 \<and> block c = Some (SIZEOF_ARG + 8)"
proof -
  have "fits 8" by (simp add: U32_def)
  then show ?thesis
    using assms u64.enc_length [of v] arg_create_eq(3) [of 8 "Some (enc_u64 v)" h nm t]
    by (intro exI [of _ "mk_arg None (hash_time33 nm) t 8 (init_bytes (Some (enc_u64 v)) 8)"])
      (simp add: mk_arg_ok take_init_bytes sized_def owns_def)
qed

lemma dec_payload_u64:
  assumes "arg_ok c" "8 \<le> asize c" "take 8 (payload c) = enc_u64 v"
  shows "dec_u64 (payload c) = Some v"
  using u64.dec_take [OF assms(3)] by simp

text \<open>The branch of \<open>args_setInt\<close> that pushes a new cell.\<close>

lemma push_int:
  assumes ok: "args_ok h l xs" "rc_ok h"
  shows "\<exists>h' l' xs'. do { (h1, n) \<leftarrow> arg_setInt h None [] v; args_pushArg_name h1 l nm n } = Some (h', l') \<and>
    bound_to h xs h' l' xs' (hash_time33 nm) (\<lambda>c. atype c = ARG_TYPE_INT \<and> arg_getInt c = Some v) \<and>
    xs' = fresh h # xs \<and> (\<exists>c. cells h' = (cells h)(fresh h \<mapsto> c) \<and> name_hash c = hash_time33 nm)"
proof -
  obtain c where c: "arg_set h None [] ARG_TYPE_INT (Some (enc_u64 v)) 8 = Some (add_cell h c, fresh h)" "arg_ok c"
    "serialized c" "sized c" "\<forall>p. \<not> owns p c" "atype c = ARG_TYPE_INT" "payload c = enc_u64 v" "asize c = 8"
    using new_u64 [of ARG_TYPE_INT h "[]" v] by auto
  let ?c = "c\<lparr>name_hash := hash_time33 nm\<rparr>"
  have c2: "arg_ok ?c" "serialized ?c" "sized ?c" "\<And>p. \<not> owns p ?c" "name_hash ?c = hash_time33 nm"
    using c by (simp_all add: sized_def owns_def)
  have "arg_getInt ?c = Some v"
    using payload_u64(1) [OF c2(1)] c(7,8) u64.dec_enc [of v "[]"] by simp
  then have g: "arg_getInt (view ?c) = Some v" using getters_view(1) [OF c2(2,1)] by simp
  obtain h' l' xs' where p: "args_pushArg (add_cell h ?c) l (fresh h) = Some (h', l')"
    "bound_to h xs h' l' xs' (hash_time33 nm) (\<lambda>x. x = view ?c)" "xs' = fresh h # xs"
    "cells h' = (cells h)(fresh h \<mapsto> ?c\<lparr>union := Next (firstNode l)\<rparr>)"
    using args_pushNew [OF ok c2(1-4)] by auto
  then have "bound_to h xs h' l' xs' (hash_time33 nm) (\<lambda>c. atype c = ARG_TYPE_INT \<and> arg_getInt c = Some v)"
    using g c(6) by (auto simp: bound_to_def)
  moreover have "\<exists>c. cells h' = (cells h)(fresh h \<mapsto> c) \<and> name_hash c = hash_time33 nm"
    by (intro exI conjI, rule p(4)) simp
  ultimately show ?thesis using p(1,3) c(1)
    by (intro exI [of _ h'] exI [of _ l'] exI [of _ xs'])
      (simp add: arg_setInt_def args_pushArg_name_def arg_setName_def arg_setNameHash_def)
qed

lemma args_setInt_push:
  assumes ok: "args_ok h l xs"
    and no: "\<nexists>a c. finds h (hash_time33 nm) xs = Some a \<and> cells h a = Some c \<and> atype c = ARG_TYPE_INT"
  shows "args_setInt h l nm v = do { (h1, n) \<leftarrow> arg_setInt h None [] v; args_pushArg_name h1 l nm n }"
  using no args_getNode_hash_eq [OF ok] args_ok_cell [OF ok] finds_SomeD [of h "hash_time33 nm" xs]
  by (auto simp: args_setInt_def args_getArg_def args_getNode_def split: option.splits) fastforce

lemma args_setInt_poke:
  assumes ok: "args_ok h l xs" "rc_ok h"
    and a: "finds h (hash_time33 nm) xs = Some a" "cells h a = Some c" "atype c = ARG_TYPE_INT"
  shows "\<exists>c'. args_setInt h l nm v = Some (set_cell h a c', l) \<and> a \<in> set xs \<and>
    bound_to h xs (set_cell h a c') l xs (hash_time33 nm) (\<lambda>c. atype c = ARG_TYPE_INT \<and> arg_getInt c = Some v)"
proof -
  have nin: "a \<in> set xs" using finds_SomeD [OF a(1)] by auto
  then have c: "arg_ok c" "serialized c" using args_ok_cell [OF ok(1)] a(2) by fastforce+
  have 8: "8 \<le> asize c" using rc_ok_sized [OF ok(2) a(2)] a(3) by (simp add: sized_def)
  obtain c' where c': "content_write c 0 (enc_u64 v) = Some c'" "arg_ok c'" "asize c' = asize c" "atype c' = atype c"
    "name_hash c' = name_hash c" "flag c' = flag c" "block c' = block c" "union c' = union c"
    "payload c' = enc_u64 v @ drop 8 (payload c)"
    using content_write_ok [OF c(1), of 0 "enc_u64 v"] 8 c(2) u64.enc_length [of v] by auto
  have s': "serialized c'" using c(2) c'(6) by (simp add: serialized_def)
  have "sized c'" "owns p c' = owns p c" for p using 8 c'(3,4) a(3) by (simp_all add: sized_def owns_def)
  then have b: "bound_to h xs (set_cell h a c') l xs (hash_time33 nm) (\<lambda>x. x = view c')"
    using set_cell_bound [OF ok a(1,2) c'(2) s' c'(8,5,7)] by blast
  have "arg_getInt (view c') = Some v"
    using getters_view(1) [OF s' c'(2)] payload_u64(1) [OF c'(2)] 8 c'(3,9) u64.dec_enc by simp
  then have "bound_to h xs (set_cell h a c') l xs (hash_time33 nm) (\<lambda>c. atype c = ARG_TYPE_INT \<and> arg_getInt c = Some v)"
    using b c'(4) a(3) by (auto simp: bound_to_def)
  moreover have "args_setInt h l nm v = Some (set_cell h a c', l)"
    using args_getNode_hash_eq [OF ok(1)] a c'(1)
    by (simp add: args_setInt_def args_getArg_def args_getNode_def poke_u64_def)
  ultimately show ?thesis using nin by blast
qed

lemma args_setInt_bound:
  assumes ok: "args_ok h l xs" "rc_ok h"
  shows "\<exists>h' l' xs'. args_setInt h l nm v = Some (h', l') \<and>
    bound_to h xs h' l' xs' (hash_time33 nm) (\<lambda>c. atype c = ARG_TYPE_INT \<and> arg_getInt c = Some v)"
proof (cases "\<exists>a c. finds h (hash_time33 nm) xs = Some a \<and> cells h a = Some c \<and> atype c = ARG_TYPE_INT")
  case False
  with args_setInt_push [OF ok(1)] push_int [OF ok, of v nm] show ?thesis by auto
next
  case True
  with args_setInt_poke [OF ok, of nm] show ?thesis by blast
qed

lemma args_setFloat_bound:
  assumes ok: "args_ok h l xs" "rc_ok h"
  shows "\<exists>h' l' xs'. args_setFloat h l nm v = Some (h', l') \<and>
    bound_to h xs h' l' xs' (hash_time33 nm) (\<lambda>c. atype c = ARG_TYPE_FLOAT \<and> arg_getFloat c = Some v)"
proof -
  obtain c where c: "arg_set h None nm ARG_TYPE_FLOAT (Some (enc_u64 v)) 8 = Some (add_cell h c, fresh h)" "arg_ok c"
    "serialized c" "sized c" "\<And>p. \<not> owns p c" "name_hash c = hash_time33 nm" "atype c = ARG_TYPE_FLOAT"
    "payload c = enc_u64 v" "asize c = 8"
    using new_u64 [of ARG_TYPE_FLOAT h nm v] by auto
  obtain h' l' xs' where p: "args_setArg (add_cell h c) l (fresh h) = Some (h', l')"
    "bound_to h xs h' l' xs' (hash_time33 nm) (\<lambda>x. carries x c)"
    using args_setNew [OF ok c(2-5)] c(6) by auto
  have "arg_getFloat x = Some v" if "carries x c" for x
  proof -
    have x: "arg_ok x" "8 \<le> asize x" "take 8 (payload x) = enc_u64 v" using that c(8,9) by (auto simp: carries_def)
    then show ?thesis using payload_u64(2) dec_payload_u64 by simp
  qed
  then have "bound_to h xs h' l' xs' (hash_time33 nm) (\<lambda>c. atype c = ARG_TYPE_FLOAT \<and> arg_getFloat c = Some v)"
    using p(2) c(7) by (auto simp: bound_to_def carries_def)
  with p(1) c(1) show ?thesis
    by (intro exI [of _ h'] exI [of _ l'] exI [of _ xs']) (simp add: args_setFloat_def arg_setFloat_def)
qed

lemma args_setStr_bound:
  assumes ok: "args_ok h l xs" "rc_ok h" and s: "cstring s" "fits (length s + 1)"
  shows "\<exists>h' l' xs'. args_setStr h l nm (Some s) = Some (h', l', PIKA_RES_OK) \<and>
    bound_to h xs h' l' xs' (hash_time33 nm) (\<lambda>c. atype c = ARG_TYPE_STRING \<and> arg_getStr c = Some s)"
proof -
  let ?src = "map char_byte s @ [0]"
  let ?c = "mk_arg None (hash_time33 nm) ARG_TYPE_STRING (length s + 1) (init_bytes (Some ?src) (length s + 1))"
  have new: "arg_setStr h None nm (Some s) = Some (add_cell h ?c, Some (fresh h))"
    using s by (simp add: arg_setStr_def strGetSize_def arg_create_eq)
  have c: "arg_ok ?c" "serialized ?c" "sized ?c" "\<And>p. \<not> owns p ?c" "payload ?c = ?src"
    using s by (simp_all add: mk_arg_ok sized_def owns_def take_init_bytes)
  obtain h' l' xs' where p: "args_setArg (add_cell h ?c) l (fresh h) = Some (h', l')"
    "bound_to h xs h' l' xs' (hash_time33 nm) (\<lambda>x. carries x ?c)"
    using args_setNew [OF ok c(1-4)] by auto
  have "arg_getStr x = Some s" if car: "carries x ?c" for x
  proof -
    have x: "arg_ok x" "length s + 1 \<le> asize x" "take (length s + 1) (payload x) = ?src"
      using car c(5) by (simp_all add: carries_def)
    obtain b where b: "content_bytes x = Some b" "asize x \<le> length b" "take (asize x) b = payload x"
      using arg_ok_content [OF x(1)] by auto
    have "take (length s + 1) b = ?src" using b(3) x(2,3) by (metis min.absorb1 take_take)
    then have "b = map char_byte s @ 0 # drop (length s + 1) b"
      by (metis append.assoc append_Cons append_Nil append_take_drop_id)
    then show ?thesis using bytes_str_map [OF s(1)] b(1) by (metis arg_getStr_def bind.bind_lunit)
  qed
  then have "bound_to h xs h' l' xs' (hash_time33 nm) (\<lambda>c. atype c = ARG_TYPE_STRING \<and> arg_getStr c = Some s)"
    using p(2) by (auto simp: bound_to_def carries_def)
  with p(1) new show ?thesis
    by (intro exI [of _ h'] exI [of _ l'] exI [of _ xs']) (simp add: args_setStr_def)
qed

section \<open>The store contract\<close>

text \<open>
  What the other components rely on when they keep values by name: a value that is put under a name
  is read back, and the other names keep theirs. Names are told apart by their key.
\<close>

locale keyed_store =
  fixes inv :: "'s \<Rightarrow> bool"
    and key :: "'n \<Rightarrow> 'k"
    and get :: "'s \<Rightarrow> 'n \<Rightarrow> 'v option"
    and put :: "'s \<Rightarrow> 'n \<Rightarrow> 'v \<Rightarrow> 's option"
    and valid :: "'v \<Rightarrow> bool"
  assumes put_get: "inv s \<Longrightarrow> valid v \<Longrightarrow>
    \<exists>s'. put s n v = Some s' \<and> inv s' \<and> get s' n = Some v \<and> (\<forall>m. key m \<noteq> key n \<longrightarrow> get s' m = get s m)"
begin

primrec puts :: "'s \<Rightarrow> ('n \<times> 'v) list \<Rightarrow> 's option" where
  "puts s [] = Some s"
| "puts s (b # bs) = Option.bind (put s (fst b) (snd b)) (\<lambda>s'. puts s' bs)"

text \<open>After any sequence of puts under names with different keys the last value of a name is read.\<close>

lemma puts_last:
  assumes "inv s" "\<forall>(m, v) \<in> set bs. valid v" "\<forall>(m, v) \<in> set bs. key m = key n \<longrightarrow> m = n"
  shows "\<exists>s'. puts s bs = Some s' \<and> inv s' \<and>
    get s' n = (case map_of (rev bs) n of None \<Rightarrow> get s n | Some v \<Rightarrow> Some v)"
  using assms
proof (induction bs arbitrary: s)
  case Nil
  then show ?case by simp
next
  case (Cons b bs)
  obtain m v where b: "b = (m, v)" by fastforce
  obtain s1 where s1: "put s m v = Some s1" "inv s1" "get s1 m = Some v" "\<And>j. key j \<noteq> key m \<Longrightarrow> get s1 j = get s j"
    using put_get [of s v m] Cons.prems(1,2) b by auto
  obtain s2 where "puts s1 bs = Some s2" "inv s2"
    "get s2 n = (case map_of (rev bs) n of None \<Rightarrow> get s1 n | Some v \<Rightarrow> Some v)"
    using Cons.IH [OF s1(2)] Cons.prems by auto
  moreover have "get s1 n = (if m = n then Some v else get s n)"
    using s1(3,4) Cons.prems(3) b by auto
  ultimately show ?case using b s1(1) by (auto simp: map_add_def split: option.splits)
qed

end

definition table_inv :: "heap \<times> Link \<Rightarrow> bool" where
  "table_inv s \<longleftrightarrow> rc_ok (fst s) \<and> (\<exists>xs. args_ok (fst s) (snd s) xs)"

definition table_getInt :: "heap \<times> Link \<Rightarrow> string \<Rightarrow> u64 option" where
  "table_getInt s n = args_getInt (fst s) (snd s) n"

definition table_setInt :: "heap \<times> Link \<Rightarrow> string \<Rightarrow> u64 \<Rightarrow> (heap \<times> Link) option" where
  "table_setInt s n v = args_setInt (fst s) (snd s) n v"

definition table_getFloat :: "heap \<times> Link \<Rightarrow> string \<Rightarrow> u64 option" where
  "table_getFloat s n = args_getFloat (fst s) (snd s) n"

definition table_setFloat :: "heap \<times> Link \<Rightarrow> string \<Rightarrow> u64 \<Rightarrow> (heap \<times> Link) option" where
  "table_setFloat s n v = args_setFloat (fst s) (snd s) n v"

definition table_getStr :: "heap \<times> Link \<Rightarrow> string \<Rightarrow> string option" where
  "table_getStr s n = do { r \<leftarrow> args_getStr (fst s) (snd s) n; r }"

definition table_setStr :: "heap \<times> Link \<Rightarrow> string \<Rightarrow> string \<Rightarrow> (heap \<times> Link) option" where
  "table_setStr s n v = do { (h, l, r) \<leftarrow> args_setStr (fst s) (snd s) n (Some v); Some (h, l) }"

interpretation int_store: keyed_store table_inv hash_time33 table_getInt table_setInt "\<lambda>_. True"
proof
  fix s :: "heap \<times> Link" and n v
  assume "table_inv s"
  then obtain xs where ok: "args_ok (fst s) (snd s) xs" "rc_ok (fst s)" by (auto simp: table_inv_def)
  obtain h' l' xs' where r: "args_setInt (fst s) (snd s) n v = Some (h', l')"
    "bound_to (fst s) xs h' l' xs' (hash_time33 n) (\<lambda>c. atype c = ARG_TYPE_INT \<and> arg_getInt c = Some v)"
    using args_setInt_bound [OF ok] by blast
  then show "\<exists>s'. table_setInt s n v = Some s' \<and> table_inv s' \<and> table_getInt s' n = Some v \<and>
      (\<forall>m. hash_time33 m \<noteq> hash_time33 n \<longrightarrow> table_getInt s' m = table_getInt s m)"
    using args_getInt_lookup [OF ok(1)] args_getInt_lookup [of h' l' xs']
    by (auto simp: table_setInt_def table_inv_def table_getInt_def bound_to_def)
qed

interpretation float_store: keyed_store table_inv hash_time33 table_getFloat table_setFloat "\<lambda>_. True"
proof
  fix s :: "heap \<times> Link" and n v
  assume "table_inv s"
  then obtain xs where ok: "args_ok (fst s) (snd s) xs" "rc_ok (fst s)" by (auto simp: table_inv_def)
  obtain h' l' xs' where r: "args_setFloat (fst s) (snd s) n v = Some (h', l')"
    "bound_to (fst s) xs h' l' xs' (hash_time33 n) (\<lambda>c. atype c = ARG_TYPE_FLOAT \<and> arg_getFloat c = Some v)"
    using args_setFloat_bound [OF ok] by blast
  then show "\<exists>s'. table_setFloat s n v = Some s' \<and> table_inv s' \<and> table_getFloat s' n = Some v \<and>
      (\<forall>m. hash_time33 m \<noteq> hash_time33 n \<longrightarrow> table_getFloat s' m = table_getFloat s m)"
    using args_getFloat_lookup [OF ok(1)] args_getFloat_lookup [of h' l' xs']
    by (auto simp: table_setFloat_def table_inv_def table_getFloat_def bound_to_def)
qed

interpretation str_store: keyed_store table_inv hash_time33 table_getStr table_setStr
  "\<lambda>v. cstring v \<and> fits (length v + 1)"
proof
  fix s :: "heap \<times> Link" and n v
  assume "table_inv s" and v: "cstring v \<and> fits (length v + 1)"
  then obtain xs where ok: "args_ok (fst s) (snd s) xs" "rc_ok (fst s)" by (auto simp: table_inv_def)
  obtain h' l' xs' where r: "args_setStr (fst s) (snd s) n (Some v) = Some (h', l', PIKA_RES_OK)"
    "bound_to (fst s) xs h' l' xs' (hash_time33 n) (\<lambda>c. atype c = ARG_TYPE_STRING \<and> arg_getStr c = Some v)"
    using args_setStr_bound [OF ok] v by blast
  then obtain c where c: "lookup h' xs' (hash_time33 n) = Some c" "arg_ok c" "arg_getStr c = Some v"
    and ok': "args_ok h' l' xs'" "rc_ok h'"
    and oth: "\<And>j. j \<noteq> hash_time33 n \<Longrightarrow> lookup h' xs' j = lookup (fst s) xs j" by (auto simp: bound_to_def)
  obtain b where "arg_getContent c = Some (Some b)" "bytes_str b = Some v"
    using arg_ok_content [OF c(2)] c(3) by (auto simp: arg_getStr_def)
  then have "table_getStr (h', l') n = Some v"
    using args_getStr_lookup [OF ok'(1)] c(1) by (simp add: table_getStr_def)
  moreover have "table_getStr (h', l') m = table_getStr s m" if "hash_time33 m \<noteq> hash_time33 n" for m
    using args_getStr_lookup [OF ok'(1)] args_getStr_lookup [OF ok(1)] oth that by (simp add: table_getStr_def)
  ultimately show "\<exists>s'. table_setStr s n v = Some s' \<and> table_inv s' \<and> table_getStr s' n = Some v \<and>
      (\<forall>m. hash_time33 m \<noteq> hash_time33 n \<longrightarrow> table_getStr s' m = table_getStr s m)"
    using r(1) ok' by (auto simp: table_setStr_def table_inv_def)
qed

section \<open>Properties\<close>

definition link0 :: Link where "link0 = \<lparr> firstNode = None \<rparr>"

lemma table0: "args_ok heap0 link0 []" "rc_ok heap0"
  by (simp_all add: args_ok_def heap_ok_def heap0_def link0_def rc_ok_def refs_def tally_def)

text \<open>C3: on a well-formed table with sound reference counts \<open>args_setArg\<close> returns; the name of the
  new cell is then bound to a cell with its type and bytes, every other name to what it was bound
  to, the table and the counts stay sound and the byte counter accounts for exactly the cells that
  are left.\<close>

theorem args_setArg_correct:
  assumes "args_ok h l xs" "rc_ok h" "cells h n = Some s" "serialized s" "n \<notin> set xs"
  shows "\<exists>h' l' xs' c. args_setArg h l n = Some (h', l') \<and> args_ok h' l' xs' \<and> rc_ok h' \<and> others h' = others h \<and>
    lookup h' xs' (name_hash s) = Some c \<and> atype c = atype s \<and> take (asize s) (payload c) = payload s \<and>
    (\<forall>k. k \<noteq> name_hash s \<longrightarrow> lookup h' xs' k = lookup h xs k)"
  using args_setArg_bound [OF assms] unfolding bound_to_def carries_def by fast

theorem args_setArg_correct_witness:
  "\<exists>h' l' xs' c. args_setArg heap_ab link0 0 = Some (h', l') \<and> args_ok h' l' xs' \<and>
     lookup h' xs' (hash_time33 ''s'') = Some c \<and> take 3 (payload c) = [0x61, 0x62, 0]"
proof -
  let ?c = "mk_arg None (hash_time33 ''s'') ARG_TYPE_STRING 3 [0x61, 0x62, 0, 0xCC]"
  have c: "arg_ok ?c" "sized ?c" "\<And>p. \<not> owns p ?c"
    by (simp_all add: mk_arg_ok pad4_def U32_def sized_def owns_def)
  have ok: "args_ok heap_ab link0 []" "rc_ok heap_ab" "cells heap_ab 0 = Some ?c"
    using add_cell_args [OF table0 c] by (simp_all add: heap_ab_eq heap0_def)
  from args_setArg_correct [OF ok] show ?thesis by auto
qed

text \<open>C4: integers, floats and strings put into a table under a name are read back under it, and
  what any name with another hash reads is not changed; the table stays well-formed.\<close>

theorem args_put_get:
  assumes "args_ok h l xs" "rc_ok h" "cstring str" "fits (length str + 1)"
  shows "(\<exists>h' l'. args_setInt h l n v = Some (h', l') \<and> table_inv (h', l') \<and> args_getInt h' l' n = Some v \<and>
            (\<forall>m. hash_time33 m \<noteq> hash_time33 n \<longrightarrow> args_getInt h' l' m = args_getInt h l m)) \<and>
         (\<exists>h' l'. args_setFloat h l n v = Some (h', l') \<and> table_inv (h', l') \<and> args_getFloat h' l' n = Some v \<and>
            (\<forall>m. hash_time33 m \<noteq> hash_time33 n \<longrightarrow> args_getFloat h' l' m = args_getFloat h l m)) \<and>
         (\<exists>h' l'. table_setStr (h, l) n str = Some (h', l') \<and> table_inv (h', l') \<and> table_getStr (h', l') n = Some str \<and>
            (\<forall>m. hash_time33 m \<noteq> hash_time33 n \<longrightarrow> table_getStr (h', l') m = table_getStr (h, l) m))"
proof -
  have inv: "table_inv (h, l)" using assms(1,2) by (auto simp: table_inv_def)
  from int_store.put_get [OF inv, of n v] float_store.put_get [OF inv, of n v]
    str_store.put_get [OF inv, of str n] assms(3,4)
  show ?thesis
    by (simp add: table_setInt_def table_getInt_def table_setFloat_def table_getFloat_def)
qed

theorem args_put_get_witness:
  "\<exists>h' l'. args_setInt heap0 link0 ''x'' 5 = Some (h', l') \<and> args_getInt h' l' ''x'' = Some 5"
  using args_put_get [OF table0, of "''ab''" "''x''" 5] by (auto simp: U32_def)

text \<open>names are told apart by their 31-bit hash only: \<open>az\<close> and \<open>bY\<close> have the same one, so
  assigning to \<open>bY\<close> changes what \<open>az\<close> reads, in every table.\<close>

lemma args_name_collision:
  assumes "args_ok h l xs" "rc_ok h"
  shows "hash_time33 ''az'' = hash_time33 ''bY'' \<and>
    (\<exists>h' l'. args_setInt h l ''bY'' v = Some (h', l') \<and> args_getInt h' l' ''az'' = Some v)"
proof -
  have eq: "hash_time33 ''az'' = hash_time33 ''bY''"
    by (simp add: hash_time33_def char_u32_def)
  obtain h' l' xs' where "args_setInt h l ''bY'' v = Some (h', l')"
    "bound_to h xs h' l' xs' (hash_time33 ''bY'') (\<lambda>c. atype c = ARG_TYPE_INT \<and> arg_getInt c = Some v)"
    using args_setInt_bound [OF assms] by blast
  with eq show ?thesis
    using args_getInt_lookup [of h' l' xs' "''az''"] by (auto simp: bound_to_def)
qed

lemma args_name_collision_demo:
  "\<exists>h' l'. args_setInt heap0 link0 ''bY'' 2 = Some (h', l') \<and> args_getInt h' l' ''az'' = Some 2"
  using args_name_collision [OF table0] by blast

text \<open>\<open>args_reverse\<close> returns and reverses the order of the cells; every cell keeps its value.\<close>

theorem args_reverse_correct:
  assumes "args_ok h l xs"
  shows "\<exists>h' l'. args_reverse h l = Some (h', l') \<and> lst (cells h') (firstNode l') (rev xs) \<and> used h' = used h \<and>
    (\<forall>a. map_option view (cells h' a) = map_option view (cells h a)) \<and> objs h' = objs h"
proof -
  have l: "lst (cells h) (firstNode l) xs" using assms by (simp add: args_ok_def)
  obtain h' r where r: "reverse_loop h (firstNode l) None = Some (h', r)" "lst (cells h') r (rev xs @ [])"
    "\<And>a. cells h' a = (if a \<in> set xs then map_option (\<lambda>c. c\<lparr>union := union (the (cells h' a))\<rparr>) (cells h a) else cells h a)"
    "used h' = used h" "objs h' = objs h"
    using reverse_loop_eq [OF l, of None "[]"] lst_distinct [OF l] by auto
  have "map_option view (cells h' a) = map_option view (cells h a)" for a
    by (subst r(3)) (simp add: option.map_comp comp_def)
  with r show ?thesis by (auto simp: args_reverse_def)
qed


definition table_ob :: "heap \<times> Link" where
  "table_ob = (set_cell heap_obj 0 (obj_cell None), \<lparr> firstNode = Some 0 \<rparr>)"

lemma table_ob_ok: "args_ok (fst table_ob) (snd table_ob) [0]" "rc_ok (fst table_ob)"
proof -
  have eq: "fst table_ob = heap_obj" using heap_obj_ok(2) by (simp add: table_ob_def set_cell_def map_upd_triv)
  have c: "union (obj_cell None) = Next None" "atype (obj_cell None) = ARG_TYPE_OBJECT" "\<not> weak (obj_cell None)"
    "asize (obj_cell None) = 8" by (simp_all add: obj_cell_def)
  show "args_ok (fst table_ob) (snd table_ob) [0]"
    using heap_obj_ok c by (simp add: eq args_ok_def) (simp add: table_ob_def)
  have cells: "cells heap_obj = [0 \<mapsto> obj_cell None]" by (simp add: heap_obj_eq heap0_def)
  have refs: "refs (cells heap_obj) p = (if p = 9 then 1 else 0)" for p
    using obj_cell_ptr [of None] c by (simp add: cells refs_def tally_def owns_def)
  have "objs heap_obj 9 = Some \<lparr> refcnt = 1, in_del = False \<rparr>" by (simp add: heap_obj_eq)
  with refs c show "rc_ok (fst table_ob)"
    by (auto simp: eq rc_ok_def cells sized_def split: if_splits)
qed

theorem args_reverse_correct_witness:
  "\<exists>h' l'. args_reverse (fst table_ob) (snd table_ob) = Some (h', l') \<and> lst (cells h') (firstNode l') [0]"
  using args_reverse_correct [OF table_ob_ok(1)] by auto


lemma rc_ok_views:
  assumes "rc_ok h" "objs h' = objs h" "\<And>p. refs (cells h') p = refs (cells h) p"
    "\<And>b. map_option view (cells h' b) = map_option view (cells h b)"
  shows "rc_ok h'"
proof -
  have "sized c" if c: "cells h' b = Some c" for b c
  proof -
    obtain c0 where "cells h b = Some c0" "view c0 = view c"
      using assms(4) [of b] c by (cases "cells h b") auto
    then show ?thesis
      using rc_ok_sized [OF assms(1), of b c0] unfolding sized_def by (metis view_simps(1,2))
  qed
  with assms show ?thesis by (simp add: rc_ok_def)
qed

lemma args_remove_rc:
  assumes ok: "args_ok h l (us @ d # vs)" "rc_ok h"
  shows "\<exists>h' l'. args_removeArg h l (Some d) = Some (h', l', PIKA_RES_OK) \<and> args_ok h' l' (us @ vs) \<and> rc_ok h' \<and>
    cells h' d = None \<and> (\<forall>b. b \<noteq> d \<longrightarrow> map_option view (cells h' b) = map_option view (cells h b)) \<and> others h' = others h"
proof -
  obtain h1 l1 where r: "link_removeNode h l d = do { h3 \<leftarrow> arg_deinit h1 d; Some (h3, l1) }"
    "args_ok h1 l1 (us @ vs)" "cells h1 d = cells h d" "others h1 = others h" "objs h1 = objs h"
    "\<And>b. map_option view (cells h1 b) = map_option view (cells h b)" "\<And>p. refs (cells h1) p = refs (cells h) p"
    using link_removeNode_ok [OF ok(1)] by auto
  obtain c where c: "cells h1 d = Some c" "serialized c" using args_ok_cell [OF ok(1), of d] r(3) by auto
  have rc1: "rc_ok h1" using rc_ok_views [OF ok(2) r(5,7,6)] .
  have "heap_ok h1" using r(2) by (simp add: args_ok_def)
  from arg_deinit_rc [OF this rc1 c] obtain h2 where h2: "arg_deinit h1 d = Some h2" "heap_ok h2" "rc_ok h2"
    "cells h2 = (cells h1)(d := None)" "others h2 = others h1" by blast
  have "d \<notin> set (us @ vs)" using lst_distinct [of "cells h" "firstNode l" "us @ d # vs"] ok(1) by (auto simp: args_ok_def)
  then have "args_ok h2 l1 (us @ vs)" using r(2) h2(2,4) by (simp add: args_ok_def lseg_frame)
  with r h2 show ?thesis by (auto simp: args_removeArg_def)
qed

text \<open>C8: \<open>args_removeArg\<close> of a cell of the table returns, takes exactly this cell out of the list,
  frees it, keeps the value of every other cell and keeps the byte counter and the reference counts
  sound.\<close>

theorem args_removeArg_correct:
  assumes "args_ok h l (us @ d # vs)" "rc_ok h"
  shows "\<exists>h' l'. args_removeArg h l (Some d) = Some (h', l', PIKA_RES_OK) \<and> args_ok h' l' (us @ vs) \<and> rc_ok h' \<and>
    cells h' d = None \<and> (\<forall>b. b \<noteq> d \<longrightarrow> map_option view (cells h' b) = map_option view (cells h b)) \<and> others h' = others h"
  by (rule args_remove_rc [OF assms])

theorem args_removeArg_correct_witness:
  "\<exists>h' l'. args_removeArg (fst table_ob) (snd table_ob) (Some 0) = Some (h', l', PIKA_RES_OK) \<and>
     args_ok h' l' [] \<and> cells h' 0 = None"
  using args_removeArg_correct [of "fst table_ob" "snd table_ob" "[]" 0 "[]"] table_ob_ok by auto

text \<open>C9: \<open>args_moveArg\<close> moves a cell from one table to the front of another, disjoint one: the cell
  keeps its value, the rest of both tables is unchanged and nothing is allocated or freed.\<close>

theorem args_moveArg_correct:
  assumes "args_ok h l (us @ d # vs)" "args_ok h l2 ys" "set (us @ d # vs) \<inter> set ys = {}"
  shows "\<exists>h' l' l2'. args_moveArg h l l2 (Some d) = Some (h', l', l2', PIKA_RES_OK) \<and>
    args_ok h' l' (us @ vs) \<and> args_ok h' l2' (d # ys) \<and> others h' = others h \<and>
    (\<forall>b. map_option view (cells h' b) = map_option view (cells h b))"
proof -
  obtain h1 l1 where r: "link_removeNode_notDeinitNode h l d = Some (h1, l1)"
    "args_ok h1 l1 (us @ vs)" "cells h1 d = cells h d" "others h1 = others h"
    "\<And>b. map_option view (cells h1 b) = map_option view (cells h b)" "\<And>b. b \<notin> set us \<Longrightarrow> cells h1 b = cells h b"
    using link_removeNode_ok [OF assms(1)] by auto
  obtain c where c: "cells h1 d = Some c" "serialized c" using args_ok_cell [OF assms(1), of d] r(3) by auto
  have "cells h1 b = cells h b" if "b \<in> set ys" for b using assms(3) r(6) that by auto
  then have "lst (cells h1) (firstNode l2) ys"
    using lseg_cong [of ys "cells h1" "cells h"] assms(2) by (simp add: args_ok_def)
  then have ok2: "args_ok h1 l2 ys" using r(2) by (simp add: args_ok_def)
  have nin: "d \<notin> set ys" "d \<notin> set (us @ vs)"
    using assms(3) lst_distinct [of "cells h" "firstNode l" "us @ d # vs"] assms(1) by (auto simp: args_ok_def)
  let ?h = "set_cell h1 d (c\<lparr>union := Next (firstNode l2)\<rparr>)"
  have add: "args_pushArg h1 l2 d = Some (?h, l2\<lparr>firstNode := Some d\<rparr>)"
    "args_ok ?h (l2\<lparr>firstNode := Some d\<rparr>) (d # ys)" "others ?h = others h1"
    using link_addNode_ok [OF ok2 c nin(1)] args_pushArg_ok [OF ok2 c nin(1)] by simp_all
  moreover have "args_ok ?h l1 (us @ vs)"
    using r(2) add(2) nin(2) by (simp add: args_ok_def lseg_frame)
  moreover have "map_option view (cells ?h b) = map_option view (cells h b)" for b
    using r(5) [of b] c(1) by (cases "b = d") auto
  ultimately show ?thesis using r(1,4) by (auto simp: args_moveArg_def)
qed

theorem args_moveArg_correct_witness:
  "\<exists>h' l' l2'. args_moveArg (fst table_ob) (snd table_ob) link0 (Some 0) = Some (h', l', l2', PIKA_RES_OK) \<and>
     args_ok h' l' [] \<and> args_ok h' l2' [0]"
proof -
  have "args_ok (fst table_ob) link0 []" using table_ob_ok(1) by (simp add: args_ok_def link0_def)
  from args_moveArg_correct [of "fst table_ob" "snd table_ob" "[]" 0 "[]", OF _ this] table_ob_ok show ?thesis
    by auto
qed

text \<open>Assigning an integer to a name that holds a value of another type does not replace the
  old cell: a second cell for the name is pushed in front, the old one stays allocated behind it,
  and it is what the name means again once the new one is removed.\<close>

theorem args_setInt_shadows:
  assumes ok: "args_ok h l xs" "rc_ok h"
    and old: "finds h (hash_time33 n) xs = Some d" "atype (the (cells h d)) \<noteq> ARG_TYPE_INT"
  shows "\<exists>h1 l1 a h2 l2. args_setInt h l n v = Some (h1, l1) \<and> args_getInt h1 l1 n = Some v \<and>
    args_getSize h1 l1 = Some (Suc (length xs)) \<and> args_getArg h1 l1 n = Some (Some a) \<and>
    args_removeArg h1 l1 (Some a) = Some (h2, l2, PIKA_RES_OK) \<and> args_getArg h2 l2 n = Some (Some d)"
proof -
  have ex: "\<exists>c. cells h a = Some c" if "a \<in> set xs" for a using args_ok_cell [OF ok(1) that] by blast
  have "args_setInt h l n v = do { (h1, m) \<leftarrow> arg_setInt h None [] v; args_pushArg_name h1 l n m }"
    using old by (intro args_setInt_push [OF ok(1)]) auto
  then obtain h1 l1 c where s: "args_setInt h l n v = Some (h1, l1)"
    "bound_to h xs h1 l1 (fresh h # xs) (hash_time33 n) (\<lambda>c. atype c = ARG_TYPE_INT \<and> arg_getInt c = Some v)"
    "cells h1 = (cells h)(fresh h \<mapsto> c)" "name_hash c = hash_time33 n"
    using push_int [OF ok, of v n] by auto
  then have ok1: "args_ok h1 l1 (fresh h # xs)" "rc_ok h1" by (simp_all add: bound_to_def)
  have nin: "fresh h \<notin> set xs" using args_ok_cell [OF ok(1)] by fastforce
  have get1: "args_getInt h1 l1 n = Some v"
    using args_getInt_lookup [OF ok1(1)] s(2) by (auto simp: bound_to_def)
  have arg1: "args_getArg h1 l1 n = Some (Some (fresh h))"
    using args_getNode_hash_eq [OF ok1(1)] s(3,4) by (simp add: args_getArg_def args_getNode_def)
  have size1: "args_getSize h1 l1 = Some (Suc (length xs))"
    using size_loop_eq [of h1 "firstNode l1" "fresh h # xs" 0] ok1(1)
    by (simp add: args_getSize_def link_getSize_def args_ok_def)
  obtain h2 l2 where r: "args_removeArg h1 l1 (Some (fresh h)) = Some (h2, l2, PIKA_RES_OK)" "args_ok h2 l2 xs"
    "\<forall>b. b \<noteq> fresh h \<longrightarrow> map_option view (cells h2 b) = map_option view (cells h1 b)"
    using args_remove_rc [of h1 l1 "[]" "fresh h" xs] ok1 by auto
  have "name_hash (the (cells h2 b)) = name_hash (the (cells h b))" if b: "b \<in> set xs" for b
  proof -
    have "b \<noteq> fresh h" using nin b by auto
    with r(3) [rule_format, of b] s(3) have "map_option view (cells h2 b) = map_option view (cells h b)" by simp
    then obtain x y where "cells h2 b = Some x" "cells h b = Some y" "view x = view y" using ex [OF b] by auto
    then show ?thesis by (metis option.sel view_simps(4))
  qed
  then have "finds h2 (hash_time33 n) xs = Some d" using finds_cong old(1) by metis
  then have "args_getArg h2 l2 n = Some (Some d)"
    using args_getNode_hash_eq [OF r(2)] by (simp add: args_getArg_def args_getNode_def)
  with s(1) get1 arg1 size1 r(1) show ?thesis by blast
qed

theorem args_setInt_shadows_witness:
  "\<exists>h1 l1. args_setInt (fst table_ob) (snd table_ob) ''o'' 3 = Some (h1, l1) \<and> args_getSize h1 l1 = Some 2"
proof -
  have c: "cells (fst table_ob) 0 = Some (obj_cell None)" by (simp add: table_ob_def)
  have "finds (fst table_ob) (hash_time33 ''o'') [0] = Some 0"
    "atype (the (cells (fst table_ob) 0)) \<noteq> ARG_TYPE_INT"
    by (simp_all add: c) (simp_all add: obj_cell_def)
  from args_setInt_shadows [OF table_ob_ok this, of 3] show ?thesis by (auto simp: eval_nat_numeral)
qed

text \<open>C40: \<open>args_setPtr\<close> writes eight bytes into whatever cell the name has: when the cell holds
  four bytes or less (a \<open>None\<close>, a short string) the write leaves its memory.\<close>

theorem args_setPtr_overflow:
  assumes "args_ok h l xs" "finds h (hash_time33 n) xs = Some a" "cells h a = Some c" "asize c \<le> 4"
  shows "args_setPtr h l n p = None"
proof -
  have "a \<in> set xs" using assms(2) finds_SomeD by fastforce
  then have c: "arg_ok c" "serialized c" using args_ok_cell [OF assms(1)] assms(3) by fastforce+
  then have "length (content c) < 8" using pad4_bound [of "asize c"] assms(4) by (simp add: arg_ok_def)
  then have "content_write c 0 (enc_u64 p) = None"
    using c u64.enc_length [of p] by (simp add: content_write_def flag_getters arg_ok_def put_at_def)
  then show ?thesis
    using args_getNode_hash_eq [OF assms(1)] assms(2,3)
    by (simp add: args_setPtr_def args_setPtrWithType_def args_getArg_def args_getNode_def poke_u64_def)
qed

theorem args_setPtr_overflow_witness:
  "args_setPtr heap_ab \<lparr> firstNode = Some 0 \<rparr> ''s'' 77 = None"
proof -
  have c: "cells heap_ab 0 = Some (mk_arg None (hash_time33 ''s'') ARG_TYPE_STRING 3 [0x61, 0x62, 0, 0xCC])"
    by (simp add: heap_ab_eq heap0_def)
  then have "args_ok heap_ab \<lparr> firstNode = Some 0 \<rparr> [0]" using heap_ab_ok by (simp add: args_ok_def)
  then show ?thesis by (rule args_setPtr_overflow [OF _ _ c]) (simp_all add: c)
qed

end
