(* ===== verification/Pika_Queue.thy ===== *)
theory Pika_Queue
  imports Pika_Args
begin

text \<open>
  \<open>src/src/dataQueue.c\<close>: the byte ring buffer with its peek cursor and the queue of cells kept in a
  name table, and the decimal conversions \<open>fast_itoa\<close>, \<open>fast_atoi\<close> of \<open>src/src/PikaObj.c\<close> that name
  its entries. The 16-bit fields of the ring buffer are natural numbers with the narrowing written
  out; locale \<open>bounded_fifo\<close> is the contract of a bounded queue, interpreted on the ring buffer.
\<close>

section \<open>Byte queue\<close>

record ByteQueue =
  buffer :: "byte list"
  buffer_size :: nat
  head :: nat
  tail :: nat
  peek :: nat
  count :: nat
  peek_count :: nat

definition u16 :: "nat \<Rightarrow> nat" where "u16 n = n mod 2 ^ 16"

text \<open>\<open>buf\<close> is the memory at \<open>buffer\<close>; \<open>size\<close> is narrowed to 16 bits.\<close>

definition byteQueue_init :: "byte list \<Rightarrow> nat \<Rightarrow> bool \<Rightarrow> ByteQueue option" where
  "byteQueue_init buf sz is_queue_full =
     (if 0 < sz
      then Some \<lparr> buffer = buf, buffer_size = u16 sz, head = 0, tail = 0, peek = 0,
                  count = (if is_queue_full then u16 sz else 0),
                  peek_count = (if is_queue_full then u16 sz else 0) \<rparr>
      else None)"

text \<open>The result is the byte read, \<open>None\<close> inside when the queue is empty.\<close>

definition byteQueue_readOne :: "ByteQueue \<Rightarrow> (ByteQueue \<times> byte option) option" where
  "byteQueue_readOne queue =
     (if head queue = tail queue \<and> count queue = 0 then Some (queue, None)
      else do {
        b \<leftarrow> rd (buffer queue) (head queue);
        let head1 = u16 (head queue + 1);
        let count1 = u16 (count queue + 2 ^ 16 - 1);
        let head2 = (if buffer_size queue \<le> head1 then 0 else head1);
        Some (queue\<lparr> head := head2, count := count1, peek_count := count1, peek := head2 \<rparr>, Some b)
      })"

definition byteQueue_peekOne :: "ByteQueue \<Rightarrow> (ByteQueue \<times> byte option) option" where
  "byteQueue_peekOne queue =
     (if peek queue = tail queue \<and> peek_count queue = 0 then Some (queue, None)
      else do {
        b \<leftarrow> rd (buffer queue) (peek queue);
        let peek1 = u16 (peek queue + 1);
        let peek2 = (if buffer_size queue \<le> peek1 then 0 else peek1);
        Some (queue\<lparr> peek := peek2, peek_count := u16 (peek_count queue + 2 ^ 16 - 1) \<rparr>, Some b)
      })"

definition byteQueue_resetPeek :: "ByteQueue \<Rightarrow> ByteQueue" where
  "byteQueue_resetPeek queue = queue\<lparr> peek_count := count queue, peek := head queue \<rparr>"

definition byteQueue_getPeekedNumber :: "ByteQueue \<Rightarrow> int" where
  "byteQueue_getPeekedNumber queue = int (count queue) - int (peek_count queue)"

definition byteQueue_peekAvailableCount :: "ByteQueue \<Rightarrow> nat" where
  "byteQueue_peekAvailableCount queue = peek_count queue"

definition byteQueue_dropAllPeeked :: "ByteQueue \<Rightarrow> ByteQueue" where
  "byteQueue_dropAllPeeked queue = queue\<lparr> count := peek_count queue, head := peek queue \<rparr>"

definition byteQueue_writeOne :: "ByteQueue \<Rightarrow> byte \<Rightarrow> (ByteQueue \<times> bool) option" where
  "byteQueue_writeOne queue b =
     (if head queue = tail queue \<and> count queue \<noteq> 0 then Some (queue, False)
      else do {
        buf \<leftarrow> wr (buffer queue) (tail queue) b;
        let tail1 = u16 (tail queue + 1);
        let tail2 = (if buffer_size queue \<le> tail1 then 0 else tail1);
        Some (queue\<lparr> buffer := buf, tail := tail2, count := u16 (count queue + 1),
                     peek_count := u16 (peek_count queue + 1) \<rparr>, True)
      })"

section \<open>The ring buffer as a bounded queue\<close>

text \<open>The \<open>n\<close> bytes from position \<open>i\<close> on, around the end of the buffer.\<close>

definition ring :: "'a list \<Rightarrow> nat \<Rightarrow> nat \<Rightarrow> nat \<Rightarrow> 'a list" where
  "ring buf k i n = map (\<lambda>j. buf ! ((i + j) mod k)) [0..<n]"

definition bq_ok :: "ByteQueue \<Rightarrow> bool" where
  "bq_ok q \<longleftrightarrow> 0 < buffer_size q \<and> buffer_size q < 2 ^ 16 \<and> buffer_size q \<le> length (buffer q) \<and>
     head q < buffer_size q \<and> count q \<le> buffer_size q \<and> tail q = (head q + count q) mod buffer_size q \<and>
     peek_count q \<le> count q \<and> peek q = (head q + (count q - peek_count q)) mod buffer_size q"

definition bq_list :: "ByteQueue \<Rightarrow> byte list" where
  "bq_list q = ring (buffer q) (buffer_size q) (head q) (count q)"

definition bq_peeked :: "ByteQueue \<Rightarrow> byte list" where
  "bq_peeked q = ring (buffer q) (buffer_size q) (peek q) (peek_count q)"

lemma length_ring [simp]: "length (ring b k i n) = n"
  by (simp add: ring_def)

lemma ring_Suc: "ring b k i (Suc n) = b ! (i mod k) # ring b k ((i + 1) mod k) n"
proof -
  have "[0..<Suc n] = 0 # map Suc [0..<n]" by (simp add: upt_conv_Cons map_Suc_upt)
  then show ?thesis by (simp add: ring_def comp_def mod_simps)
qed

lemma ring_snoc: "ring b k i (Suc n) = ring b k i n @ [b ! ((i + n) mod k)]"
  by (simp add: ring_def)

lemma ring_write:
  assumes "n < k" "k \<le> length b"
  shows "ring (b[(i + n) mod k := x]) k i n = ring b k i n"
proof -
  have "(i + n) mod k \<noteq> (i + j) mod k" if "j < n" for j
  proof
    assume "(i + n) mod k = (i + j) mod k"
    then have "k dvd (i + n) - (i + j)" using that by (intro mod_eq_dvd_iff_nat [THEN iffD1]) auto
    then show False using that assms(1) by (auto dest: dvd_imp_le)
  qed
  then show ?thesis by (simp add: ring_def)
qed

lemma ring_drop: "m \<le> n \<Longrightarrow> drop m (ring b k i n) = ring b k ((i + m) mod k) (n - m)"
proof -
  assume "m \<le> n"
  have "drop m [0..<n] = map (\<lambda>j. m + j) [0..<n - m]"
    by (rule nth_equalityI) (use \<open>m \<le> n\<close> in auto)
  then show ?thesis by (simp add: ring_def drop_map comp_def mod_simps add.assoc)
qed

lemma wrap_step:
  assumes "h < k" "k < 2 ^ 16"
  shows "(if k \<le> u16 (h + 1) then 0 else u16 (h + 1)) = (h + 1) mod k"
proof -
  have "u16 (h + 1) = h + 1" using assms by (simp add: u16_def)
  then show ?thesis using assms(1) by (cases "h + 1 = k") auto
qed

lemma u16_pred: "0 < n \<Longrightarrow> n < 2 ^ 16 \<Longrightarrow> u16 (n + 2 ^ 16 - 1) = n - 1"
proof -
  assume n: "0 < n" "n < 2 ^ 16"
  then have "n + 2 ^ 16 - 1 = (n - 1) + 2 ^ 16" by simp
  then show ?thesis using n by (simp only: u16_def mod_add_self2) simp
qed

lemma u16_succ: "n + 1 < 2 ^ 16 \<Longrightarrow> u16 (n + 1) = n + 1"
  by (simp add: u16_def)

text \<open>The empty and the full state are told apart by the count.\<close>

lemma head_tail:
  assumes "bq_ok q"
  shows "head q = tail q \<longleftrightarrow> count q = 0 \<or> count q = buffer_size q"
proof -
  let ?k = "buffer_size q"
  have ok: "head q < ?k" "count q \<le> ?k" "tail q = (head q + count q) mod ?k" using assms by (auto simp: bq_ok_def)
  show ?thesis
  proof (cases "head q + count q < ?k")
    case True
    then show ?thesis using ok by auto
  next
    case False
    then have "(head q + count q) mod ?k = head q + count q - ?k" using ok by (simp add: mod_if)
    then show ?thesis using ok False by auto
  qed
qed

lemma writeOne_ok:
  assumes "bq_ok q"
  shows "\<exists>q' r. byteQueue_writeOne q b = Some (q', r) \<and> bq_ok q' \<and> buffer_size q' = buffer_size q \<and>
    (r \<longleftrightarrow> count q < buffer_size q) \<and>
    bq_list q' = (if r then bq_list q @ [b] else bq_list q) \<and>
    bq_peeked q' = (if r then bq_peeked q @ [b] else bq_peeked q)"
proof (cases "count q < buffer_size q")
  case False
  then have "byteQueue_writeOne q b = Some (q, False)"
    using assms head_tail [OF assms] by (auto simp: byteQueue_writeOne_def bq_ok_def)
  with False assms show ?thesis by auto
next
  case True
  let ?k = "buffer_size q" and ?buf = "(buffer q)[tail q := b]"
  have ok: "0 < ?k" "?k < 2 ^ 16" "?k \<le> length (buffer q)" "head q < ?k" "tail q = (head q + count q) mod ?k"
    "peek_count q \<le> count q" "peek q = (head q + (count q - peek_count q)) mod ?k"
    using assms by (auto simp: bq_ok_def)
  have t1: "tail q < ?k" unfolding ok(5) using ok(1) by (rule mod_less_divisor)
  then have t: "tail q < ?k" "tail q < length (buffer q)" using ok(3) by linarith+
  let ?q = "q\<lparr>buffer := ?buf, tail := (tail q + 1) mod ?k, count := count q + 1, peek_count := peek_count q + 1\<rparr>"
  have nf: "\<not> (head q = tail q \<and> count q \<noteq> 0)" using head_tail [OF assms] True by auto
  have w: "(if ?k \<le> u16 (tail q + 1) then 0 else u16 (tail q + 1)) = (tail q + 1) mod ?k"
    using wrap_step [OF t(1) ok(2)] .
  have "byteQueue_writeOne q b = Some (?q, True)"
    unfolding byteQueue_writeOne_def Let_def w using nf t True ok(2,6) by (simp add: wr_def u16_def)
  moreover have "bq_ok ?q"
    using ok True by (auto simp: bq_ok_def mod_simps)
  moreover have "bq_list ?q = bq_list q @ [b]"
    using ring_write [of "count q" ?k "buffer q" "head q" b] ok(3,5) True t(2)
    by (simp add: bq_list_def ring_snoc)
  moreover have "bq_peeked ?q = bq_peeked q @ [b]"
  proof -
    have "(peek q + peek_count q) mod ?k = tail q" using ok(5-7) by (simp add: mod_simps)
    then show ?thesis
      using ring_write [of "peek_count q" ?k "buffer q" "peek q" b] ok(3,6) True t(2)
      by (simp add: bq_peeked_def ring_snoc)
  qed
  ultimately show ?thesis using True by auto
qed

lemma readOne_ok:
  assumes "bq_ok q"
  shows "\<exists>q' r. byteQueue_readOne q = Some (q', r) \<and> bq_ok q' \<and> buffer_size q' = buffer_size q \<and>
    (case bq_list q of [] \<Rightarrow> r = None \<and> q' = q | x # xs \<Rightarrow> r = Some x \<and> bq_list q' = xs \<and> bq_peeked q' = xs)"
proof (cases "count q")
  case 0
  then show ?thesis using assms head_tail [OF assms] by (simp add: byteQueue_readOne_def bq_list_def ring_def)
next
  case (Suc n)
  let ?k = "buffer_size q"
  have ok: "0 < ?k" "?k < 2 ^ 16" "?k \<le> length (buffer q)" "head q < ?k" "tail q = (head q + count q) mod ?k"
    "count q \<le> ?k"
    using assms by (auto simp: bq_ok_def)
  let ?h = "(head q + 1) mod ?k"
  let ?q = "q\<lparr>head := ?h, count := n, peek_count := n, peek := ?h\<rparr>"
  have c: "u16 (count q + 2 ^ 16 - 1) = n" using u16_pred [of "count q"] Suc ok(2,6) by simp
  have w: "(if ?k \<le> u16 (head q + 1) then 0 else u16 (head q + 1)) = ?h" using wrap_step [OF ok(4,2)] .
  have "byteQueue_readOne q = Some (?q, Some (buffer q ! head q))"
    unfolding byteQueue_readOne_def Let_def c w using Suc ok by (simp add: rd_def)
  moreover have "bq_ok ?q" using ok Suc by (simp add: bq_ok_def mod_simps)
  moreover have "bq_list q = buffer q ! head q # bq_list ?q" "bq_peeked ?q = bq_list ?q"
    using ring_Suc [of "buffer q" ?k "head q" n] Suc ok(4) by (simp_all add: bq_list_def bq_peeked_def)
  ultimately show ?thesis by auto
qed

lemma peekOne_ok:
  assumes "bq_ok q"
  shows "\<exists>q' r. byteQueue_peekOne q = Some (q', r) \<and> bq_ok q' \<and> buffer_size q' = buffer_size q \<and> bq_list q' = bq_list q \<and>
    (case bq_peeked q of [] \<Rightarrow> r = None \<and> q' = q | x # xs \<Rightarrow> r = Some x \<and> bq_peeked q' = xs)"
proof (cases "peek_count q")
  case 0
  then have "peek q = tail q" using assms by (simp add: bq_ok_def)
  with 0 assms show ?thesis by (simp add: byteQueue_peekOne_def bq_peeked_def ring_def)
next
  case (Suc n)
  let ?k = "buffer_size q"
  have ok: "0 < ?k" "?k < 2 ^ 16" "?k \<le> length (buffer q)" "peek_count q \<le> count q" "count q \<le> ?k"
    "peek q = (head q + (count q - peek_count q)) mod ?k" using assms by (auto simp: bq_ok_def)
  have p: "peek q < ?k" using ok(1,6) by simp
  let ?p = "(peek q + 1) mod ?k"
  let ?q = "q\<lparr>peek := ?p, peek_count := n\<rparr>"
  have c: "u16 (peek_count q + 2 ^ 16 - 1) = n" using u16_pred [of "peek_count q"] Suc ok by simp
  have w: "(if ?k \<le> u16 (peek q + 1) then 0 else u16 (peek q + 1)) = ?p" using wrap_step [OF p ok(2)] .
  have "byteQueue_peekOne q = Some (?q, Some (buffer q ! peek q))"
    unfolding byteQueue_peekOne_def Let_def c w using Suc ok(3) p by (simp add: rd_def)
  moreover have "?p = (head q + (count q - n)) mod ?k"
  proof -
    have "head q + (count q - peek_count q) + 1 = head q + (count q - n)" using Suc ok(4) by simp
    then show ?thesis using ok(6) by (metis mod_add_left_eq)
  qed
  then have "bq_ok ?q" using assms Suc by (simp add: bq_ok_def)
  moreover have "bq_peeked q = buffer q ! peek q # bq_peeked ?q"
    using ring_Suc [of "buffer q" ?k "peek q" n] Suc p by (simp add: bq_peeked_def)
  ultimately show ?thesis by (auto simp: bq_list_def)
qed

text \<open>The peek cursor always stands inside the queue: what is left to peek is a suffix of it.\<close>

lemma peeked_suffix:
  assumes "bq_ok q"
  shows "bq_peeked q = drop (count q - peek_count q) (bq_list q)"
  using assms by (simp add: bq_ok_def bq_peeked_def bq_list_def ring_drop)

section \<open>The contract of a bounded queue\<close>

locale bounded_fifo =
  fixes ok :: "'q \<Rightarrow> bool"
    and elems :: "'q \<Rightarrow> 'a list"
    and capacity :: "'q \<Rightarrow> nat"
    and enq :: "'q \<Rightarrow> 'a \<Rightarrow> ('q \<times> bool) option"
    and deq :: "'q \<Rightarrow> ('q \<times> 'a option) option"
  assumes bounded: "ok q \<Longrightarrow> length (elems q) \<le> capacity q"
    and enq_ok: "ok q \<Longrightarrow> \<exists>q' r. enq q x = Some (q', r) \<and> ok q' \<and> capacity q' = capacity q \<and>
      (r \<longleftrightarrow> length (elems q) < capacity q) \<and> elems q' = (if r then elems q @ [x] else elems q)"
    and deq_ok: "ok q \<Longrightarrow> \<exists>q' r. deq q = Some (q', r) \<and> ok q' \<and> capacity q' = capacity q \<and>
      (case elems q of [] \<Rightarrow> r = None \<and> elems q' = [] | x # xs \<Rightarrow> r = Some x \<and> elems q' = xs)"
begin

primrec enqs :: "'q \<Rightarrow> 'a list \<Rightarrow> 'q option" where
  "enqs q [] = Some q"
| "enqs q (x # xs) = Option.bind (enq q x) (\<lambda>(q', r). if r then enqs q' xs else None)"

primrec deqs :: "'q \<Rightarrow> nat \<Rightarrow> ('q \<times> 'a list) option" where
  "deqs q 0 = Some (q, [])"
| "deqs q (Suc n) = Option.bind (deq q) (\<lambda>(q', r). case r of None \<Rightarrow> None
     | Some x \<Rightarrow> Option.bind (deqs q' n) (\<lambda>(q'', xs). Some (q'', x # xs)))"

lemma enqs_elems:
  "ok q \<Longrightarrow> length (elems q) + length xs \<le> capacity q \<Longrightarrow>
   \<exists>q'. enqs q xs = Some q' \<and> ok q' \<and> capacity q' = capacity q \<and> elems q' = elems q @ xs"
proof (induction xs arbitrary: q)
  case Nil
  then show ?case by simp
next
  case (Cons x xs)
  obtain q1 where q1: "enq q x = Some (q1, True)" "ok q1" "capacity q1 = capacity q" "elems q1 = elems q @ [x]"
    using enq_ok [OF Cons.prems(1), of x] Cons.prems(2) by auto
  with Cons.IH [of q1] Cons.prems(2) show ?case by auto
qed

lemma deqs_elems:
  "ok q \<Longrightarrow> n \<le> length (elems q) \<Longrightarrow>
   \<exists>q'. deqs q n = Some (q', take n (elems q)) \<and> ok q' \<and> capacity q' = capacity q \<and> elems q' = drop n (elems q)"
proof (induction n arbitrary: q)
  case 0
  then show ?case by simp
next
  case (Suc n)
  then obtain x xs where e: "elems q = x # xs" by (cases "elems q") auto
  obtain q1 where q1: "deq q = Some (q1, Some x)" "ok q1" "capacity q1 = capacity q" "elems q1 = xs"
    using deq_ok [OF Suc.prems(1)] e by auto
  with Suc.IH [of q1] Suc.prems(2) e show ?case by auto
qed

text \<open>What is written comes out in order.\<close>

lemma fifo:
  assumes "ok q" "elems q = []" "length xs \<le> capacity q"
  shows "\<exists>q1 q2. enqs q xs = Some q1 \<and> deqs q1 (length xs) = Some (q2, xs) \<and> elems q2 = []"
  using enqs_elems [of q xs] deqs_elems [of _ "length xs"] assms by fastforce

end

interpretation byte_fifo: bounded_fifo bq_ok bq_list buffer_size byteQueue_writeOne byteQueue_readOne
proof (unfold_locales, goal_cases)
  case (1 q)
  then show ?case by (simp add: bq_ok_def bq_list_def)
next
  case (2 q x)
  then show ?case using writeOne_ok [of q x] by (fastforce simp: bq_list_def)
next
  case (3 q)
  then show ?case using readOne_ok [of q] by (fastforce split: list.splits)
qed

lemma byteQueue_init_ok:
  assumes "0 < sz" "sz < 2 ^ 16" "sz \<le> length buf"
  shows "\<exists>q. byteQueue_init buf sz full = Some q \<and> bq_ok q \<and> buffer_size q = sz \<and>
    bq_list q = (if full then take sz buf else [])"
proof -
  have "ring buf sz 0 sz = take sz buf"
    using assms(3) by (intro nth_equalityI) (auto simp: ring_def)
  then show ?thesis
    using assms by (auto simp: byteQueue_init_def bq_ok_def bq_list_def u16_def ring_def)
qed

section \<open>Decimal numbers\<close>

definition digit :: "nat \<Rightarrow> char" where "digit d = char_of (48 + d)"

text \<open>
  The table \<open>str100p\<close>: two bytes per entry, stored as a little-endian 16-bit number, which are the
  tens and the units.
\<close>

definition str100p :: "nat \<Rightarrow> string" where
  "str100p v = [digit (v div 10), digit (v mod 10)]"

text \<open>The loop of \<open>fast_itoa\<close>; \<open>p\<close> is the offset of the pointer in the buffer.\<close>

function itoa_loop :: "string \<Rightarrow> nat \<Rightarrow> nat \<Rightarrow> (string \<times> nat \<times> nat) option" where
  "itoa_loop buf p val =
     (if 100 \<le> val then
        (if p < 2 then None
         else (case put_at buf (p - 2) (str100p (val mod 100)) of
                 None \<Rightarrow> None | Some buf' \<Rightarrow> itoa_loop buf' (p - 2) (val div 100)))
      else Some (buf, p, val))"
  by pat_completeness auto
termination by (relation "measure (\<lambda>(buf, p, val). val)") auto

declare itoa_loop.simps [simp del]

text \<open>The C string at the returned pointer.\<close>

definition fast_itoa :: "string \<Rightarrow> nat \<Rightarrow> string option" where
  "fast_itoa buf val0 = do {
     buf1 \<leftarrow> wr buf 10 NUL;
     (buf2, p, val) \<leftarrow> itoa_loop buf1 10 (val0 mod U32);
     if p < 2 then None
     else do {
       buf3 \<leftarrow> put_at buf2 (p - 2) (str100p val);
       Some (c_str (drop (p - 2 + (if val < 10 then 1 else 0)) buf3))
     }
   }"

text \<open>The rows of \<open>__talbe_fast_atoi\<close>: \<open>k\<close>-th row, ten entries; a read outside the table is undefined.\<close>

definition atoi_table :: "nat \<Rightarrow> char \<Rightarrow> int option" where
  "atoi_table k c =
     (if k < 10 \<and> 48 \<le> (of_char c :: nat) \<and> (of_char c :: nat) < 58
      then Some (int (of_char c - 48) * 10 ^ k) else None)"

text \<open>The characters from the last one to the second one.\<close>

fun atoi_loop :: "string \<Rightarrow> nat \<Rightarrow> int \<Rightarrow> (int \<times> nat) option" where
  "atoi_loop [] k s = Some (s, k)"
| "atoi_loop (c # cs) k s = do { v \<leftarrow> atoi_table k c; atoi_loop cs (Suc k) (s + v) }"

text \<open>On the empty string the code reads the byte before the string.\<close>

definition fast_atoi :: "string \<Rightarrow> int option" where
  "fast_atoi src = (case src of
     [] \<Rightarrow> None
   | c # cs \<Rightarrow>
       if 2 ^ 16 \<le> length src then None
       else do {
         (s, k) \<leftarrow> atoi_loop (rev cs) 0 0;
         if c = CHR ''-'' then Some (- s) else do { v \<leftarrow> atoi_table k c; Some (s + v) }
       })"

definition fast_atoi_safe :: "string \<Rightarrow> int option option" where
  "fast_atoi_safe src =
     (if \<exists>c \<in> set src. (of_char c :: nat) < 48 \<or> 57 < (of_char c :: nat) then Some None
      else do { v \<leftarrow> fast_atoi src; Some (Some v) })"

text \<open>The decimal representation.\<close>

fun decimal :: "nat \<Rightarrow> string" where
  "decimal n = (if n < 10 then [digit n] else decimal (n div 10) @ [digit (n mod 10)])"

declare decimal.simps [simp del]

lemma decimal_small: "n < 10 \<Longrightarrow> decimal n = [digit n]"
  by (simp add: decimal.simps)

lemma decimal_big: "10 \<le> n \<Longrightarrow> decimal n = decimal (n div 10) @ [digit (n mod 10)]"
  by (subst decimal.simps) simp

lemma decimal_100:
  assumes n: "100 \<le> n"
  shows "decimal n = decimal (n div 100) @ str100p (n mod 100)"
proof -
  have "n mod (10 * 10) = 10 * (n div 10 mod 10) + n mod 10" by (rule mod_mult2_eq)
  then have "n mod 100 div 10 = n div 10 mod 10" "n mod 100 mod 10 = n mod 10" by simp_all
  moreover have "n div 10 div 10 = n div 100" by (simp add: div_mult2_eq [symmetric])
  moreover have "10 \<le> n div 10" using n by linarith
  ultimately show ?thesis
    using n decimal_big [of n] decimal_big [of "n div 10"] by (simp add: str100p_def)
qed

lemma decimal_two: "10 \<le> n \<Longrightarrow> n < 100 \<Longrightarrow> decimal n = str100p n"
  using decimal_big [of n] decimal_small [of "n div 10"] by (simp add: str100p_def)

lemma of_char_digit: "d < 10 \<Longrightarrow> of_char (digit d) = 48 + d"
  by (simp add: digit_def)

lemma digit_not: "d < 10 \<Longrightarrow> digit d \<noteq> NUL" "d < 10 \<Longrightarrow> digit d \<noteq> CHR ''-''"
  using of_char_digit [of d] by auto

lemma cstring_decimal: "cstring (decimal n)"
proof (induction n rule: decimal.induct)
  case (1 n)
  then show ?case
    using digit_not(1) [of n] digit_not(1) [of "n mod 10"]
    by (cases "n < 10") (simp_all add: decimal_small decimal_big)
qed

lemma length_decimal: "n < 10 ^ k \<Longrightarrow> 0 < k \<Longrightarrow> length (decimal n) \<le> k"
proof (induction n arbitrary: k rule: decimal.induct)
  case (1 n)
  show ?case
  proof (cases "n < 10")
    case True
    then show ?thesis using 1 by (simp add: decimal_small)
  next
    case False
    then obtain j where k: "k = Suc j" "0 < j" using 1(2,3) by (cases k; cases "k - 1") auto
    then have "n div 10 < 10 ^ j" using 1(2) by (simp add: div_less_iff_less_mult mult.commute)
    with 1(1) [of j] False k show ?thesis by (simp add: decimal_big)
  qed
qed

lemma decimal_not_Nil [simp]: "decimal n \<noteq> []"
  by (subst decimal.simps) simp

text \<open>The loop writes the digits from the right, two at a time, and stays inside the buffer.\<close>

lemma itoa_loop_eq:
  assumes "val < 100 ^ k" "0 < k" "2 * k \<le> length buf"
  shows "\<exists>buf' p v s. itoa_loop buf (2 * k) val = Some (buf', p, v) \<and> v < 100 \<and> 2 \<le> p \<and> p \<le> length buf' \<and>
    length buf' = length buf \<and> decimal val = decimal v @ s \<and> drop p buf' = s @ drop (2 * k) buf"
  using assms
proof (induction k arbitrary: buf val)
  case 0
  then show ?case by simp
next
  case (Suc k)
  show ?case
  proof (cases "val < 100")
    case True
    then show ?thesis using Suc.prems by (simp add: itoa_loop.simps)
  next
    case False
    then have k: "0 < k" using Suc.prems(1) by (cases k) auto
    have p: "2 * Suc k - 2 = 2 * k" by simp
    let ?b = "take (2 * k) buf @ str100p (val mod 100) @ drop (2 * k + 2) buf"
    have two: "length (str100p (val mod 100)) = 2" by (simp add: str100p_def)
    have put: "put_at buf (2 * k) (str100p (val mod 100)) = Some ?b"
      using Suc.prems(3) two by (simp add: put_at_def)
    have len: "length ?b = length buf" using put_at_length [OF put] .
    have "val div 100 < 100 ^ k" using Suc.prems(1) by (simp add: div_less_iff_less_mult mult.commute)
    from Suc.IH [OF this k, of ?b] len Suc.prems(3) obtain buf' p v s where
      IH: "itoa_loop ?b (2 * k) (val div 100) = Some (buf', p, v)" "v < 100" "2 \<le> p" "p \<le> length buf'"
      "length buf' = length buf" "decimal (val div 100) = decimal v @ s" "drop p buf' = s @ drop (2 * k) ?b"
      by auto
    have "itoa_loop buf (2 * Suc k) val = Some (buf', p, v)"
      using IH(1) put False unfolding itoa_loop.simps [of buf] p by simp
    moreover have "decimal val = decimal v @ s @ str100p (val mod 100)"
      using decimal_100 [of val] False IH(6) by simp
    moreover have "drop p buf' = (s @ str100p (val mod 100)) @ drop (2 * Suc k) buf"
      using IH(7) Suc.prems(3) by simp
    ultimately show ?thesis using IH by blast
  qed
qed

lemma fast_itoa_eq:
  assumes "length buf = 11"
  shows "fast_itoa buf val = Some (decimal (val mod U32))"
proof -
  let ?v = "val mod U32" and ?b = "buf[10 := NUL]"
  have "?v < U32" by simp
  then have "?v < 100 ^ 5" by (simp add: U32_def)
  then obtain buf' p v s where l: "itoa_loop ?b (2 * 5) ?v = Some (buf', p, v)" "v < 100" "2 \<le> p" "p \<le> length buf'"
    "length buf' = 11" "decimal ?v = decimal v @ s" "drop p buf' = s @ drop (2 * 5) ?b"
    using itoa_loop_eq [of ?v 5 ?b] assms by auto
  have nul: "drop 10 ?b = [NUL]" using assms by (simp add: drop_update_swap [symmetric] list_eq_iff_nth_eq)
  have two: "length (str100p v) = 2" by (simp add: str100p_def)
  let ?b3 = "take (p - 2) buf' @ str100p v @ drop p buf'"
  have put: "put_at buf' (p - 2) (str100p v) = Some ?b3"
  proof -
    have "p - 2 + 2 = p" using l(3) by simp
    then show ?thesis using l(4) two by (simp only: put_at_def) simp
  qed
  have str: "drop (p - 2 + (if v < 10 then 1 else 0)) ?b3 = decimal ?v @ [NUL]"
  proof (cases "v < 10")
    case True
    obtain j where p: "p = j + 2" using le_Suc_ex [OF l(3)] by (auto simp: add.commute)
    then show ?thesis using True l(4-7) nul by (simp add: decimal_small str100p_def)
  next
    case False
    then show ?thesis using l(2-7) nul decimal_two [of v] by simp
  qed
  have "c_str (decimal ?v @ [NUL]) = decimal ?v" using c_str_app_NUL [OF cstring_decimal, of ?v "[]"] by simp
  then show ?thesis
    unfolding fast_itoa_def using assms l(1,3) put str by (simp add: wr_def)
qed

lemma atoi_loop_append:
  "atoi_loop (xs @ ys) k s = do { (s', k') \<leftarrow> atoi_loop xs k s; atoi_loop ys k' s' }"
  by (induction xs arbitrary: k s) (simp_all add: bind_assoc)

lemma atoi_table_digit: "d < 10 \<Longrightarrow> k < 10 \<Longrightarrow> atoi_table k (digit d) = Some (int d * 10 ^ k)"
  by (simp add: atoi_table_def of_char_digit)

lemma atoi_loop_decimal:
  "k + length (decimal n) \<le> 10 \<Longrightarrow>
   atoi_loop (rev (decimal n)) k s = Some (s + int n * 10 ^ k, k + length (decimal n))"
proof (induction n arbitrary: k s rule: decimal.induct)
  case (1 n)
  show ?case
  proof (cases "n < 10")
    case True
    then show ?thesis using 1(2) by (simp add: decimal_small atoi_table_digit)
  next
    case False
    have l: "Suc k + length (decimal (n div 10)) \<le> 10" using 1(2) False by (simp add: decimal_big)
    have "int n = 10 * int (n div 10) + int (n mod 10)" by (metis div_mult_mod_eq mult.commute of_nat_add of_nat_mult of_nat_numeral)
    then have "s + int (n mod 10) * 10 ^ k + int (n div 10) * 10 ^ Suc k = s + int n * 10 ^ k"
      by (simp add: algebra_simps)
    with 1(1) [OF False l, of "s + int (n mod 10) * 10 ^ k"] l False show ?thesis
      by (simp add: decimal_big atoi_table_digit)
  qed
qed

lemma hd_decimal: "\<exists>d < 10. hd (decimal n) = digit d"
proof (induction n rule: decimal.induct)
  case (1 n)
  then show ?case by (cases "n < 10") (auto simp: decimal_small decimal_big)
qed

lemma fast_atoi_decimal:
  assumes "n < 10 ^ 10"
  shows "fast_atoi (decimal n) = Some (int n)"
proof -
  obtain c cs where d: "decimal n = c # cs" by (cases "decimal n") auto
  have len: "length (decimal n) \<le> 10" using length_decimal [OF assms] by simp
  have "c \<noteq> CHR ''-''" using hd_decimal [of n] digit_not(2) d by auto
  moreover have "atoi_loop (rev cs @ [c]) 0 0 = Some (int n, length (decimal n))"
    using atoi_loop_decimal [of 0 n 0] len d by simp
  ultimately show ?thesis
    using len d by (auto simp: fast_atoi_def atoi_loop_append bind_eq_Some_conv)
qed

section \<open>The queue of cells\<close>

text \<open>The buffer \<open>char buff[11]\<close> on the C stack; its first contents do not matter.\<close>

definition itoa_buff :: string where "itoa_buff = replicate 11 (CHR ''?'')"

definition queue_init :: "heap \<Rightarrow> Link \<Rightarrow> (heap \<times> Link) option" where
  "queue_init h queue = do {
     (h1, q1) \<leftarrow> args_setInt h queue ''__t'' 0;
     args_setInt h1 q1 ''__b'' 0
   }"

definition New_queue :: "heap \<Rightarrow> (heap \<times> Link) option" where
  "New_queue h = (let (h1, args) = New_args h in queue_init h1 args)"

definition queue_deinit :: "heap \<Rightarrow> Link \<Rightarrow> heap option" where
  "queue_deinit h queue = args_deinit h queue"

definition queue_pushArg :: "heap \<Rightarrow> Link \<Rightarrow> nat \<Rightarrow> (heap \<times> Link) option" where
  "queue_pushArg h queue arg = do {
     top \<leftarrow> args_getInt h queue ''__t'';
     (h1, q1) \<leftarrow> args_setInt h queue ''__t'' (top + 1);
     nm \<leftarrow> fast_itoa itoa_buff (unat top);
     (h2, a) \<leftarrow> arg_setName h1 (Some arg) nm;
     args_setArg h2 q1 a
   }"

text \<open>The cell at the bottom stays in the table, so that a string it holds stays valid.\<close>

definition queue_popArg_noRmoveArg :: "heap \<Rightarrow> Link \<Rightarrow> (heap \<times> Link \<times> nat option) option" where
  "queue_popArg_noRmoveArg h queue = do {
     top \<leftarrow> args_getInt h queue ''__t'';
     bottom \<leftarrow> args_getInt h queue ''__b'';
     if top - bottom < 1 then Some (h, queue, None)
     else do {
       (h1, q1) \<leftarrow> args_setInt h queue ''__b'' (bottom + 1);
       nm \<leftarrow> fast_itoa itoa_buff (unat bottom);
       res \<leftarrow> args_getArg h1 q1 nm;
       Some (h1, q1, res)
     }
   }"

text \<open>\<open>int val\<close> is sign-extended to \<open>int64_t\<close>.\<close>

definition queue_pushInt :: "heap \<Rightarrow> Link \<Rightarrow> 32 word \<Rightarrow> (heap \<times> Link) option" where
  "queue_pushInt h queue val = do { (h1, a) \<leftarrow> arg_setInt h None [] (scast val); queue_pushArg h1 queue a }"

definition queue_pushFloat :: "heap \<Rightarrow> Link \<Rightarrow> u64 \<Rightarrow> (heap \<times> Link) option" where
  "queue_pushFloat h queue val = do { (h1, a) \<leftarrow> arg_setFloat h None [] val; queue_pushArg h1 queue a }"

definition queue_pushStr :: "heap \<Rightarrow> Link \<Rightarrow> string option \<Rightarrow> (heap \<times> Link) option" where
  "queue_pushStr h queue str = do {
     (h1, a) \<leftarrow> arg_setStr h None [] str;
     a' \<leftarrow> a;
     queue_pushArg h1 queue a'
   }"

text \<open>Popping an empty queue hands the null pointer to the getter, which asserts that it is not null.\<close>

definition queue_pop :: "(Arg \<Rightarrow> 'v option) \<Rightarrow> heap \<Rightarrow> Link \<Rightarrow> (heap \<times> Link \<times> 'v) option" where
  "queue_pop get h queue = do {
     (h1, q1, a) \<leftarrow> queue_popArg_noRmoveArg h queue;
     a' \<leftarrow> a;
     c \<leftarrow> cells h1 a';
     v \<leftarrow> get c;
     Some (h1, q1, v)
   }"

definition queue_popInt :: "heap \<Rightarrow> Link \<Rightarrow> (heap \<times> Link \<times> u64) option" where
  "queue_popInt = queue_pop arg_getInt"

definition queue_popFloat :: "heap \<Rightarrow> Link \<Rightarrow> (heap \<times> Link \<times> u64) option" where
  "queue_popFloat = queue_pop arg_getFloat"

definition queue_popStr :: "heap \<Rightarrow> Link \<Rightarrow> (heap \<times> Link \<times> string) option" where
  "queue_popStr = queue_pop arg_getStr"

section \<open>The cell queue is a queue\<close>

definition entry :: "heap \<Rightarrow> nat list \<Rightarrow> string \<Rightarrow> u64 \<Rightarrow> bool" where
  "entry h xs nm v \<longleftrightarrow> (\<exists>c. lookup h xs (hash_time33 nm) = Some c \<and> atype c = ARG_TYPE_INT \<and> arg_getInt c = Some v)"

text \<open>A queue of integers whose oldest entry has the number \<open>b\<close>.\<close>

definition queue_ok :: "heap \<Rightarrow> Link \<Rightarrow> nat list \<Rightarrow> nat \<Rightarrow> u64 list \<Rightarrow> bool" where
  "queue_ok h l xs b vs \<longleftrightarrow> args_ok h l xs \<and> rc_ok h \<and> b + length vs < U32 \<and>
     entry h xs ''__t'' (of_nat (b + length vs)) \<and> entry h xs ''__b'' (of_nat b) \<and>
     (\<forall>i < length vs. entry h xs (decimal (b + i)) (vs ! i))"

text \<open>The names of the entries below \<open>n\<close> have different hashes, also from the two counters.\<close>

definition names_ok :: "nat \<Rightarrow> bool" where
  "names_ok n \<longleftrightarrow> distinct (map hash_time33 (''__t'' # ''__b'' # map decimal [0..<n]))"

lemma names_okD:
  assumes "names_ok n"
  shows "i < n \<Longrightarrow> hash_time33 (decimal i) \<noteq> hash_time33 ''__t''" "i < n \<Longrightarrow> hash_time33 (decimal i) \<noteq> hash_time33 ''__b''"
    "i < n \<Longrightarrow> j < n \<Longrightarrow> i \<noteq> j \<Longrightarrow> hash_time33 (decimal i) \<noteq> hash_time33 (decimal j)"
    "hash_time33 ''__t'' \<noteq> hash_time33 ''__b''"
proof -
  have d: "distinct (hash_time33 ''__t'' # hash_time33 ''__b'' # map (hash_time33 \<circ> decimal) [0..<n])"
    using assms by (simp add: names_ok_def)
  then show "hash_time33 ''__t'' \<noteq> hash_time33 ''__b''" by simp
  show "hash_time33 (decimal i) \<noteq> hash_time33 ''__t''" "hash_time33 (decimal i) \<noteq> hash_time33 ''__b''" if "i < n"
  proof -
    have "hash_time33 (decimal i) \<in> set (map (hash_time33 \<circ> decimal) [0..<n])" using that by auto
    with d show "hash_time33 (decimal i) \<noteq> hash_time33 ''__t''" "hash_time33 (decimal i) \<noteq> hash_time33 ''__b''"
      by (auto simp del: set_map)
  qed
  have "inj_on (hash_time33 \<circ> decimal) (set [0..<n])" using d by (simp add: distinct_map)
  then show "hash_time33 (decimal i) \<noteq> hash_time33 (decimal j)" if "i < n" "j < n" "i \<noteq> j"
    using that by (auto simp: inj_on_def)
qed

lemma entry_getInt: "args_ok h l xs \<Longrightarrow> entry h xs nm v \<Longrightarrow> args_getInt h l nm = Some v"
  by (auto simp: entry_def args_getInt_lookup)

lemma entry_other:
  "bound_to h xs h' l' xs' k Q \<Longrightarrow> hash_time33 nm \<noteq> k \<Longrightarrow> entry h' xs' nm v = entry h xs nm v"
  by (auto simp: bound_to_def entry_def)

lemma entry_this:
  "bound_to h xs h' l' xs' (hash_time33 nm) (\<lambda>c. atype c = ARG_TYPE_INT \<and> arg_getInt c = Some v) \<Longrightarrow> entry h' xs' nm v"
  by (auto simp: bound_to_def entry_def)

lemma entry_poke:
  assumes "args_ok h l xs" "rc_ok h" "entry h xs nm u"
  shows "\<exists>a c'. args_setInt h l nm v = Some (set_cell h a c', l) \<and> a \<in> set xs \<and>
    bound_to h xs (set_cell h a c') l xs (hash_time33 nm) (\<lambda>c. atype c = ARG_TYPE_INT \<and> arg_getInt c = Some v)"
proof -
  obtain a c where "finds h (hash_time33 nm) xs = Some a" "cells h a = Some c" "atype c = ARG_TYPE_INT"
    using assms(3) by (auto simp: entry_def lookup_def bind_eq_Some_conv)
  from args_setInt_poke [OF assms(1,2) this] show ?thesis by blast
qed

lemma of_nat_u64: "n < U32 \<Longrightarrow> unat (of_nat n :: u64) = n"
  by (simp add: unat_of_nat take_bit_eq_mod U32_def)

lemma itoa_name: "n < U32 \<Longrightarrow> fast_itoa itoa_buff n = Some (decimal n)"
  using fast_itoa_eq [of itoa_buff n] by (simp add: itoa_buff_def)

lemma carries_int:
  assumes "carries x c" "arg_ok c" "asize c = 8" "payload c = enc_u64 v"
  shows "arg_getInt x = Some v"
proof -
  have "arg_ok x" "8 \<le> asize x" "take 8 (payload x) = enc_u64 v" using assms by (auto simp: carries_def)
  then show ?thesis using payload_u64(1) dec_payload_u64 by simp
qed

lemma queue_pushInt_ok:
  assumes q: "queue_ok h l xs b vs" and n: "names_ok n" "Suc (b + length vs) < n" "n \<le> U32"
  shows "\<exists>h' l' xs'. queue_pushInt h l v = Some (h', l') \<and> queue_ok h' l' xs' b (vs @ [scast v])"
proof -
  let ?t = "b + length vs"
  have ok: "args_ok h l xs" "rc_ok h" and e: "entry h xs ''__t'' (of_nat ?t)" "entry h xs ''__b'' (of_nat b)"
    "\<And>i. i < length vs \<Longrightarrow> entry h xs (decimal (b + i)) (vs ! i)"
    using q by (auto simp: queue_ok_def)
  obtain c where c: "arg_set h None [] ARG_TYPE_INT (Some (enc_u64 (scast v))) 8 = Some (add_cell h c, fresh h)" "arg_ok c"
    "serialized c" "sized c" "\<And>p. \<not> owns p c" "atype c = ARG_TYPE_INT" "payload c = enc_u64 (scast v)" "asize c = 8"
    using new_u64 [of ARG_TYPE_INT h "[]" "scast v"] by auto
  let ?h = "add_cell h c"
  note add = add_cell_args [OF ok c(2,4,5)]
  have eadd: "entry ?h xs nm u = entry h xs nm u" for nm u using add(5) by (simp add: entry_def)
  obtain a c' where p: "args_setInt ?h l ''__t'' (of_nat ?t + 1) = Some (set_cell ?h a c', l)" "a \<in> set xs"
    "bound_to ?h xs (set_cell ?h a c') l xs (hash_time33 ''__t'')
       (\<lambda>c. atype c = ARG_TYPE_INT \<and> arg_getInt c = Some (of_nat ?t + 1))"
    using entry_poke [OF add(1,2), of "''__t''"] e(1) eadd by blast
  let ?h1 = "set_cell ?h a c'"
  have ok1: "args_ok ?h1 l xs" "rc_ok ?h1" using p(3) by (simp_all add: bound_to_def)
  have fa: "fresh h \<noteq> a" using p(2) add(4) by auto
  have c1: "cells ?h1 (fresh h) = Some c" using fa by simp
  let ?nm = "decimal ?t"
  let ?c = "c\<lparr>name_hash := hash_time33 ?nm\<rparr>"
  let ?h2 = "set_cell ?h1 (fresh h) ?c"
  have named: "sized ?c" "owns p ?c = owns p c" for p using c(4) by (simp_all add: sized_def owns_name)
  have ok2: "args_ok ?h2 l xs" "rc_ok ?h2"
    using set_other_args [OF ok1 add(4) c1, of ?c] c(2) named by simp_all
  have e2: "lookup ?h2 xs k = lookup ?h1 xs k" for k
    using lookup_set_other [OF add(4)] .
  have c2: "cells ?h2 (fresh h) = Some ?c" "serialized ?c" using c(3) by simp_all
  obtain h' l' xs' where s: "args_setArg ?h2 l (fresh h) = Some (h', l')"
    "bound_to ?h2 xs h' l' xs' (hash_time33 ?nm) (\<lambda>x. carries x ?c)"
    using args_setArg_bound [OF ok2 c2 add(4)] by auto
  have "arg_getInt x = Some (scast v)" if "carries x ?c" for x
    using carries_int [OF that] c(2,7,8) by simp
  then have new: "entry h' xs' ?nm (scast v)"
    using s(2) c(6) by (auto simp: bound_to_def entry_def carries_def)
  have keep: "entry h' xs' nm u = entry h xs nm u" if "hash_time33 nm \<noteq> hash_time33 ''__t''" "hash_time33 nm \<noteq> hash_time33 ?nm" for nm u
    using entry_other [OF s(2) that(2)] entry_other [OF p(3) that(1)] eadd e2 by (simp add: entry_def)
  have tn: "hash_time33 ?nm \<noteq> hash_time33 ''__t''" "hash_time33 ?nm \<noteq> hash_time33 ''__b''"
    using names_okD(1,2) [OF n(1), of ?t] n(2) by simp_all
  have "entry h' xs' ''__t'' (of_nat ?t + 1)"
    using entry_other [OF s(2), of "''__t''"] tn(1) entry_this [OF p(3)] e2 by (simp add: entry_def)
  moreover have "entry h' xs' ''__b'' (of_nat b)"
    using keep e(2) names_okD(4) [OF n(1)] tn(2) by metis
  moreover have "entry h' xs' (decimal (b + i)) ((vs @ [scast v]) ! i)" if i: "i < Suc (length vs)" for i
  proof (cases "i = length vs")
    case True
    then show ?thesis using new by simp
  next
    case False
    then have "hash_time33 (decimal (b + i)) \<noteq> hash_time33 ''__t''" "hash_time33 (decimal (b + i)) \<noteq> hash_time33 ?nm"
      using names_okD(1,3) [OF n(1)] n(2) i by auto
    then show ?thesis using keep e(3) [of i] i False by (simp add: nth_append)
  qed
  moreover have "fast_itoa itoa_buff (unat (of_nat ?t :: u64)) = Some ?nm"
  proof -
    have "?t < U32" using n(2,3) by linarith
    then show ?thesis by (simp only: of_nat_u64 itoa_name)
  qed
  then have "queue_pushInt h l v = Some (h', l')"
    using entry_getInt [OF add(1), of "''__t''" "of_nat ?t"] e(1) eadd c(1) p(1) s(1) c1 n(2,3)
    by (simp add: queue_pushInt_def arg_setInt_def queue_pushArg_def arg_setName_def arg_setNameHash_def)
  ultimately show ?thesis
    using s(2) n(2,3) by (intro exI [of _ h'] exI [of _ l'] exI [of _ xs'])
      (simp add: queue_ok_def bound_to_def add.commute)
qed

lemma queue_popInt_ok:
  assumes q: "queue_ok h l xs b (v # vs)" and n: "names_ok n" "b + length vs < n"
  shows "\<exists>h' l' xs'. queue_popInt h l = Some (h', l', v) \<and> queue_ok h' l' xs' (Suc b) vs"
proof -
  let ?t = "b + length (v # vs)"
  have ok: "args_ok h l xs" "rc_ok h" and e: "entry h xs ''__t'' (of_nat ?t)" "entry h xs ''__b'' (of_nat b)"
    "\<And>i. i < length (v # vs) \<Longrightarrow> entry h xs (decimal (b + i)) ((v # vs) ! i)" and lt: "?t < U32"
    using q by (auto simp: queue_ok_def)
  obtain a c' where p: "args_setInt h l ''__b'' (of_nat b + 1) = Some (set_cell h a c', l)"
    "bound_to h xs (set_cell h a c') l xs (hash_time33 ''__b'')
       (\<lambda>c. atype c = ARG_TYPE_INT \<and> arg_getInt c = Some (of_nat b + 1))"
    using entry_poke [OF ok e(2)] by blast
  let ?h1 = "set_cell h a c'"
  have ok1: "args_ok ?h1 l xs" "rc_ok ?h1" using p(2) by (simp_all add: bound_to_def)
  have keep: "entry ?h1 xs nm u = entry h xs nm u" if "hash_time33 nm \<noteq> hash_time33 ''__b''" for nm u
    using entry_other [OF p(2) that] .
  have hb: "hash_time33 (decimal b) \<noteq> hash_time33 ''__b''" using names_okD(2) [OF n(1), of b] n(2) by simp
  have "entry ?h1 xs (decimal b) v" using keep [OF hb] e(3) [of 0] by simp
  then obtain x cx where x: "finds ?h1 (hash_time33 (decimal b)) xs = Some x" "cells ?h1 x = Some cx" "arg_getInt (view cx) = Some v"
    by (auto simp: entry_def lookup_def bind_eq_Some_conv)
  then have "x \<in> set xs" using finds_SomeD by fastforce
  then have "arg_getInt cx = Some v" using x args_ok_cell [OF ok1(1)] getters_view(1) [of cx] by fastforce
  moreover have "\<not> (of_nat ?t - of_nat b :: u64) < 1"
  proof -
    have "(of_nat ?t - of_nat b :: u64) = of_nat (length (v # vs))" by simp
    moreover have "length (v # vs) < U32" using lt by simp
    ultimately show ?thesis using of_nat_u64 [of "length (v # vs)"] by (simp only: word_less_nat_alt) simp
  qed
  ultimately have "queue_popInt h l = Some (?h1, l, v)"
    using entry_getInt [OF ok(1) e(1)] entry_getInt [OF ok(1) e(2)] p(1) lt x args_getNode_hash_eq [OF ok1(1)]
    by (simp add: queue_popInt_def queue_pop_def queue_popArg_noRmoveArg_def of_nat_u64 itoa_name
        args_getArg_def args_getNode_def)
  moreover have "entry ?h1 xs ''__t'' (of_nat (Suc b + length vs))"
    using keep [of "''__t''"] e(1) names_okD(4) [OF n(1)] by simp
  moreover have "entry ?h1 xs ''__b'' (of_nat (Suc b))" using entry_this [OF p(2)] by (simp add: add.commute)
  moreover have "entry ?h1 xs (decimal (Suc b + i)) (vs ! i)" if "i < length vs" for i
  proof -
    have "hash_time33 (decimal (Suc b + i)) \<noteq> hash_time33 ''__b''"
      using names_okD(2) [OF n(1), of "Suc b + i"] n(2) that by simp
    from keep [OF this] e(3) [of "Suc i"] that show ?thesis by simp
  qed
  ultimately show ?thesis
    using ok1 lt by (intro exI [of _ ?h1] exI [of _ l] exI [of _ xs]) (simp add: queue_ok_def)
qed

lemma counters_differ: "hash_time33 ''__t'' \<noteq> hash_time33 ''__b''"
  by (simp add: hash_time33_def char_u32_def)

lemma queue_init_ok:
  assumes "args_ok h l xs" "rc_ok h"
  shows "\<exists>h' l' xs'. queue_init h l = Some (h', l') \<and> queue_ok h' l' xs' 0 []"
proof -
  obtain h1 l1 xs1 where 1: "args_setInt h l ''__t'' 0 = Some (h1, l1)"
    "bound_to h xs h1 l1 xs1 (hash_time33 ''__t'') (\<lambda>c. atype c = ARG_TYPE_INT \<and> arg_getInt c = Some 0)"
    using args_setInt_bound [OF assms] by blast
  then have ok1: "args_ok h1 l1 xs1" "rc_ok h1" by (simp_all add: bound_to_def)
  obtain h2 l2 xs2 where 2: "args_setInt h1 l1 ''__b'' 0 = Some (h2, l2)"
    "bound_to h1 xs1 h2 l2 xs2 (hash_time33 ''__b'') (\<lambda>c. atype c = ARG_TYPE_INT \<and> arg_getInt c = Some 0)"
    using args_setInt_bound [OF ok1] by blast
  have "entry h2 xs2 ''__t'' 0"
    using entry_other [OF 2(2) counters_differ] entry_this [OF 1(2)] by simp
  with 1(1) 2 entry_this [OF 2(2)] show ?thesis
    by (intro exI [of _ h2] exI [of _ l2] exI [of _ xs2]) (simp add: queue_init_def queue_ok_def bound_to_def)
qed

section \<open>Properties\<close>

text \<open>C16: the ring buffer is a bounded queue: on a well-formed queue every operation returns without
  leaving the buffer; a write appends unless the queue is full, a read takes the oldest byte and a
  peek walks over the queue without changing it, and after a write the new byte can be peeked.\<close>

theorem byteQueue_refines:
  assumes "bq_ok q"
  shows "(\<exists>q' r. byteQueue_writeOne q b = Some (q', r) \<and> bq_ok q' \<and> (r \<longleftrightarrow> length (bq_list q) < buffer_size q) \<and>
            bq_list q' = (if r then bq_list q @ [b] else bq_list q) \<and>
            bq_peeked q' = (if r then bq_peeked q @ [b] else bq_peeked q)) \<and>
         (\<exists>q' r. byteQueue_readOne q = Some (q', r) \<and> bq_ok q' \<and>
            (case bq_list q of [] \<Rightarrow> r = None \<and> q' = q | x # xs \<Rightarrow> r = Some x \<and> bq_list q' = xs \<and> bq_peeked q' = xs)) \<and>
         (\<exists>q' r. byteQueue_peekOne q = Some (q', r) \<and> bq_ok q' \<and> bq_list q' = bq_list q \<and>
            (case bq_peeked q of [] \<Rightarrow> r = None \<and> q' = q | x # xs \<Rightarrow> r = Some x \<and> bq_peeked q' = xs)) \<and>
         bq_peeked (byteQueue_resetPeek q) = bq_list q \<and> bq_list (byteQueue_dropAllPeeked q) = bq_peeked q \<and>
         bq_ok (byteQueue_resetPeek q) \<and> bq_ok (byteQueue_dropAllPeeked q)"
proof -
  have "bq_ok (byteQueue_resetPeek q)" "bq_peeked (byteQueue_resetPeek q) = bq_list q"
    "bq_list (byteQueue_dropAllPeeked q) = bq_peeked q"
    using assms by (simp_all add: bq_ok_def byteQueue_resetPeek_def byteQueue_dropAllPeeked_def bq_peeked_def bq_list_def)
  moreover have "bq_ok (byteQueue_dropAllPeeked q)"
    using assms by (auto simp: bq_ok_def byteQueue_dropAllPeeked_def mod_simps)
  moreover have len: "length (bq_list q) = count q" by (simp add: bq_list_def)
  moreover have "\<exists>q' r. byteQueue_writeOne q b = Some (q', r) \<and> bq_ok q' \<and> (r \<longleftrightarrow> length (bq_list q) < buffer_size q) \<and>
      bq_list q' = (if r then bq_list q @ [b] else bq_list q) \<and>
      bq_peeked q' = (if r then bq_peeked q @ [b] else bq_peeked q)"
    using writeOne_ok [OF assms, of b] unfolding len by blast
  moreover have "\<exists>q' r. byteQueue_readOne q = Some (q', r) \<and> bq_ok q' \<and>
      (case bq_list q of [] \<Rightarrow> r = None \<and> q' = q | x # xs \<Rightarrow> r = Some x \<and> bq_list q' = xs \<and> bq_peeked q' = xs)"
    using readOne_ok [OF assms] by blast
  moreover have "\<exists>q' r. byteQueue_peekOne q = Some (q', r) \<and> bq_ok q' \<and> bq_list q' = bq_list q \<and>
      (case bq_peeked q of [] \<Rightarrow> r = None \<and> q' = q | x # xs \<Rightarrow> r = Some x \<and> bq_peeked q' = xs)"
    using peekOne_ok [OF assms] by blast
  ultimately show ?thesis by simp
qed

definition demo_bq :: ByteQueue where
  "demo_bq = \<lparr> buffer = [7, 8, 9], buffer_size = 3, head = 2, tail = 1, peek = 0, count = 2, peek_count = 1 \<rparr>"

theorem byteQueue_refines_witness:
  "\<exists>q'. byteQueue_writeOne demo_bq 5 = Some (q', True) \<and> bq_list q' = [9, 7, 5] \<and> bq_peeked q' = [7, 5]"
proof -
  have "bq_ok demo_bq" "bq_list demo_bq = [9, 7]" "bq_peeked demo_bq = [7]" "buffer_size demo_bq = 3"
    by (simp_all add: bq_ok_def bq_list_def bq_peeked_def ring_def demo_bq_def upt_rec)
  with byteQueue_refines [of demo_bq 5] show ?thesis by auto
qed



text \<open>C17: a queue of cells is first in, first out: pushing an integer appends it, popping takes the
  oldest entry, as long as the decimal names of the entries have different hashes.\<close>

theorem queue_fifo:
  assumes "queue_ok h l xs b vs" "names_ok n" "Suc (b + length vs) < n" "n \<le> U32"
  shows "(\<exists>h' l' xs'. queue_pushInt h l v = Some (h', l') \<and> queue_ok h' l' xs' b (vs @ [scast v])) \<and>
         (\<forall>u us. vs = u # us \<longrightarrow>
            (\<exists>h' l' xs'. queue_popInt h l = Some (h', l', u) \<and> queue_ok h' l' xs' (Suc b) us))"
  using queue_pushInt_ok [OF assms] queue_popInt_ok [of h l xs b _ _ n] assms by auto

theorem queue_fifo_witness:
  "\<exists>h l h' l' xs'. queue_init heap0 link0 = Some (h, l) \<and> queue_pushInt h l 6 = Some (h', l') \<and>
     queue_ok h' l' xs' 0 [6]"
proof -
  obtain h l xs where q: "queue_init heap0 link0 = Some (h, l)" "queue_ok h l xs 0 []"
    using queue_init_ok [OF table0] by blast
  have "names_ok 3"
    by (simp add: names_ok_def upt_rec decimal_small digit_def hash_time33_def char_u32_def char_of_def)
  from queue_fifo [OF q(2) this, of 6] q(1) show ?thesis by (auto simp: U32_def)
qed

end
