(* ===== verification/Pika_Strs.thy ===== *)
theory Pika_Strs
  imports Pika_String Pika_Args
begin

text \<open>
  The routines of \<open>src/src/dataStrs.c\<close>, which put their results into buffers taken from a table
  by \<open>args_getBuff\<close>. A routine here is a function from its argument strings to the C string at
  the returned pointer; the buffer it fills is the zeroed block of exactly the size the code asks
  for, and every write into it is checked. That \<open>args_getBuff\<close> of \<open>Pika_Args\<close> yields such a block
  is lemma \<open>args_getBuff_block\<close>. String arguments are not null (the code asserts it where it
  checks); the optional argument of \<open>strsReplace\<close> and null results are options.
\<close>

section \<open>Buffers\<close>

definition getBuff :: "nat \<Rightarrow> string" where
  "getBuff sz = replicate (sz + 1) NUL"

text \<open>A negative size would be converted to a huge unsigned one.\<close>

definition getBuff_int :: "int \<Rightarrow> string option" where
  "getBuff_int sz = (if sz < 0 then None else Some (getBuff (nat sz)))"

section \<open>Copies and tokens\<close>

definition strsRemovePrefix :: "string \<Rightarrow> string \<Rightarrow> (string option) option" where
  "strsRemovePrefix inputStr prefix =
     map_option (map_option c_str) (strRemovePrefix inputStr prefix (getBuff (strGetSize inputStr)))"

definition strsCut :: "string \<Rightarrow> char \<Rightarrow> char \<Rightarrow> (string option) option" where
  "strsCut strIn startSign endSign = do {
     (out, found) \<leftarrow> strCut (getBuff (strGetSize strIn)) strIn startSign endSign;
     Some (if found then Some (c_str out) else None)
   }"

definition strsGetDirectStr :: "string \<Rightarrow> (string option) option" where
  "strsGetDirectStr argPath = do {
     directStr \<leftarrow> strsCut argPath CH_DQ CH_DQ;
     if directStr \<noteq> None then Some directStr
     else do {
       directStr' \<leftarrow> strsCut argPath CH_SQ CH_SQ;
       if directStr' \<noteq> None then Some directStr' else Some None
     }
   }"

definition strsAppend :: "string \<Rightarrow> string \<Rightarrow> string option" where
  "strsAppend strOrigin strToAppend = do {
     strOut \<leftarrow> strCopy (getBuff (strGetSize strOrigin + strGetSize strToAppend)) strOrigin;
     strOut' \<leftarrow> strAppend strOut strToAppend;
     Some (c_str strOut')
   }"

definition strsGetLastToken :: "string \<Rightarrow> char \<Rightarrow> string option" where
  "strsGetLastToken argPath sign =
     map_option c_str (strGetLastToken (getBuff (strGetSize argPath)) argPath sign)"

definition strsDeleteChar :: "string \<Rightarrow> char \<Rightarrow> string option" where
  "strsDeleteChar strIn ch = map_option c_str (strDeleteChar (getBuff (strGetSize strIn)) strIn ch)"

definition getSizeOfFirstToken :: "string \<Rightarrow> char \<Rightarrow> nat" where
  "getSizeOfFirstToken str sign =
     (case scan_fwd sign str 0 of Some i \<Rightarrow> i | None \<Rightarrow> strGetSize str)"

text \<open>\<open>strGetFirstToken\<close> writes no terminator: the zeroed buffer supplies it.\<close>

definition strsGetFirstToken :: "string \<Rightarrow> char \<Rightarrow> string option" where
  "strsGetFirstToken strIn sign =
     map_option c_str (strGetFirstToken (getBuff (getSizeOfFirstToken strIn sign)) strIn sign)"

definition strsCopy :: "string \<Rightarrow> string option" where
  "strsCopy source = map_option c_str (strCopy (getBuff (strGetSize source)) source)"

text \<open>The token and the rest of the text, where the caller's pointer is moved to.\<close>

definition strsPopToken :: "string \<Rightarrow> char \<Rightarrow> (string \<times> string) option" where
  "strsPopToken tokens sign = (let (txt, rest) = strPopFirstToken tokens sign in do {
     res \<leftarrow> strsCopy (c_str txt);
     Some (res, drop rest tokens)
   })"

definition strsPopLine :: "string \<Rightarrow> (string \<times> string) option" where
  "strsPopLine tokens = (let (txt, rest) = strPopFirstToken tokens CH_NL in do {
     res \<leftarrow> strsCopy (c_str txt);
     Some (res, drop rest tokens)
   })"

definition strsGetLine :: "string \<Rightarrow> string option" where
  "strsGetLine code = do {
     lineSize \<leftarrow> strGetLineSize code 0;
     out \<leftarrow> strGetLine (getBuff (lineSize + 1)) code;
     Some (c_str out)
   }"

section \<open>Paths\<close>

definition strsPathFormat :: "string \<Rightarrow> string option" where
  "strsPathFormat input = do {
     (out, n) \<leftarrow> strPathFormat input (getBuff (strGetSize input));
     Some (c_str out)
   }"

definition strsPathJoin :: "string \<Rightarrow> string \<Rightarrow> string option" where
  "strsPathJoin input1 input2 = do {
     (out, n) \<leftarrow> strPathJoin input1 input2 (getBuff (strGetSize input1 + strGetSize input2 + 1));
     Some (c_str out)
   }"

definition strsPathGetFolder :: "string \<Rightarrow> string option" where
  "strsPathGetFolder input = do {
     (out, n) \<leftarrow> strPathGetFolder input (getBuff (strGetSize input));
     Some (c_str out)
   }"

definition strsPathGetFileName :: "string \<Rightarrow> string option" where
  "strsPathGetFileName input = do {
     (out, n) \<leftarrow> strPathGetFileName input (getBuff (strGetSize input));
     Some (c_str out)
   }"

section \<open>Replacement\<close>

text \<open>\<open>strstr\<close> of the C library, as the offset of the first occurrence.\<close>

fun strstr :: "string \<Rightarrow> string \<Rightarrow> nat option" where
  "strstr [] rep = (if rep = [] then Some 0 else None)"
| "strstr (c # cs) rep =
     (if take (length rep) (c # cs) = rep then Some 0 else map_option Suc (strstr cs rep))"

text \<open>The counting loop; it does not end on an empty \<open>rep\<close>.\<close>

partial_function (option) replace_count :: "string \<Rightarrow> string \<Rightarrow> nat \<Rightarrow> nat option" where
  "replace_count ins rep n =
     (case strstr ins rep of
        None \<Rightarrow> Some n
      | Some tmp \<Rightarrow> replace_count (drop (tmp + length rep) ins) rep (Suc n))"

declare replace_count.simps [code]

text \<open>The copying loop: \<open>tmp\<close> is the offset of the pointer in the result buffer.\<close>

primrec replace_loop :: "string \<Rightarrow> string \<Rightarrow> nat \<Rightarrow> string \<Rightarrow> nat \<Rightarrow> string \<Rightarrow> string option" where
  "replace_loop rep w 0 buf tmp orig = put_at buf tmp (orig @ [NUL])"
| "replace_loop rep w (Suc n) buf tmp orig = do {
     len_front \<leftarrow> strstr orig rep;
     buf1 \<leftarrow> put_at buf tmp (take len_front orig);
     buf2 \<leftarrow> put_at buf1 (tmp + len_front) (w @ [NUL]);
     replace_loop rep w n buf2 (tmp + len_front + length w) (drop (len_front + length rep) orig)
   }"

definition strsReplace :: "string \<Rightarrow> string \<Rightarrow> string option \<Rightarrow> (string option) option" where
  "strsReplace orig rep wth =
     (if strstr orig rep = None then Some (Some orig)
      else let len_rep = length rep in
        if len_rep = 0 then Some None
        else let w = (case wth of None \<Rightarrow> [] | Some w \<Rightarrow> w); len_with = length w in do {
          n \<leftarrow> replace_count orig rep 0;
          buf \<leftarrow> getBuff_int (int (length orig) + (int len_with - int len_rep) * int n + 1);
          result \<leftarrow> replace_loop rep w n buf 0 orig;
          Some (Some (c_str result))
        })"

definition strsFilePreProcess_ex :: "string \<Rightarrow> string \<Rightarrow> string option" where
  "strsFilePreProcess_ex lines endwith = do {
     l1 \<leftarrow> strsReplace lines [CH_CR, CH_NL] (Some [CH_NL]);
     lines1 \<leftarrow> l1;
     l2 \<leftarrow> strsReplace lines1 [CH_NL, CH_NL] (Some [CH_NL]);
     lines2 \<leftarrow> l2;
     lines3 \<leftarrow> strsAppend lines2 endwith;
     strsCopy lines3
   }"

definition strsFilePreProcess :: "string \<Rightarrow> string option" where
  "strsFilePreProcess lines = strsFilePreProcess_ex lines [CH_NL, CH_NL]"

section \<open>Escape sequences\<close>

definition hex_val :: "char \<Rightarrow> nat option" where
  "hex_val c = (let n = of_char c in
     if 48 \<le> n \<and> n \<le> 57 then Some (n - 48)
     else if 65 \<le> n \<and> n \<le> 70 then Some (n - 55)
     else if 97 \<le> n \<and> n \<le> 102 then Some (n - 87)
     else None)"

text \<open>
  \<open>(char)strtoll(hex_str, NULL, 0)\<close> on the string \<open>0xcd\<close>: without a hex digit after \<open>0x\<close> only the
  \<open>0\<close> is converted.
\<close>

definition hex_char :: "char \<Rightarrow> char \<Rightarrow> char" where
  "hex_char c d = (case hex_val c of
     None \<Rightarrow> NUL
   | Some x \<Rightarrow> (case hex_val d of None \<Rightarrow> char_of x | Some y \<Rightarrow> char_of (16 * x + y)))"

text \<open>The \<open>switch\<close> over the character behind a backslash.\<close>

definition escape_of :: "char \<Rightarrow> char" where
  "escape_of c =
     (if c = CHR ''r'' then CH_CR else if c = CHR ''n'' then CH_NL
      else if c = CHR ''t'' then CH_TAB else if c = CHR ''b'' then CHR 0x08
      else if c = CH_BS then CH_BS else if c = CH_SQ then CH_SQ
      else if c = CH_DQ then CH_DQ else if c = CHR ''?'' then CHR ''?''
      else CH_BS)"

text \<open>
  The loop on the characters from \<open>str[i]\<close> on. \<open>str[i + 1]\<close> is at worst the terminator;
  \<open>str[i + 2]\<close> and \<open>str[i + 3]\<close> of a cut-off \<open>\x\<close> may lie behind it.
\<close>

fun transfer_loop :: "string \<Rightarrow> nat \<Rightarrow> string \<Rightarrow> (string \<times> nat) option" where
  "transfer_loop out i_out [] = Some (out, i_out)"
| "transfer_loop out i_out (c # cs) =
     (if c = CH_BS \<and> str_at cs 0 = CHR ''x'' then do {
        x \<leftarrow> rd (cs @ [NUL]) 1;
        y \<leftarrow> rd (cs @ [NUL]) 2;
        out' \<leftarrow> wr out i_out (hex_char x y);
        transfer_loop out' (Suc i_out) (drop 3 cs)
      }
      else if c = CH_BS then do {
        out' \<leftarrow> wr out i_out (escape_of (str_at cs 0));
        transfer_loop out' (Suc i_out) (drop 1 cs)
      }
      else do {
        out' \<leftarrow> wr out i_out c;
        transfer_loop out' (Suc i_out) cs
      })"

text \<open>The buffer and the number of characters written, which may contain terminators.\<close>

definition strsTransfer :: "string \<Rightarrow> (string \<times> nat) option" where
  "strsTransfer str = transfer_loop (getBuff (strGetSize str)) 0 str"

section \<open>Parts, repetition, indentation\<close>

text \<open>The two pointers are offsets into one string.\<close>

definition strsSubStr :: "string \<Rightarrow> nat \<Rightarrow> nat \<Rightarrow> string option" where
  "strsSubStr str name_start name_end =
     (if name_end < name_start \<or> length str < name_end then None
      else let size = name_end - name_start in do {
        buf \<leftarrow> put_loop (getBuff (size + 1)) 0 (take size (drop name_start str));
        buf' \<leftarrow> wr buf size NUL;
        Some (c_str buf')
      })"

fun repeat_loop :: "string \<Rightarrow> string \<Rightarrow> nat list \<Rightarrow> string option" where
  "repeat_loop buf str [] = Some buf"
| "repeat_loop buf str (i # is) = do {
     buf' \<leftarrow> put_loop buf (i * strGetSize str) str;
     repeat_loop buf' str is
   }"

definition strsRepeat :: "string \<Rightarrow> int \<Rightarrow> string option" where
  "strsRepeat str num = (let size = int (strGetSize str) * num in do {
     buf \<leftarrow> getBuff_int (size + 1);
     buf1 \<leftarrow> repeat_loop buf str [0..<nat num];
     buf2 \<leftarrow> (if size < 0 then None else wr buf1 (nat size) NUL);
     Some (c_str buf2)
   })"

text \<open>\<open>bol\<close>: the character is the first one or follows a newline.\<close>

fun indent_loop :: "string \<Rightarrow> nat \<Rightarrow> nat \<Rightarrow> bool \<Rightarrow> string \<Rightarrow> (string \<times> nat) option" where
  "indent_loop out output_index spaces bol [] = Some (out, output_index)"
| "indent_loop out output_index spaces bol (c # cs) = do {
     out1 \<leftarrow> (if bol then put_loop out output_index (replicate spaces (CHR '' '')) else Some out);
     let k = (if bol then output_index + spaces else output_index);
     out2 \<leftarrow> wr out1 k c;
     indent_loop out2 (Suc k) spaces (c = CH_NL) cs
   }"

definition add_indentation :: "string \<Rightarrow> int \<Rightarrow> string \<Rightarrow> string option" where
  "add_indentation input spaces output =
     (if spaces < 0 then Some output
      else do {
        (out, k) \<leftarrow> indent_loop output 0 (nat spaces) True input;
        wr out k NUL
      })"

fun lines_loop :: "string \<Rightarrow> nat \<Rightarrow> nat" where
  "lines_loop [] lines = lines"
| "lines_loop (c # cs) lines = lines_loop cs (if c = CH_NL then lines + 1 else lines)"

definition strsAddIndentation :: "string \<Rightarrow> int \<Rightarrow> string option" where
  "strsAddIndentation str spaces = do {
     buf \<leftarrow> getBuff_int (int (strGetSize str) + spaces * int (lines_loop str 1) + 1);
     out \<leftarrow> add_indentation str spaces buf;
     Some (c_str out)
   }"

section \<open>What the copies yield\<close>

lemma length_getBuff [simp]: "length (getBuff n) = Suc n"
  by (simp add: getBuff_def)

lemma drop_getBuff: "drop k (getBuff n) = replicate (Suc n - k) NUL"
  by (simp add: getBuff_def del: replicate_Suc)

lemma getBuff_int_nat [simp]: "getBuff_int (int n) = Some (getBuff n)"
  by (simp add: getBuff_int_def)

lemma strsCopy_eq: "cstring s \<Longrightarrow> strsCopy s = Some s"
  using strCopy_zeroed [of s 0] c_str_app_NUL [of s "[]"] by (simp add: strsCopy_def getBuff_def strGetSize_def)

lemma strsAppend_eq:
  assumes "cstring s" "cstring t"
  shows "strsAppend s t = Some (s @ t)"
proof -
  have c: "c_str (s @ replicate (Suc (length t)) NUL) = s"
    using assms c_str_replicate_NUL by blast
  have "strCopy (getBuff (length s + length t)) s = Some (s @ replicate (Suc (length t)) NUL)"
    using strCopy_zeroed [OF assms(1), of "length t"] by (simp add: getBuff_def)
  moreover have "strAppend (s @ replicate (Suc (length t)) NUL) t = Some (s @ t @ NUL # [])"
    using strAppend_Some [of "s @ replicate (Suc (length t)) NUL" t] assms unfolding c by simp
  moreover have "c_str (s @ t @ [NUL]) = s @ t"
    using c_str_app_NUL [of "s @ t" "[]"] assms by simp
  ultimately show ?thesis by (simp add: strsAppend_def strGetSize_def)
qed

lemma strsDeleteChar_eq: "cstring s \<Longrightarrow> strsDeleteChar s ch = Some (filter (\<lambda>c. c \<noteq> ch) s)"
  using strDeleteChar_spec [of s ch "getBuff (length s)"] length_filter_le [of "\<lambda>c. c \<noteq> ch" s]
  by (auto simp: strsDeleteChar_def strGetSize_def)

lemma strsGetLastToken_eq: "cstring s \<Longrightarrow> strsGetLastToken s sign = Some (last_token sign s)"
  using strGetLastToken_spec [of s sign "getBuff (length s)"] length_takeWhile_le [of "\<lambda>c. c \<noteq> sign" "rev s"]
  by (auto simp: strsGetLastToken_def strGetSize_def last_token_def)

lemma getSizeOfFirstToken_eq: "getSizeOfFirstToken s sign = length (takeWhile (\<lambda>c. c \<noteq> sign) s)"
  by (simp add: getSizeOfFirstToken_def scan_fwd_eq strGetSize_def)

lemma strsGetFirstToken_eq:
  assumes "cstring s"
  shows "strsGetFirstToken s sign = Some (takeWhile (\<lambda>c. c \<noteq> sign) s)"
  using assms c_str_app_NUL [of "takeWhile (\<lambda>c. c \<noteq> sign) s" "[]"]
  by (simp add: strsGetFirstToken_def strGetFirstToken_def firstTok_fill_eq getSizeOfFirstToken_eq buf_simps drop_getBuff)

lemma strsPopToken_eq:
  assumes "cstring s"
  shows "strsPopToken s sign = Some (takeWhile (\<lambda>c. c \<noteq> sign) s, drop 1 (dropWhile (\<lambda>c. c \<noteq> sign) s))"
proof -
  obtain a r where p: "strPopFirstToken s sign = (a, r)" by fastforce
  have "c_str a = takeWhile (\<lambda>c. c \<noteq> sign) s" "drop r s = drop 1 (dropWhile (\<lambda>c. c \<noteq> sign) s)"
    using strPopFirstToken_spec [OF assms, of sign] unfolding p
    by (auto simp: dropWhile_eq_drop dropWhile_eq_Nil_conv)
  then show ?thesis using assms by (simp add: strsPopToken_def p strsCopy_eq)
qed

lemma strsPopLine_token: "strsPopLine s = strsPopToken s CH_NL"
  by (simp add: strsPopLine_def strsPopToken_def)

lemma strsGetLine_eq:
  assumes "cstring s" "CH_NL \<in> set s"
  shows "strsGetLine s = Some (takeWhile (\<lambda>c. c \<noteq> CH_NL) s)"
  using strGetLine_spec [OF assms(2,1), of "getBuff (length (takeWhile (\<lambda>c. c \<noteq> CH_NL) s) + 1)"] assms
  by (auto simp: strsGetLine_def strGetLineSize_eq)

lemma strsPathFormat_eq:
  assumes "cstring s" shows "strsPathFormat s = Some (slashes s)"
  using assms strPathFormat_spec [of s "getBuff (length s)"] c_str_app_NUL [of "slashes s"]
  by (simp add: strsPathFormat_def strGetSize_def)

lemma strsPathJoin_eq:
  assumes "cstring p1" "cstring p2" "p1 \<noteq> []"
  shows "strsPathJoin p1 p2 = Some (path_join (slashes p1) (slashes p2))"
  using strPathJoin_spec [OF assms, of "getBuff (length p1 + length p2 + 1)"]
  by (auto simp: strsPathJoin_def strGetSize_def)

lemma strsPathGetFolder_eq: "cstring p \<Longrightarrow> strsPathGetFolder p = Some (path_folder p)"
  using strPathGetFolder_spec [of p "getBuff (length p)"] by (auto simp: strsPathGetFolder_def strGetSize_def)

lemma strsPathGetFileName_eq:
  assumes "cstring p"
  shows "strsPathGetFileName p = Some (last_token (CHR ''/'') (slashes p))"
proof (cases "CHR ''/'' \<in> set (slashes p)")
  case True
  from strPathGetFileName_slash [OF assms _ this, of "getBuff (length p)"] show ?thesis
    by (auto simp: strsPathGetFileName_def strGetSize_def)
next
  case False
  then have "CHR ''/'' \<notin> set p" "CH_BS \<notin> set p" by (simp_all add: slash_in_slashes)
  moreover from this have "slashes p = p" by (induction p) auto
  ultimately show ?thesis
    using strCopy_zeroed [OF assms, of 0] c_str_app_NUL [OF assms, of "[]"] False
    by (simp add: strsPathGetFileName_def strPathGetFileName_def strGetSize_def getBuff_def last_token_no_sign)
qed

lemma strsRepeat_loop:
  assumes "length buf = length s * n + k" "m \<le> n"
  shows "repeat_loop buf s [m..<n] = Some (take (m * length s) buf @ concat (replicate (n - m) s) @ drop (n * length s) buf)"
  using assms
proof (induction "n - m" arbitrary: m buf)
  case 0
  then show ?case by simp
next
  case (Suc d)
  then have m: "[m..<n] = m # [Suc m..<n]" "m < n" by (simp_all add: upt_conv_Cons)
  have le: "m * length s + length s \<le> n * length s" using m(2) mult_le_mono1 [of "Suc m" n "length s"] by simp
  let ?b = "take (m * length s) buf @ s @ drop (m * length s + length s) buf"
  have b: "put_loop buf (m * length s) s = Some ?b" using le Suc.prems(1) by (simp add: buf_simps mult.commute)
  have "length ?b = length s * n + k" using le Suc.prems(1) by (simp add: mult.commute)
  with Suc.hyps(1) [of "Suc m" ?b] Suc.hyps(2) m(2)
  have "repeat_loop ?b s [Suc m..<n] = Some (take (Suc m * length s) ?b @ concat (replicate (n - Suc m) s) @ drop (n * length s) ?b)"
    by simp
  moreover have "take (Suc m * length s) ?b = take (m * length s) buf @ s"
    using le Suc.prems(1) by (simp add: mult.commute)
  moreover have "drop (n * length s) ?b = drop (n * length s) buf"
    using le Suc.prems m(2) by (simp add: mult.commute)
  moreover have "replicate (n - m) s = s # replicate (n - Suc m) s" using m(2) by (simp add: Suc_diff_Suc [symmetric])
  ultimately show ?case using b by (simp add: m(1) strGetSize_def del: upt_Suc)
qed

lemma cstring_concat_replicate [simp]: "cstring s \<Longrightarrow> cstring (concat (replicate n s))"
  by (induction n) auto

lemma strsRepeat_eq:
  assumes "cstring s"
  shows "strsRepeat s (int n) = Some (concat (replicate n s))"
proof -
  have i: "int (length s) * int n + 1 = int (length s * n + 1)" by simp
  have r: "repeat_loop (getBuff (length s * n + 1)) s [0..<n] = Some (concat (replicate n s) @ [NUL, NUL])"
    using strsRepeat_loop [of "getBuff (length s * n + 1)" s n 2 0]
    by (simp add: drop_getBuff mult.commute numeral_2_eq_2)
  have l: "length (concat (replicate n s)) = length s * n" by (induction n) auto
  have p: "\<not> int (length s) * int n < 0" "nat (int (length s) * int n) = length s * n"
    by (simp_all flip: of_nat_mult)
  have "wr (concat (replicate n s) @ [NUL, NUL]) (length s * n) NUL = Some (concat (replicate n s) @ [NUL, NUL])"
    by (simp add: wr_def list_update_append l)
  then have "strsRepeat s (int n) = Some (c_str (concat (replicate n s) @ [NUL, NUL]))"
    unfolding strsRepeat_def Let_def strGetSize_def i getBuff_int_nat using r p by simp
  then show ?thesis using assms c_str_app_NUL by simp
qed

lemma strsSubStr_eq:
  assumes "i \<le> j" "j \<le> length s" "cstring s"
  shows "strsSubStr s i j = Some (take (j - i) (drop i s))"
  using put_NUL_c_str [of "take (j - i) (drop i s)" "getBuff (j - i + 1)"] assms
  by (auto simp: strsSubStr_def Let_def)

section \<open>Replacement: pieces between the occurrences\<close>

lemma strstr_Some_iff:
  "strstr s rep = Some i \<longleftrightarrow> i + length rep \<le> length s \<and> take (length rep) (drop i s) = rep \<and>
     (\<forall>j < i. take (length rep) (drop j s) \<noteq> rep)"
proof (induction s arbitrary: i)
  case Nil
  then show ?case by auto
next
  case (Cons c s)
  show ?case
  proof (cases "take (length rep) (c # s) = rep")
    case True
    then have "length rep \<le> length (c # s)" by (metis length_take min.cobounded1)
    with True show ?thesis by (cases i) auto
  next
    case False
    show ?thesis
    proof (cases i)
      case 0
      with False show ?thesis by auto
    next
      case (Suc k)
      with False Cons.IH [of k] show ?thesis by (auto simp: All_less_Suc2 simp del: take_Suc_Cons)
    qed
  qed
qed

lemma strstr_None: "strstr s rep = None \<Longrightarrow> i + length rep \<le> length s \<Longrightarrow> take (length rep) (drop i s) \<noteq> rep"
proof (induction s arbitrary: i)
  case Nil
  then show ?case by (auto split: if_splits)
next
  case (Cons c s)
  then show ?case by (cases i) (auto split: if_splits)
qed

lemma strstr_split:
  assumes "strstr s rep = Some i"
  shows "s = take i s @ rep @ drop (i + length rep) s"
  using assms unfolding strstr_Some_iff by (metis append_take_drop_id drop_drop add.commute)

text \<open>What stands in front of an occurrence contains none, not even across the border.\<close>

lemma strstr_front:
  assumes "strstr s rep = Some i"
  shows "strstr (take i s @ rep) rep = Some i"
proof -
  have s: "s = take i s @ rep @ drop (i + length rep) s" and i: "i + length rep \<le> length s"
    "\<And>j. j < i \<Longrightarrow> take (length rep) (drop j s) \<noteq> rep"
    using strstr_split [OF assms] assms by (auto simp: strstr_Some_iff)
  have "take (length rep) (drop j (take i s @ rep)) \<noteq> rep" if "j < i" for j
  proof -
    have "drop j s = drop j (take i s @ rep) @ drop (i + length rep) s"
      using arg_cong [OF s, of "drop j"] that i(1) by simp
    moreover have "length rep \<le> length (drop j (take i s @ rep))" using that i(1) by simp
    ultimately show ?thesis using i(2) [OF that] by simp
  qed
  then show ?thesis using i(1) by (simp add: strstr_Some_iff)
qed

fun join :: "string \<Rightarrow> string list \<Rightarrow> string" where
  "join sep [] = []"
| "join sep [p] = p"
| "join sep (p # q # ps) = p @ sep @ join sep (q # ps)"

function pieces :: "string \<Rightarrow> string \<Rightarrow> string list" where
  "pieces rep s =
     (case strstr s rep of
        None \<Rightarrow> [s]
      | Some i \<Rightarrow> if rep = [] then [s] else take i s # pieces rep (drop (i + length rep) s))"
  by pat_completeness auto
termination
proof (relation "measure (\<lambda>(rep, s). length s)")
  fix rep s :: string and i
  assume "strstr s rep = Some i" "rep \<noteq> []"
  then have "0 < length rep" "length rep \<le> length s" by (auto simp: strstr_Some_iff)
  then show "((rep, drop (i + length rep) s), rep, s) \<in> measure (\<lambda>(rep, s). length s)"
    unfolding in_measure by (simp del: length_greater_0_conv)
qed simp

declare pieces.simps [simp del]

lemma pieces_None: "strstr s rep = None \<Longrightarrow> pieces rep s = [s]"
  by (simp add: pieces.simps)

lemma pieces_Some:
  "strstr s rep = Some i \<Longrightarrow> rep \<noteq> [] \<Longrightarrow> pieces rep s = take i s # pieces rep (drop (i + length rep) s)"
  by (simp add: pieces.simps)

lemma pieces_not_Nil [simp]: "pieces rep s \<noteq> []"
  by (subst pieces.simps) (simp split: option.splits)

lemma length_pieces: "Suc (length (pieces rep s) - 1) = length (pieces rep s)"
  using pieces_not_Nil [of rep s] by (cases "pieces rep s") auto

lemma join_Cons [simp]: "ps \<noteq> [] \<Longrightarrow> join sep (p # ps) = p @ sep @ join sep ps"
  by (cases ps) auto

lemma join_pieces: "rep \<noteq> [] \<Longrightarrow> join rep (pieces rep s) = s"
proof (induction rep s rule: pieces.induct)
  case (1 rep s)
  then show ?case
    by (cases "strstr s rep") (auto simp: pieces_None pieces_Some strstr_split [symmetric])
qed

lemma length_join: "ps \<noteq> [] \<Longrightarrow> length (join sep ps) = sum_list (map length ps) + length sep * (length ps - 1)"
  by (induction sep ps rule: join.induct) auto

lemma pieces_occurrence:
  "rep \<noteq> [] \<Longrightarrow> (\<forall>p \<in> set (butlast (pieces rep s)). strstr (p @ rep) rep = Some (length p)) \<and>
     strstr (last (pieces rep s)) rep = None"
proof (induction rep s rule: pieces.induct)
  case (1 rep s)
  show ?case
  proof (cases "strstr s rep")
    case None
    then show ?thesis by (simp add: pieces_None)
  next
    case (Some i)
    then have "length (take i s) = i" by (auto simp: strstr_Some_iff)
    with 1 Some strstr_front [OF Some] show ?thesis by (auto simp: pieces_Some)
  qed
qed

lemma cstring_pieces: "cstring s \<Longrightarrow> p \<in> set (pieces rep s) \<Longrightarrow> cstring p"
proof (induction rep s rule: pieces.induct)
  case (1 rep s)
  then show ?case
    by (cases "strstr s rep"; cases "rep = []") (auto simp: pieces_None pieces_Some pieces.simps [of "[]"])
qed

lemma cstring_join: "cstring sep \<Longrightarrow> (\<And>p. p \<in> set ps \<Longrightarrow> cstring p) \<Longrightarrow> cstring (join sep ps)"
  by (induction sep ps rule: join.induct) auto

lemma replace_count_eq: "rep \<noteq> [] \<Longrightarrow> replace_count s rep n = Some (n + (length (pieces rep s) - 1))"
proof (induction rep s arbitrary: n rule: pieces.induct)
  case (1 rep s)
  show ?case
  proof (cases "strstr s rep")
    case None
    then show ?thesis by (subst replace_count.simps) (simp add: pieces_None)
  next
    case (Some i)
    with 1(1) [OF Some 1(2), of "Suc n"] 1(2) length_pieces [of rep "drop (i + length rep) s"] show ?thesis
      by (subst replace_count.simps) (simp add: pieces_Some)
  qed
qed

lemma put_at_eq: "k + length xs \<le> length buf \<Longrightarrow> put_at buf k xs = Some (take k buf @ xs @ drop (k + length xs) buf)"
  by (simp add: put_at_def)

lemma replace_loop_eq:
  assumes "rep \<noteq> []" "k + length (join w (pieces rep s)) < length buf"
  shows "replace_loop rep w (length (pieces rep s) - 1) buf k s =
    Some (take k buf @ join w (pieces rep s) @ NUL # drop (Suc (k + length (join w (pieces rep s)))) buf)"
  using assms
proof (induction rep s arbitrary: buf k rule: pieces.induct)
  case (1 rep s)
  show ?case
  proof (cases "strstr s rep")
    case None
    then show ?thesis using 1(3) by (simp add: pieces_None put_at_eq)
  next
    case (Some i)
    let ?r = "drop (i + length rep) s" and ?t = "take i s"
    let ?b1 = "take k buf @ ?t @ drop (k + i) buf"
    have i: "length ?t = i" using Some by (auto simp: strstr_Some_iff)
    have ps: "pieces rep s = ?t # pieces rep ?r" using Some 1(2) by (rule pieces_Some)
    have room: "k + i + length w + length (join w (pieces rep ?r)) < length buf"
      using 1(3) i by (simp add: ps)
    have b1: "put_at buf k ?t = Some ?b1" using room i by (simp add: put_at_eq)
    have "length ?b1 = length buf" using room i by simp
    then have b2: "put_at ?b1 (k + i) (w @ [NUL]) =
        Some (take k buf @ ?t @ w @ NUL # drop (k + i + length w + 1) buf)" (is "_ = Some ?b2")
      using room i by (simp add: put_at_eq add_ac)
    have l2: "length ?b2 = length buf" using room i by simp
    obtain n where n: "length (pieces rep ?r) - 1 = n" by blast
    then have n': "length (pieces rep s) - 1 = Suc n"
      using length_pieces [of rep ?r] by (simp add: ps)
    have "replace_loop rep w n ?b2 (k + i + length w) ?r =
        Some (take (k + i + length w) ?b2 @ join w (pieces rep ?r) @ NUL #
          drop (Suc (k + i + length w + length (join w (pieces rep ?r)))) ?b2)"
      using 1(1) [OF Some] 1(2) l2 room n by simp
    moreover have "take (k + i + length w) ?b2 = take k buf @ ?t @ w" using room i by simp
    moreover have "drop (Suc (k + i + length w + length (join w (pieces rep ?r)))) ?b2 =
        drop (Suc (k + i + length w + length (join w (pieces rep ?r)))) buf"
      using room i by (simp add: add_ac)
    ultimately show ?thesis unfolding n' using Some b1 b2 i by (simp add: ps add_ac)
  qed
qed

text \<open>The buffer is large enough and the result is the pieces joined by the new text.\<close>

lemma strsReplace_eq:
  assumes "cstring s" "cstring w" "rep \<noteq> []"
  shows "strsReplace s rep (Some w) = Some (Some (join w (pieces rep s)))"
proof (cases "strstr s rep")
  case None
  then show ?thesis by (simp add: strsReplace_def pieces_None)
next
  case (Some i)
  let ?ps = "pieces rep s" and ?r = "join w (pieces rep s)"
  have "int (length s) + (int (length w) - int (length rep)) * int (length ?ps - 1) + 1 = int (length ?r + 1)"
  proof -
    obtain n where "length ?ps - 1 = n" by blast
    then show ?thesis
      using length_join [of ?ps rep] length_join [of ?ps w] join_pieces [OF assms(3), of s]
      by (simp add: left_diff_distrib)
  qed
  then have "getBuff_int (int (length s) + (int (length w) - int (length rep)) * int (length ?ps - 1) + 1) =
      Some (getBuff (length ?r + 1))" by (simp only: getBuff_int_nat)
  moreover have "replace_loop rep w (length ?ps - 1) (getBuff (length ?r + 1)) 0 s = Some (?r @ [NUL, NUL])"
    using replace_loop_eq [OF assms(3), of 0 w s "getBuff (length ?r + 1)"] by (simp add: drop_getBuff)
  moreover have "c_str (?r @ [NUL, NUL]) = ?r"
    using c_str_app_NUL cstring_join [OF assms(2)] cstring_pieces [OF assms(1)] by blast
  ultimately show ?thesis
    using Some assms(3) by (simp add: strsReplace_def replace_count_eq)
qed

text \<open>Replacement character by character.\<close>

lemma replace_Cons:
  assumes "rep \<noteq> []"
  shows "join w (pieces rep (c # s)) =
    (if take (length rep) (c # s) = rep then w @ join w (pieces rep (drop (length rep) (c # s)))
     else c # join w (pieces rep s))"
proof (cases "take (length rep) (c # s) = rep")
  case True
  then have "strstr (c # s) rep = Some 0" by simp
  from pieces_Some [OF this assms] True show ?thesis by simp
next
  case False
  show ?thesis
  proof (cases "strstr s rep")
    case None
    with False show ?thesis by (simp add: pieces_None del: take_Cons')
  next
    case (Some i)
    then have "strstr (c # s) rep = Some (Suc i)" using False by simp
    from pieces_Some [OF this assms] pieces_Some [OF Some assms] False show ?thesis by simp
  qed
qed

text \<open>The text with the line ends of DOS.\<close>

definition dos_lines :: "string \<Rightarrow> string" where
  "dos_lines s = concat (map (\<lambda>c. if c = CH_NL then [CH_CR, CH_NL] else [c]) s)"

lemma pieces_Nil: "rep \<noteq> [] \<Longrightarrow> pieces rep [] = [[]]"
  by (simp add: pieces_None)

lemma replace_dos_lines: "CH_CR \<notin> set s \<Longrightarrow> join [CH_NL] (pieces [CH_CR, CH_NL] (dos_lines s)) = s"
  by (induction s) (auto simp: dos_lines_def pieces_Nil replace_Cons)

lemma replace_absent: "c \<notin> set s \<Longrightarrow> join w (pieces (c # r) s) = s"
  by (induction s) (auto simp: pieces_Nil replace_Cons)

lemma strsFilePreProcess_eq:
  assumes "cstring s"
  shows "strsFilePreProcess s =
    Some (join [CH_NL] (pieces [CH_NL, CH_NL] (join [CH_NL] (pieces [CH_CR, CH_NL] s))) @ [CH_NL, CH_NL])"
proof -
  have c: "cstring (join [CH_NL] (pieces rep t))" if "cstring t" for t rep
    using cstring_join [of "[CH_NL]" "pieces rep t"] cstring_pieces [OF that] by simp
  show ?thesis
    using assms c by (simp add: strsFilePreProcess_def strsFilePreProcess_ex_def strsReplace_eq strsAppend_eq strsCopy_eq)
qed

section \<open>Escape sequences and their inverse\<close>

definition hex_digit :: "nat \<Rightarrow> char" where
  "hex_digit d = char_of (if d < 10 then 48 + d else 87 + d)"

text \<open>A way to write any character so that \<open>strsTransfer\<close> gives it back.\<close>

definition escape_char :: "char \<Rightarrow> string" where
  "escape_char c =
     (if c = CH_CR then [CH_BS, CHR ''r''] else if c = CH_NL then [CH_BS, CHR ''n'']
      else if c = CH_TAB then [CH_BS, CHR ''t''] else if c = CHR 0x08 then [CH_BS, CHR ''b'']
      else if c = CH_BS \<or> c = CH_SQ \<or> c = CH_DQ \<or> c = CHR ''?'' then [CH_BS, c]
      else if (of_char c :: nat) < 32 \<or> 127 \<le> (of_char c :: nat)
        then [CH_BS, CHR ''x'', hex_digit (of_char c div 16), hex_digit (of_char c mod 16)]
      else [c])"

lemma hex_val_digit: "d < 16 \<Longrightarrow> hex_val (hex_digit d) = Some d"
  by (simp add: hex_val_def hex_digit_def Let_def)

lemma hex_char_digits: "hex_char (hex_digit (of_char c div 16)) (hex_digit (of_char c mod 16)) = c"
proof -
  have "of_char c div 16 < (16 :: nat)" using of_char_mod_256 [of c] by (simp add: less_mult_imp_div_less)
  then show ?thesis by (simp add: hex_char_def hex_val_digit)
qed

lemma transfer_escape_char:
  "transfer_loop out k (escape_char c @ s) = Option.bind (wr out k c) (\<lambda>o'. transfer_loop o' (Suc k) s)"
  using hex_char_digits [of c]
  by (auto simp: escape_char_def str_at_def escape_of_def rd_def)

lemma transfer_escape:
  "transfer_loop out k (concat (map escape_char s)) = map_option (\<lambda>o'. (o', k + length s)) (put_loop out k s)"
proof (induction s arbitrary: out k)
  case Nil
  then show ?case by simp
next
  case (Cons c s)
  then show ?case by (cases "wr out k c") (simp_all add: transfer_escape_char)
qed

lemma length_escape: "length s \<le> length (concat (map escape_char s))"
proof (induction s)
  case (Cons c s)
  then show ?case by (cases "escape_char c") (auto simp: escape_char_def split: if_splits)
qed simp

text \<open>Whatever the text is, as long as it does not end in a cut-off \<open>\x\<close>, the buffer is large enough.\<close>

lemma transfer_room:
  "k + length s \<le> length out \<Longrightarrow> transfer_loop out k s \<noteq> None \<or> (\<exists>u. s = u @ [CH_BS, CHR ''x''])"
proof (induction out k s rule: transfer_loop.induct)
  case (1 out i_out)
  then show ?case by simp
next
  case (2 out k c cs)
  have w: "wr out k x = Some (out[k := x])" for x using 2(4) by (simp add: wr_def)
  consider (x) "c = CH_BS" "str_at cs 0 = CHR ''x''" | (e) "c = CH_BS" "str_at cs 0 \<noteq> CHR ''x''" | (n) "c \<noteq> CH_BS"
    by blast
  then show ?case
  proof cases
    case x
    show ?thesis
    proof (cases "length cs < 2")
      case True
      then have "cs = ''x''" using x(2) by (cases cs) (auto simp: str_at_def split: if_splits)
      then have "c # cs = [] @ [CH_BS, CHR ''x'']" using x(1) by simp
      then show ?thesis by blast
    next
      case False
      then have r: "rd (cs @ [NUL]) 1 = Some ((cs @ [NUL]) ! 1)" "rd (cs @ [NUL]) 2 = Some ((cs @ [NUL]) ! 2)"
        by (auto simp: rd_def)
      have "cs = take 3 cs @ drop 3 cs" by simp
      then have "(\<exists>u. drop 3 cs = u @ [CH_BS, CHR ''x'']) \<Longrightarrow> \<exists>u. c # cs = u @ [CH_BS, CHR ''x'']"
        by (metis append_Cons append_assoc)
      moreover have "Suc (k + (length cs - 3)) \<le> length out" using 2(4) by simp
      ultimately show ?thesis using 2(1) [OF _ r w] x r w by auto
    qed
  next
    case e
    have "cs = take 1 cs @ drop 1 cs" by simp
    then have "(\<exists>u. drop 1 cs = u @ [CH_BS, CHR ''x'']) \<Longrightarrow> \<exists>u. c # cs = u @ [CH_BS, CHR ''x'']"
      by (metis append_Cons append_assoc)
    moreover have "Suc (k + (length cs - 1)) \<le> length out" using 2(4) by simp
    ultimately show ?thesis using 2(2) [OF _ _ w] e w by auto
  next
    case n
    then show ?thesis using 2(3) [OF _ _ w] 2(4) w by (auto intro: append_Cons [symmetric])
  qed
qed

section \<open>Indentation\<close>

text \<open>The lines of a text, each with the newline that ends it.\<close>

fun lines_nl :: "string \<Rightarrow> string list" where
  "lines_nl [] = []"
| "lines_nl (c # cs) =
     (if c = CH_NL then [c] # lines_nl cs
      else case lines_nl cs of [] \<Rightarrow> [[c]] | l # ls \<Rightarrow> (c # l) # ls)"

definition indent_text :: "nat \<Rightarrow> string \<Rightarrow> string" where
  "indent_text n s = concat (map (\<lambda>l. replicate n (CHR '' '') @ l) (lines_nl s))"

lemma concat_lines_nl: "concat (lines_nl s) = s"
  by (induction s) (auto split: list.splits)

fun indent_rest :: "nat \<Rightarrow> bool \<Rightarrow> string \<Rightarrow> string" where
  "indent_rest n bol [] = []"
| "indent_rest n bol (c # cs) = (if bol then replicate n (CHR '' '') else []) @ c # indent_rest n (c = CH_NL) cs"

lemma indent_rest_lines:
  "indent_rest n True s = indent_text n s \<and>
   indent_rest n False s = (case lines_nl s of [] \<Rightarrow> [] | l # ls \<Rightarrow> l @ concat (map (\<lambda>l. replicate n (CHR '' '') @ l) ls))"
  by (induction s) (auto simp: indent_text_def split: list.splits)

lemma indent_loop_eq:
  "k + length (indent_rest n bol s) \<le> length out \<Longrightarrow>
   indent_loop out k n bol s =
     Some (take k out @ indent_rest n bol s @ drop (k + length (indent_rest n bol s)) out, k + length (indent_rest n bol s))"
proof (induction s arbitrary: out k bol)
  case Nil
  then show ?case by simp
next
  case (Cons c s)
  let ?p = "if bol then replicate n (CHR '' '') else []"
  let ?k = "k + length ?p"
  let ?o1 = "take k out @ ?p @ drop ?k out"
  let ?o2 = "take k out @ ?p @ c # drop (Suc ?k) out"
  let ?r = "indent_rest n (c = CH_NL) s"
  have room: "?k + Suc (length ?r) \<le> length out" using Cons.prems by simp
  have o1: "(if bol then put_loop out k (replicate n (CHR '' '')) else Some out) = Some ?o1"
    using room by (cases bol) (simp_all add: buf_simps)
  have "wr ?o1 ?k c = Some ?o2"
    using room upd_put_append [of ?k "take k out" ?p out c] by (simp add: wr_def)
  moreover have "indent_loop ?o2 (Suc ?k) n (c = CH_NL) s =
      Some (take (Suc ?k) ?o2 @ ?r @ drop (Suc ?k + length ?r) ?o2, Suc ?k + length ?r)"
    using Cons.IH [of "Suc ?k" "c = CH_NL" ?o2] room by simp
  moreover have "take (Suc ?k) ?o2 = take k out @ ?p @ [c]" "drop (Suc ?k + length ?r) ?o2 = drop (Suc ?k + length ?r) out"
    using room by (simp_all add: add_ac)
  moreover have "(if bol then k + n else k) = ?k" by simp
  ultimately show ?case unfolding indent_loop.simps Let_def o1 by (simp add: add.assoc)
qed

lemma lines_loop_eq: "lines_loop s n = n + count_list s CH_NL"
  by (induction s arbitrary: n) auto

lemma length_indent: "length (indent_rest n bol s) \<le> length s + n * (count_list s CH_NL + (if bol then 1 else 0))"
proof (induction s arbitrary: bol)
  case (Cons c s)
  from Cons [of "c = CH_NL"] show ?case by (cases bol; cases "c = CH_NL") (auto simp: algebra_simps)
qed simp

lemma strsAddIndentation_eq:
  assumes "cstring s"
  shows "strsAddIndentation s (int n) = Some (indent_text n s)"
proof -
  let ?b = "getBuff (length s + n * (count_list s CH_NL + 1) + 1)"
  let ?r = "indent_rest n True s"
  have "int (length s) + int n * int (lines_loop s 1) + 1 = int (length s + n * (count_list s CH_NL + 1) + 1)"
    by (simp add: lines_loop_eq algebra_simps)
  then have b: "getBuff_int (int (strGetSize s) + int n * int (lines_loop s 1) + 1) = Some ?b"
    by (simp only: getBuff_int_nat strGetSize_def)
  have l: "length ?r \<le> length s + n * (count_list s CH_NL + 1)" using length_indent [of n True s] by simp
  then have "indent_loop ?b 0 n True s = Some (?r @ drop (length ?r) ?b, length ?r)"
    using indent_loop_eq [of 0 n True s ?b] by simp
  moreover have "wr (?r @ drop (length ?r) ?b) (length ?r) NUL = Some (?r @ NUL # drop (Suc (length ?r)) ?b)"
    using l by (simp add: wr_def upd_put)
  moreover have "cstring (indent_rest n bol t) \<longleftrightarrow> cstring t" for bol t
    by (induction t arbitrary: bol) (auto simp: cstring_def)
  then have "c_str (?r @ NUL # t) = ?r" for t using c_str_app_NUL assms by blast
  moreover have "?r = indent_text n s" using indent_rest_lines by blast
  ultimately show ?thesis
    using b by (simp add: strsAddIndentation_def add_indentation_def)
qed

section \<open>The buffer comes from the table\<close>

text \<open>\<open>args_getBuff\<close> pushes a new cell with \<open>n + 1\<close> zeroed bytes in front of the table.\<close>

lemma args_getBuff_block:
  assumes "args_ok h l xs" "rc_ok h" "fits (Suc n)"
  shows "\<exists>h' l' a c. args_getBuff h l n = Some (h', l', a) \<and> args_ok h' l' (a # xs) \<and>
    cells h' a = Some c \<and> payload c = replicate (n + 1) 0"
proof -
  let ?c = "mk_arg None 5381 ARG_TYPE_NONE (n + 1) (replicate (pad4 (n + 1)) 0)"
  have c: "arg_ok ?c" "sized ?c" "\<And>p. \<not> owns p ?c" "serialized ?c"
    using assms(3) by (simp_all add: mk_arg_ok sized_def owns_def)
  note add = add_cell_args [OF assms(1,2) c(1-3)]
  have n: "u32_add n 1 = n + 1" using assms(3) by (simp add: u32_add_def)
  have "args_getBuff h l n = Some (set_cell (add_cell h ?c) (fresh h) (?c\<lparr>union := Next (firstNode l)\<rparr>),
      l\<lparr>firstNode := Some (fresh h)\<rparr>, fresh h)"
    using link_addNode_ok [OF add(1) _ c(4) add(4)] args_pushArg_ok [OF add(1) _ c(4) add(4)] assms(3)
    by (simp add: args_getBuff_def n arg_newContent_eq)
  then show ?thesis
    using link_addNode_ok [OF add(1) _ c(4) add(4)] pad4_ge [of "n + 1"]
    by (intro exI conjI) (auto simp: payload_def min.absorb1)
qed

section \<open>Properties\<close>



text \<open>\<open>strsTransfer\<close> undoes the escaping of any sequence of characters, terminators and control
  characters included, inside the buffer it asked for; and on any text that does not end in a cut-off
  hexadecimal escape it stays inside its buffer.\<close>

lemma strsTransfer_escape:
  "(\<exists>out. strsTransfer (concat (map escape_char s)) = Some (out, length s) \<and> take (length s) out = s) \<and>
   ((\<exists>r. strsTransfer t = Some r) \<or> (\<exists>u. t = u @ [CH_BS, CHR ''x'']))"
proof -
  let ?e = "concat (map escape_char s)"
  have "put_loop (getBuff (length ?e)) 0 s = Some (s @ drop (length s) (getBuff (length ?e)))"
    using length_escape [of s] by (simp add: put_loop_Some)
  then show ?thesis
    using transfer_room [of 0 t "getBuff (length t)"]
    by (auto simp: strsTransfer_def strGetSize_def transfer_escape)
qed

text \<open>Reading a source file: a text with the line ends of DOS is prepared exactly as the same text
  with Unix line ends, and the result ends in an empty line.\<close>

theorem strsFilePreProcess_dos:
  assumes "cstring s" "CH_CR \<notin> set s"
  shows "\<exists>r. strsFilePreProcess (dos_lines s) = Some (r @ [CH_NL, CH_NL]) \<and> strsFilePreProcess s = Some (r @ [CH_NL, CH_NL])"
proof -
  have "cstring (dos_lines s)" using assms(1) by (auto simp: dos_lines_def cstring_def)
  then show ?thesis
    using assms by (simp add: strsFilePreProcess_eq replace_dos_lines replace_absent)
qed

theorem strsFilePreProcess_dos_witness:
  "strsFilePreProcess [CHR ''a'', CH_CR, CH_NL, CHR ''b''] = strsFilePreProcess [CHR ''a'', CH_NL, CHR ''b'']"
  using strsFilePreProcess_dos [of "[CHR ''a'', CH_NL, CHR ''b'']"] by (auto simp: dos_lines_def)

end
