(* ===== verification/Pika_Lexer.thy ===== *)
theory Pika_Lexer
  imports Pika_Strs
begin

text \<open>
  The lexer and the cursor of \<open>src/src/PikaParser.c\<close> (its first 1159 lines). The lexer cuts a
  statement into tokens and hands them over as one string, the token stream: per token the
  separator \<open>0x1F\<close>, a character for the type and the text. The cursor walks over a token stream
  with one token of look-ahead and keeps the bracket depth; the statement classifier, the operator
  search and the splitters of the parser are loops over a cursor.

  The strings live in buffers and cells that are released before the functions return; they are
  modelled as values, built by the routines of \<open>Pika_Strs\<close>, which check every write against the
  size of the buffer.
\<close>

named_theorems lex_simps \<open>facts on tokens and token streams\<close>

section \<open>Tokens\<close>

text \<open>\<open>TOKEN_other\<close> is a value outside the enumeration, read from a damaged stream.\<close>

datatype TokenType = TOKEN_strEnd | TOKEN_symbol | TOKEN_keyword | TOKEN_operator | TOKEN_devider
  | TOKEN_literal | TOKEN_other char

fun token_char :: "TokenType \<Rightarrow> char" where
  "token_char TOKEN_strEnd = NUL"
| "token_char TOKEN_symbol = CHR 0x01"
| "token_char TOKEN_keyword = CHR 0x02"
| "token_char TOKEN_operator = CHR 0x03"
| "token_char TOKEN_devider = CHR 0x04"
| "token_char TOKEN_literal = CHR 0x05"
| "token_char (TOKEN_other c) = c"

definition token_type :: "char \<Rightarrow> TokenType" where
  "token_type c =
     (if c = NUL then TOKEN_strEnd else if c = CHR 0x01 then TOKEN_symbol
      else if c = CHR 0x02 then TOKEN_keyword else if c = CHR 0x03 then TOKEN_operator
      else if c = CHR 0x04 then TOKEN_devider else if c = CHR 0x05 then TOKEN_literal
      else TOKEN_other c)"

abbreviation SEP :: char where "SEP \<equiv> CHR 0x1F"

definition Lexer_setToken :: "string \<Rightarrow> TokenType \<Rightarrow> string \<Rightarrow> string option" where
  "Lexer_setToken sTokenStream ty txt = do {
     s1 \<leftarrow> strsAppend sTokenStream (c_str [SEP, token_char ty, NUL]);
     strsAppend s1 txt
   }"

section \<open>The lexer\<close>

record lexer =
  aTokenStream :: string
  iSymbolStartIndex :: "nat option"
  bInString :: nat
  bNumber :: bool
  uBracketDeepth :: "8 word"

definition is_digit :: "char \<Rightarrow> bool" where
  "is_digit c \<longleftrightarrow> 48 \<le> (of_char c :: nat) \<and> (of_char c :: nat) \<le> 57"

definition is_word_char :: "char \<Rightarrow> bool" where
  "is_word_char c \<longleftrightarrow> (97 \<le> (of_char c :: nat) \<and> (of_char c :: nat) \<le> 122) \<or>
     (65 \<le> (of_char c :: nat) \<and> (of_char c :: nat) \<le> 90) \<or> is_digit c \<or> c = CHR ''_'' \<or> c = CHR ''.''"

text \<open>The type of a symbol, from its first two characters.\<close>

definition symbol_type :: "char \<Rightarrow> char \<Rightarrow> TokenType" where
  "symbol_type b0 b1 =
     (if b0 = CH_SQ \<or> b0 = CH_DQ then TOKEN_literal
      else if is_digit b0 then TOKEN_literal
      else if b0 = CHR ''b'' \<and> (b1 = CH_SQ \<or> b1 = CH_DQ) then TOKEN_literal
      else TOKEN_symbol)"

text \<open>The start index \<open>-1\<close> is \<open>None\<close>.\<close>

definition Lexer_setSymbel :: "string \<Rightarrow> nat \<Rightarrow> lexer \<Rightarrow> lexer option" where
  "Lexer_setSymbel stmt i st =
     (case iSymbolStartIndex st of
        None \<Rightarrow> Some st
      | Some start \<Rightarrow>
          if i = start then Some (st\<lparr>iSymbolStartIndex := None\<rparr>)
          else if i < start \<or> length stmt < i then None
          else do {
            sSymbolBuff \<leftarrow> put_at (getBuff (i - start)) 0 (take (i - start) (drop start stmt));
            b0 \<leftarrow> rd sSymbolBuff 0;
            b1 \<leftarrow> rd sSymbolBuff 1;
            ts \<leftarrow> Lexer_setToken (aTokenStream st) (symbol_type b0 b1) (c_str sSymbolBuff);
            Some (st\<lparr>aTokenStream := ts, iSymbolStartIndex := None\<rparr>)
          })"

text \<open>A symbol that ends at \<open>i\<close>, then a token of its own.\<close>

definition Lexer_emit :: "string \<Rightarrow> nat \<Rightarrow> TokenType \<Rightarrow> string \<Rightarrow> lexer \<Rightarrow> lexer option" where
  "Lexer_emit stmt i ty txt st = do {
     st1 \<leftarrow> Lexer_setSymbel stmt i st;
     ts \<leftarrow> Lexer_setToken (aTokenStream st1) ty txt;
     Some (st1\<lparr>aTokenStream := ts\<rparr>)
   }"

definition dividers :: string where "dividers = ''(),[]:{};''"

definition op_chars :: string where "op_chars = ''><*/+-!=%&|^~''"

text \<open>
  The operator at the start of the rest of the statement and the number of extra characters to
  skip; \<open>c0\<close>, \<open>c1\<close>, \<dots> are the characters of \<open>rest\<close>, null behind its end.
\<close>

definition Lexer_operator :: "string \<Rightarrow> string \<times> nat" where
  "Lexer_operator rest =
     (let c0 = str_at rest 0; c1 = str_at rest 1; c2 = str_at rest 2 in
      if (c0 = CHR ''*'' \<or> c0 = CHR ''/'') \<and> c0 = c1 \<and> c2 = CHR ''='' then ([c0, c1, CHR ''=''], 2)
      else if (c0 = CHR ''>'' \<or> c0 = CHR ''<'' \<or> c0 = CHR ''*'' \<or> c0 = CHR ''/'') \<and> c0 = c1 then
        (if c2 = CHR ''='' then ([c0, c1, CHR ''=''], 2) else ([c0, c1], 1))
      else if c0 \<in> set ''><*/+-!=%|&^'' \<and> c1 = CHR ''='' then ([c0, c1], 1)
      else ([c0], 0))"

text \<open>The operators and keywords that are words.\<close>

definition Lexer_word :: "char \<Rightarrow> string \<Rightarrow> (TokenType \<times> string \<times> nat) option" where
  "Lexer_word cn1 rest =
     (let c0 = str_at rest 0; c1 = str_at rest 1; c2 = str_at rest 2; c3 = str_at rest 3;
          c4 = str_at rest 4; c5 = str_at rest 5; c6 = str_at rest 6 in
      if is_word_char cn1 then None
      else if c0 = CHR ''n'' \<and> c1 = CHR ''o'' \<and> c2 = CHR ''t'' \<and> c3 = CHR '' '' then Some (TOKEN_operator, '' not '', 3)
      else if c0 = CHR ''a'' \<and> c1 = CHR ''n'' \<and> c2 = CHR ''d'' \<and> c3 = CHR '' '' then Some (TOKEN_operator, '' and '', 3)
      else if c0 = CHR ''o'' \<and> c1 = CHR ''r'' \<and> c2 = CHR '' '' then Some (TOKEN_operator, '' or '', 2)
      else if c0 = CHR ''i'' \<and> c1 = CHR ''s'' \<and> c2 = CHR '' '' then Some (TOKEN_operator, '' is '', 2)
      else if c0 = CHR ''i'' \<and> c1 = CHR ''n'' \<and> c2 = CHR '' '' then Some (TOKEN_operator, '' in '', 2)
      else if c0 = CHR ''i'' \<and> c1 = CHR ''f'' \<and> c2 = CHR '' '' then Some (TOKEN_keyword, '' if '', 2)
      else if c0 = CHR ''a'' \<and> c1 = CHR ''s'' \<and> c2 = CHR '' '' then Some (TOKEN_operator, '' as '', 2)
      else if c0 = CHR ''f'' \<and> c1 = CHR ''o'' \<and> c2 = CHR ''r'' \<and> c3 = CHR '' '' then Some (TOKEN_keyword, '' for '', 3)
      else if c0 = CHR ''i'' \<and> c1 = CHR ''m'' \<and> c2 = CHR ''p'' \<and> c3 = CHR ''o'' \<and> c4 = CHR ''r'' \<and> c5 = CHR ''t'' \<and> c6 = CHR '' ''
        then Some (TOKEN_operator, '' import '', 5)
      else if c0 = CHR ''@'' \<and> c1 = CHR ''i'' \<and> c2 = CHR ''n'' \<and> c3 = CHR ''h'' \<and> c4 = CHR '' ''
        then Some (TOKEN_operator, ''@inh '', 3)
      else None)"

text \<open>The end of an iteration that reaches the bottom of the loop body.\<close>

definition Lexer_space :: "string \<Rightarrow> nat \<Rightarrow> lexer \<Rightarrow> lexer option" where
  "Lexer_space sStmt i st = do {
     st1 \<leftarrow> (if str_at sStmt i = CHR '' '' then
               (if iSymbolStartIndex st = Some i then Some (st\<lparr>iSymbolStartIndex := None\<rparr>)
                else Lexer_setSymbel sStmt i st)
             else Some st);
     if i + 1 = strGetSize sStmt then Lexer_setSymbel sStmt (strGetSize sStmt) st1 else Some st1
   }"

text \<open>A symbol starts here when none is pending.\<close>

definition Lexer_mark :: "string \<Rightarrow> nat \<Rightarrow> lexer \<Rightarrow> lexer" where
  "Lexer_mark sStmt i st =
     (if iSymbolStartIndex st = None
      then st\<lparr>bNumber := is_digit (str_at sStmt i), iSymbolStartIndex := Some i\<rparr> else st)"

text \<open>
  One iteration of the loop at index \<open>i\<close>: the new state and the index of the next iteration,
  \<open>None\<close> for \<open>break\<close>.
\<close>

definition Lexer_body :: "string \<Rightarrow> nat \<Rightarrow> lexer \<Rightarrow> (lexer \<times> nat option) option" where
  "Lexer_body sStmt i st =
     (let rest = drop i sStmt; c0 = str_at sStmt i;
          cn1 = (if 1 \<le> i then str_at sStmt (i - 1) else NUL);
          cn2 = (if 2 \<le> i then str_at sStmt (i - 2) else NUL);
          quote = (cn1 \<noteq> CH_BS \<or> (cn1 = CH_BS \<and> cn2 = CH_BS))
      in
      if bInString st = 0 \<and> c0 = CH_SQ \<and> quote then Some (st\<lparr>bInString := 1\<rparr>, Some (i + 1))
      else if bInString st = 0 \<and> c0 = CH_DQ \<and> quote then Some (st\<lparr>bInString := 2\<rparr>, Some (i + 1))
      else if bInString st = 1 then
        (if c0 = CH_SQ \<and> quote then do {
           st1 \<leftarrow> Lexer_setSymbel sStmt (i + 1) (st\<lparr>bInString := 0\<rparr>);
           Some (st1, Some (i + 1))
         } else Some (st, Some (i + 1)))
      else if bInString st = 2 then
        (if c0 = CH_DQ \<and> quote then do {
           st1 \<leftarrow> Lexer_setSymbel sStmt (i + 1) (st\<lparr>bInString := 0\<rparr>);
           Some (st1, Some (i + 1))
         } else Some (st, Some (i + 1)))
      else if c0 = CHR ''#'' then Some (st, None)
      else if c0 \<in> set dividers then do {
        st1 \<leftarrow> Lexer_emit sStmt i TOKEN_devider [c0] st;
        let st2 = (if c0 = CHR ''('' then st1\<lparr>uBracketDeepth := uBracketDeepth st1 + 1\<rparr>
                   else if c0 = CHR '')'' then st1\<lparr>uBracketDeepth := uBracketDeepth st1 - 1\<rparr> else st1);
        Some (st2, Some (i + 1))
      }
      else if c0 \<in> set op_chars then
        (if c0 = CHR ''-'' \<and> bNumber st \<and> (cn1 = CHR ''e'' \<or> cn1 = CHR ''E'') then Some (st, Some (i + 1))
         else let (txt, skip) = Lexer_operator rest in do {
           st1 \<leftarrow> Lexer_emit sStmt i TOKEN_operator txt st;
           Some (st1, Some (i + skip + 1))
         })
      else (case Lexer_word cn1 rest of
          Some (ty, txt, skip) \<Rightarrow> do {
            st1 \<leftarrow> Lexer_emit sStmt i ty txt st;
            Some (st1, Some (i + skip + 1))
          }
        | None \<Rightarrow> do {
            st1 \<leftarrow> Lexer_space sStmt i st;
            Some (st1, Some (i + 1))
          }))"

definition Lexer_step :: "string \<Rightarrow> nat \<Rightarrow> lexer \<Rightarrow> (lexer \<times> nat option) option" where
  "Lexer_step sStmt i st = Lexer_body sStmt i (Lexer_mark sStmt i st)"

text \<open>The loop; the next index is always larger, which the guard repeats for the definition.\<close>

function Lexer_loop :: "string \<Rightarrow> nat \<Rightarrow> lexer \<Rightarrow> lexer option" where
  "Lexer_loop sStmt i st =
     (if i < strGetSize sStmt then
        (case Lexer_step sStmt i st of
           None \<Rightarrow> None
         | Some (st1, None) \<Rightarrow> Some st1
         | Some (st1, Some j) \<Rightarrow> if i < j then Lexer_loop sStmt j st1 else None)
      else Some st)"
  by pat_completeness auto
termination by (relation "measure (\<lambda>(s, i, st). strGetSize s - i)") auto

declare Lexer_loop.simps [simp del]

definition lexer0 :: lexer where
  "lexer0 = \<lparr> aTokenStream = [], iSymbolStartIndex = None, bInString = 0, bNumber = False, uBracketDeepth = 0 \<rparr>"

definition Lexer_getTokenStream :: "string \<Rightarrow> string option" where
  "Lexer_getTokenStream sStmt = do {
     st \<leftarrow> Lexer_loop sStmt 0 lexer0;
     strsCopy (aTokenStream st)
   }"

section \<open>The lexer keeps the text\<close>

type_synonym tok = "TokenType \<times> string"

definition tok_str :: "tok \<Rightarrow> string" where "tok_str t = SEP # token_char (fst t) # snd t"

definition stream :: "tok list \<Rightarrow> string" where "stream ts = concat (map tok_str ts)"

definition payloads :: "tok list \<Rightarrow> string" where "payloads ts = concat (map snd ts)"

definition tok_ok :: "tok \<Rightarrow> bool" where
  "tok_ok t \<longleftrightarrow> fst t \<in> {TOKEN_symbol, TOKEN_keyword, TOKEN_operator, TOKEN_devider, TOKEN_literal} \<and>
     snd t \<noteq> [] \<and> cstring (snd t) \<and> SEP \<notin> set (snd t)"

definition nosp :: "string \<Rightarrow> string" where "nosp s = filter (\<lambda>c. c \<noteq> CHR '' '') s"

text \<open>A statement that can be lexed: a C string without the separator.\<close>

definition stmt_ok :: "string \<Rightarrow> bool" where "stmt_ok s \<longleftrightarrow> cstring s \<and> SEP \<notin> set s"

text \<open>
  Up to the index \<open>i\<close> the tokens hold the characters before the start of the pending symbol, blanks
  apart, and at most twice as many characters.
\<close>

definition lex_inv :: "string \<Rightarrow> nat \<Rightarrow> lexer \<Rightarrow> bool" where
  "lex_inv s i st \<longleftrightarrow> i \<le> length s \<and>
     (\<exists>ts. aTokenStream st = stream ts \<and> (\<forall>t \<in> set ts. tok_ok t) \<and>
       (let k = (case iSymbolStartIndex st of None \<Rightarrow> i | Some k \<Rightarrow> k) in
        k \<le> i \<and> nosp (payloads ts) = nosp (take k s) \<and> length (payloads ts) \<le> 2 * k))"

lemma stream_simps [simp, lex_simps]:
  "stream [] = []" "stream (ts @ us) = stream ts @ stream us" "stream [t] = tok_str t"
  "stream (t # ts) = tok_str t @ stream ts"
  by (simp_all add: stream_def)

lemma payloads_simps [simp, lex_simps]:
  "payloads [] = []" "payloads (ts @ us) = payloads ts @ payloads us" "payloads (t # ts) = snd t @ payloads ts"
  by (simp_all add: payloads_def)

lemma nosp_simps [simp, lex_simps]:
  "nosp [] = []" "nosp (s @ t) = nosp s @ nosp t" "nosp (c # s) = (if c = CHR '' '' then nosp s else c # nosp s)"
  by (simp_all add: nosp_def)

lemma token_char_ok [simp]: "tok_ok t \<Longrightarrow> token_char (fst t) \<noteq> NUL" "tok_ok t \<Longrightarrow> token_char (fst t) \<noteq> SEP"
  "tok_ok t \<Longrightarrow> token_type (token_char (fst t)) = fst t"
  by (auto simp: tok_ok_def token_type_def)

lemma cstring_tok_str: "tok_ok t \<Longrightarrow> cstring (tok_str t)"
  using token_char_ok(1) [of t] by (simp add: tok_str_def) (simp add: tok_ok_def)

lemma cstring_stream: "(\<And>t. t \<in> set ts \<Longrightarrow> tok_ok t) \<Longrightarrow> cstring (stream ts)"
  by (induction ts) (simp_all add: cstring_tok_str)

lemma setToken_eq:
  assumes "\<forall>t \<in> set ts. tok_ok t" "tok_ok (ty, p)"
  shows "Lexer_setToken (stream ts) ty p = Some (stream (ts @ [(ty, p)]))"
proof -
  have c: "cstring (stream ts)" "cstring [SEP, token_char ty]" "cstring p"
    using assms cstring_stream token_char_ok(1) [OF assms(2)] by (auto simp: tok_ok_def)
  then have "c_str [SEP, token_char ty, NUL] = [SEP, token_char ty]"
    using c_str_app_NUL [of "[SEP, token_char ty]" "[]"] by simp
  then show ?thesis
    using c by (simp add: Lexer_setToken_def strsAppend_eq tok_str_def del: cstring_simps(2))
qed

lemma lex_invE:
  assumes "lex_inv s i st"
  obtains ts k where "aTokenStream st = stream ts" "\<forall>t \<in> set ts. tok_ok t" "k \<le> i" "i \<le> length s"
    "k = (case iSymbolStartIndex st of None \<Rightarrow> i | Some k \<Rightarrow> k)"
    "nosp (payloads ts) = nosp (take k s)" "length (payloads ts) \<le> 2 * k"
  using assms unfolding lex_inv_def Let_def by blast

lemma lex_invI:
  assumes "i \<le> length s" "aTokenStream st = stream ts" "\<forall>t \<in> set ts. tok_ok t" "k \<le> i"
    "k = (case iSymbolStartIndex st of None \<Rightarrow> i | Some k \<Rightarrow> k)"
    "nosp (payloads ts) = nosp (take k s)" "length (payloads ts) \<le> 2 * k"
  shows "lex_inv s i st"
  using assms unfolding lex_inv_def Let_def by blast

text \<open>With a pending symbol the index may grow.\<close>

lemma lex_inv_grow:
  "lex_inv s i st \<Longrightarrow> iSymbolStartIndex st \<noteq> None \<Longrightarrow> i \<le> j \<Longrightarrow> j \<le> length s \<Longrightarrow> lex_inv s j st"
  unfolding lex_inv_def Let_def by (auto split: option.splits)

lemma lex_inv_fields:
  "lex_inv s i (st\<lparr>bInString := a\<rparr>) = lex_inv s i st" "lex_inv s i (st\<lparr>bNumber := b\<rparr>) = lex_inv s i st"
  "lex_inv s i (st\<lparr>uBracketDeepth := d\<rparr>) = lex_inv s i st"
  by (simp_all add: lex_inv_def)

lemma take_app_drop: "k \<le> i \<Longrightarrow> take k s @ take (i - k) (drop k s) = take i s"
  by (metis le_add_diff_inverse take_add)

lemma setSymbel_ok:
  assumes inv: "lex_inv s i st" and s: "stmt_ok s"
  shows "\<exists>ts. Lexer_setSymbel s i st = Some (st\<lparr>aTokenStream := ts, iSymbolStartIndex := None\<rparr>) \<and>
    lex_inv s i (st\<lparr>aTokenStream := ts, iSymbolStartIndex := None\<rparr>)"
proof -
  obtain ts k where t: "aTokenStream st = stream ts" "\<forall>t \<in> set ts. tok_ok t" "k \<le> i" "i \<le> length s"
    "k = (case iSymbolStartIndex st of None \<Rightarrow> i | Some k \<Rightarrow> k)"
    "nosp (payloads ts) = nosp (take k s)" "length (payloads ts) \<le> 2 * k"
    using lex_invE [OF inv] by metis
  show ?thesis
  proof (cases "k = i")
    case True
    have "Lexer_setSymbel s i st = Some (st\<lparr>aTokenStream := stream ts, iSymbolStartIndex := None\<rparr>)"
      using t(1,5) True by (cases "iSymbolStartIndex st") (simp_all add: Lexer_setSymbel_def)
    with t True show ?thesis by (auto intro!: lex_invI)
  next
    case False
    let ?p = "take (i - k) (drop k s)"
    have st: "iSymbolStartIndex st = Some k" using t(5) False by (simp split: option.splits)
    have p: "length ?p = i - k" "?p \<noteq> []" "cstring ?p" "SEP \<notin> set ?p"
      using t(3,4) False s by (auto simp: stmt_ok_def dest: in_set_takeD in_set_dropD)
    have b: "put_at (getBuff (i - k)) 0 ?p = Some (?p @ [NUL])" using p(1) by (simp add: put_at_def drop_getBuff)
    have r: "rd (?p @ [NUL]) 0 = Some ((?p @ [NUL]) ! 0)" "rd (?p @ [NUL]) 1 = Some ((?p @ [NUL]) ! 1)"
      using p(2) by (auto simp: rd_def)
    let ?ty = "symbol_type ((?p @ [NUL]) ! 0) ((?p @ [NUL]) ! 1)"
    let ?ts = "ts @ [(?ty, ?p)]"
    have tk: "tok_ok (?ty, ?p)" using p by (simp add: tok_ok_def symbol_type_def)
    have "Lexer_setSymbel s i st = Some (st\<lparr>aTokenStream := stream ?ts, iSymbolStartIndex := None\<rparr>)"
      using st False t(1,3,4) b r c_str_app_NUL [OF p(3), of "[]"] setToken_eq [OF t(2) tk]
      by (simp add: Lexer_setSymbel_def)
    moreover have "nosp (payloads ?ts) = nosp (take i s)"
      using t(6) arg_cong [OF take_app_drop [OF t(3), of s], of nosp] by simp
    moreover have "length (payloads ?ts) \<le> 2 * i" using t(3,7) p(1) by simp
    moreover have "\<forall>t \<in> set ?ts. tok_ok t" using t(2) tk by simp
    ultimately show ?thesis
      using t(4) lex_invI [of i s "st\<lparr>aTokenStream := stream ?ts, iSymbolStartIndex := None\<rparr>" ?ts i]
      by (intro exI [of _ "stream ?ts"]) simp
  qed
qed

lemma emit_ok:
  assumes inv: "lex_inv s i st" and s: "stmt_ok s" and tk: "tok_ok (ty, p)"
    and m: "i + m \<le> length s" "nosp p = nosp (take m (drop i s))" "length p \<le> 2 * m"
  shows "\<exists>ts. Lexer_emit s i ty p st = Some (st\<lparr>aTokenStream := ts, iSymbolStartIndex := None\<rparr>) \<and>
    lex_inv s (i + m) (st\<lparr>aTokenStream := ts, iSymbolStartIndex := None\<rparr>)"
proof -
  obtain t1 where 1: "Lexer_setSymbel s i st = Some (st\<lparr>aTokenStream := t1, iSymbolStartIndex := None\<rparr>)"
    "lex_inv s i (st\<lparr>aTokenStream := t1, iSymbolStartIndex := None\<rparr>)"
    using setSymbel_ok [OF inv s] by blast
  obtain ts where t: "t1 = stream ts" "\<forall>t \<in> set ts. tok_ok t" "nosp (payloads ts) = nosp (take i s)" "length (payloads ts) \<le> 2 * i"
    using 1(2) by (auto simp: lex_inv_def)
  let ?ts = "ts @ [(ty, p)]"
  have "nosp (payloads ?ts) = nosp (take (i + m) s)" using t(3) m(2) by (simp add: take_add)
  moreover have "length (payloads ?ts) \<le> 2 * (i + m)" "\<forall>t \<in> set ?ts. tok_ok t" using t(2,4) m(3) tk by simp_all
  ultimately show ?thesis
    using 1(1) t(1) setToken_eq [OF t(2) tk] m(1)
      lex_invI [of "i + m" s "st\<lparr>aTokenStream := stream ?ts, iSymbolStartIndex := None\<rparr>" ?ts "i + m"]
    by (intro exI [of _ "stream ?ts"]) (simp add: Lexer_emit_def)
qed

text \<open>What an operator or a word consumes.\<close>

lemma str_at_Cons [simp]: "str_at (c # s) 0 = c" "str_at (c # s) (Suc k) = str_at s k" "str_at [] k = NUL"
  by (simp_all add: str_at_def)

lemma str_at_NUL: "c \<noteq> NUL \<Longrightarrow> str_at s k = c \<Longrightarrow> k < length s \<and> s ! k = c"
  by (auto simp: str_at_def split: if_splits)

definition consumes :: "string \<Rightarrow> string \<Rightarrow> nat \<Rightarrow> bool" where
  "consumes rest p m \<longleftrightarrow> m \<le> length rest \<and> nosp p = nosp (take m rest) \<and> length p \<le> 2 * m \<and>
     p \<noteq> [] \<and> cstring p \<and> SEP \<notin> set p"

lemma operator_cases:
  fixes rest :: string
  defines "c0 \<equiv> str_at rest 0" and "c1 \<equiv> str_at rest 1" and "c2 \<equiv> str_at rest 2"
  shows "Lexer_operator rest = ([c0], 0) \<or>
    (c1 = c0 \<or> c1 = CHR ''='') \<and> Lexer_operator rest = ([c0, c1], 1) \<or>
    c1 = c0 \<and> c2 = CHR ''='' \<and> Lexer_operator rest = ([c0, c1, c2], 2)"
  unfolding Lexer_operator_def Let_def c0_def c1_def c2_def by presburger

lemma operator_consumes:
  assumes "rest \<noteq> []" "hd rest \<in> set op_chars"
  shows "consumes rest (fst (Lexer_operator rest)) (Suc (snd (Lexer_operator rest)))"
proof -
  obtain c r where r: "rest = c # r" using assms(1) by (cases rest) auto
  have c: "c \<noteq> NUL" "c \<noteq> CHR '' ''" "c \<noteq> SEP" using assms(2) by (auto simp: r op_chars_def)
  have a: "str_at r 0 = d \<Longrightarrow> d \<noteq> NUL \<Longrightarrow> \<exists>q. r = d # q" for d by (cases r) auto
  have b: "str_at r 1 = d \<Longrightarrow> d \<noteq> NUL \<Longrightarrow> \<exists>x q. r = x # d # q" for d
    by (cases r; cases "tl r") auto
  consider "Lexer_operator rest = ([c], 0)"
    | q d where "r = d # q" "Lexer_operator rest = ([c, d], 1)" "d = c \<or> d = CHR ''=''"
    | q where "r = c # CHR ''='' # q" "Lexer_operator rest = ([c, c, CHR ''=''], 2)"
    using operator_cases [of rest] a b c(1) unfolding r
    by (fastforce simp: numeral_2_eq_2)
  then show ?thesis
  proof cases
    case 1
    then show ?thesis using c by (simp add: r consumes_def)
  next
    case 2
    then show ?thesis using c by (auto simp: r consumes_def)
  next
    case 3
    then show ?thesis using c by (simp add: r consumes_def)
  qed
qed

text \<open>The words of the language: the text matched, the token and what is skipped besides its first character.\<close>

definition words :: "(string \<times> TokenType \<times> string \<times> nat) list" where
  "words = [(''not '', TOKEN_operator, '' not '', 3), (''and '', TOKEN_operator, '' and '', 3),
     (''or '', TOKEN_operator, '' or '', 2), (''is '', TOKEN_operator, '' is '', 2),
     (''in '', TOKEN_operator, '' in '', 2), (''if '', TOKEN_keyword, '' if '', 2),
     (''as '', TOKEN_operator, '' as '', 2), (''for '', TOKEN_keyword, '' for '', 3),
     (''import '', TOKEN_operator, '' import '', 5), (''@inh '', TOKEN_operator, ''@inh '', 3)]"

lemma match_step: "str_at rest 0 = c \<Longrightarrow> c \<noteq> NUL \<Longrightarrow> \<exists>r. rest = c # r \<and> (\<forall>k. str_at rest (Suc k) = str_at r k)"
  by (cases rest) auto

lemma match_word: "cstring w \<Longrightarrow> (\<And>k. k < length w \<Longrightarrow> str_at rest k = w ! k) \<Longrightarrow> \<exists>q. rest = w @ q"
proof (induction w arbitrary: rest)
  case Nil
  then show ?case by simp
next
  case (Cons c w)
  obtain r where r: "rest = c # r" using match_step [of rest c] Cons.prems(1) Cons.prems(2) [of 0] by auto
  have "str_at r k = w ! k" if "k < length w" for k using Cons.prems(2) [of "Suc k"] that by (simp add: r)
  then show ?case using Cons.IH [of r] Cons.prems(1) r by auto
qed

lemma match_3: "str_at rest 0 = a \<Longrightarrow> str_at rest 1 = b \<Longrightarrow> str_at rest 2 = c \<Longrightarrow> cstring [a, b, c] \<Longrightarrow>
    \<exists>q. rest = [a, b, c] @ q"
  by (rule match_word) (auto simp: less_Suc_eq numeral_2_eq_2)

lemma match_4: "str_at rest 0 = a \<Longrightarrow> str_at rest 1 = b \<Longrightarrow> str_at rest 2 = c \<Longrightarrow> str_at rest 3 = d \<Longrightarrow>
    cstring [a, b, c, d] \<Longrightarrow> \<exists>q. rest = [a, b, c, d] @ q"
  by (rule match_word) (auto simp: less_Suc_eq eval_nat_numeral)

lemma match_5: "str_at rest 0 = a \<Longrightarrow> str_at rest 1 = b \<Longrightarrow> str_at rest 2 = c \<Longrightarrow> str_at rest 3 = d \<Longrightarrow>
    str_at rest 4 = e \<Longrightarrow> cstring [a, b, c, d, e] \<Longrightarrow> \<exists>q. rest = [a, b, c, d, e] @ q"
  by (rule match_word) (auto simp: less_Suc_eq eval_nat_numeral)

lemma match_7: "str_at rest 0 = a \<Longrightarrow> str_at rest 1 = b \<Longrightarrow> str_at rest 2 = c \<Longrightarrow> str_at rest 3 = d \<Longrightarrow>
    str_at rest 4 = e \<Longrightarrow> str_at rest 5 = f \<Longrightarrow> str_at rest 6 = g \<Longrightarrow> cstring [a, b, c, d, e, f, g] \<Longrightarrow>
    \<exists>q. rest = [a, b, c, d, e, f, g] @ q"
  by (rule match_word) (auto simp: less_Suc_eq eval_nat_numeral)

lemma word_cases:
  assumes "Lexer_word cn1 rest = Some x"
  shows "\<exists>w q. (w, x) \<in> set words \<and> rest = w @ q"
proof -
  have *: "Some y = Some x \<Longrightarrow> \<exists>q. rest = w @ q \<Longrightarrow> (w, y) \<in> set words \<Longrightarrow>
      \<exists>w q. (w, x) \<in> set words \<and> rest = w @ q" for w y
    by blast
  show ?thesis
    using assms unfolding Lexer_word_def Let_def
    by (simp only: split: if_split_asm)
      ((simp; fail) |
       (erule *, rule match_3, assumption, assumption, assumption, simp, simp add: words_def; fail) |
       (erule *, rule match_4, assumption, assumption, assumption, assumption, simp, simp add: words_def; fail) |
       (erule *, rule match_5, assumption, assumption, assumption, assumption, assumption, simp, simp add: words_def; fail) |
       (erule *, rule match_7, assumption, assumption, assumption, assumption, assumption, assumption, assumption,
          simp, simp add: words_def; fail))+
qed

lemma word_consumes:
  assumes "Lexer_word cn1 rest = Some (ty, p, m)"
  shows "consumes rest p (Suc m)" "tok_ok (ty, p)"
proof -
  have w: "\<forall>(w, ty, p, m) \<in> set words. Suc m \<le> length w \<and> nosp p = nosp (take (Suc m) w) \<and>
      length p \<le> 2 * Suc m \<and> tok_ok (ty, p)"
    by (simp add: words_def tok_ok_def)
  obtain v q where "(v, ty, p, m) \<in> set words" "rest = v @ q" using word_cases [OF assms] by blast
  moreover from this w have "Suc m \<le> length v" "nosp p = nosp (take (Suc m) v)" "length p \<le> 2 * Suc m" "tok_ok (ty, p)"
    by blast+
  ultimately show "consumes rest p (Suc m)" "tok_ok (ty, p)" by (auto simp: consumes_def tok_ok_def)
qed

lemma emit_consumes:
  assumes "lex_inv s i st" "stmt_ok s" "consumes (drop i s) p m" "tok_ok (ty, p)"
  shows "\<exists>ts. Lexer_emit s i ty p st = Some (st\<lparr>aTokenStream := ts, iSymbolStartIndex := None\<rparr>) \<and>
    lex_inv s (i + m) (st\<lparr>aTokenStream := ts, iSymbolStartIndex := None\<rparr>)"
proof -
  have "i \<le> length s" using assms(1) by (simp add: lex_inv_def)
  with assms(3) have "i + m \<le> length s" "nosp p = nosp (take m (drop i s))" "length p \<le> 2 * m" by (auto simp: consumes_def)
  from emit_ok [OF assms(1,2,4) this] show ?thesis .
qed

text \<open>A blank can be passed when no symbol is pending.\<close>

lemma lex_inv_blank:
  assumes "lex_inv s i st" "i < length s" "s ! i = CHR '' ''" "iSymbolStartIndex st = None \<or> iSymbolStartIndex st = Some i"
  shows "lex_inv s (Suc i) (st\<lparr>iSymbolStartIndex := None\<rparr>)"
proof -
  have "nosp (take (Suc i) s) = nosp (take i s)" using assms(2,3) by (simp add: take_Suc_conv_app_nth)
  then show ?thesis
    using assms by (auto simp: lex_inv_def intro: le_trans)
qed

lemma space_ok:
  assumes inv: "lex_inv s i st" and i: "i < length s" and s: "stmt_ok s" and pend: "iSymbolStartIndex st \<noteq> None"
  shows "\<exists>ts p. Lexer_space s i st = Some (st\<lparr>aTokenStream := ts, iSymbolStartIndex := p\<rparr>) \<and>
    lex_inv s (Suc i) (st\<lparr>aTokenStream := ts, iSymbolStartIndex := p\<rparr>) \<and> (Suc i = length s \<longrightarrow> p = None)"
proof -
  let ?f = "\<lambda>ts p. st\<lparr>aTokenStream := ts, iSymbolStartIndex := p\<rparr>"
  have "\<exists>ts p. (if str_at s i = CHR '' '' then
      (if iSymbolStartIndex st = Some i then Some (st\<lparr>iSymbolStartIndex := None\<rparr>) else Lexer_setSymbel s i st)
      else Some st) = Some (?f ts p) \<and> lex_inv s (Suc i) (?f ts p)"
  proof (cases "str_at s i = CHR '' ''")
    case True
    then have b: "s ! i = CHR '' ''" using i by (simp add: str_at_def)
    show ?thesis
    proof (cases "iSymbolStartIndex st = Some i")
      case True
      then show ?thesis
        using \<open>str_at s i = CHR '' ''\<close> lex_inv_blank [OF inv i b]
        by (intro exI [of _ "aTokenStream st"] exI [of _ None]) simp
    next
      case False
      obtain ts where "Lexer_setSymbel s i st = Some (?f ts None)" "lex_inv s i (?f ts None)"
        using setSymbel_ok [OF inv s] by blast
      then show ?thesis
        using \<open>str_at s i = CHR '' ''\<close> False lex_inv_blank [of s i "?f ts None"] i b
        by (intro exI [of _ ts] exI [of _ None]) simp
    qed
  next
    case False
    then show ?thesis
      using lex_inv_grow [OF inv pend, of "Suc i"] i
      by (intro exI [of _ "aTokenStream st"] exI [of _ "iSymbolStartIndex st"]) simp
  qed
  then obtain ts p where 1: "(if str_at s i = CHR '' '' then
      (if iSymbolStartIndex st = Some i then Some (st\<lparr>iSymbolStartIndex := None\<rparr>) else Lexer_setSymbel s i st)
      else Some st) = Some (?f ts p)" and 2: "lex_inv s (Suc i) (?f ts p)" by blast
  show ?thesis
  proof (cases "Suc i = length s")
    case True
    then obtain us where "Lexer_setSymbel s (length s) (?f ts p) = Some (?f us None)" "lex_inv s (Suc i) (?f us None)"
      using setSymbel_ok [OF 2 s] by auto
    then show ?thesis
      using True unfolding Lexer_space_def 1 by (intro exI [of _ us] exI [of _ None]) (simp add: strGetSize_def)
  next
    case False
    then show ?thesis
      using 2 unfolding Lexer_space_def 1 by (intro exI [of _ ts] exI [of _ p]) (simp add: strGetSize_def)
  qed
qed

text \<open>A statement without strings, comments and minus signs loses nothing.\<close>

definition plain :: "string \<Rightarrow> bool" where
  "plain s \<longleftrightarrow> set s \<inter> {CH_SQ, CH_DQ, CHR ''#'', CHR ''-''} = {}"

definition step_post :: "string \<Rightarrow> nat \<Rightarrow> lexer \<Rightarrow> (lexer \<times> nat option) \<Rightarrow> bool" where
  "step_post s i st0 r \<longleftrightarrow>
     (case r of
        (st, None) \<Rightarrow> lex_inv s i st \<and> \<not> plain s
      | (st, Some j) \<Rightarrow> i < j \<and> lex_inv s j st \<and>
          (plain s \<longrightarrow> bInString st0 = 0 \<longrightarrow> bInString st = 0 \<and> (j = length s \<longrightarrow> iSymbolStartIndex st = None)))"

lemma plainD: "plain s \<Longrightarrow> i < length s \<Longrightarrow> s ! i \<notin> {CH_SQ, CH_DQ, CHR ''#'', CHR ''-''}"
  unfolding plain_def using nth_mem by fastforce

lemma mark_ok:
  "lex_inv s i st \<Longrightarrow> lex_inv s i (Lexer_mark s i st)" "iSymbolStartIndex (Lexer_mark s i st) \<noteq> None"
  "bInString (Lexer_mark s i st) = bInString st"
  by (auto simp: Lexer_mark_def lex_inv_def)

lemma step_postI:
  assumes "lex_inv s j st'" "i < j" "plain s \<Longrightarrow> bInString st = 0 \<Longrightarrow> bInString st' = 0"
    "plain s \<Longrightarrow> bInString st = 0 \<Longrightarrow> j = length s \<Longrightarrow> iSymbolStartIndex st' = None"
  shows "\<exists>r. Some (st', Some j) = Some r \<and> step_post s i st r"
  using assms by (simp add: step_post_def)

lemma if_cases: "(b \<Longrightarrow> P x) \<Longrightarrow> (\<not> b \<Longrightarrow> P y) \<Longrightarrow> P (if b then x else y)"
  by simp

lemma body_ok:
  assumes inv: "lex_inv s i st" and i: "i < length s" and s: "stmt_ok s" and pend: "iSymbolStartIndex st \<noteq> None"
  shows "\<exists>r. Lexer_body s i st = Some r \<and> step_post s i st r"
proof -
  let ?P = "\<lambda>e. \<exists>r. e = Some r \<and> step_post s i st r"
  have c0: "str_at s i = s ! i" "s ! i \<noteq> NUL" "s ! i \<noteq> SEP"
    using i s cstring_nth [of s i] nth_mem [OF i] by (auto simp: str_at_def stmt_ok_def simp del: nth_mem)
  have d: "drop i s = s ! i # drop (Suc i) s" using i by (simp add: Cons_nth_drop_Suc)
  have grow: "lex_inv s (i + 1) st" using lex_inv_grow [OF inv pend, of "i + 1"] i by simp
  have pl: "\<not> plain s" if "s ! i \<in> {CH_SQ, CH_DQ, CHR ''#'', CHR ''-''}" using plainD [of s i] i that by blast
  have str: "?P (if b then do { st1 \<leftarrow> Lexer_setSymbel s (i + 1) (st\<lparr>bInString := 0\<rparr>); Some (st1, Some (i + 1)) }
      else Some (st, Some (i + 1)))" if "bInString st \<noteq> 0" for b
  proof (cases b)
    case True
    obtain ts where "Lexer_setSymbel s (i + 1) (st\<lparr>bInString := 0\<rparr>) = Some (st\<lparr>bInString := 0, aTokenStream := ts, iSymbolStartIndex := None\<rparr>)"
      "lex_inv s (i + 1) (st\<lparr>bInString := 0, aTokenStream := ts, iSymbolStartIndex := None\<rparr>)"
      using setSymbel_ok [of s "i + 1" "st\<lparr>bInString := 0\<rparr>"] grow s by (auto simp: lex_inv_fields)
    then show ?thesis using True that by (simp add: step_post_def)
  next
    case False
    then show ?thesis using grow that by (simp add: step_post_def)
  qed
  have emit: "\<exists>st1. Lexer_emit s i ty p st = Some st1 \<and> lex_inv s (i + m + 1) st1 \<and> bInString st1 = bInString st \<and> iSymbolStartIndex st1 = None"
    if "consumes (drop i s) p (Suc m)" "tok_ok (ty, p)" for ty p m
    using emit_consumes [OF inv s that] by force
  show ?thesis
    unfolding Lexer_body_def Let_def c0(1)
  proof (intro if_cases [where P = ?P], goal_cases)
    case 1
    then show ?case using grow pl by (intro step_postI) (auto simp: lex_inv_fields)
  next
    case 2
    then show ?case using grow pl by (intro step_postI) (auto simp: lex_inv_fields)
  next
    case 3
    then show ?case using str [of True] by simp
  next
    case 4
    then show ?case using str [of False] by simp
  next
    case 5
    then show ?case using str [of True] by simp
  next
    case 6
    then show ?case using str [of False] by simp
  next
    case 7
    then show ?case using inv pl by (simp add: step_post_def)
  next
    case 8
    then have "consumes (drop i s) [s ! i] (Suc 0)" "tok_ok (TOKEN_devider, [s ! i])"
      using c0 by (simp_all add: d consumes_def tok_ok_def)
    from emit [OF this] obtain st1 where "Lexer_emit s i TOKEN_devider [s ! i] st = Some st1" "lex_inv s (i + 1) st1"
      "bInString st1 = bInString st" "iSymbolStartIndex st1 = None" by auto
    then show ?case by (auto simp: step_post_def lex_inv_fields)
  next
    case 9
    then show ?case using grow pl by (intro step_postI) auto
  next
    case 10
    obtain p m where p: "Lexer_operator (drop i s) = (p, m)" by fastforce
    have "consumes (drop i s) p (Suc m)" using operator_consumes [of "drop i s"] 10 p by (simp add: d)
    moreover from this have "tok_ok (TOKEN_operator, p)" by (simp add: consumes_def tok_ok_def)
    ultimately obtain st1 where "Lexer_emit s i TOKEN_operator p st = Some st1" "lex_inv s (i + m + 1) st1"
      "bInString st1 = bInString st" "iSymbolStartIndex st1 = None" using emit by blast
    then show ?case by (simp add: p step_post_def)
  next
    case 11
    show ?case
    proof (cases "Lexer_word (if 1 \<le> i then str_at s (i - 1) else NUL) (drop i s)")
      case None
      obtain ts p where "Lexer_space s i st = Some (st\<lparr>aTokenStream := ts, iSymbolStartIndex := p\<rparr>)"
        "lex_inv s (Suc i) (st\<lparr>aTokenStream := ts, iSymbolStartIndex := p\<rparr>)" "Suc i = length s \<longrightarrow> p = None"
        using space_ok [OF inv i s pend] by blast
      then show ?thesis unfolding None by (simp add: step_post_def)
    next
      case (Some x)
      obtain ty p m where x: "x = (ty, p, m)" by (cases x)
      from word_consumes [OF Some [unfolded x]] emit obtain st1 where "Lexer_emit s i ty p st = Some st1"
        "lex_inv s (i + m + 1) st1" "bInString st1 = bInString st" "iSymbolStartIndex st1 = None" by blast
      then show ?thesis unfolding Some x by (simp add: step_post_def)
    qed
  qed
qed

lemma step_ok:
  assumes "lex_inv s i st" "i < length s" "stmt_ok s"
  shows "\<exists>r. Lexer_step s i st = Some r \<and> step_post s i st r"
  using body_ok [OF mark_ok(1) [OF assms(1)] assms(2,3) mark_ok(2)]
  by (simp add: Lexer_step_def step_post_def mark_ok(3))

lemma loop_next:
  "i < length s \<Longrightarrow> Lexer_step s i st = Some (st1, Some j) \<Longrightarrow> i < j \<Longrightarrow> Lexer_loop s i st = Lexer_loop s j st1"
  "i < length s \<Longrightarrow> Lexer_step s i st = Some (st1, None) \<Longrightarrow> Lexer_loop s i st = Some st1"
  "length s \<le> i \<Longrightarrow> Lexer_loop s i st = Some st"
  by (subst Lexer_loop.simps; simp add: strGetSize_def)+

lemma loop_ok:
  assumes "lex_inv s i st" "stmt_ok s"
  shows "\<exists>st' k. Lexer_loop s i st = Some st' \<and> lex_inv s k st'"
  using assms
proof (induction "length s - i" arbitrary: i st rule: less_induct)
  case less
  show ?case
  proof (cases "i < length s")
    case False
    then show ?thesis using less(2) by (auto simp: loop_next(3))
  next
    case True
    obtain st1 nx where r: "Lexer_step s i st = Some (st1, nx)" "step_post s i st (st1, nx)"
      using step_ok [OF less(2) True less(3)] by force
    show ?thesis
    proof (cases nx)
      case None
      then show ?thesis using r loop_next(2) [OF True] by (auto simp: step_post_def)
    next
      case (Some j)
      then have "i < j" "lex_inv s j st1" using r(2) by (simp_all add: step_post_def)
      then show ?thesis using less(1) [of j st1] less(3) loop_next(1) [OF True r(1) [unfolded Some]] True by auto
    qed
  qed
qed

lemma loop_plain:
  assumes "lex_inv s i st" "stmt_ok s" "plain s" "bInString st = 0" "i = length s \<longrightarrow> iSymbolStartIndex st = None"
  shows "\<exists>st'. Lexer_loop s i st = Some st' \<and> lex_inv s (length s) st' \<and> iSymbolStartIndex st' = None"
  using assms
proof (induction "length s - i" arbitrary: i st rule: less_induct)
  case less
  show ?case
  proof (cases "i < length s")
    case False
    then have "i = length s" using less(2) by (simp add: lex_inv_def)
    then show ?thesis using less(2,6) by (simp add: loop_next(3))
  next
    case True
    obtain st1 nx where r: "Lexer_step s i st = Some (st1, nx)" "step_post s i st (st1, nx)"
      using step_ok [OF less(2) True less(3)] by force
    then obtain j where j: "nx = Some j" using less(4) by (cases nx) (auto simp: step_post_def)
    then have "i < j" "lex_inv s j st1" "bInString st1 = 0" "j = length s \<longrightarrow> iSymbolStartIndex st1 = None"
      using r(2) less(4,5) by (simp_all add: step_post_def)
    then show ?thesis using less(1) [of j st1] less(3,4) loop_next(1) [OF True r(1) [unfolded j]] True by auto
  qed
qed

lemma lex_inv0: "lex_inv s 0 lexer0"
  using lex_invI [of 0 s lexer0 "[]" 0] by (simp add: lexer0_def)

text \<open>The tokens of a statement.\<close>

lemma Lexer_tokens:
  assumes "stmt_ok s"
  obtains ts k where "Lexer_getTokenStream s = Some (stream ts)" "\<forall>t \<in> set ts. tok_ok t" "k \<le> length s"
    "nosp (payloads ts) = nosp (take k s)" "length (payloads ts) \<le> 2 * length s" "plain s \<Longrightarrow> k = length s"
proof -
  obtain st where st: "Lexer_loop s 0 lexer0 = Some st" using loop_ok [OF lex_inv0 assms] by blast
  obtain k where k: "lex_inv s k st" "plain s \<longrightarrow> k = length s \<and> iSymbolStartIndex st = None"
  proof (cases "plain s")
    case True
    then show ?thesis using loop_plain [OF lex_inv0 assms True] st that by (auto simp: lexer0_def)
  next
    case False
    then show ?thesis using loop_ok [OF lex_inv0 assms] st that by auto
  qed
  obtain ts m where t: "aTokenStream st = stream ts" "\<forall>t \<in> set ts. tok_ok t" "m \<le> k" "k \<le> length s"
    "m = (case iSymbolStartIndex st of None \<Rightarrow> k | Some j \<Rightarrow> j)"
    "nosp (payloads ts) = nosp (take m s)" "length (payloads ts) \<le> 2 * m"
    using lex_invE [OF k(1)] by metis
  have "Lexer_getTokenStream s = Some (stream ts)"
    using st t(1,2) by (simp add: Lexer_getTokenStream_def strsCopy_eq cstring_stream)
  then show thesis using t k(2) that [of ts m] by auto
qed

end
