(* ===== verification/Pika_Cursor.thy ===== *)
theory Pika_Cursor
  imports Pika_Lexer
begin

text \<open>
  Token streams and the cursor of \<open>src/src/PikaParser.c\<close>: popping tokens, the iteration
  \<open>Cursor_forEach\<close> with its look-ahead and bracket depth, and the routines of the parser that are
  loops over a cursor: cleaning a statement, cutting out nested expressions, classifying a
  statement, finding the operator to split at, counting and splitting.
\<close>

section \<open>Token streams\<close>

abbreviation equ :: "string \<Rightarrow> string \<Rightarrow> bool" where "equ a b \<equiv> strEqu (Some a) (Some b)"

text \<open>The result is a \<open>uint16_t\<close>.\<close>

definition TokenStream_getSize :: "string \<Rightarrow> nat" where
  "TokenStream_getSize tokenStream =
     (if equ [] tokenStream then 0 else nat (strCountSign tokenStream SEP + 1) mod 2 ^ 16)"

definition TokenStream_pop :: "string \<Rightarrow> (string \<times> string) option" where
  "TokenStream_pop sTokenStream = strsPopToken sTokenStream SEP"

definition Token_getType :: "string \<Rightarrow> TokenType" where
  "Token_getType sToken = token_type (str_at sToken 0)"

definition Token_getPyload :: "string \<Rightarrow> string" where
  "Token_getPyload sToken = drop 1 sToken"

text \<open>The loop of \<open>TokenStream_count\<close>; the counter has eight bits. Behind an empty token there is no text to compare with.\<close>

primrec count_loop :: "nat \<Rightarrow> string \<Rightarrow> TokenType \<Rightarrow> string \<Rightarrow> 8 word \<Rightarrow> 8 word option" where
  "count_loop 0 sBuff eTokenType sPyload uRes = Some uRes"
| "count_loop (Suc n) sBuff eTokenType sPyload uRes = do {
     (sToken, rest) \<leftarrow> TokenStream_pop sBuff;
     if eTokenType = Token_getType sToken \<and> sToken = [] then None
     else count_loop n rest eTokenType sPyload
       (if eTokenType = Token_getType sToken \<and> equ (Token_getPyload sToken) sPyload then uRes + 1 else uRes)
   }"

definition TokenStream_count :: "string \<Rightarrow> TokenType \<Rightarrow> string \<Rightarrow> 8 word option" where
  "TokenStream_count sTokenStream eTokenType sPyload = do {
     sBuff \<leftarrow> strsCopy sTokenStream;
     count_loop (TokenStream_getSize sTokenStream) sBuff eTokenType sPyload 0
   }"

definition TokenStream_isContain :: "string \<Rightarrow> TokenType \<Rightarrow> string \<Rightarrow> bool option" where
  "TokenStream_isContain sTokenStream eTokenType sPyload = do {
     n \<leftarrow> TokenStream_count sTokenStream eTokenType sPyload;
     Some (n > 0)
   }"

primrec print_loop :: "nat \<Rightarrow> string \<Rightarrow> string \<Rightarrow> string option" where
  "print_loop 0 tokenStream sPrintOut = Some sPrintOut"
| "print_loop (Suc n) tokenStream sPrintOut = do {
     (sToken, rest) \<leftarrow> TokenStream_pop tokenStream;
     let add = (\<lambda>tag out. do { o1 \<leftarrow> strsAppend out tag; strsAppend o1 (Token_getPyload sToken) });
     out \<leftarrow> (if str_at sToken 0 = token_char TOKEN_operator then add ''{opt}'' sPrintOut
             else if str_at sToken 0 = token_char TOKEN_devider then add ''{dvd}'' sPrintOut
             else if str_at sToken 0 = token_char TOKEN_symbol then add ''{sym}'' sPrintOut
             else if str_at sToken 0 = token_char TOKEN_literal then add ''{lit}'' sPrintOut
             else Some sPrintOut);
     print_loop n rest out
   }"

definition Lexer_printTokenStream :: "string \<Rightarrow> string option" where
  "Lexer_printTokenStream tokenStream = do {
     out0 \<leftarrow> strsCopy [];
     out \<leftarrow> print_loop (TokenStream_getSize tokenStream) tokenStream out0;
     strsCopy out
   }"

text \<open>No path of the lexer returns null, so no line is a lexical error.\<close>

definition Lexer_isError :: "string \<Rightarrow> nat option" where
  "Lexer_isError line = do { sTokenStream \<leftarrow> Lexer_getTokenStream line; Some 0 }"

section \<open>The cursor\<close>

record LexToken =
  tk_stream :: string
  tk_type :: TokenType
  pyload :: string

text \<open>The null pointers of \<open>LexToken_init\<close> are empty strings: both fields are set before they are read.\<close>

definition LexToken_init :: LexToken where
  "LexToken_init = \<lparr> tk_stream = [], tk_type = TOKEN_strEnd, pyload = [] \<rparr>"

definition LexToken_update :: "string \<Rightarrow> LexToken" where
  "LexToken_update ts =
     \<lparr> tk_stream = ts, tk_type = Token_getType ts,
       pyload = (if Token_getType ts = TOKEN_strEnd then [] else Token_getPyload ts) \<rparr>"

record Cursor =
  cs_stream :: string
  cs_length :: nat
  iter_index :: nat
  bracket_deepth :: "8 word"
  token1 :: LexToken
  token2 :: LexToken
  last_token :: "string option"
  cs_result :: PIKA_RES

definition Cursor_init :: Cursor where
  "Cursor_init = \<lparr> cs_stream = [], cs_length = 0, iter_index = 0, bracket_deepth = 0,
     token1 = LexToken_init, token2 = LexToken_init, last_token = None, cs_result = PIKA_RES_OK \<rparr>"

definition Cursor_parse :: "Cursor \<Rightarrow> string option \<Rightarrow> Cursor option" where
  "Cursor_parse cs stmt = (case stmt of
     None \<Rightarrow> Some (cs\<lparr>cs_result := PIKA_RES_ERR_SYNTAX_ERROR\<rparr>)
   | Some s \<Rightarrow> do {
       ts \<leftarrow> Lexer_getTokenStream s;
       Some (cs\<lparr>cs_stream := ts, cs_length := TokenStream_getSize ts\<rparr>)
     })"

definition Cursor_beforeIter :: "Cursor \<Rightarrow> Cursor option" where
  "Cursor_beforeIter cs =
     (if cs_result cs \<noteq> PIKA_RES_OK then Some cs
      else do {
        (t0, r0) \<leftarrow> TokenStream_pop (cs_stream cs);
        (t1, r1) \<leftarrow> TokenStream_pop r0;
        Some (cs\<lparr>cs_stream := r1, last_token := Some t1\<rparr>)
      })"

text \<open>The change of the bracket depth at the first token, in the order of the tests.\<close>

definition bracket_step :: "string \<Rightarrow> 8 word \<Rightarrow> 8 word" where
  "bracket_step p d =
     (let d1 = (if equ p ''('' then d + 1 else d);
          d2 = (if equ p '')'' then d1 - 1 else d1);
          d3 = (if equ p ''['' then d2 + 1 else d2);
          d4 = (if equ p '']'' then d3 - 1 else d3);
          d5 = (if equ p ''{'' then d4 + 1 else d4)
      in if equ p ''}'' then d5 - 1 else d5)"

definition Cursor_iterStart :: "Cursor \<Rightarrow> Cursor option" where
  "Cursor_iterStart cs = do {
     lt \<leftarrow> last_token cs;
     s1 \<leftarrow> strsCopy lt;
     (s2, rest) \<leftarrow> TokenStream_pop (cs_stream cs);
     let t1 = LexToken_update s1;
     let t2 = LexToken_update s2;
     Some (cs\<lparr>iter_index := (iter_index cs + 1) mod 2 ^ 16, cs_stream := rest, last_token := Some s2,
              token1 := t1, token2 := t2, bracket_deepth := bracket_step (pyload t1) (bracket_deepth cs)\<rparr>)
   }"

text \<open>
  The macro \<open>Cursor_forEach\<close>: the body gets the cursor after \<open>Cursor_iterStart\<close> and the variables of
  the surrounding function and returns them with a flag for \<open>break\<close>.
\<close>

primrec Cursor_loop :: "nat \<Rightarrow> Cursor \<Rightarrow> (Cursor \<Rightarrow> 'a \<Rightarrow> ('a \<times> bool) option) \<Rightarrow> 'a \<Rightarrow> 'a option" where
  "Cursor_loop 0 cs body v = Some v"
| "Cursor_loop (Suc n) cs body v = do {
     cs1 \<leftarrow> Cursor_iterStart cs;
     (v1, brk) \<leftarrow> body cs1 v;
     if brk then Some v1 else Cursor_loop n cs1 body v1
   }"

definition Cursor_forEach :: "string option \<Rightarrow> (Cursor \<Rightarrow> 'a \<Rightarrow> ('a \<times> bool) option) \<Rightarrow> 'a \<Rightarrow> 'a option" where
  "Cursor_forEach stmt body v = do {
     cs \<leftarrow> Cursor_parse Cursor_init stmt;
     cs1 \<leftarrow> Cursor_beforeIter cs;
     Cursor_loop (cs_length cs1) cs1 body v
   }"

abbreviation go :: "'a option \<Rightarrow> ('a \<times> bool) option" where
  "go r \<equiv> map_option (\<lambda>v. (v, False)) r"

abbreviation p1 :: "Cursor \<Rightarrow> string" where "p1 cs \<equiv> pyload (token1 cs)"
abbreviation p2 :: "Cursor \<Rightarrow> string" where "p2 cs \<equiv> pyload (token2 cs)"

definition Token_isBranketStart :: "LexToken \<Rightarrow> bool" where
  "Token_isBranketStart token =
     (if tk_type token \<noteq> TOKEN_devider then False
      else equ (pyload token) ''('' \<or> equ (pyload token) ''['' \<or> equ (pyload token) ''{'')"

definition Token_isBranketEnd :: "LexToken \<Rightarrow> bool" where
  "Token_isBranketEnd token =
     (if tk_type token \<noteq> TOKEN_devider then False
      else equ (pyload token) '')'' \<or> equ (pyload token) '']'' \<or> equ (pyload token) ''}'')"

definition Token_isBranket :: "LexToken \<Rightarrow> bool" where
  "Token_isBranket token \<longleftrightarrow> Token_isBranketStart token \<or> Token_isBranketEnd token"

section \<open>Loops over a cursor\<close>

text \<open>
  The index of the last divider has eight bits. The kept part is copied back over the statement,
  whose buffer holds its own length and the terminator.
\<close>

definition Cursor_popLastToken :: "string \<Rightarrow> string \<Rightarrow> (string \<times> string) option" where
  "Cursor_popLastToken sStmts str = do {
     uDividerIndex \<leftarrow> Cursor_forEach (Some sStmts)
       (\<lambda>cs d. Some (if bracket_deepth cs = 0 \<and> equ str (p1 cs) then iter_index cs mod 256 else d, False)) 0;
     (aPoped, aKeeped) \<leftarrow> Cursor_forEach (Some sStmts)
       (\<lambda>cs (poped, keeped). do {
          poped1 \<leftarrow> (if iter_index cs < uDividerIndex then strsAppend poped (p1 cs) else Some poped);
          keeped1 \<leftarrow> (if iter_index cs > uDividerIndex then strsAppend keeped (p1 cs) else Some keeped);
          Some ((poped1, keeped1), False)
        }) ([], []);
     sKeeped \<leftarrow> strsCopy aKeeped;
     stmts1 \<leftarrow> put_at (sStmts @ [NUL]) 0 (aPoped @ [NUL]);
     Some (c_str stmts1, sKeeped)
   }"

text \<open>The inner index \<open>k\<close> has sixteen bits: a longer token would never be finished.\<close>

definition Cursor_getCleanStmt :: "string \<Rightarrow> string option" where
  "Cursor_getCleanStmt cmd = do {
     (sOut, iOut) \<leftarrow> Cursor_forEach (Some cmd)
       (\<lambda>cs (sOut, iOut).
          if 2 ^ 16 \<le> strGetSize (p1 cs) then None
          else do {
            out \<leftarrow> put_loop sOut iOut (p1 cs);
            Some ((out, iOut + strGetSize (p1 cs)), False)
          }) (getBuff (strGetSize cmd * 2), 0);
     out \<leftarrow> wr sOut iOut NUL;
     Some (c_str out)
   }"

definition Cursor_removeTokensBetween :: "string \<Rightarrow> string \<Rightarrow> string \<Rightarrow> string option" where
  "Cursor_removeTokensBetween input token_pyload1 token_pyload2 = do {
     (sOutput, uBlockDeepth) \<leftarrow> Cursor_forEach (Some input)
       (\<lambda>cs (out, d :: 8 word). do {
          out1 \<leftarrow> (if equ token_pyload1 (p1 cs) \<and> d = 0 then strsAppend out (p1 cs) else Some out);
          let d1 = (if equ token_pyload1 (p1 cs) then d + 1 else d);
          let d2 = (if equ token_pyload2 (p1 cs) then d1 - 1 else d1);
          out2 \<leftarrow> (if d2 = 0 then strsAppend out1 (p1 cs) else Some out1);
          Some ((out2, d2), False)
        }) ([], 0);
     strsCopy sOutput
   }"

definition remove_sub_stmt :: "string \<Rightarrow> string option" where
  "remove_sub_stmt sStmt = do {
     s0 \<leftarrow> strsCopy sStmt;
     s1 \<leftarrow> Cursor_removeTokensBetween s0 ''('' '')'';
     s2 \<leftarrow> Cursor_removeTokensBetween s1 ''['' '']'';
     s3 \<leftarrow> Cursor_removeTokensBetween s2 ''{'' ''}'';
     strsCopy s3
   }"

definition Cursor_count_ex :: "string \<Rightarrow> TokenType \<Rightarrow> string \<Rightarrow> bool \<Rightarrow> 8 word option" where
  "Cursor_count_ex sStmt eType sPyload bSkipbracket =
     (if strstr sStmt sPyload = None then Some 0
      else Cursor_forEach (Some sStmt)
        (\<lambda>cs uRes. go (Some (
           if tk_type (token1 cs) = eType \<and> equ (p1 cs) sPyload then
             (if bSkipbracket \<and> (if Token_isBranketStart (token1 cs) then 1 else 0) < sint (bracket_deepth cs)
              then uRes else uRes + 1)
           else uRes))) 0)"

definition Cursor_count :: "string \<Rightarrow> TokenType \<Rightarrow> string \<Rightarrow> 8 word option" where
  "Cursor_count sStmt eType sPyload = Cursor_count_ex sStmt eType sPyload False"

definition Cursor_isContain :: "string \<Rightarrow> TokenType \<Rightarrow> string \<Rightarrow> bool option" where
  "Cursor_isContain sStmt eType sPyload = do { n \<leftarrow> Cursor_count sStmt eType sPyload; Some (n > 0) }"

text \<open>The item in front of the divider and the statement that is left.\<close>

definition pop_body :: "string \<Rightarrow> Cursor \<Rightarrow> string \<times> string \<times> bool \<Rightarrow> ((string \<times> string \<times> bool) \<times> bool) option" where
  "pop_body sDevide cs v = (case v of (item, after, fnd) \<Rightarrow>
     if \<not> fnd \<and> ((bracket_deepth cs = 0 \<and> equ (p1 cs) sDevide) \<or> iter_index cs = cs_length cs)
     then Some ((item, after, True), False)
     else if \<not> fnd then do { item1 \<leftarrow> strsAppend item (p1 cs); Some ((item1, after, fnd), False) }
     else do { after1 \<leftarrow> strsAppend after (p1 cs); Some ((item, after1, fnd), False) })"

definition Cursor_popToken :: "string \<Rightarrow> string \<Rightarrow> (string \<times> string) option" where
  "Cursor_popToken sStmt sDevide = do {
     (aOutitem, aAfter, bFind) \<leftarrow> Cursor_forEach (Some sStmt) (pop_body sDevide) ([], [], False);
     sOutItem \<leftarrow> strsCopy aOutitem;
     sTokenAfter \<leftarrow> strsCopy aAfter;
     Some (sOutItem, sTokenAfter)
   }"

definition Cursor_splitCollect :: "string \<Rightarrow> string \<Rightarrow> int \<Rightarrow> string option" where
  "Cursor_splitCollect sStmt sDevide index = do {
     let iExpectBracket = (if str_at sDevide 0 \<in> {CHR ''('', CHR ''['', CHR ''{''} then 1 else 0);
     (aOut, i) \<leftarrow> Cursor_forEach (Some sStmt)
       (\<lambda>cs (aOut, i).
          if bracket_deepth cs = iExpectBracket \<and> equ (p1 cs) sDevide then Some ((aOut, i + 1), False)
          else do {
            out \<leftarrow> (if i = index then strsAppend aOut (p1 cs) else Some aOut);
            Some ((out, i), False)
          }) ([], 0);
     strsCopy (if i = 0 then sStmt else aOut)
   }"

definition Parser_checkIsDirect :: "string \<Rightarrow> bool option" where
  "Parser_checkIsDirect sStr = do {
     sLeft \<leftarrow> Cursor_splitCollect sStr ''='' 1;
     Some (\<not> equ sLeft sStr)
   }"

section \<open>The operator of a statement\<close>

definition solveEqualLevelOperator :: "string option \<Rightarrow> string \<Rightarrow> string \<Rightarrow> string \<Rightarrow> string option option" where
  "solveEqualLevelOperator sOperator sOp1 sOp2 sStmt =
     (if strEqu sOperator (Some sOp1) \<or> strEqu sOperator (Some sOp2) then
        Cursor_forEach (Some sStmt)
          (\<lambda>cs opr. do {
             o1 \<leftarrow> (if equ (p1 cs) sOp1 then map_option Some (strsCopy sOp1) else Some opr);
             o2 \<leftarrow> (if equ (p1 cs) sOp2 then map_option Some (strsCopy sOp2) else Some o1);
             Some (o2, False)
           }) sOperator
      else Some sOperator)"

definition operators :: "string list" where
  "operators = [''**'', ''~'', ''*'', ''/'', ''%'', ''//'', ''+'', ''-'', ''>>'',
     ''<<'', ''&'', ''^'', ''|'', ''<'', ''<='', ''>'', ''>='', ''!='',
     ''=='', '' is '', '' in '', ''%='', ''/='', ''//='', ''-='', ''+='', ''*='',
     ''**='', ''^='', '' not '', '' and '', '' or '', '' import '']"

fun operator_loop :: "string list \<Rightarrow> string \<Rightarrow> string option \<Rightarrow> string option option" where
  "operator_loop [] sStmt sOperator = Some sOperator"
| "operator_loop (q # qs) sStmt sOperator = do {
     r \<leftarrow> Cursor_forEach (Some sStmt)
       (\<lambda>cs v. if equ (p1 cs) q then do { c \<leftarrow> strsCopy q; Some (Some c, True) } else Some (v, False)) sOperator;
     operator_loop qs sStmt r
   }"

definition Lexer_getOperator :: "string \<Rightarrow> string option option" where
  "Lexer_getOperator sStmt = do {
     r1 \<leftarrow> operator_loop operators sStmt None;
     r2 \<leftarrow> (if strEqu r1 (Some ''-'') then
              Cursor_forEach (Some sStmt)
                (\<lambda>cs v. if equ (p2 cs) ''-'' \<and> tk_type (token1 cs) = TOKEN_operator
                   then do { c \<leftarrow> strsCopy (p1 cs); Some (Some c, True) } else Some (v, False)) r1
            else Some r1);
     r3 \<leftarrow> solveEqualLevelOperator r2 ''+'' ''-'' sStmt;
     r4 \<leftarrow> solveEqualLevelOperator r3 ''*'' ''/'' sStmt;
     (case r4 of None \<Rightarrow> Some None | Some q \<Rightarrow> map_option Some (strsCopy q))
   }"

section \<open>The kind of a statement\<close>

datatype StmtType = STMT_reference | STMT_tuple | STMT_string | STMT_bytes | STMT_number | STMT_method
  | STMT_chain | STMT_operator | STMT_inhert | STMT_import | STMT_list | STMT_slice | STMT_dict | STMT_none

record StmtFlags =
  bOperator :: bool
  bMethod :: bool
  bString :: bool
  bBytes :: bool
  bNum :: bool
  bSymbol :: bool
  bList :: bool
  bSlice :: bool
  bDict :: bool
  bImport :: bool
  bInhert :: bool
  bChain :: bool

definition StmtFlags_init :: StmtFlags where
  "StmtFlags_init = \<lparr> bOperator = False, bMethod = False, bString = False, bBytes = False, bNum = False,
     bSymbol = False, bList = False, bSlice = False, bDict = False, bImport = False, bInhert = False,
     bChain = False \<rparr>"

text \<open>The body of the loop behind the test for an opening bracket as the next token.\<close>

definition collect_rest :: "Cursor \<Rightarrow> StmtFlags \<Rightarrow> StmtFlags" where
  "collect_rest cs f =
     (if equ (p1 cs) ''['' \<and> iter_index cs = 1 then f\<lparr>bList := True, bMethod := False\<rparr>
      else if equ (p1 cs) ''...'' then f
      else if equ (p1 cs) ''pass'' then f
      else if strIsStartWith (Some (p1 cs)) (Some ''.'') \<and> iter_index cs \<noteq> 1 then f\<lparr>bChain := True, bSlice := False\<rparr>
      else if equ (p1 cs) ''{'' then f\<lparr>bDict := True\<rparr>
      else if tk_type (token1 cs) = TOKEN_operator then f\<lparr>bOperator := True\<rparr>
      else if equ (p1 cs) ''('' then f\<lparr>bMethod := True, bSlice := False\<rparr>
      else if tk_type (token1 cs) = TOKEN_literal then
        (if str_at (p1 cs) 0 = CH_SQ \<or> str_at (p1 cs) 0 = CH_DQ then f\<lparr>bString := True\<rparr>
         else if (str_at (p1 cs) 1 = CH_SQ \<or> str_at (p1 cs) 1 = CH_DQ) \<and> str_at (p1 cs) 0 = CHR ''b'' then f\<lparr>bBytes := True\<rparr>
         else f\<lparr>bNum := True\<rparr>)
      else if tk_type (token1 cs) = TOKEN_symbol then f\<lparr>bSymbol := True\<rparr>
      else f)"

definition collect_type :: "Cursor \<Rightarrow> StmtFlags \<Rightarrow> StmtFlags" where
  "collect_type cs f =
     (if equ (p1 cs) '' import '' then f\<lparr>bImport := True\<rparr>
      else if equ (p1 cs) ''@inh '' then f\<lparr>bInhert := True\<rparr>
      else if equ (p2 cs) ''['' then
        (if tk_type (token1 cs) = TOKEN_symbol \<or> tk_type (token1 cs) = TOKEN_literal \<or> equ (p1 cs) '']'' \<or> equ (p1 cs) '')''
         then f\<lparr>bSlice := True, bChain := False\<rparr>
         else collect_rest cs (f\<lparr>bList := True\<rparr>))
      else collect_rest cs f)"

definition Lexer_matchStmtType :: "string \<Rightarrow> StmtType option" where
  "Lexer_matchStmtType right = do {
     sTopStmt \<leftarrow> remove_sub_stmt right;
     f \<leftarrow> Cursor_forEach (Some sTopStmt) (\<lambda>cs f. Some (collect_type cs f, False)) StmtFlags_init;
     let tuple = (\<lambda>ty. do { c \<leftarrow> Cursor_isContain right TOKEN_devider '',''; Some (if c then STMT_tuple else ty) });
     if bInhert f then Some STMT_inhert
     else if bImport f then Some STMT_import
     else if bOperator f then Some STMT_operator
     else if bSlice f then Some STMT_slice
     else if bChain f then Some STMT_chain
     else if bList f then Some STMT_list
     else if bDict f then Some STMT_dict
     else if bMethod f then Some STMT_method
     else if bString f then tuple STMT_string
     else if bBytes f then tuple STMT_bytes
     else if bNum f then tuple STMT_number
     else if bSymbol f then tuple STMT_reference
     else Some STMT_none
   }"

text \<open>Start, end and step of a slice.\<close>

definition Slice_getPars :: "string \<Rightarrow> (string \<times> string \<times> string) option" where
  "Slice_getPars sInner = do {
     (sStart, sEnd, sStep, uColonIndex) \<leftarrow> Cursor_forEach (Some sInner)
       (\<lambda>cs (st, en, sp, k :: 8 word).
          if equ (p1 cs) '':'' \<and> bracket_deepth cs = 0 then Some ((st, en, sp, k + 1), False)
          else do {
            st1 \<leftarrow> (if k = 0 then strsAppend st (p1 cs) else Some st);
            en1 \<leftarrow> (if k = 1 then strsAppend en (p1 cs) else Some en);
            sp1 \<leftarrow> (if k = 2 then strsAppend sp (p1 cs) else Some sp);
            Some ((st1, en1, sp1, k), False)
          }) ([], [], [], 0);
     (st2, en2, sp2) \<leftarrow>
       (if uColonIndex = 1 then
          Some (if equ sStart [] then ''0'' else sStart, if equ sEnd [] then ''-1'' else sEnd, ''1'')
        else if uColonIndex = 0 then do {
          en \<leftarrow> strsAppend sStart '' + 1'';
          Some (sStart, en, ''1'')
        }
        else Some (sStart, sEnd, sStep));
     st3 \<leftarrow> strsCopy st2;
     en3 \<leftarrow> strsCopy en2;
     sp3 \<leftarrow> strsCopy sp2;
     Some (st3, en3, sp3)
   }"

section \<open>The cursor visits the tokens\<close>

text \<open>What is left of the stream after the separator in front of the next token.\<close>

definition left_of :: "tok list \<Rightarrow> string" where "left_of ts = drop 1 (stream ts)"

text \<open>The token as the cursor sees it; behind the last one come empty tokens.\<close>

definition lex_token :: "tok list \<Rightarrow> nat \<Rightarrow> LexToken" where
  "lex_token ts k =
     (if k < length ts
      then \<lparr> tk_stream = drop 1 (tok_str (ts ! k)), tk_type = fst (ts ! k), pyload = snd (ts ! k) \<rparr>
      else \<lparr> tk_stream = [], tk_type = TOKEN_strEnd, pyload = [] \<rparr>)"

fun depth :: "tok list \<Rightarrow> nat \<Rightarrow> 8 word" where
  "depth ts 0 = 0"
| "depth ts (Suc k) = bracket_step (pyload (lex_token ts k)) (depth ts k)"

text \<open>The cursor in its \<open>k\<close>-th iteration.\<close>

definition cursor_at :: "tok list \<Rightarrow> nat \<Rightarrow> Cursor" where
  "cursor_at ts k =
     \<lparr> cs_stream = left_of (drop (k + 1) ts), cs_length = length ts + 1, iter_index = k,
       bracket_deepth = depth ts k,
       token1 = (if k = 0 then LexToken_init else lex_token ts (k - 1)),
       token2 = (if k = 0 then LexToken_init else lex_token ts k),
       last_token = Some (tk_stream (lex_token ts k)), cs_result = PIKA_RES_OK \<rparr>"

text \<open>Running a body over a list of cursors until it breaks.\<close>

fun run :: "('c \<Rightarrow> 'a \<Rightarrow> ('a \<times> bool) option) \<Rightarrow> 'c list \<Rightarrow> 'a \<Rightarrow> 'a option" where
  "run body [] v = Some v"
| "run body (c # cs) v = do { (v1, brk) \<leftarrow> body c v; if brk then Some v1 else run body cs v1 }"

definition visits :: "tok list \<Rightarrow> Cursor list" where
  "visits ts = (if ts = [] then [] else map (cursor_at ts) [1..<length ts + 2])"

lemma left_of_simps: "left_of [] = []" "left_of (t # ts) = token_char (fst t) # snd t @ stream ts"
  by (simp_all add: left_of_def tok_str_def)

lemma pop_left:
  assumes "\<forall>t \<in> set ts. tok_ok t"
  shows "TokenStream_pop (left_of ts) = Some (tk_stream (lex_token ts 0), left_of (drop 1 ts))"
proof (cases ts)
  case Nil
  then show ?thesis by (simp add: TokenStream_pop_def left_of_simps strsPopToken_eq lex_token_def)
next
  case (Cons t us)
  then have t: "tok_ok t" "\<forall>u \<in> set us. tok_ok u" using assms by auto
  have c: "cstring (left_of ts)" using cstring_stream [of ts] assms by (simp add: left_of_def)
  let ?p = "token_char (fst t) # snd t"
  have "\<forall>c \<in> set ?p. c \<noteq> SEP" using t(1) token_char_ok(2) [OF t(1)] by (auto simp: tok_ok_def)
  then have p: "takeWhile (\<lambda>c. c \<noteq> SEP) (?p @ r) = ?p @ takeWhile (\<lambda>c. c \<noteq> SEP) r"
    "dropWhile (\<lambda>c. c \<noteq> SEP) (?p @ r) = dropWhile (\<lambda>c. c \<noteq> SEP) r" for r
    by auto
  have "takeWhile (\<lambda>c. c \<noteq> SEP) (stream us) = []" "drop 1 (dropWhile (\<lambda>c. c \<noteq> SEP) (stream us)) = left_of us"
    by (cases us; simp add: left_of_def tok_str_def)+
  then show ?thesis
    using strsPopToken_eq [OF c, of SEP] p [of "stream us"]
    by (simp add: TokenStream_pop_def Cons left_of_simps lex_token_def tok_str_def)
qed

lemma lex_token_drop: "lex_token (drop k ts) 0 = lex_token ts k"
  by (simp add: lex_token_def)

lemma update_lex_token:
  assumes "\<forall>t \<in> set ts. tok_ok t"
  shows "LexToken_update (tk_stream (lex_token ts k)) = lex_token ts k"
proof (cases "k < length ts")
  case True
  then have t: "tok_ok (ts ! k)" using assms by simp
  then have "fst (ts ! k) \<noteq> TOKEN_strEnd" by (auto simp: tok_ok_def)
  then show ?thesis
    using True token_char_ok(3) [OF t]
    by (simp add: lex_token_def LexToken_update_def tok_str_def Token_getType_def Token_getPyload_def)
next
  case False
  then show ?thesis by (simp add: lex_token_def LexToken_update_def Token_getType_def token_type_def)
qed

lemma cstring_tk_stream: "\<forall>t \<in> set ts. tok_ok t \<Longrightarrow> cstring (tk_stream (lex_token ts k))"
  using cstring_tok_str [of "ts ! k"] by (simp add: lex_token_def tok_str_def)

lemma iterStart_at:
  assumes "\<forall>t \<in> set ts. tok_ok t" "k \<le> length ts" "length ts < 2 ^ 16 - 1"
  shows "Cursor_iterStart (cursor_at ts k) = Some (cursor_at ts (Suc k))"
proof -
  have "\<forall>t \<in> set (drop (k + 1) ts). tok_ok t" using assms(1) by (auto dest: in_set_dropD)
  from pop_left [OF this]
  have "TokenStream_pop (left_of (drop (k + 1) ts)) = Some (tk_stream (lex_token ts (Suc k)), left_of (drop (Suc k + 1) ts))"
    by (simp add: lex_token_drop)
  moreover have "strsCopy (tk_stream (lex_token ts k)) = Some (tk_stream (lex_token ts k))"
    using strsCopy_eq cstring_tk_stream [OF assms(1)] by blast
  moreover have "Suc k mod 2 ^ 16 = Suc k" using assms(2,3) by simp
  ultimately show ?thesis
    using update_lex_token [OF assms(1)] by (simp add: Cursor_iterStart_def cursor_at_def Let_def)
qed

lemma Cursor_loop_run:
  assumes "\<forall>t \<in> set ts. tok_ok t" "length ts < 2 ^ 16 - 1" "k + n = length ts + 1"
  shows "Cursor_loop n (cursor_at ts k) body v = run body (map (cursor_at ts) [Suc k..<length ts + 2]) v"
  using assms(3)
proof (induction n arbitrary: k v)
  case 0
  then show ?case by simp
next
  case (Suc n)
  have "[Suc k..<length ts + 2] = Suc k # [Suc (Suc k)..<length ts + 2]" using Suc.prems by (simp add: upt_conv_Cons del: upt_Suc)
  moreover have "Cursor_iterStart (cursor_at ts k) = Some (cursor_at ts (Suc k))"
    using iterStart_at [OF assms(1) _ assms(2), of k] Suc.prems by simp
  moreover have "Cursor_loop n (cursor_at ts (Suc k)) body w = run body (map (cursor_at ts) [Suc (Suc k)..<length ts + 2]) w" for w
    using Suc.IH [of "Suc k"] Suc.prems by simp
  ultimately show ?case by (cases "body (cursor_at ts (Suc k)) v") (auto simp del: upt_Suc)
qed

lemma getSize_stream:
  assumes "\<forall>t \<in> set ts. tok_ok t" "length ts < 2 ^ 16 - 1"
  shows "TokenStream_getSize (stream ts) = (if ts = [] then 0 else length ts + 1)"
proof -
  have "count_list (stream ts) SEP = length ts"
    using assms(1)
  proof (induction ts)
    case Nil
    then show ?case by simp
  next
    case (Cons t ts)
    moreover have "count_list (snd t) SEP = 0" using Cons.prems by (auto simp: count_list_0_iff tok_ok_def)
    ultimately show ?case using token_char_ok(2) [of t] by (simp add: tok_str_def)
  qed
  then show ?thesis
    using assms(2) by (cases ts) (simp_all add: TokenStream_getSize_def strCountSign_eq tok_str_def nat_add_distrib)
qed

text \<open>A statement short enough for the 16-bit counters of the cursor.\<close>

definition short :: "string \<Rightarrow> bool" where "short s \<longleftrightarrow> 2 * length s < 2 ^ 16 - 1"

lemma length_tokens: "\<forall>t \<in> set ts. tok_ok t \<Longrightarrow> length ts \<le> length (payloads ts)"
proof (induction ts)
  case (Cons t ts)
  then have "0 < length (snd t)" by (simp add: tok_ok_def)
  with Cons show ?case by (simp del: length_greater_0_conv)
qed simp

text \<open>The tokens of a statement as a value.\<close>

definition lexes :: "string \<Rightarrow> tok list \<Rightarrow> bool" where
  "lexes s ts \<longleftrightarrow> Lexer_getTokenStream s = Some (stream ts) \<and> (\<forall>t \<in> set ts. tok_ok t) \<and>
     length (payloads ts) \<le> 2 * length s"

lemma lexes_ex: "stmt_ok s \<Longrightarrow> \<exists>ts. lexes s ts"
  by (erule Lexer_tokens) (auto simp: lexes_def)

lemma forEach_run:
  assumes "lexes s ts" "short s"
  shows "Cursor_forEach (Some s) body v = run body (visits ts) v"
proof -
  have ok: "\<forall>t \<in> set ts. tok_ok t" and lx: "Lexer_getTokenStream s = Some (stream ts)"
    using assms(1) by (simp_all add: lexes_def)
  have n: "length ts < 2 ^ 16 - 1" using assms length_tokens [OF ok] by (simp add: lexes_def short_def)
  have pop: "TokenStream_pop (stream ts) = Some ([], left_of ts)"
    using strsPopToken_eq [of "stream ts" SEP] cstring_stream [of ts] ok
    by (cases ts) (simp_all add: TokenStream_pop_def tok_str_def left_of_def)
  let ?cs = "Cursor_init\<lparr>cs_stream := stream ts, cs_length := TokenStream_getSize (stream ts)\<rparr>"
  have parse: "Cursor_parse Cursor_init (Some s) = Some ?cs" using lx by (simp add: Cursor_parse_def)
  have before: "Cursor_beforeIter ?cs = Some (?cs\<lparr>cs_stream := left_of (drop 1 ts), last_token := Some (tk_stream (lex_token ts 0))\<rparr>)"
    using pop pop_left [OF ok] by (simp add: Cursor_beforeIter_def Cursor_init_def)
  show ?thesis
  proof (cases "ts = []")
    case True
    then show ?thesis using parse before getSize_stream [OF ok n] by (simp add: Cursor_forEach_def visits_def)
  next
    case False
    then have "?cs\<lparr>cs_stream := left_of (drop 1 ts), last_token := Some (tk_stream (lex_token ts 0))\<rparr> = cursor_at ts 0"
      using getSize_stream [OF ok n] by (simp add: cursor_at_def Cursor_init_def)
    then show ?thesis
      using False parse before Cursor_loop_run [OF ok n, of 0 "length ts + 1" body v]
      by (simp add: Cursor_forEach_def visits_def cursor_at_def [of ts 0] del: upt_Suc)
  qed
qed

lemma run_pure: "run (\<lambda>c v. Some (f c v, False)) cs v = Some (fold f cs v)"
  by (induction cs arbitrary: v) auto

lemma p1_at: "1 \<le> k \<Longrightarrow> p1 (cursor_at ts k) = pyload (lex_token ts (k - 1))"
  by (simp add: cursor_at_def)

lemma p1_visits: "map p1 (visits ts) = (if ts = [] then [] else map snd ts @ [[]])"
proof (cases "ts = []")
  case False
  have "map p1 (visits ts) = map (\<lambda>k. pyload (lex_token ts k)) [0..<length ts + 1]"
    using False by (auto simp: visits_def p1_at map_Suc_upt [symmetric] intro: nth_equalityI simp del: upt_Suc)
  also have "\<dots> = map snd ts @ [[]]"
    by (auto simp: lex_token_def intro: nth_equalityI)
  finally show ?thesis using False by simp
qed (simp add: visits_def)

lemma concat_p1_visits: "concat (map p1 (visits ts)) = payloads ts"
  by (simp add: p1_visits payloads_def)

lemma cstring_p1: "\<forall>t \<in> set ts. tok_ok t \<Longrightarrow> c \<in> set (visits ts) \<Longrightarrow> cstring (p1 c)"
proof -
  assume "\<forall>t \<in> set ts. tok_ok t" "c \<in> set (visits ts)"
  then have "p1 c \<in> set (map p1 (visits ts))" "\<forall>p \<in> set (map snd ts). cstring p" by (auto simp: tok_ok_def)
  then show "cstring (p1 c)" unfolding p1_visits by (auto split: if_splits)
qed

section \<open>Cleaning and splitting\<close>

lemma run_put:
  assumes "k + length (concat (map p1 cs)) \<le> length out" "\<And>c. c \<in> set cs \<Longrightarrow> length (p1 c) < 2 ^ 16"
  shows "run (\<lambda>c (sOut, iOut). if 2 ^ 16 \<le> strGetSize (p1 c) then None
      else do { out \<leftarrow> put_loop sOut iOut (p1 c); Some ((out, iOut + strGetSize (p1 c)), False) }) cs (out, k)
    = Some (take k out @ concat (map p1 cs) @ drop (k + length (concat (map p1 cs))) out, k + length (concat (map p1 cs)))"
  using assms
proof (induction cs arbitrary: out k)
  case Nil
  then show ?case by simp
next
  case (Cons c cs)
  let ?o = "take k out @ p1 c @ drop (k + length (p1 c)) out"
  have "put_loop out k (p1 c) = Some ?o" using Cons.prems(1) by (simp add: put_loop_Some)
  moreover have "length ?o = length out" using Cons.prems(1) by simp
  moreover have "\<not> 2 ^ 16 \<le> length (p1 c)" using Cons.prems(2) [of c] by simp
  ultimately show ?case
    using Cons.prems Cons.IH [of "k + length (p1 c)" ?o] by (simp add: strGetSize_def add_ac)
qed

lemma getCleanStmt_eq:
  assumes "lexes s ts" "short s"
  shows "Cursor_getCleanStmt s = Some (payloads ts)"
proof -
  have ok: "\<forall>t \<in> set ts. tok_ok t" and len: "length (payloads ts) \<le> 2 * length s"
    using assms(1) by (simp_all add: lexes_def)
  have "length (p1 c) \<le> length (concat (map p1 (visits ts)))" if "c \<in> set (visits ts)" for c
    using that by (induction "visits ts" rule: list.induct) (auto dest!: split_list simp: trans_le_add1)
  then have p: "length (p1 c) < 2 ^ 16" if "c \<in> set (visits ts)" for c
    using that len assms(2) by (fastforce simp: concat_p1_visits short_def)
  have c: "cstring (payloads ts)" using ok by (induction ts) (auto simp: tok_ok_def)
  show ?thesis
    using run_put [of 0 "visits ts" "getBuff (length s * 2)"] p len c_str_app_NUL [OF c]
    by (simp add: Cursor_getCleanStmt_def forEach_run [OF assms] concat_p1_visits strGetSize_def wr_def upd_put)
qed

text \<open>\<open>Cursor_popToken\<close> splits at the first divider outside brackets.\<close>

abbreviation hit :: "string \<Rightarrow> Cursor \<Rightarrow> bool" where
  "hit d c \<equiv> (bracket_deepth c = 0 \<and> p1 c = d) \<or> iter_index c = cs_length c"

lemma pop_found:
  "(\<And>c. c \<in> set cs \<Longrightarrow> cstring (p1 c)) \<Longrightarrow> cstring b \<Longrightarrow>
   run (pop_body d) cs (a, b, True) = Some (a, b @ concat (map p1 cs), True)"
  by (induction cs arbitrary: b) (auto simp: strsAppend_eq pop_body_def)

lemma pop_search:
  assumes "\<And>c. c \<in> set cs \<Longrightarrow> cstring (p1 c)" "cstring a" "\<And>c. c \<in> set cs \<Longrightarrow> \<not> hit d c"
  shows "run (pop_body d) (cs @ ds) (a, [], False) = run (pop_body d) ds (a @ concat (map p1 cs), [], False)"
  using assms by (induction cs arbitrary: a) (auto simp: strsAppend_eq pop_body_def)

definition divides :: "tok list \<Rightarrow> string \<Rightarrow> nat \<Rightarrow> bool" where
  "divides ts d k \<longleftrightarrow> depth ts (Suc k) = 0 \<and> snd (ts ! k) = d"

lemma hit_at: "k < length ts \<Longrightarrow> hit d (cursor_at ts (Suc k)) \<longleftrightarrow> divides ts d k"
  by (simp add: cursor_at_def divides_def lex_token_def)

lemma visits_split:
  assumes "ts \<noteq> []" "k \<le> length ts"
  shows "visits ts = map (cursor_at ts) [1..<Suc k] @ cursor_at ts (Suc k) # map (cursor_at ts) [Suc (Suc k)..<length ts + 2]"
proof -
  have "[1..<length ts + 2] = [1..<Suc k] @ [Suc k..<length ts + 2]"
    using assms(2) upt_add_eq_append [of 1 "Suc k" "length ts + 2 - Suc k"] by simp
  moreover have "[Suc k..<length ts + 2] = Suc k # [Suc (Suc k)..<length ts + 2]" using assms(2) by (simp add: upt_conv_Cons)
  ultimately show ?thesis using assms(1) by (simp add: visits_def del: upt_Suc)
qed

lemma payloads_visits:
  assumes "k \<le> length ts"
  shows "concat (map p1 (map (cursor_at ts) [1..<Suc k])) = payloads (take k ts)"
    "concat (map p1 (map (cursor_at ts) [Suc (Suc k)..<length ts + 2])) = payloads (drop (Suc k) ts)"
proof -
  have "map p1 (map (cursor_at ts) [1..<Suc k]) = map snd (take k ts)"
    using assms by (intro nth_equalityI) (auto simp: p1_at lex_token_def simp del: upt_Suc)
  then show "concat (map p1 (map (cursor_at ts) [1..<Suc k])) = payloads (take k ts)" by (simp add: payloads_def)
  show "concat (map p1 (map (cursor_at ts) [Suc (Suc k)..<length ts + 2])) = payloads (drop (Suc k) ts)"
  proof (cases "k = length ts")
    case True
    then show ?thesis by simp
  next
    case False
    then have "[Suc (Suc k)..<length ts + 2] = [Suc (Suc k)..<length ts + 1] @ [length ts + 1]" using assms by simp
    moreover have "map p1 (map (cursor_at ts) [Suc (Suc k)..<length ts + 1]) = map snd (drop (Suc k) ts)"
      using assms by (intro nth_equalityI) (auto simp: p1_at lex_token_def simp del: upt_Suc)
    moreover have "p1 (cursor_at ts (length ts + 1)) = []" by (simp add: p1_at lex_token_def)
    ultimately show ?thesis by (simp add: payloads_def del: upt_Suc)
  qed
qed

lemma first_hit:
  fixes P :: "nat \<Rightarrow> bool"
  shows "\<exists>k \<le> n. (\<forall>j < k. \<not> P j) \<and> (k < n \<longrightarrow> P k)"
proof (cases "\<exists>k < n. P k")
  case True
  then obtain k where "k < n" "P k" by blast
  define m where "m = (LEAST j. P j)"
  have "m \<le> n" using Least_le [of P k] \<open>P k\<close> \<open>k < n\<close> by (simp add: m_def)
  moreover have "P m" unfolding m_def using \<open>P k\<close> by (rule LeastI)
  moreover have "\<forall>j < m. \<not> P j" unfolding m_def by (auto dest: not_less_Least)
  ultimately show ?thesis by (intro exI [of _ m]) simp
next
  case False
  then show ?thesis by (intro exI [of _ n]) simp
qed

lemma popToken_at:
  assumes "lexes s ts" "short s" "k \<le> length ts" "\<forall>j < k. \<not> divides ts d j" "k < length ts \<longrightarrow> divides ts d k"
  shows "Cursor_popToken s d = Some (payloads (take k ts), payloads (drop (Suc k) ts))"
proof (cases "ts = []")
  case True
  then show ?thesis
    using assms by (simp add: Cursor_popToken_def forEach_run [OF assms(1,2)] visits_def strsCopy_eq)
next
  case False
  have ok: "\<forall>t \<in> set ts. tok_ok t" using assms(1) by (simp add: lexes_def)
  let ?a = "map (cursor_at ts) [1..<Suc k]" and ?b = "map (cursor_at ts) [Suc (Suc k)..<length ts + 2]"
  have v: "visits ts = ?a @ cursor_at ts (Suc k) # ?b" using visits_split [OF False assms(3)] .
  have c: "cstring (p1 x)" if "x \<in> set ?a \<union> set ?b" for x
    using cstring_p1 [OF ok] that unfolding v by auto
  have no: "\<not> hit d x" if x: "x \<in> set ?a" for x
  proof -
    obtain j where j: "x = cursor_at ts j" "1 \<le> j" "j < Suc k" using x by auto
    then have "\<not> divides ts d (j - 1)" "j - 1 < length ts" "Suc (j - 1) = j" using assms(3,4) by auto
    then show ?thesis using hit_at [of "j - 1" ts d] j(1) by simp
  qed
  have yes: "hit d (cursor_at ts (Suc k))"
  proof (cases "k < length ts")
    case True
    then show ?thesis using hit_at [OF True] assms(5) by blast
  next
    case False
    then have "k = length ts" using assms(3) by simp
    then show ?thesis by (simp add: cursor_at_def)
  qed
  have "run (pop_body d) (visits ts) ([], [], False) = Some (payloads (take k ts), payloads (drop (Suc k) ts), True)"
    using pop_search [of ?a "[]" d "cursor_at ts (Suc k) # ?b"] c no yes pop_found [of ?b "[]" d "concat (map p1 ?a)"]
      payloads_visits [OF assms(3)]
    unfolding v by (simp add: pop_body_def del: upt_Suc map_map)
  moreover have "cstring (payloads us)" if "set us \<subseteq> set ts" for us
    using ok that by (induction us) (auto simp: tok_ok_def)
  ultimately show ?thesis
    by (simp add: Cursor_popToken_def forEach_run [OF assms(1,2)] strsCopy_eq set_take_subset set_drop_subset)
qed

section \<open>Properties\<close>

text \<open>C13: the lexer ends on every statement and yields a well-formed token stream. The texts of the
  tokens hold, blanks apart, the characters of a prefix of the statement in their order, and all of
  them when the statement has no string, comment or minus sign; together they are at most twice as
  long as the statement.\<close>

theorem Lexer_correct:
  assumes "stmt_ok s"
  shows "\<exists>ts k. Lexer_getTokenStream s = Some (stream ts) \<and> (\<forall>t \<in> set ts. tok_ok t) \<and> k \<le> length s \<and>
    nosp (payloads ts) = nosp (take k s) \<and> length (payloads ts) \<le> 2 * length s \<and> (plain s \<longrightarrow> k = length s)"
  using assms by (rule Lexer_tokens) blast

theorem Lexer_correct_witness:
  "\<exists>ts. Lexer_getTokenStream ''a = not b+1'' = Some (stream ts) \<and> nosp (payloads ts) = ''a=notb+1''"
  using Lexer_correct [of "''a = not b+1''"] by (auto simp: stmt_ok_def plain_def)

text \<open>C14: iterating a cursor over a statement runs the body once per token and once behind the last
  one, with the next token as look-ahead, the number of the iteration and the bracket depth.\<close>

theorem Cursor_forEach_tokens:
  assumes "stmt_ok s" "short s"
  shows "\<exists>ts. Lexer_getTokenStream s = Some (stream ts) \<and> (\<forall>t \<in> set ts. tok_ok t) \<and>
    (\<forall>body v. Cursor_forEach (Some s) body v = run body (visits ts) v)"
proof -
  obtain ts where ts: "lexes s ts" using lexes_ex [OF assms(1)] by blast
  then show ?thesis by (intro exI [of _ ts]) (simp add: lexes_def forEach_run [OF ts assms(2)])
qed

theorem Cursor_forEach_tokens_witness:
  "\<exists>ts. Lexer_getTokenStream ''f(x)'' = Some (stream ts) \<and>
     Cursor_forEach (Some ''f(x)'') (\<lambda>cs n. Some (n + 1, False)) (0 :: nat) = run (\<lambda>cs n. Some (n + 1, False)) (visits ts) 0"
proof -
  have "stmt_ok ''f(x)''" "short ''f(x)''" by (simp_all add: stmt_ok_def short_def)
  from Cursor_forEach_tokens [OF this, where 'a = nat] show ?thesis by blast
qed

text \<open>\<open>Cursor_getCleanStmt\<close> returns inside the buffer of twice the size of the statement that it
  asks for, and keeps the characters of the statement as the lexer does.\<close>

theorem Cursor_getCleanStmt_correct:
  assumes "stmt_ok s" "short s"
  shows "\<exists>r k. Cursor_getCleanStmt s = Some r \<and> length r \<le> 2 * length s \<and> k \<le> length s \<and>
    nosp r = nosp (take k s) \<and> (plain s \<longrightarrow> nosp r = nosp s)"
proof -
  obtain ts k where t: "Lexer_getTokenStream s = Some (stream ts)" "\<forall>t \<in> set ts. tok_ok t" "k \<le> length s"
    "nosp (payloads ts) = nosp (take k s)" "length (payloads ts) \<le> 2 * length s" "plain s \<Longrightarrow> k = length s"
    using Lexer_tokens [OF assms(1)] by metis
  then have "Cursor_getCleanStmt s = Some (payloads ts)" using getCleanStmt_eq [OF _ assms(2)] by (simp add: lexes_def)
  with t show ?thesis by (intro exI [of _ "payloads ts"] exI [of _ k]) auto
qed

theorem Cursor_getCleanStmt_correct_witness:
  "\<exists>r. Cursor_getCleanStmt ''a  in   b'' = Some r \<and> nosp r = ''ainb''"
  using Cursor_getCleanStmt_correct [of "''a  in   b''"] by (auto simp: stmt_ok_def short_def plain_def)

text \<open>C15: \<open>Cursor_popToken\<close> splits a statement at the first divider outside all brackets: the item is the
  text of the tokens in front of it, what is left is the text behind it, and without such a divider the
  item is the whole statement.\<close>

theorem Cursor_popToken_correct:
  assumes "stmt_ok s" "short s"
  shows "\<exists>ts k. Lexer_getTokenStream s = Some (stream ts) \<and> k \<le> length ts \<and>
    Cursor_popToken s d = Some (payloads (take k ts), payloads (drop (Suc k) ts)) \<and>
    (\<forall>j < k. \<not> divides ts d j) \<and> (k < length ts \<longrightarrow> divides ts d k)"
proof -
  obtain ts where ts: "lexes s ts" using lexes_ex [OF assms(1)] by blast
  obtain k where k: "k \<le> length ts" "\<forall>j < k. \<not> divides ts d j" "k < length ts \<longrightarrow> divides ts d k"
    using first_hit [of "length ts" "divides ts d"] by blast
  have "Cursor_popToken s d = Some (payloads (take k ts), payloads (drop (Suc k) ts))"
    using popToken_at [OF ts assms(2) k] .
  with ts k show ?thesis by (intro exI [of _ ts] exI [of _ k]) (simp add: lexes_def)
qed

theorem Cursor_popToken_correct_witness:
  "\<exists>ts k. Lexer_getTokenStream ''f(a,b),c'' = Some (stream ts) \<and>
     Cursor_popToken ''f(a,b),c'' '','' = Some (payloads (take k ts), payloads (drop (Suc k) ts))"
  using Cursor_popToken_correct [of "''f(a,b),c''" "'',''"] by (auto simp: stmt_ok_def short_def)

end
