(* ===== verification/Pika_Stack.thy ===== *)
theory Pika_Stack
  imports Pika_Args
begin

text \<open>
  The value stack of the virtual machine, \<open>src/src/dataStack.c\<close>. A stack has two cells, one for
  the values and one for their sizes. A cell of the heap is pushed as a pointer of eight bytes with
  the size \<open>-1\<close>; a cell of the C stack is copied into the value area in its serialized form.

  The value area is a map from the offsets where a value starts to the cell stored there: the
  address of a heap cell, or the address of the copy, which is a cell of the store without a block
  of its own. The size array is the list of its entries. An overflow runs into a loop that never
  ends, which is \<open>None\<close>.
\<close>

section \<open>State\<close>

datatype slot = Pointer nat | Copy nat

record Stack =
  stack_pyload :: nat
  stack_size_array :: nat
  sp :: nat
  sp_size :: nat
  top :: int
  stack_totle_size :: nat
  values_at :: "nat \<rightharpoonup> slot"
  size_entries :: "int list"

definition PIKA_STACK_BUFF_SIZE :: nat where "PIKA_STACK_BUFF_SIZE = 512"

definition PTR_SIZE :: nat where "PTR_SIZE = 8"

section \<open>Operations\<close>

definition stack_spFree :: "Stack \<Rightarrow> nat" where
  "stack_spFree stack = u32_sub (stack_totle_size stack) (sp stack)"

definition stack_spSizeFree :: "Stack \<Rightarrow> nat" where
  "stack_spSizeFree stack = u32_sub (stack_totle_size stack div 4) (4 * sp_size stack)"

definition stack_reset :: "Stack \<Rightarrow> Stack" where
  "stack_reset stack = stack\<lparr>sp := 0, sp_size := 0, top := 0\<rparr>"

definition stack_init_ex :: "heap \<Rightarrow> nat \<Rightarrow> (heap \<times> Stack) option" where
  "stack_init_ex h stack_size = do {
     (h1, p) \<leftarrow> arg_setContent h None None stack_size;
     (h2, q) \<leftarrow> arg_setContent h1 None None (stack_size div 4);
     Some (h2, stack_reset \<lparr> stack_pyload = p, stack_size_array = q, sp = 0, sp_size = 0, top = 0,
       stack_totle_size = stack_size, values_at = Map.empty,
       size_entries = replicate (stack_size div 4 div 4) 0 \<rparr>)
   }"

definition stack_init :: "heap \<Rightarrow> (heap \<times> Stack) option" where
  "stack_init h = stack_init_ex h PIKA_STACK_BUFF_SIZE"

definition stack_pushSize :: "Stack \<Rightarrow> int \<Rightarrow> Stack option" where
  "stack_pushSize stack n = do {
     e \<leftarrow> wr (size_entries stack) (sp_size stack) n;
     let s1 = stack\<lparr>size_entries := e, sp_size := sp_size stack + 1\<rparr>;
     if stack_spSizeFree s1 < 4 then None else Some s1
   }"

definition stack_popSize :: "Stack \<Rightarrow> (Stack \<times> int) option" where
  "stack_popSize stack =
     (if sp_size stack = 0 then None
      else do {
        n \<leftarrow> rd (size_entries stack) (sp_size stack - 1);
        Some (stack\<lparr>sp_size := sp_size stack - 1\<rparr>, n)
      })"

text \<open>What is written at the stack pointer ends whatever was stored from there on.\<close>

definition stack_pushPyload :: "Stack \<Rightarrow> slot \<Rightarrow> nat \<Rightarrow> Stack option" where
  "stack_pushPyload stack v n =
     (let stack_require = n + sp stack in
      if stack_totle_size stack < stack_require then None
      else Some (stack\<lparr>values_at := (\<lambda>k. if k < sp stack then values_at stack k else None)(sp stack \<mapsto> v),
                       sp := sp stack + n\<rparr>))"

definition stack_popPyload :: "Stack \<Rightarrow> int \<Rightarrow> (Stack \<times> slot) option" where
  "stack_popPyload stack n0 =
     (let n = (if n0 = -1 then int PTR_SIZE else n0) in
      if n < 0 \<or> int (sp stack) < n then None
      else let k = sp stack - nat n in do {
        v \<leftarrow> values_at stack k;
        Some (stack\<lparr>sp := k\<rparr>, v)
      })"

text \<open>
  The copy of a cell of the C stack: the header, then \<open>size - sizeof(Arg)\<close> bytes of its buffer as
  the content, with the flag for the serialized form.
\<close>

definition stack_copy :: "heap \<Rightarrow> Arg \<Rightarrow> nat \<Rightarrow> (heap \<times> nat) option" where
  "stack_copy h c n = (case union c of
     Next x \<Rightarrow> None
   | Buffer b \<Rightarrow>
       if length b < n - SIZEOF_ARG then None
       else Some (h\<lparr>cells := (cells h)(fresh h \<mapsto> arg_setSerialized (c\<lparr>content := take (n - SIZEOF_ARG) b, block := None\<rparr>) True),
                    fresh := Suc (fresh h)\<rparr>, fresh h))"

definition stack_pushArg_ex :: "heap \<Rightarrow> Stack \<Rightarrow> nat \<Rightarrow> bool \<Rightarrow> (heap \<times> Stack) option" where
  "stack_pushArg_ex h stack0 arg is_alloc = do {
     c \<leftarrow> cells h arg;
     let stack = stack0\<lparr>top := top stack0 + 1\<rparr>;
     let n = pad4 (arg_totleSize c);
     h1 \<leftarrow> arg_refcntInc h c;
     is_big_arg \<leftarrow> arg_isSerialized c;
     if is_big_arg then do {
       s1 \<leftarrow> stack_pushSize stack (-1);
       s2 \<leftarrow> stack_pushPyload s1 (Pointer arg) PTR_SIZE;
       Some (h1, s2)
     } else do {
       s1 \<leftarrow> stack_pushSize stack (int n);
       (h2, a) \<leftarrow> stack_copy h1 c n;
       s2 \<leftarrow> stack_pushPyload s1 (Copy a) n;
       h3 \<leftarrow> (if is_alloc then arg_deinit h2 arg else arg_deinitHeap h2 arg);
       Some (h3, s2)
     }
   }"

definition stack_pushArg :: "heap \<Rightarrow> Stack \<Rightarrow> nat \<Rightarrow> (heap \<times> Stack) option" where
  "stack_pushArg h stack arg = do {
     c \<leftarrow> cells h arg;
     _ \<leftarrow> (if argType_isObject (atype c) then do { p \<leftarrow> arg_getPtr c; Some () } else Some ());
     s \<leftarrow> arg_isSerialized c;
     stack_pushArg_ex h stack arg s
   }"

definition stack_pushStr :: "heap \<Rightarrow> Stack \<Rightarrow> string \<Rightarrow> (heap \<times> Stack) option" where
  "stack_pushStr h stack str = do {
     (h1, a) \<leftarrow> arg_setStr h None [] (Some str);
     newArg \<leftarrow> a;
     stack_pushArg h1 stack newArg
   }"

text \<open>The cell that is returned; the copy in the value area is dead afterwards.\<close>

definition stack_popArg_ex :: "heap \<Rightarrow> Stack \<Rightarrow> nat option \<Rightarrow> bool \<Rightarrow> (heap \<times> Stack \<times> nat option) option" where
  "stack_popArg_ex h stack0 arg_dict is_alloc =
     (if top stack0 = 0 then Some (h, stack0, None)
      else do {
        (s1, n) \<leftarrow> stack_popSize (stack0\<lparr>top := top stack0 - 1\<rparr>);
        (s2, v) \<leftarrow> stack_popPyload s1 n;
        (h1, arg) \<leftarrow> (case v of
            Pointer a \<Rightarrow> if n = -1 then Some (h, Some a) else None
          | Copy a \<Rightarrow> if n = -1 then None
              else do {
                (h', r) \<leftarrow> (if is_alloc then arg_copy h (Some a) else arg_copy_noalloc h (Some a) arg_dict);
                Some (h'\<lparr>cells := (cells h')(a := None)\<rparr>, r)
              });
        a \<leftarrow> arg;
        c \<leftarrow> cells h1 a;
        h2 \<leftarrow> arg_refcntDec h1 c;
        if flag c < ARG_FLAG_MAX then Some (h2, s2, Some a) else None
      })"

definition stack_popArg_alloc :: "heap \<Rightarrow> Stack \<Rightarrow> (heap \<times> Stack \<times> nat option) option" where
  "stack_popArg_alloc h stack = stack_popArg_ex h stack None True"

definition stack_popArg :: "heap \<Rightarrow> Stack \<Rightarrow> nat option \<Rightarrow> (heap \<times> Stack \<times> nat option) option" where
  "stack_popArg h stack arg_dict = stack_popArg_ex h stack arg_dict False"

definition stack_popStr :: "heap \<Rightarrow> Stack \<Rightarrow> string \<Rightarrow> (heap \<times> Stack \<times> string) option" where
  "stack_popStr h stack outBuff = do {
     (h1, s1, a) \<leftarrow> stack_popArg_alloc h stack;
     arg \<leftarrow> a;
     c \<leftarrow> cells h1 arg;
     str \<leftarrow> arg_getStr c;
     out \<leftarrow> put_at outBuff 0 (str @ [NUL]);
     h2 \<leftarrow> arg_deinit h1 arg;
     Some (h2, s1, out)
   }"

definition stack_getTop :: "Stack \<Rightarrow> int" where
  "stack_getTop stack = top stack"

text \<open>The loop of \<open>stack_checkArg\<close>: the sizes below the stack pointer, from the top on.\<close>

fun check_loop :: "Stack \<Rightarrow> nat list \<Rightarrow> int \<Rightarrow> int \<Rightarrow> (int \<times> int) option" where
  "check_loop stack [] sp_offset n = Some (sp_offset, n)"
| "check_loop stack (i # is) sp_offset n =
     (if sp_size stack < i then None
      else do {
        m \<leftarrow> rd (size_entries stack) (sp_size stack - i);
        check_loop stack is (sp_offset - (if m = -1 then int PTR_SIZE else m)) m
      })"

definition stack_checkArg :: "Stack \<Rightarrow> nat \<Rightarrow> nat option option" where
  "stack_checkArg stack index =
     (if top stack - int index \<le> 0 then Some None
      else do {
        (sp_offset, n) \<leftarrow> check_loop stack [1..<index + 2] 0 0;
        let k = int (sp stack) + sp_offset;
        v \<leftarrow> (if k < 0 then None else values_at stack (nat k));
        (case v of
           Pointer a \<Rightarrow> if n = -1 then Some (Some a) else None
         | Copy a \<Rightarrow> if n = -1 then None else Some (Some a))
      })"

partial_function (option) stack_deinit_loop :: "heap \<Rightarrow> Stack \<Rightarrow> (heap \<times> Stack) option" where
  "stack_deinit_loop h stack =
     (if 0 < top stack then do {
        (s1, n) \<leftarrow> stack_popSize stack;
        (s2, v) \<leftarrow> stack_popPyload s1 n;
        let s3 = s2\<lparr>top := top s2 - 1\<rparr>;
        h1 \<leftarrow> (if n = -1 then (case v of Pointer a \<Rightarrow> arg_deinit h a | Copy a \<Rightarrow> None) else Some h);
        stack_deinit_loop h1 s3
      }
      else Some (h, stack))"

definition stack_deinit :: "heap \<Rightarrow> Stack \<Rightarrow> heap option" where
  "stack_deinit h stack = do {
     (h1, s1) \<leftarrow> stack_deinit_loop h stack;
     h2 \<leftarrow> arg_deinit h1 (stack_pyload s1);
     arg_deinit h2 (stack_size_array s1)
   }"

section \<open>The contract of a stack\<close>

primrec pushes :: "('s \<Rightarrow> 'a \<Rightarrow> 's option) \<Rightarrow> 's \<Rightarrow> 'a list \<Rightarrow> 's option" where
  "pushes push s [] = Some s"
| "pushes push s (x # xs) = do { s1 \<leftarrow> push s x; pushes push s1 xs }"

primrec pops :: "('s \<Rightarrow> ('s \<times> 'a option) option) \<Rightarrow> 's \<Rightarrow> nat \<Rightarrow> ('s \<times> 'a list) option" where
  "pops pop s 0 = Some (s, [])"
| "pops pop s (Suc n) = do { (s1, xs) \<leftarrow> pops pop s n; (s2, x) \<leftarrow> pop s1; x' \<leftarrow> x; Some (s2, xs @ [x']) }"

text \<open>
  A stack of references: pushing acquires a reference in the core of the state, popping releases
  it. A sequence of pushes followed by as many pops gives the items back in reverse order and
  restores the core.
\<close>

locale lifo =
  fixes ok :: "'s \<Rightarrow> bool" and items :: "'s \<Rightarrow> 'a list" and room :: "'s \<Rightarrow> nat" and can :: "'s \<Rightarrow> 'a \<Rightarrow> bool"
    and push :: "'s \<Rightarrow> 'a \<Rightarrow> 's option" and pop :: "'s \<Rightarrow> ('s \<times> 'a option) option"
    and core :: "'s \<Rightarrow> 'h" and acquire :: "'a \<Rightarrow> 'h \<Rightarrow> 'h" and release :: "'a \<Rightarrow> 'h \<Rightarrow> 'h"
  assumes push_ok: "ok s \<Longrightarrow> can s x \<Longrightarrow> 0 < room s \<Longrightarrow> \<exists>s'. push s x = Some s' \<and> ok s' \<and> items s' = x # items s \<and>
      room s' = room s - 1 \<and> core s' = acquire x (core s) \<and> (\<forall>y. can s y \<longrightarrow> can s' y)"
    and pop_ok: "ok s \<Longrightarrow> items s = x # xs \<Longrightarrow> \<exists>s'. pop s = Some (s', Some x) \<and> ok s' \<and> items s' = xs \<and>
      core s' = release x (core s)"
    and restore: "can s x \<Longrightarrow> release x (acquire x (core s)) = core s"
begin

lemma pushes_pops:
  assumes "ok s" "\<forall>x \<in> set xs. can s x" "length xs \<le> room s"
  shows "\<exists>s1 s2. pushes push s xs = Some s1 \<and> pops pop s1 (length xs) = Some (s2, rev xs) \<and> ok s2 \<and> items s2 = items s \<and> core s2 = core s"
  using assms
proof (induction xs arbitrary: s)
  case Nil
  then show ?case by simp
next
  case (Cons x xs)
  obtain s1 where 1: "push s x = Some s1" "ok s1" "items s1 = x # items s" "room s1 = room s - 1"
    "core s1 = acquire x (core s)" "\<forall>y. can s y \<longrightarrow> can s1 y"
    using push_ok [of s x] Cons.prems by auto
  moreover have "length xs \<le> room s1" "\<forall>y \<in> set xs. can s1 y" using Cons.prems 1(4,6) by auto
  moreover from Cons.IH [OF 1(2) this(2,1)] obtain s2 s3 where 2: "pushes push s1 xs = Some s2" "pops pop s2 (length xs) = Some (s3, rev xs)" "ok s3"
    "items s3 = items s1" "core s3 = core s1"
    by blast
  moreover obtain s4 where "pop s3 = Some (s4, Some x)" "ok s4" "items s4 = items s" "core s4 = release x (core s3)"
    using pop_ok [OF 2(3)] 2(4) 1(3) by auto
  moreover have "release x (acquire x (core s)) = core s" using Cons.prems(2) restore by simp
  ultimately show ?case by (intro exI [of _ s2] exI [of _ s4]) simp
qed

end

section \<open>The stack of heap cells\<close>

text \<open>A cell that may be pushed: a cell of the heap whose object, if it owns one, exists.\<close>

definition live :: "heap \<Rightarrow> nat \<Rightarrow> bool" where
  "live h a \<longleftrightarrow> (\<exists>c. cells h a = Some c \<and> arg_ok c \<and> serialized c \<and>
     (argType_isObject (atype c) \<longrightarrow> arg_getPtr c \<noteq> None) \<and>
     (\<forall>p. atype c = ARG_TYPE_OBJECT \<longrightarrow> \<not> weak c \<longrightarrow> arg_getPtr c = Some p \<longrightarrow> objs h p \<noteq> None))"

text \<open>A stack that holds pointers to heap cells only.\<close>

definition stk_ok :: "heap \<times> Stack \<Rightarrow> bool" where
  "stk_ok hs \<longleftrightarrow> (case hs of (h, s) \<Rightarrow>
     top s = int (sp_size s) \<and> sp s = 8 * sp_size s \<and> length (size_entries s) = stack_totle_size s div 16 \<and>
     sp_size s < stack_totle_size s div 16 \<and> stack_totle_size s < U32 \<and>
     (\<forall>i < sp_size s. size_entries s ! i = -1 \<and> (\<exists>a. values_at s (8 * i) = Some (Pointer a) \<and> live h a)))"

definition stk_items :: "heap \<times> Stack \<Rightarrow> nat list" where
  "stk_items hs = map (\<lambda>i. case values_at (snd hs) (8 * i) of Some (Pointer a) \<Rightarrow> a | _ \<Rightarrow> 0) (rev [0..<sp_size (snd hs)])"

definition stk_room :: "heap \<times> Stack \<Rightarrow> nat" where
  "stk_room hs = stack_totle_size (snd hs) div 16 - 1 - sp_size (snd hs)"

definition stk_push :: "heap \<times> Stack \<Rightarrow> nat \<Rightarrow> (heap \<times> Stack) option" where
  "stk_push hs a = stack_pushArg (fst hs) (snd hs) a"

definition stk_pop :: "heap \<times> Stack \<Rightarrow> ((heap \<times> Stack) \<times> nat option) option" where
  "stk_pop hs = map_option (\<lambda>(h, s, a). ((h, s), a)) (stack_popArg (fst hs) (snd hs) None)"

definition count_up :: "nat \<Rightarrow> heap \<Rightarrow> heap" where
  "count_up a h = (case Option.bind (cells h a) (arg_refcntInc h) of Some h' \<Rightarrow> h' | None \<Rightarrow> h)"

definition count_down :: "nat \<Rightarrow> heap \<Rightarrow> heap" where
  "count_down a h = (case Option.bind (cells h a) (arg_refcntDec h) of Some h' \<Rightarrow> h' | None \<Rightarrow> h)"

lemma live_refcnt:
  assumes "live h a" "cells h a = Some c"
  shows "(arg_refcntInc h c = Some h \<and> arg_refcntDec h c = Some h) \<or>
    (\<exists>p ob. objs h p = Some ob \<and> arg_refcntInc h c = Some (set_obj h p (ob\<lparr>refcnt := refcnt ob + 1\<rparr>)) \<and>
       arg_refcntDec h c = Some (set_obj h p (ob\<lparr>refcnt := refcnt ob - 1\<rparr>)) \<and>
       (\<forall>ob'. arg_refcntDec (set_obj h p ob') c = Some (set_obj h p (ob'\<lparr>refcnt := refcnt ob' - 1\<rparr>))))"
proof -
  have c: "arg_ok c" "serialized c" "argType_isObject (atype c) \<longrightarrow> arg_getPtr c \<noteq> None"
    "\<And>p. atype c = ARG_TYPE_OBJECT \<Longrightarrow> \<not> weak c \<Longrightarrow> arg_getPtr c = Some p \<Longrightarrow> objs h p \<noteq> None"
    using assms by (auto simp: live_def)
  have w: "arg_getIsWeakRef c = Some (weak c)" using c(1) by (simp add: flag_getters arg_ok_def)
  show ?thesis
  proof (cases "atype c = ARG_TYPE_OBJECT \<and> \<not> weak c")
    case True
    then obtain p ob where "arg_getPtr c = Some p" "objs h p = Some ob"
      using c(3,4) by (auto simp: argType_isObject_def)
    then show ?thesis
      using True w by (intro disjI2 exI [of _ p] exI [of _ ob])
        (simp add: arg_refcntInc_def arg_refcntDec_def arg_refcnt_def obj_refcntInc_def obj_refcntDec_def set_obj_def)
  next
    case False
    then show ?thesis using w by (auto simp: arg_refcntInc_def arg_refcntDec_def arg_refcnt_def)
  qed
qed

lemma refcnt_fields:
  "arg_refcntInc h c = Some h' \<Longrightarrow> cells h' = cells h \<and> (objs h' q = None \<longleftrightarrow> objs h q = None)"
  "arg_refcntDec h c = Some h' \<Longrightarrow> cells h' = cells h \<and> (objs h' q = None \<longleftrightarrow> objs h q = None)"
  by (auto simp: arg_refcntInc_def arg_refcntDec_def arg_refcnt_def obj_refcntInc_def obj_refcntDec_def set_obj_def
      bind_eq_Some_conv split: if_splits)

lemma count_up_fields [simp]: "cells (count_up a h) = cells h" "objs (count_up a h) q = None \<longleftrightarrow> objs h q = None"
  using refcnt_fields(1) [of h _ _ q] by (cases "cells h a"; fastforce simp: count_up_def split: option.splits)+

lemma count_down_fields [simp]: "cells (count_down a h) = cells h" "objs (count_down a h) q = None \<longleftrightarrow> objs h q = None"
  using refcnt_fields(2) [of h _ _ q] by (cases "cells h a"; fastforce simp: count_down_def split: option.splits)+

lemma live_count [simp]: "live (count_up a h) b = live h b" "live (count_down a h) b = live h b"
  by (simp_all add: live_def)

lemma live_inc: "live h a \<Longrightarrow> cells h a = Some c \<Longrightarrow> arg_refcntInc h c = Some (count_up a h)"
  using live_refcnt [of h a c] by (auto simp: count_up_def)

lemma live_dec: "live h a \<Longrightarrow> cells h a = Some c \<Longrightarrow> arg_refcntDec h c = Some (count_down a h)"
  using live_refcnt [of h a c] by (auto simp: count_down_def)

lemma count_down_up: "live h a \<Longrightarrow> count_down a (count_up a h) = h"
proof -
  assume l: "live h a"
  then obtain c where c: "cells h a = Some c" by (auto simp: live_def)
  from live_refcnt [OF l c] show ?thesis
  proof (elim disjE exE conjE)
    assume "arg_refcntInc h c = Some h" "arg_refcntDec h c = Some h"
    then show ?thesis using c by (simp add: count_up_def count_down_def)
  next
    fix p ob
    assume ob: "objs h p = Some ob" and inc: "arg_refcntInc h c = Some (set_obj h p (ob\<lparr>refcnt := refcnt ob + 1\<rparr>))"
      and dec: "\<forall>ob'. arg_refcntDec (set_obj h p ob') c = Some (set_obj h p (ob'\<lparr>refcnt := refcnt ob' - 1\<rparr>))"
    have "set_obj h p ob = h" using ob by (simp add: set_obj_def fun_upd_idem)
    then show ?thesis using c inc dec by (simp add: count_up_def count_down_def)
  qed
qed

lemma stk_push_ok:
  assumes ok: "stk_ok (h, s)" and l: "live h a" and room: "0 < stk_room (h, s)"
  defines "s' \<equiv> s\<lparr>top := top s + 1, size_entries := (size_entries s)[sp_size s := -1], sp_size := sp_size s + 1,
     values_at := (\<lambda>k. if k < sp s then values_at s k else None)(sp s \<mapsto> Pointer a), sp := sp s + 8\<rparr>"
  shows "stack_pushArg h s a = Some (count_up a h, s')" "stk_ok (count_up a h, s')"
    "stk_items (count_up a h, s') = a # stk_items (h, s)" "stk_room (count_up a h, s') = stk_room (h, s) - 1"
proof -
  have o: "top s = int (sp_size s)" "sp s = 8 * sp_size s" "length (size_entries s) = stack_totle_size s div 16"
    "sp_size s < stack_totle_size s div 16" "stack_totle_size s < U32"
    "\<And>i. i < sp_size s \<Longrightarrow> size_entries s ! i = -1 \<and> (\<exists>a. values_at s (8 * i) = Some (Pointer a) \<and> live h a)"
    using ok by (auto simp: stk_ok_def)
  have r: "sp_size s + 1 < stack_totle_size s div 16" using room by (simp add: stk_room_def)
  moreover obtain t where t: "t = stack_totle_size s div 4" by blast
  moreover have "stack_totle_size s div 16 = t div 4" using div_mult2_eq [of "stack_totle_size s" 4 4] by (simp add: t)
  moreover have "4 * (t div 4) \<le> t" "4 * t \<le> stack_totle_size s" by (simp_all add: t)
  ultimately have free: "4 * (sp_size s + 1) + 4 \<le> stack_totle_size s div 4" and fit: "8 + sp s \<le> stack_totle_size s"
    using o(2) by simp_all
  have sub: "u32_sub (stack_totle_size s div 4) (4 * (sp_size s + 1)) = stack_totle_size s div 4 - 4 * (sp_size s + 1)"
    using free o(5) by (intro u32_sub_small) auto
  obtain c where c: "cells h a = Some c" "arg_ok c" "serialized c" "argType_isObject (atype c) \<longrightarrow> arg_getPtr c \<noteq> None"
    using l by (auto simp: live_def)
  have ser: "arg_isSerialized c = Some True" using c(2,3) by (simp add: flag_getters arg_ok_def)
  have size: "stack_pushSize (s\<lparr>top := top s + 1\<rparr>) (-1) =
      Some (s\<lparr>top := top s + 1, size_entries := (size_entries s)[sp_size s := -1], sp_size := sp_size s + 1\<rparr>)"
    using o(3,4) free sub by (simp add: stack_pushSize_def wr_def stack_spSizeFree_def)
  have pay: "stack_pushPyload (s\<lparr>top := top s + 1, size_entries := (size_entries s)[sp_size s := -1], sp_size := sp_size s + 1\<rparr>) (Pointer a) PTR_SIZE = Some s'"
    using fit by (simp add: stack_pushPyload_def PTR_SIZE_def s'_def cong: if_cong)
  show "stack_pushArg h s a = Some (count_up a h, s')"
    using c ser size pay live_inc [OF l c(1)]
    by (auto simp: stack_pushArg_def stack_pushArg_ex_def Let_def)
  have "size_entries s' ! i = -1 \<and> (\<exists>b. values_at s' (8 * i) = Some (Pointer b) \<and> live (count_up a h) b)" if "i < sp_size s'" for i
    using that o(2,3,4) o(6) [of i] l by (auto simp: s'_def less_Suc_eq)
  then show "stk_ok (count_up a h, s')" using o r by (simp add: stk_ok_def) (simp add: s'_def)
  show "stk_items (count_up a h, s') = a # stk_items (h, s)"
    using o(2) by (simp add: stk_items_def s'_def)
  show "stk_room (count_up a h, s') = stk_room (h, s) - 1" by (simp add: stk_room_def s'_def)
qed

lemma stk_items_Nil: "stk_items (h, s) = [] \<longleftrightarrow> sp_size s = 0"
  by (simp add: stk_items_def)

lemma pop_raw:
  assumes "sp_size s = Suc n" "sp s = 8 * Suc n" "n < length (size_entries s)" "size_entries s ! n = -1"
    "values_at s (8 * n) = Some (Pointer a)"
  shows "stack_popSize s = Some (s\<lparr>sp_size := n\<rparr>, -1)"
    "stack_popPyload (s\<lparr>sp_size := n\<rparr>) (-1) = Some (s\<lparr>sp_size := n, sp := 8 * n\<rparr>, Pointer a)"
  using assms by (simp_all add: stack_popSize_def rd_def stack_popPyload_def PTR_SIZE_def Let_def)

lemma stk_pop_ok:
  assumes ok: "stk_ok (h, s)" and it: "stk_items (h, s) = a # xs"
  defines "s' \<equiv> s\<lparr>top := top s - 1, sp_size := sp_size s - 1, sp := sp s - 8\<rparr>"
  shows "stack_popArg h s d = Some (count_down a h, s', Some a)" "stk_ok (count_down a h, s')"
    "stk_items (count_down a h, s') = xs" "live h a"
proof -
  have o: "top s = int (sp_size s)" "sp s = 8 * sp_size s" "length (size_entries s) = stack_totle_size s div 16"
    "sp_size s < stack_totle_size s div 16" "stack_totle_size s < U32"
    "\<And>i. i < sp_size s \<Longrightarrow> size_entries s ! i = -1 \<and> (\<exists>a. values_at s (8 * i) = Some (Pointer a) \<and> live h a)"
    using ok by (auto simp: stk_ok_def)
  obtain n where n: "sp_size s = Suc n" using it by (cases "sp_size s") (auto simp: stk_items_def)
  then have e: "size_entries s ! n = -1" "values_at s (8 * n) = Some (Pointer a)" "live h a" "stk_items (count_down a h, s') = xs"
    using o(6) [of n] it by (auto simp: stk_items_def s'_def)
  then show "live h a" "stk_items (count_down a h, s') = xs" by simp_all
  obtain c where c: "cells h a = Some c" "arg_ok c" using e(3) by (auto simp: live_def)
  note raw = pop_raw [of "s\<lparr>top := top s - 1\<rparr>" n a]
  have "stack_popSize (s\<lparr>top := top s - 1\<rparr>) = Some (s\<lparr>top := top s - 1, sp_size := n\<rparr>, -1)"
    "stack_popPyload (s\<lparr>top := top s - 1, sp_size := n\<rparr>) (-1) = Some (s', Pointer a)"
    using raw n o(2,3,4) e(1,2) by (simp_all add: s'_def)
  moreover have "flag c < ARG_FLAG_MAX" using c(2) by (simp add: arg_ok_def)
  ultimately show "stack_popArg h s d = Some (count_down a h, s', Some a)"
    using n o(1) c(1) live_dec [OF e(3) c(1)] by (simp add: stack_popArg_def stack_popArg_ex_def)
  show "stk_ok (count_down a h, s')"
    using o n by (auto simp: stk_ok_def s'_def)
qed

interpretation cell_stack: lifo stk_ok stk_items stk_room "\<lambda>hs. live (fst hs)" stk_push stk_pop fst count_up count_down
proof
  fix hs a
  assume a: "stk_ok hs" "live (fst hs) a" "0 < stk_room hs"
  obtain h s where hs: "hs = (h, s)" by fastforce
  show "\<exists>s'. stk_push hs a = Some s' \<and> stk_ok s' \<and> stk_items s' = a # stk_items hs \<and> stk_room s' = stk_room hs - 1 \<and>
      fst s' = count_up a (fst hs) \<and> (\<forall>y. live (fst hs) y \<longrightarrow> live (fst s') y)"
    using stk_push_ok [of h s a] a unfolding hs by (simp add: stk_push_def)
next
  fix hs a xs
  assume a: "stk_ok hs" "stk_items hs = a # xs"
  obtain h s where hs: "hs = (h, s)" by fastforce
  show "\<exists>s'. stk_pop hs = Some (s', Some a) \<and> stk_ok s' \<and> stk_items s' = xs \<and> fst s' = count_down a (fst hs)"
    using stk_pop_ok [of h s a xs] a unfolding hs by (simp add: stk_pop_def)
next
  fix hs a
  assume "live (fst hs) a"
  then show "count_down a (count_up a (fst hs)) = fst hs" by (rule count_down_up)
qed

section \<open>Setting up and releasing a stack\<close>

lemma setContent_buffer:
  assumes "fits n"
  shows "\<exists>c. arg_setContent h None None n = Some (add_cell h c, fresh h) \<and> arg_ok c \<and> serialized c \<and> atype c = ARG_TYPE_NONE"
  using assms by (intro exI [of _ "mk_arg None 5381 ARG_TYPE_NONE n (init_bytes None n)"])
    (simp add: arg_setContent_new mk_arg_ok)

lemma stack_init_ok:
  shows "\<exists>c d s. stack_init h = Some (add_cell (add_cell h c) d, s) \<and> arg_ok c \<and> serialized c \<and> atype c = ARG_TYPE_NONE \<and>
    arg_ok d \<and> serialized d \<and> atype d = ARG_TYPE_NONE \<and> stack_pyload s = fresh h \<and> stack_size_array s = Suc (fresh h) \<and>
    (\<forall>h'. stk_ok (h', s) \<and> stk_items (h', s) = [] \<and> stk_room (h', s) = 31)"
proof -
  obtain c where c: "arg_setContent h None None 512 = Some (add_cell h c, fresh h)" "arg_ok c" "serialized c" "atype c = ARG_TYPE_NONE"
    using setContent_buffer [of 512 h] by (auto simp: U32_def)
  obtain d where d: "arg_setContent (add_cell h c) None None 128 = Some (add_cell (add_cell h c) d, Suc (fresh h))"
    "arg_ok d" "serialized d" "atype d = ARG_TYPE_NONE"
    using setContent_buffer [of 128 "add_cell h c"] by (auto simp: U32_def)
  show ?thesis
    using c d by (intro exI [of _ c] exI [of _ d]) (simp add: stack_init_def stack_init_ex_def PIKA_STACK_BUFF_SIZE_def stack_reset_def stk_ok_def
        stk_items_def stk_room_def U32_def)
qed

lemma arg_deinit_plain:
  "cells h a = Some c \<Longrightarrow> arg_ok c \<Longrightarrow> serialized c \<Longrightarrow> atype c = ARG_TYPE_NONE \<Longrightarrow> arg_deinit h a = Some (del_cell h a c)"
  by (rule arg_deinit_eq) (auto simp: gc_step_def)

section \<open>Properties\<close>

text \<open>C20: the value stack is last in, first out: pushing heap cells one after the other and popping as
  many returns, gives the same cells back in reverse order and leaves the heap, with every reference
  count, as it was.\<close>

theorem stack_lifo:
  assumes "stk_ok (h, s)" "\<forall>a \<in> set xs. live h a" "length xs \<le> stk_room (h, s)"
  shows "\<exists>hs1 s2. pushes stk_push (h, s) xs = Some hs1 \<and> pops stk_pop hs1 (length xs) = Some ((h, s2), rev xs) \<and>
    stk_ok (h, s2) \<and> stk_items (h, s2) = stk_items (h, s)"
proof -
  obtain s1 hs2 where 1: "pushes stk_push (h, s) xs = Some s1" "pops stk_pop s1 (length xs) = Some (hs2, rev xs)"
    "stk_ok hs2" "stk_items hs2 = stk_items (h, s)" "fst hs2 = h"
    using cell_stack.pushes_pops [of "(h, s)" xs] assms by auto
  obtain s2 where "hs2 = (h, s2)" using 1(5) by (cases hs2) simp
  with 1 show ?thesis by (intro exI [of _ s1] exI [of _ s2]) simp
qed

theorem stack_lifo_witness:
  "\<exists>h a b hs0 s hs1 s2. arg_setInt heap0 None ''x'' 1 = Some (h, a) \<and> arg_setInt h None ''y'' 2 = Some hs0 \<and> hs0 = (fst hs0, b) \<and>
     stack_init (fst hs0) = Some s \<and> pushes stk_push s [a, b] = Some hs1 \<and> pops stk_pop hs1 2 = Some ((fst s, s2), [b, a])"
proof -
  obtain c where c: "arg_setInt heap0 None ''x'' 1 = Some (add_cell heap0 c, fresh heap0)" "arg_ok c" "serialized c" "atype c = ARG_TYPE_INT"
    using new_u64 [of ARG_TYPE_INT heap0 "''x''" 1] by (auto simp: arg_setInt_def)
  let ?h = "add_cell heap0 c"
  obtain d where d: "arg_setInt ?h None ''y'' 2 = Some (add_cell ?h d, fresh ?h)" "arg_ok d" "serialized d" "atype d = ARG_TYPE_INT"
    using new_u64 [of ARG_TYPE_INT ?h "''y''" 2] by (auto simp: arg_setInt_def)
  let ?g = "add_cell ?h d"
  obtain e f s where s: "stack_init ?g = Some (add_cell (add_cell ?g e) f, s)" "stk_ok (add_cell (add_cell ?g e) f, s)"
    "stk_room (add_cell (add_cell ?g e) f, s) = 31"
    using stack_init_ok [of ?g] by blast
  have "live (add_cell (add_cell ?g e) f) 0" "live (add_cell (add_cell ?g e) f) 1"
    using c d by (simp_all add: live_def argType_isObject_def heap0_def)
  then show ?thesis
    using stack_lifo [OF s(2), of "[0, 1]"] c(1) d(1) s
    by (intro exI [of _ ?h] exI [of _ 0] exI [of _ 1] exI [of _ "(?g, 1)"])
      (auto simp: heap0_def numeral_2_eq_2)
qed



end
