(* ===== verification/Pika_ByteCode.thy ===== *)
theory Pika_ByteCode
  imports Pika_Queue Pika_Strs
begin

text \<open>
  Byte code: instruction units, the constant pool, the instruction array and the frame that holds
  them (\<open>src/src/PikaVM.h\<close>, \<open>src/src/PikaVM.c\<close>), the instruction table
  (\<open>src/src/__instruction_table.h\<close>), the assembler \<open>byteCodeFrame_appendFromAsm\<close> of
  \<open>src/src/PikaParser.c\<close>, and the jumps of the virtual machine over the units.

  A buffer cell that only the pool or the array owns is its content, the list of its bytes;
  \<open>buff_append\<close> is \<open>arg_append\<close> on such a cell, which \<open>buff_append_arg_append\<close> shows. The pointer
  \<open>content_start\<close> is the memory readable from it, so that a read behind that memory is \<open>None\<close>.
\<close>

unbundle bit_operations_syntax

section \<open>Instructions\<close>

datatype InstructIndex =
    INS_NON | INS_REF | INS_RUN | INS_STR | INS_OUT | INS_NUM | INS_JMP | INS_JEZ | INS_OPT | INS_DEF
  | INS_RET | INS_NEL | INS_DEL | INS_EST | INS_BRK | INS_CTN | INS_GLB | INS_RAS | INS_NEW | INS_CLS
  | INS_BYT | INS_LST | INS_IMP | INS_TRY | INS_NTR | INS_RIS | INS_GER | INS_SER | INS_DCT | INS_SLC
  | INS_ASS | INS_EXP | INS_JNZ | INS_TPL | INS_NLS | INS_INH

definition instruction_table :: "(string \<times> InstructIndex) list" where
  "instruction_table = [
     (''NON'', INS_NON), (''REF'', INS_REF), (''RUN'', INS_RUN), (''STR'', INS_STR), (''OUT'', INS_OUT),
     (''NUM'', INS_NUM), (''JMP'', INS_JMP), (''JEZ'', INS_JEZ), (''OPT'', INS_OPT), (''DEF'', INS_DEF),
     (''RET'', INS_RET), (''NEL'', INS_NEL), (''DEL'', INS_DEL), (''EST'', INS_EST), (''BRK'', INS_BRK),
     (''CTN'', INS_CTN), (''GLB'', INS_GLB), (''RAS'', INS_RAS), (''NEW'', INS_NEW), (''CLS'', INS_CLS),
     (''BYT'', INS_BYT), (''LST'', INS_LST), (''IMP'', INS_IMP), (''TRY'', INS_TRY), (''NTR'', INS_NTR),
     (''RIS'', INS_RIS), (''GER'', INS_GER), (''SER'', INS_SER), (''DCT'', INS_DCT), (''SLC'', INS_SLC),
     (''ASS'', INS_ASS), (''EXP'', INS_EXP), (''JNZ'', INS_JNZ), (''TPL'', INS_TPL), (''NLS'', INS_NLS),
     (''INH'', INS_INH)]"

text \<open>The number of an instruction is its position in the table.\<close>

fun position :: "'a \<Rightarrow> 'a list \<Rightarrow> nat" where
  "position x [] = 0"
| "position x (y # ys) = (if x = y then 0 else Suc (position x ys))"

definition PIKA_INS :: "InstructIndex \<Rightarrow> nat" where
  "PIKA_INS i = position i (map snd instruction_table)"

definition INSTRUCTION_CNT :: nat where "INSTRUCTION_CNT = length instruction_table"

section \<open>Instruction units\<close>

record InstructUnit =
  deepth :: byte
  isNewLine_instruct :: byte
  const_pool_index :: u16

definition instructUnit_getSize :: nat where "instructUnit_getSize = 4"

definition instructUnit_init :: InstructUnit where
  "instructUnit_init = \<lparr> deepth = 0, isNewLine_instruct = 0, const_pool_index = 0 \<rparr>"

definition instructUnit_getBlockDeepth :: "InstructUnit \<Rightarrow> nat" where
  "instructUnit_getBlockDeepth self = unat (deepth self AND 0x0F)"

definition instructUnit_getInvokeDeepth :: "InstructUnit \<Rightarrow> nat" where
  "instructUnit_getInvokeDeepth self = unat (drop_bit 4 (deepth self))"

definition instructUnit_getInstructIndex :: "InstructUnit \<Rightarrow> nat" where
  "instructUnit_getInstructIndex self = unat (isNewLine_instruct self AND 0x7F)"

definition instructUnit_getConstPoolIndex :: "InstructUnit \<Rightarrow> nat" where
  "instructUnit_getConstPoolIndex self = unat (const_pool_index self)"

definition instructUnit_getIsNewLine :: "InstructUnit \<Rightarrow> nat" where
  "instructUnit_getIsNewLine self = unat (drop_bit 7 (isNewLine_instruct self))"

text \<open>The setters other than that of the constant only set bits: they are for a unit of zeros.\<close>

definition instructUnit_setBlockDeepth :: "InstructUnit \<Rightarrow> int \<Rightarrow> InstructUnit" where
  "instructUnit_setBlockDeepth self val = self\<lparr>deepth := deepth self OR (0x0F AND word_of_int val)\<rparr>"

definition instructUnit_setConstPoolIndex :: "InstructUnit \<Rightarrow> int \<Rightarrow> InstructUnit" where
  "instructUnit_setConstPoolIndex self val = self\<lparr>const_pool_index := word_of_int val\<rparr>"

definition instructUnit_setInvokeDeepth :: "InstructUnit \<Rightarrow> int \<Rightarrow> InstructUnit" where
  "instructUnit_setInvokeDeepth self val = self\<lparr>deepth := deepth self OR push_bit 4 (0x0F AND word_of_int val)\<rparr>"

definition instructUnit_setInstruct :: "InstructUnit \<Rightarrow> int \<Rightarrow> InstructUnit" where
  "instructUnit_setInstruct self val =
     self\<lparr>isNewLine_instruct := isNewLine_instruct self OR (0x7F AND word_of_int val)\<rparr>"

definition instructUnit_setIsNewLine :: "InstructUnit \<Rightarrow> int \<Rightarrow> InstructUnit" where
  "instructUnit_setIsNewLine self val =
     self\<lparr>isNewLine_instruct := isNewLine_instruct self OR push_bit 7 (0x01 AND word_of_int val)\<rparr>"

text \<open>The four bytes of a unit in memory, and the unit that four bytes are.\<close>

definition unit_bytes :: "InstructUnit \<Rightarrow> byte list" where
  "unit_bytes u = deepth u # isNewLine_instruct u # le_bytes 2 (unat (const_pool_index u))"

definition unit_of :: "byte list \<Rightarrow> InstructUnit option" where
  "unit_of bs = (case bs of
     d # n # lo # hi # _ \<Rightarrow>
       Some \<lparr> deepth = d, isNewLine_instruct = n, const_pool_index = of_nat (le_nat [lo, hi]) \<rparr>
   | _ \<Rightarrow> None)"

section \<open>Instruction sets\<close>

record VMInstructionSet =
  instructions :: "(string \<times> nat) list"
  signature :: u16
  op_idx_start :: nat
  op_idx_end :: nat

definition VM_default_instruction_set :: VMInstructionSet where
  "VM_default_instruction_set = \<lparr>
     instructions = map (\<lambda>(s, i). (s, PIKA_INS i)) instruction_table, signature = 0,
     op_idx_start = PIKA_INS INS_NON, op_idx_end = PIKA_INS INS_NON + INSTRUCTION_CNT - 1 \<rparr>"

text \<open>\<open>g_PikaVMInsSet\<close>: the list of the sets and the set that was used last.\<close>

record VMInsSet =
  set_list :: "VMInstructionSet list"
  recent :: VMInstructionSet
  signature_dict :: "u16 list"

definition g_PikaVMInsSet :: VMInsSet where
  "g_PikaVMInsSet = \<lparr> set_list = [VM_default_instruction_set], recent = VM_default_instruction_set,
     signature_dict = [0] \<rparr>"

text \<open>
  \<open>do \<dots> item = item->next; while (NULL != item->next)\<close>: with one item left the loop reads through
  a null pointer, and the last of several items is never looked at. \<open>Inl\<close> is a hit, \<open>Inr\<close> the
  item the loop stops at.
\<close>

fun item_loop :: "(VMInstructionSet \<Rightarrow> 'a option) \<Rightarrow> VMInstructionSet list \<Rightarrow> ('a + VMInstructionSet) option" where
  "item_loop f [] = None"
| "item_loop f (x # xs) = (case f x of
     Some r \<Rightarrow> Some (Inl r)
   | None \<Rightarrow> (case xs of [] \<Rightarrow> None | [y] \<Rightarrow> Some (Inr y) | _ \<Rightarrow> item_loop f xs))"

definition pikaVM_registerInstructionSet :: "VMInsSet \<Rightarrow> VMInstructionSet \<Rightarrow> (VMInsSet \<times> bool) option" where
  "pikaVM_registerInstructionSet g ins_set =
     (if \<not> List.member (signature_dict g) (signature ins_set) then Some (g, False)
      else do {
        r \<leftarrow> item_loop (\<lambda>s. if signature s = signature ins_set then Some () else None) (set_list g);
        Some (case r of Inl _ \<Rightarrow> (g, True) | Inr _ \<Rightarrow> (g\<lparr>set_list := set_list g @ [ins_set]\<rparr>, True))
      })"

text \<open>\<open>strncmp(buf, str, strlen(str)) == 0\<close> reads the buffer up to the first difference.\<close>

fun strncmp_equ :: "string \<Rightarrow> string \<Rightarrow> bool option" where
  "strncmp_equ buf [] = Some True"
| "strncmp_equ [] (d # ds) = None"
| "strncmp_equ (c # cs) (d # ds) = (if c = d then strncmp_equ cs ds else Some False)"

text \<open>\<open>Some None\<close> is \<open>__INSTRUCTION_UNKNOWN\<close>. A set has at least one instruction.\<close>

fun find_ins_idx_loop :: "string \<Rightarrow> (string \<times> nat) list \<Rightarrow> nat option option" where
  "find_ins_idx_loop ins_str [] = Some None"
| "find_ins_idx_loop ins_str ((op_str, op_idx) # rest) = do {
     hit \<leftarrow> strncmp_equ ins_str op_str;
     if hit then Some (Some op_idx) else find_ins_idx_loop ins_str rest
   }"

definition find_ins_idx_in_ins_set :: "string \<Rightarrow> VMInstructionSet \<Rightarrow> nat option option" where
  "find_ins_idx_in_ins_set ins_str s =
     (if instructions s = [] then None else find_ins_idx_loop ins_str (instructions s))"

definition pikaVM_getInstructFromAsm :: "VMInsSet \<Rightarrow> string \<Rightarrow> (VMInsSet \<times> nat) option" where
  "pikaVM_getInstructFromAsm g ins_str = do {
     ins_idx \<leftarrow> find_ins_idx_in_ins_set ins_str (recent g);
     (case ins_idx of
       Some idx \<Rightarrow> Some (g, idx)
     | None \<Rightarrow> do {
         r \<leftarrow> item_loop (\<lambda>s. case find_ins_idx_in_ins_set ins_str s of
                 None \<Rightarrow> Some None
               | Some None \<Rightarrow> None
               | Some (Some idx) \<Rightarrow> Some (Some (s, idx))) (set_list g);
         (case r of
           Inl None \<Rightarrow> None
         | Inl (Some (s, idx)) \<Rightarrow> Some (g\<lparr>recent := s\<rparr>, idx)
         | Inr _ \<Rightarrow> Some (g, PIKA_INS INS_NON))
       })
   }"

definition op_in_set :: "VMInstructionSet \<Rightarrow> nat \<Rightarrow> bool" where
  "op_in_set s ins_idx \<longleftrightarrow> op_idx_start s \<le> ins_idx \<and> ins_idx \<le> op_idx_end s"

text \<open>The entry of the instruction in its set; \<open>Some None\<close> is the null pointer.\<close>

definition instructUnit_getInstruct :: "VMInsSet \<Rightarrow> nat \<Rightarrow> (VMInsSet \<times> (string \<times> nat) option) option" where
  "instructUnit_getInstruct g ins_idx =
     (if op_in_set (recent g) ins_idx
      then do { i \<leftarrow> rd (instructions (recent g)) (ins_idx - op_idx_start (recent g)); Some (g, Some i) }
      else do {
        r \<leftarrow> item_loop (\<lambda>s. if op_in_set s ins_idx then Some s else None) (set_list g);
        (case r of
          Inl s \<Rightarrow> do { i \<leftarrow> rd (instructions s) (ins_idx - op_idx_start s); Some (g\<lparr>recent := s\<rparr>, Some i) }
        | Inr _ \<Rightarrow> Some (g, None))
      })"

section \<open>The constant pool\<close>

text \<open>\<open>arg_append\<close> on the content of a buffer cell.\<close>

definition buff_append :: "byte list \<Rightarrow> byte list \<Rightarrow> byte list option" where
  "buff_append buf bs = (if fits (length buf + length bs) then Some (buf @ bs) else None)"

definition str_bytes :: "string \<Rightarrow> byte list" where
  "str_bytes s = map char_byte s @ [0]"

text \<open>
  Where the appended data goes: into the buffer cell (no redirection), nowhere, or to the output
  file; \<open>output_f\<close> is what was written to the file. The handler of the constant pool writes to both.
\<close>

datatype redirect = To_buff | To_none | To_file

record ConstPool =
  cp_arg_buff :: "byte list option"
  cp_content_offset_now :: nat
  cp_size :: nat
  cp_content_start :: "byte list option"
  cp_output_redirect_fun :: redirect
  cp_output_f :: "byte list"

definition constPool_init :: ConstPool where
  "constPool_init = \<lparr> cp_arg_buff = None, cp_content_offset_now = 0, cp_size = 1,
     cp_content_start = None, cp_output_redirect_fun = To_buff, cp_output_f = [] \<rparr>"

definition constPool_update :: "ConstPool \<Rightarrow> ConstPool" where
  "constPool_update self = self\<lparr>cp_content_start := cp_arg_buff self\<rparr>"

text \<open>\<open>size\<close> has 16 bits. The cell is never null here, so the handlers need no test of their own.\<close>

definition handler_constPool_output_file :: "ConstPool \<Rightarrow> byte list \<Rightarrow> string \<Rightarrow> ConstPool option" where
  "handler_constPool_output_file self buff str =
     (let size = (strGetSize str + 1) mod 2 ^ 16 in do {
        b \<leftarrow> buff_append buff (take size (str_bytes str));
        Some (self\<lparr>cp_arg_buff := Some b, cp_output_f := cp_output_f self @ take size (str_bytes str)\<rparr>)
      })"

definition constPool_append :: "ConstPool \<Rightarrow> string \<Rightarrow> ConstPool option" where
  "constPool_append self str =
     (let buff = (case cp_arg_buff self of None \<Rightarrow> str_bytes '''' | Some b \<Rightarrow> b);
          size = (strGetSize str + 1) mod 2 ^ 16 in do {
        self1 \<leftarrow> (case cp_output_redirect_fun self of
            To_buff \<Rightarrow> do {
              b \<leftarrow> buff_append buff (take size (str_bytes str));
              Some (self\<lparr>cp_arg_buff := Some b\<rparr>)
            }
          | To_none \<Rightarrow> Some (self\<lparr>cp_arg_buff := Some buff\<rparr>)
          | To_file \<Rightarrow> handler_constPool_output_file self buff str);
        let self2 = constPool_update self1;
        Some (self2\<lparr>cp_size := u32_add (cp_size self2) size\<rparr>)
      })"

text \<open>A pointer into the pool is its offset; the outer option is the null pointer.\<close>

definition constPool_getNow :: "ConstPool \<Rightarrow> nat option" where
  "constPool_getNow self =
     (if cp_size self \<le> cp_content_offset_now self then None else Some (cp_content_offset_now self))"

definition constPool_getLastOffset :: "ConstPool \<Rightarrow> nat" where
  "constPool_getLastOffset self = cp_size self"

text \<open>The C string at an offset of the pool.\<close>

definition constPool_getByOffset :: "ConstPool \<Rightarrow> nat \<Rightarrow> string option" where
  "constPool_getByOffset self offset = do { start \<leftarrow> cp_content_start self; bytes_str (drop offset start) }"

definition constPool_getNext :: "ConstPool \<Rightarrow> (ConstPool \<times> nat option) option" where
  "constPool_getNext self = do {
     p \<leftarrow> constPool_getNow self;
     s \<leftarrow> constPool_getByOffset self p;
     let self1 = self\<lparr>cp_content_offset_now := u32_add p (strGetSize s + 1)\<rparr>;
     Some (self1, constPool_getNow self1)
   }"

partial_function (option) offset_loop :: "ConstPool \<Rightarrow> string option \<Rightarrow> nat option" where
  "offset_loop self data = do {
     (self1, p) \<leftarrow> constPool_getNext self;
     (case p of
       None \<Rightarrow> Some 65535
     | Some k \<Rightarrow> do {
         s \<leftarrow> constPool_getByOffset self1 k;
         if strEqu data (Some s) then Some (k mod 2 ^ 16) else offset_loop self1 data
       })
   }"

text \<open>The saved position has 16 bits.\<close>

definition constPool_getOffsetByData :: "ConstPool \<Rightarrow> string option \<Rightarrow> (ConstPool \<times> nat) option" where
  "constPool_getOffsetByData self data =
     (let ptr_befor = cp_content_offset_now self mod 2 ^ 16 in do {
        offset_out \<leftarrow> (if cp_arg_buff self = None then Some 65535
                       else offset_loop (self\<lparr>cp_content_offset_now := 0\<rparr>) data);
        Some (self\<lparr>cp_content_offset_now := ptr_befor\<rparr>, offset_out)
      })"

primrec next_times :: "nat \<Rightarrow> ConstPool \<Rightarrow> ConstPool option" where
  "next_times 0 self = Some self"
| "next_times (Suc n) self = do { (self1, _) \<leftarrow> constPool_getNext self; next_times n self1 }"

definition constPool_getByIndex :: "ConstPool \<Rightarrow> nat \<Rightarrow> (ConstPool \<times> nat option) option" where
  "constPool_getByIndex self index =
     (let ptr_befor = cp_content_offset_now self mod 2 ^ 16 in do {
        self1 \<leftarrow> next_times index (self\<lparr>cp_content_offset_now := 0\<rparr>);
        Some (self1\<lparr>cp_content_offset_now := ptr_befor\<rparr>, constPool_getNow self1)
      })"

section \<open>The instruction array\<close>

record InstructArray =
  ia_arg_buff :: "byte list option"
  ia_content_offset_now :: nat
  ia_size :: nat
  ia_content_start :: "byte list option"
  ia_output_redirect_fun :: redirect
  ia_output_f :: "byte list"

definition instructArray_init :: InstructArray where
  "instructArray_init = \<lparr> ia_arg_buff = None, ia_content_offset_now = 0, ia_size = 0,
     ia_content_start = None, ia_output_redirect_fun = To_buff, ia_output_f = [] \<rparr>"

definition instructArray_update :: "InstructArray \<Rightarrow> InstructArray" where
  "instructArray_update self = self\<lparr>ia_content_start := ia_arg_buff self\<rparr>"

definition handler_instructArray_output_none :: "InstructArray \<Rightarrow> InstructUnit \<Rightarrow> InstructArray" where
  "handler_instructArray_output_none self ins_unit = self"

definition handler_instructArray_output_file :: "InstructArray \<Rightarrow> InstructUnit \<Rightarrow> InstructArray" where
  "handler_instructArray_output_file self ins_unit = self\<lparr>ia_output_f := ia_output_f self @ unit_bytes ins_unit\<rparr>"

definition instructArray_append :: "InstructArray \<Rightarrow> InstructUnit \<Rightarrow> InstructArray option" where
  "instructArray_append self ins_unit =
     (let buff = (case ia_arg_buff self of None \<Rightarrow> [] | Some b \<Rightarrow> b);
          self0 = self\<lparr>ia_arg_buff := Some buff\<rparr> in do {
        self1 \<leftarrow> (case ia_output_redirect_fun self of
            To_buff \<Rightarrow> do { b \<leftarrow> buff_append buff (unit_bytes ins_unit); Some (self0\<lparr>ia_arg_buff := Some b\<rparr>) }
          | To_none \<Rightarrow> Some (handler_instructArray_output_none self0 ins_unit)
          | To_file \<Rightarrow> Some (handler_instructArray_output_file self0 ins_unit));
        let self2 = instructArray_update self1;
        Some (self2\<lparr>ia_size := u32_add (ia_size self2) instructUnit_getSize\<rparr>)
      })"

definition instructArray_getSize :: "InstructArray \<Rightarrow> nat" where
  "instructArray_getSize self = ia_size self"

text \<open>The unit at an offset in bytes.\<close>

definition instructArray_getByOffset :: "InstructArray \<Rightarrow> int \<Rightarrow> InstructUnit option" where
  "instructArray_getByOffset self offset =
     (if offset < 0 then None
      else do { start \<leftarrow> ia_content_start self; unit_of (drop (nat offset) start) })"

text \<open>\<open>Some None\<close> is the null pointer at the end.\<close>

definition instructArray_getNow :: "InstructArray \<Rightarrow> InstructUnit option option" where
  "instructArray_getNow self =
     (if ia_size self \<le> ia_content_offset_now self then Some None
      else map_option Some (instructArray_getByOffset self (int (ia_content_offset_now self))))"

definition instructArray_getNext :: "InstructArray \<Rightarrow> InstructArray \<times> InstructUnit option option" where
  "instructArray_getNext self =
     (let self1 = self\<lparr>ia_content_offset_now := u32_add (ia_content_offset_now self) instructUnit_getSize\<rparr>
      in (self1, instructArray_getNow self1))"

section \<open>The frame\<close>

record ByteCodeFrame =
  bf_name :: "string option"
  bf_name_hash :: u32
  const_pool :: ConstPool
  instruct_array :: InstructArray
  label_pc :: int

text \<open>\<open>name_hash\<close> keeps the value it had.\<close>

definition byteCodeFrame_init :: "ByteCodeFrame \<Rightarrow> ByteCodeFrame" where
  "byteCodeFrame_init self = self\<lparr> const_pool := constPool_init, instruct_array := instructArray_init,
     bf_name := None, label_pc := -1 \<rparr>"

definition byteCodeFrame_getSize :: "ByteCodeFrame \<Rightarrow> nat" where
  "byteCodeFrame_getSize bf = u32_add (cp_size (const_pool bf)) (ia_size (instruct_array bf))"

definition byteCodeFrame_setName :: "ByteCodeFrame \<Rightarrow> string option \<Rightarrow> ByteCodeFrame" where
  "byteCodeFrame_setName self name =
     (if name \<noteq> None \<and> bf_name self = None then self\<lparr>bf_name := name\<rparr> else self)"

definition byteCodeFrame_getNameHash :: "ByteCodeFrame \<Rightarrow> (ByteCodeFrame \<times> u32) option" where
  "byteCodeFrame_getNameHash bcframe =
     (if bf_name_hash bcframe = 0
      then do { n \<leftarrow> bf_name bcframe; Some (bcframe\<lparr>bf_name_hash := hash_time33 n\<rparr>, hash_time33 n) }
      else Some (bcframe, bf_name_hash bcframe))"

definition magic_code_pyo :: "byte list" where
  "magic_code_pyo = 0x0F # map char_byte ''pyo''"

text \<open>The four bytes are read one after the other up to the first difference.\<close>

fun check_magic :: "byte list \<Rightarrow> byte list \<Rightarrow> bool option" where
  "check_magic bytes [] = Some True"
| "check_magic [] (m # ms) = None"
| "check_magic (b # bs) (m # ms) = (if b = m then check_magic bs ms else Some False)"

text \<open>
  The size of the instruction array, the array, the size of the pool, the pool. A copy is a cell of
  bytes: a size, the bytes and a terminator.
\<close>

definition do_byteCodeFrame_loadByteCode ::
  "ByteCodeFrame \<Rightarrow> byte list \<Rightarrow> string option \<Rightarrow> bool \<Rightarrow> ByteCodeFrame option" where
  "do_byteCodeFrame_loadByteCode self bytes0 name is_const = do {
     magic \<leftarrow> check_magic bytes0 magic_code_pyo;
     let bytes = (if magic then drop 8 bytes0 else bytes0);
     ins_size \<leftarrow> get_le 4 bytes;
     let ins_start = drop 4 bytes;
     const_size \<leftarrow> get_le 4 (drop ins_size ins_start);
     let const_start = drop 4 (drop ins_size ins_start);
     let self1 = byteCodeFrame_setName (self\<lparr>
         instruct_array := (instruct_array self)\<lparr>ia_size := ins_size, ia_content_start := Some ins_start\<rparr>,
         const_pool := (const_pool self)\<lparr>cp_size := const_size, cp_content_start := Some const_start\<rparr>\<rparr>) name;
     if is_const then Some self1
     else if ia_arg_buff (instruct_array self1) \<noteq> None then None
     else if length ins_start < ins_size \<or> length const_start < const_size \<or>
             \<not> fits (ins_size + 9) \<or> \<not> fits (const_size + 9) then None
     else Some (self1\<lparr>
         instruct_array := (instruct_array self1)\<lparr>
           ia_arg_buff := Some (le_bytes 8 ins_size @ take ins_size ins_start @ [0]),
           ia_content_start := Some (take ins_size ins_start @ [0])\<rparr>,
         const_pool := (const_pool self1)\<lparr>
           cp_arg_buff := Some (le_bytes 8 const_size @ take const_size const_start @ [0]),
           cp_content_start := Some (take const_size const_start @ [0])\<rparr>\<rparr>)
   }"

definition byteCodeFrame_loadByteCode :: "ByteCodeFrame \<Rightarrow> byte list \<Rightarrow> ByteCodeFrame option" where
  "byteCodeFrame_loadByteCode self bytes = do_byteCodeFrame_loadByteCode self bytes None True"

section \<open>The assembler\<close>

record Asmer =
  block_deepth_now :: nat
  is_new_line :: bool
  line_pointer :: string

text \<open>
  One line is cut at its first two spaces into the invoke depth, the mnemonic and the data. The
  first two go into the arrays \<open>sInvokeDeepth\<close> and \<open>sIns\<close>; without a second space the data is null.
\<close>

fun fields_loop :: "string \<Rightarrow> nat \<Rightarrow> string \<Rightarrow> nat \<Rightarrow> string \<Rightarrow> nat \<Rightarrow> (string \<times> string \<times> string option) option" where
  "fields_loop [] n dep i ins j = Some (dep, ins, None)"
| "fields_loop (c # cs) n dep i ins j =
     (if n < 2 \<and> c = CHR '' ''
      then if n + 1 = 2 then Some (dep, ins, Some cs) else fields_loop cs (n + 1) dep i ins j
      else if n = 0 then do { dep' \<leftarrow> wr dep i c; fields_loop cs n dep' (i + 1) ins j }
      else if n = 1 then do { ins' \<leftarrow> wr ins j c; fields_loop cs n dep i ins' (j + 1) }
      else fields_loop cs n dep i ins j)"

text \<open>The constant of a line: none, an old one or a new one at the end of the pool.\<close>

definition asm_const :: "ConstPool \<Rightarrow> string option \<Rightarrow> (ConstPool \<times> nat) option" where
  "asm_const pool sData = do {
     (pool1, uExistOffset) \<leftarrow> constPool_getOffsetByData pool sData;
     if strEqu sData (Some '''') then Some (pool1, 0)
     else if uExistOffset = 65535 then do {
       d \<leftarrow> sData;
       pool2 \<leftarrow> constPool_append pool1 d;
       Some (pool2, constPool_getLastOffset pool1 mod 2 ^ 16)
     }
     else Some (pool1, uExistOffset)
   }"

text \<open>The C string in one of the two arrays; without a terminator the read leaves the array.\<close>

definition array_str :: "string \<Rightarrow> string option" where
  "array_str buf = (if NUL \<in> set buf then Some (c_str buf) else None)"

definition asm_line :: "VMInsSet \<Rightarrow> Asmer \<Rightarrow> ByteCodeFrame \<Rightarrow> string \<Rightarrow> (VMInsSet \<times> Asmer \<times> ByteCodeFrame) option" where
  "asm_line g asmer self sLine0 =
     (if sLine0 = [] then None
      else let sLine = (if last sLine0 = CH_CR then butlast sLine0 else sLine0) in
      if str_at sLine 0 = CHR ''B'' then do {
        v \<leftarrow> fast_atoi (tl sLine);
        Some (g, asmer\<lparr>block_deepth_now := nat (v mod 256), is_new_line := True\<rparr>, self)
      }
      else do {
        (sInvokeDeepth, sIns, sData) \<leftarrow> fields_loop sLine 0 (replicate 3 NUL) 0 (replicate 4 NUL) 0;
        (pool, uConstPoolOffset) \<leftarrow> asm_const (const_pool self) sData;
        sDepth \<leftarrow> array_str sInvokeDeepth;
        v \<leftarrow> fast_atoi sDepth;
        (g1, ins) \<leftarrow> pikaVM_getInstructFromAsm g sIns;
        let u1 = instructUnit_setBlockDeepth instructUnit_init (int (block_deepth_now asmer));
        let u2 = instructUnit_setInvokeDeepth u1 (v mod 256);
        let u3 = instructUnit_setConstPoolIndex u2 (int uConstPoolOffset);
        let u4 = instructUnit_setInstruct u3 (int ins);
        let u5 = (if is_new_line asmer then instructUnit_setIsNewLine u4 1 else u4);
        arr \<leftarrow> instructArray_append (instruct_array self) u5;
        Some (g1, asmer\<lparr>is_new_line := False\<rparr>, self\<lparr>const_pool := pool, instruct_array := arr\<rparr>)
      })"

text \<open>One pass for every line feed of the text.\<close>

primrec asm_loop :: "nat \<Rightarrow> VMInsSet \<Rightarrow> Asmer \<Rightarrow> ByteCodeFrame \<Rightarrow> (VMInsSet \<times> ByteCodeFrame) option" where
  "asm_loop 0 g asmer self = Some (g, self)"
| "asm_loop (Suc n) g asmer self = do {
     sLine \<leftarrow> strsGetLine (line_pointer asmer);
     (g1, asmer1, self1) \<leftarrow> asm_line g asmer self sLine;
     k \<leftarrow> strGetLineSize (line_pointer asmer) 0;
     asm_loop n g1 (asmer1\<lparr>line_pointer := drop (k + 1) (line_pointer asmer)\<rparr>) self1
   }"

definition byteCodeFrame_appendFromAsm ::
  "VMInsSet \<Rightarrow> ByteCodeFrame \<Rightarrow> string \<Rightarrow> (VMInsSet \<times> ByteCodeFrame) option" where
  "byteCodeFrame_appendFromAsm g self sPikaAsm =
     asm_loop (nat (strCountSign sPikaAsm CH_NL)) g
       \<lparr> block_deepth_now = 0, is_new_line = False, line_pointer = sPikaAsm \<rparr> self"

section \<open>The fields of a unit\<close>

lemma nibble_mask: "(0x0F :: byte) = mask 4" "(0x7F :: byte) = mask 7" "(0x01 :: byte) = mask 1"
  by (simp_all add: mask_eq_exp_minus_1)

lemma byte_pack:
  fixes a b :: byte
  shows "((0x0F AND a) OR push_bit 4 (0x0F AND b)) AND 0x0F = 0x0F AND a"
    and "drop_bit 4 ((0x0F AND a) OR push_bit 4 (0x0F AND b)) = 0x0F AND b"
    and "((0x7F AND a) OR push_bit 7 (0x01 AND b)) AND 0x7F = 0x7F AND a"
    and "drop_bit 7 ((0x7F AND a) OR push_bit 7 (0x01 AND b)) = 0x01 AND b"
    and "drop_bit 7 (0x7F AND a) = 0"
  unfolding nibble_mask by (rule bit_word_eqI; auto simp: bit_simps)+

lemma unat_mask_int:
  "unat ((0x0F :: byte) AND word_of_int v) = nat (v mod 16)"
  "unat ((0x7F :: byte) AND word_of_int v) = nat (v mod 128)"
  "unat ((0x01 :: byte) AND word_of_int v) = nat (v mod 2)"
proof -
  have *: "unat (mask n AND word_of_int v :: byte) = nat (v mod 2 ^ n)" if "n \<le> 8" for n
  proof -
    have "uint (take_bit n (word_of_int v :: byte)) = take_bit n v"
      using that by (simp add: unsigned_take_bit_eq uint_word_of_int_eq min_def)
    then show ?thesis
      by (simp add: and.commute [of "mask n"] unat_eq_nat_uint take_bit_eq_mod [of n v] flip: take_bit_eq_mask)
  qed
  show "unat ((0x0F :: byte) AND word_of_int v) = nat (v mod 16)"
    "unat ((0x7F :: byte) AND word_of_int v) = nat (v mod 128)"
    "unat ((0x01 :: byte) AND word_of_int v) = nat (v mod 2)"
    unfolding nibble_mask using * [of 4] * [of 7] * [of 1] by simp_all
qed

section \<open>What the pool holds\<close>

text \<open>The bytes of a pool of strings: an empty string, then the strings with their terminators.\<close>

definition pool_bytes :: "string list \<Rightarrow> byte list" where
  "pool_bytes strs = concat (map str_bytes ('''' # strs))"

text \<open>Where the \<open>j\<close>-th string starts; the empty one in front is number zero.\<close>

definition pool_offset :: "string list \<Rightarrow> nat \<Rightarrow> nat" where
  "pool_offset strs j = length (concat (map str_bytes (take j ('''' # strs))))"

definition pool_rep :: "ConstPool \<Rightarrow> string list \<Rightarrow> bool" where
  "pool_rep cp strs \<longleftrightarrow>
     (\<forall>s \<in> set strs. cstring s) \<and> cp_size cp = length (pool_bytes strs) \<and>
     cp_content_start cp = cp_arg_buff cp \<and> cp_output_redirect_fun cp \<noteq> To_none \<and>
     cp_arg_buff cp \<in> {Some (pool_bytes strs)} \<union> (if strs = [] then {None} else {}) \<and>
     (cp_output_redirect_fun cp = To_file \<longrightarrow> cp_output_f cp = concat (map str_bytes strs))"

lemma length_str_bytes [simp]: "length (str_bytes s) = Suc (length s)"
  by (simp add: str_bytes_def)

lemma pool_bytes_append: "pool_bytes (strs @ [d]) = pool_bytes strs @ str_bytes d"
  by (simp add: pool_bytes_def)

lemma pool_bytes_Nil [simp]: "pool_bytes [] = [0]"
  by (simp add: pool_bytes_def str_bytes_def)

lemma bytes_str_str_bytes:
  assumes "cstring s" shows "bytes_str (str_bytes s @ rest) = Some s"
proof -
  have nz: "char_byte c \<noteq> 0" if "c \<in> set s" for c
    using that assms by (auto simp: cstring_def)
  have "takeWhile (\<lambda>b. b \<noteq> 0) (map char_byte s @ 0 # rest) = map char_byte s"
    using nz by (simp add: takeWhile_append)
  then show ?thesis by (simp add: bytes_str_def str_bytes_def comp_def)
qed

lemma pool_split:
  assumes "j \<le> length strs"
  shows "drop (pool_offset strs j) (pool_bytes strs) = str_bytes (('''' # strs) ! j) @ concat (map str_bytes (drop j strs))"
proof -
  have "pool_bytes strs = concat (map str_bytes (take j ('''' # strs) @ drop j ('''' # strs)))"
    by (simp only: append_take_drop_id pool_bytes_def)
  moreover have "drop j ('''' # strs) = ('''' # strs) ! j # drop j strs"
    using assms Cons_nth_drop_Suc [of j "'''' # strs"] by simp
  ultimately show ?thesis by (simp add: pool_offset_def)
qed

lemma pool_offset_Suc: "j \<le> length strs \<Longrightarrow> pool_offset strs (Suc j) = pool_offset strs j + Suc (length (('''' # strs) ! j))"
  using take_Suc_conv_app_nth [of j "'''' # strs"] by (simp add: pool_offset_def)

lemma pool_offset_0 [simp]: "pool_offset strs 0 = 0"
  by (simp add: pool_offset_def)

lemma pool_offset_end: "pool_offset strs (Suc (length strs)) = length (pool_bytes strs)"
  by (simp add: pool_offset_def pool_bytes_def)

lemma pool_offset_mono: "i \<le> j \<Longrightarrow> pool_offset strs i \<le> pool_offset strs j"
proof -
  assume "i \<le> j"
  then have "take j ('''' # strs) = take i ('''' # strs) @ take (j - i) (drop i ('''' # strs))"
    by (metis le_add_diff_inverse take_add)
  then show ?thesis by (simp add: pool_offset_def)
qed

lemma pool_offset_less: "j \<le> length strs \<Longrightarrow> pool_offset strs j < length (pool_bytes strs)"
  using pool_offset_Suc [of j strs] pool_offset_mono [of "Suc j" "Suc (length strs)" strs] pool_offset_end [of strs]
  by simp

lemma pool_offset_append: "j \<le> Suc (length strs) \<Longrightarrow> pool_offset (strs @ ts) j = pool_offset strs j"
  using take_append [of j "'''' # strs" ts] by (simp add: pool_offset_def)

lemma pool_rep_init: "pool_rep constPool_init []"
  by (simp add: pool_rep_def constPool_init_def)

lemma pool_rep_nth: "pool_rep cp strs \<Longrightarrow> j \<le> length strs \<Longrightarrow> cstring (('''' # strs) ! j)"
  by (cases j) (auto simp: pool_rep_def)

lemma constPool_getByOffset_rep:
  assumes "pool_rep cp strs" "cp_arg_buff cp \<noteq> None" "j \<le> length strs"
  shows "constPool_getByOffset cp (pool_offset strs j) = Some (('''' # strs) ! j)"
proof -
  have "cp_content_start cp = Some (pool_bytes strs)"
    using assms(1,2) by (auto simp: pool_rep_def split: if_splits)
  then show ?thesis
    using pool_split [OF assms(3)] bytes_str_str_bytes [OF pool_rep_nth [OF assms(1,3)]]
    by (simp add: constPool_getByOffset_def)
qed

lemma constPool_append_rep:
  assumes "pool_rep cp strs" "cstring d" "Suc (length d) < 2 ^ 16" "fits (length (pool_bytes (strs @ [d])))"
  shows "\<exists>cp'. constPool_append cp d = Some cp' \<and> pool_rep cp' (strs @ [d]) \<and>
    cp_arg_buff cp' \<noteq> None \<and> cp_output_redirect_fun cp' = cp_output_redirect_fun cp"
proof -
  have buff: "(case cp_arg_buff cp of None \<Rightarrow> str_bytes '''' | Some b \<Rightarrow> b) = pool_bytes strs"
    using assms(1) by (auto simp: pool_rep_def str_bytes_def split: if_splits)
  have t: "take (Suc (length d)) (str_bytes d) = str_bytes d" by (simp add: str_bytes_def)
  have m: "Suc (length d) mod 65536 = Suc (length d)" using assms(3) by simp
  have sz: "u32_add (cp_size cp) (Suc (length d)) = length (pool_bytes (strs @ [d]))"
    using assms(1,4) by (simp add: pool_rep_def pool_bytes_append u32_add_small)
  have ap: "buff_append (pool_bytes strs) (str_bytes d) = Some (pool_bytes (strs @ [d]))"
    using assms(4) by (simp add: buff_append_def pool_bytes_append)
  show ?thesis
    using assms(1,2) sz ap
    by (cases "cp_output_redirect_fun cp")
      (auto simp: constPool_append_def Let_def buff strGetSize_def m t handler_constPool_output_file_def
        constPool_update_def pool_rep_def)
qed

subsection \<open>Searching the pool\<close>

lemma position_le: "position x xs \<le> length xs"
  by (induction xs) auto

lemma position_less: "position x xs < length xs \<longleftrightarrow> x \<in> set xs"
  by (induction xs) auto

lemma nth_position: "x \<in> set xs \<Longrightarrow> xs ! position x xs = x"
  by (induction xs) auto

lemma position_append: "x \<in> set xs \<Longrightarrow> position x (xs @ ys) = position x xs"
  by (induction xs) auto

lemma position_new: "x \<notin> set xs \<Longrightarrow> position x (xs @ [x]) = length xs"
  by (induction xs) auto

lemma pool_rep_offset [simp]: "pool_rep (cp\<lparr>cp_content_offset_now := n\<rparr>) strs = pool_rep cp strs"
  by (simp add: pool_rep_def)

lemma constPool_getNext_rep:
  assumes "pool_rep cp strs" "cp_arg_buff cp \<noteq> None" "j \<le> length strs"
    and "cp_content_offset_now cp = pool_offset strs j" "length (pool_bytes strs) < U32"
  shows "constPool_getNext cp = Some (cp\<lparr>cp_content_offset_now := pool_offset strs (Suc j)\<rparr>,
    if j < length strs then Some (pool_offset strs (Suc j)) else None)"
proof -
  have size: "cp_size cp = length (pool_bytes strs)" using assms(1) by (simp add: pool_rep_def)
  have now: "constPool_getNow cp = Some (pool_offset strs j)"
    using size assms(4) pool_offset_less [OF assms(3)] by (simp add: constPool_getNow_def)
  have le: "pool_offset strs (Suc j) \<le> length (pool_bytes strs)"
    using pool_offset_mono [of "Suc j" "Suc (length strs)" strs] assms(3) by (simp add: pool_offset_end)
  then have add: "u32_add (pool_offset strs j) (Suc (length (('''' # strs) ! j))) = pool_offset strs (Suc j)"
    using pool_offset_Suc [OF assms(3)] assms(5) by (simp add: u32_add_small)
  have "pool_offset strs (Suc j) < length (pool_bytes strs) \<longleftrightarrow> j < length strs"
    using pool_offset_less [of "Suc j" strs] assms(3) pool_offset_end [of strs]
    by (cases "j = length strs") auto
  with now add show ?thesis
    using constPool_getByOffset_rep [OF assms(1-3)] size
    by (auto simp: constPool_getNext_def strGetSize_def constPool_getNow_def Let_def)
qed

lemma offset_loop_rep:
  assumes "pool_rep cp strs" "cp_arg_buff cp \<noteq> None" "j \<le> length strs"
    and "cp_content_offset_now cp = pool_offset strs j" "length (pool_bytes strs) < U32"
  shows "offset_loop cp (Some d) = Some (let k = position d (drop j strs) in
    if j + k < length strs then pool_offset strs (Suc (j + k)) mod 2 ^ 16 else 65535)"
  using assms(1,2,3,4)
proof (induction "length strs - j" arbitrary: j cp)
  case 0
  then have "j = length strs" by simp
  with 0 show ?case
    using constPool_getNext_rep [OF 0(2,3,4,5) assms(5)] by (simp add: offset_loop.simps [of cp])
next
  case (Suc n)
  let ?cp = "cp\<lparr>cp_content_offset_now := pool_offset strs (Suc j)\<rparr>"
  from Suc.hyps(2) have j: "j < length strs" by simp
  then have d: "drop j strs = strs ! j # drop (Suc j) strs" by (simp add: Cons_nth_drop_Suc)
  have s: "constPool_getByOffset ?cp (pool_offset strs (Suc j)) = Some (strs ! j)"
    using constPool_getByOffset_rep [of ?cp strs "Suc j"] Suc.prems(1,2) j by simp
  have ih: "offset_loop ?cp (Some d) = Some (let k = position d (drop (Suc j) strs) in
    if Suc j + k < length strs then pool_offset strs (Suc (Suc j + k)) mod 2 ^ 16 else 65535)"
    by (rule Suc.hyps(1)) (use Suc j in auto)
  show ?case
    using constPool_getNext_rep [OF Suc.prems(1,2,3,4) assms(5)] j s ih d
    by (auto simp: offset_loop.simps [of cp] Let_def)
qed

lemma constPool_getOffsetByData_rep:
  assumes "pool_rep cp strs" "length (pool_bytes strs) \<le> 65535"
  shows "constPool_getOffsetByData cp (Some d) = Some (cp\<lparr>cp_content_offset_now := cp_content_offset_now cp mod 2 ^ 16\<rparr>,
    if d \<in> set strs then pool_offset strs (Suc (position d strs)) else 65535)"
proof (cases "cp_arg_buff cp")
  case None
  then show ?thesis using assms(1) by (auto simp: pool_rep_def constPool_getOffsetByData_def split: if_splits)
next
  case (Some b)
  have "pool_offset strs (Suc (position d strs)) < 65536" if "d \<in> set strs"
    using pool_offset_less [of "Suc (position d strs)" strs] that position_less [of d strs] assms(2) by simp
  then show ?thesis
    using offset_loop_rep [of "cp\<lparr>cp_content_offset_now := 0\<rparr>" strs 0 d] assms Some position_less [of d strs]
    by (auto simp: constPool_getOffsetByData_def U32_def Let_def)
qed

text \<open>The pool after a line whose data is \<open>d\<close>, and the offset the line refers to.\<close>

definition pool_add :: "string list \<Rightarrow> string \<Rightarrow> string list" where
  "pool_add strs d = (if d = [] \<or> d \<in> set strs then strs else strs @ [d])"

definition pool_ref :: "string list \<Rightarrow> string \<Rightarrow> nat" where
  "pool_ref strs d = (if d = [] then 0 else pool_offset strs (Suc (position d strs)))"

lemma asm_const_rep:
  assumes "pool_rep cp strs" "cstring d" "length (pool_bytes (pool_add strs d)) \<le> 65535"
  shows "\<exists>cp'. asm_const cp (Some d) = Some (cp', pool_ref (pool_add strs d) d) \<and> pool_rep cp' (pool_add strs d) \<and>
    (cp_arg_buff cp' = None \<longleftrightarrow> cp_arg_buff cp = None \<and> d = []) \<and>
    cp_output_redirect_fun cp' = cp_output_redirect_fun cp"
proof (cases "d = [] \<or> d \<in> set strs")
  case True
  moreover from this assms(1) have "d \<noteq> [] \<Longrightarrow> cp_arg_buff cp \<noteq> None"
    by (auto simp: pool_rep_def split: if_splits)
  moreover have "d \<in> set strs \<Longrightarrow> pool_offset strs (Suc (position d strs)) < 65535"
    using pool_offset_less [of "Suc (position d strs)" strs] position_less [of d strs] assms(3) True
    by (simp add: pool_add_def)
  ultimately show ?thesis
    using constPool_getOffsetByData_rep [OF assms(1), of d] assms
    by (auto simp: asm_const_def pool_add_def pool_ref_def)
next
  case False
  then have add: "pool_add strs d = strs @ [d]" by (simp add: pool_add_def)
  let ?cp = "cp\<lparr>cp_content_offset_now := cp_content_offset_now cp mod 2 ^ 16\<rparr>"
  have b: "length (pool_bytes strs) + Suc (length d) \<le> 65535"
    using assms(3) by (simp add: add pool_bytes_append)
  moreover have "0 < length (pool_bytes strs)" by (simp add: pool_bytes_def str_bytes_def)
  ultimately obtain cp' where cp': "constPool_append ?cp d = Some cp'" "pool_rep cp' (strs @ [d])"
    "cp_arg_buff cp' \<noteq> None" "cp_output_redirect_fun cp' = cp_output_redirect_fun cp"
    using constPool_append_rep [of ?cp strs d] assms(1,2) by (auto simp: U32_def pool_bytes_append)
  have "pool_ref (strs @ [d]) d = length (pool_bytes strs)"
    using False by (simp add: pool_ref_def position_new pool_offset_append pool_offset_end)
  then show ?thesis
    using constPool_getOffsetByData_rep [OF assms(1), of d] b cp' False assms(1)
    by (auto simp: asm_const_def add constPool_getLastOffset_def pool_rep_def)
qed

section \<open>The text of a program\<close>

text \<open>A line of assembly: the start of a block line, or an instruction with its data.\<close>

datatype asm_stmt = Block nat | Ins nat InstructIndex string

definition ins_name :: "InstructIndex \<Rightarrow> string" where
  "ins_name i = fst (instruction_table ! PIKA_INS i)"

primrec asm_text :: "asm_stmt \<Rightarrow> string" where
  "asm_text (Block n) = CHR ''B'' # decimal n"
| "asm_text (Ins k i d) = decimal k @ CHR '' '' # ins_name i @ CHR '' '' # d"

text \<open>
  What the fields of a unit have room for. The data is one line and does not end with the carriage
  return that the assembler takes off.
\<close>

primrec asm_ok :: "asm_stmt \<Rightarrow> bool" where
  "asm_ok (Block n) \<longleftrightarrow> n < 16"
| "asm_ok (Ins k i d) \<longleftrightarrow> k < 16 \<and> cstring d \<and> CH_NL \<notin> set d \<and> (d \<noteq> [] \<longrightarrow> last d \<noteq> CH_CR)"

lemma PIKA_INS_less: "PIKA_INS i < 36"
  by (cases i) (simp_all add: PIKA_INS_def instruction_table_def)

lemma ins_name_chars: "length (ins_name i) = 3" "\<forall>c \<in> set (ins_name i). c \<notin> {CHR '' '', NUL, CH_NL, CH_CR}"
  by (cases i; simp add: ins_name_def PIKA_INS_def instruction_table_def)+

lemma find_ins_name: "find_ins_idx_in_ins_set (ins_name i @ [NUL]) VM_default_instruction_set = Some (Some (PIKA_INS i))"
  by (cases i)
    (simp_all add: find_ins_idx_in_ins_set_def VM_default_instruction_set_def ins_name_def PIKA_INS_def
      instruction_table_def)

lemma getInstructFromAsm_name:
  "recent g = VM_default_instruction_set \<Longrightarrow> pikaVM_getInstructFromAsm g (ins_name i @ [NUL]) = Some (g, PIKA_INS i)"
  by (simp add: pikaVM_getInstructFromAsm_def find_ins_name)

lemma set_decimal: "c \<in> set (decimal n) \<Longrightarrow> \<exists>d < 10. c = digit d"
proof (induction n rule: decimal.induct)
  case (1 n)
  then show ?case by (cases "n < 10") (auto simp: decimal_small decimal_big intro: exI [of _ "n mod 10"])
qed

lemma decimal_chars: "c \<in> set (decimal n) \<Longrightarrow> c \<notin> {CHR '' '', CHR ''B'', NUL, CH_NL, CH_CR}"
proof -
  assume "c \<in> set (decimal n)"
  then obtain d where "d < 10" "c = digit d" using set_decimal by blast
  then have "(of_char c :: nat) = 48 + d" using of_char_digit [of d] by simp
  then show ?thesis using \<open>d < 10\<close> by auto
qed

lemma fields_ins:
  "CHR '' '' \<notin> set xs \<Longrightarrow> length xs \<le> m \<Longrightarrow>
   fields_loop (xs @ CHR '' '' # d) 1 dep i (pre @ replicate m NUL) (length pre) =
   Some (dep, pre @ xs @ replicate (m - length xs) NUL, Some d)"
proof (induction xs arbitrary: pre m)
  case (Cons x xs)
  then obtain k where m: "m = Suc k" by (cases m) auto
  have "wr (pre @ replicate m NUL) (length pre) x = Some ((pre @ [x]) @ replicate k NUL)"
    by (simp add: m wr_def)
  with Cons.IH [of k "pre @ [x]"] Cons.prems m show ?case by auto
qed simp

lemma fields_dep:
  "CHR '' '' \<notin> set xs \<Longrightarrow> length xs \<le> m \<Longrightarrow>
   fields_loop (xs @ CHR '' '' # r) 0 (pre @ replicate m NUL) (length pre) ins j =
   fields_loop r 1 (pre @ xs @ replicate (m - length xs) NUL) (length pre + length xs) ins j"
proof (induction xs arbitrary: pre m)
  case (Cons x xs)
  then obtain k where m: "m = Suc k" by (cases m) auto
  have "wr (pre @ replicate m NUL) (length pre) x = Some ((pre @ [x]) @ replicate k NUL)"
    by (simp add: m wr_def)
  with Cons.IH [of k "pre @ [x]"] Cons.prems m show ?case by auto
qed simp

lemma fields_text:
  assumes "k < 100"
  shows "fields_loop (asm_text (Ins k i d)) 0 (replicate 3 NUL) 0 (replicate 4 NUL) 0 =
    Some (decimal k @ replicate (3 - length (decimal k)) NUL, ins_name i @ [NUL], Some d)"
proof -
  have l: "length (decimal k) \<le> 3" using length_decimal [of k 2] assms by simp
  have sp: "CHR '' '' \<notin> set (decimal k)" "CHR '' '' \<notin> set (ins_name i)"
    using decimal_chars [of "CHR '' ''" k] ins_name_chars(2) [of i] by auto
  show ?thesis
    using fields_dep [OF sp(1) l, of "ins_name i @ CHR '' '' # d" "[]"]
      fields_ins [OF sp(2), of 4 d _ _ "[]"] ins_name_chars(1) [of i] by simp
qed

lemma array_str_decimal: "k < 100 \<Longrightarrow> array_str (decimal k @ replicate (3 - length (decimal k)) NUL) = Some (decimal k)"
  using length_decimal [of k 2] c_str_replicate_NUL [OF cstring_decimal, of k "3 - length (decimal k)"]
  by (simp add: array_str_def)

section \<open>What the assembler builds\<close>

definition asm_unit :: "nat \<Rightarrow> nat \<Rightarrow> bool \<Rightarrow> InstructIndex \<Rightarrow> nat \<Rightarrow> InstructUnit" where
  "asm_unit b k nl i off =
     (let u = instructUnit_setInstruct (instructUnit_setConstPoolIndex (instructUnit_setInvokeDeepth
                (instructUnit_setBlockDeepth instructUnit_init (int b)) (int k)) (int off)) (int (PIKA_INS i))
      in if nl then instructUnit_setIsNewLine u 1 else u)"

lemmas unit_defs = instructUnit_init_def instructUnit_setInstruct_def instructUnit_setConstPoolIndex_def
  instructUnit_setInvokeDeepth_def instructUnit_setBlockDeepth_def instructUnit_setIsNewLine_def
  instructUnit_getBlockDeepth_def instructUnit_getInvokeDeepth_def instructUnit_getInstructIndex_def
  instructUnit_getIsNewLine_def instructUnit_getConstPoolIndex_def

lemma asm_unit_fields:
  assumes "b < 16" "k < 16" "off < 2 ^ 16"
  shows "instructUnit_getBlockDeepth (asm_unit b k nl i off) = b"
    "instructUnit_getInvokeDeepth (asm_unit b k nl i off) = k"
    "instructUnit_getIsNewLine (asm_unit b k nl i off) = of_bool nl"
    "instructUnit_getInstructIndex (asm_unit b k nl i off) = PIKA_INS i"
    "instructUnit_getConstPoolIndex (asm_unit b k nl i off) = off"
proof -
  have i: "int (PIKA_INS i) mod 128 = int (PIKA_INS i)" using PIKA_INS_less [of i] by simp
  let ?w = "\<lambda>n :: nat. word_of_int (int n) :: byte"
  have d: "deepth (asm_unit b k nl i off) = (0x0F AND ?w b) OR push_bit 4 (0x0F AND ?w k)"
    by (simp add: asm_unit_def unit_defs Let_def)
  have n: "isNewLine_instruct (asm_unit b k nl i off) =
      (if nl then (0x7F AND ?w (PIKA_INS i)) OR push_bit 7 (0x01 AND word_of_int 1) else 0x7F AND ?w (PIKA_INS i))"
    by (simp add: asm_unit_def unit_defs Let_def)
  have m: "(0x7F AND ?w x) AND 0x7F = 0x7F AND ?w x" for x unfolding nibble_mask by (rule bit_word_eqI) (auto simp: bit_simps)
  show "instructUnit_getBlockDeepth (asm_unit b k nl i off) = b"
    unfolding instructUnit_getBlockDeepth_def d byte_pack(1) unat_mask_int using assms(1) by simp
  show "instructUnit_getInvokeDeepth (asm_unit b k nl i off) = k"
    unfolding instructUnit_getInvokeDeepth_def d byte_pack(2) unat_mask_int using assms(2) by simp
  show "instructUnit_getIsNewLine (asm_unit b k nl i off) = of_bool nl"
    unfolding instructUnit_getIsNewLine_def n if_distrib [of "drop_bit 7"] byte_pack(4,5) if_distrib [of unat]
      unat_mask_int by simp
  show "instructUnit_getInstructIndex (asm_unit b k nl i off) = PIKA_INS i"
    unfolding instructUnit_getInstructIndex_def n
    unfolding if_distrib [of "\<lambda>x. x AND 0x7F"] byte_pack(3) m if_cancel unat_mask_int i by simp
  show "instructUnit_getConstPoolIndex (asm_unit b k nl i off) = off"
    using assms(3) by (simp add: asm_unit_def unit_defs Let_def unsigned_of_nat take_bit_eq_mod)
qed

lemma unit_of_bytes: "unit_of (unit_bytes u @ rest) = Some u"
proof -
  have "le_nat (le_bytes 2 (unat (const_pool_index u))) = unat (const_pool_index u)"
  proof -
    have "unat (const_pool_index u) < 2 ^ LENGTH(16)" by (rule unsigned_less)
    then show ?thesis by (simp add: le_nat_le_bytes)
  qed
  moreover obtain lo hi where "le_bytes 2 (unat (const_pool_index u)) = [lo, hi]"
    by (simp add: numeral_2_eq_2)
  ultimately show ?thesis by (simp add: unit_of_def unit_bytes_def del: le_nat.simps)
qed

lemma length_unit_bytes [simp]: "length (unit_bytes u) = 4"
  by (simp add: unit_bytes_def)

lemma length_units [simp]: "length (concat (map unit_bytes us)) = 4 * length us"
  by (induction us) auto

definition arr_rep :: "InstructArray \<Rightarrow> InstructUnit list \<Rightarrow> bool" where
  "arr_rep arr us \<longleftrightarrow> ia_size arr = 4 * length us \<and> ia_content_start arr = ia_arg_buff arr \<and>
     (case ia_output_redirect_fun arr of
        To_buff \<Rightarrow> ia_arg_buff arr \<in> {Some (concat (map unit_bytes us))} \<union> (if us = [] then {None} else {})
      | To_none \<Rightarrow> True
      | To_file \<Rightarrow> ia_output_f arr = concat (map unit_bytes us))"

lemma arr_rep_init: "arr_rep instructArray_init []"
  by (simp add: arr_rep_def instructArray_init_def)

lemma instructArray_append_rep:
  assumes "arr_rep arr us" "fits (4 * length us + 4)"
  shows "\<exists>arr'. instructArray_append arr u = Some arr' \<and> arr_rep arr' (us @ [u]) \<and>
    ia_output_redirect_fun arr' = ia_output_redirect_fun arr"
proof -
  have sz: "u32_add (ia_size arr) 4 = 4 * length us + 4"
    using assms by (simp add: arr_rep_def u32_add_small)
  have b: "buff_append (case ia_arg_buff arr of None \<Rightarrow> [] | Some b \<Rightarrow> b) (unit_bytes u) =
      Some (concat (map unit_bytes (us @ [u])))" if "ia_output_redirect_fun arr = To_buff"
    using assms that by (auto simp: arr_rep_def buff_append_def split: if_splits)
  show ?thesis
    using assms(1) sz b
    by (cases "ia_output_redirect_fun arr")
      (auto simp: instructArray_append_def Let_def instructUnit_getSize_def instructArray_update_def arr_rep_def
        handler_instructArray_output_none_def handler_instructArray_output_file_def)
qed

lemma instructArray_getByOffset_start:
  assumes "ia_content_start arr = Some (concat (map unit_bytes us) @ rest)" "j < length us"
  shows "instructArray_getByOffset arr (4 * int j) = Some (us ! j)"
proof -
  have "us = take j us @ us ! j # drop (Suc j) us" using assms(2) by (simp add: id_take_nth_drop)
  then have "concat (map unit_bytes us) =
      concat (map unit_bytes (take j us)) @ unit_bytes (us ! j) @ concat (map unit_bytes (drop (Suc j) us))"
    by (metis concat.simps(2) concat_append list.simps(9) map_append)
  moreover have "length (concat (map unit_bytes (take j us))) = 4 * j" using assms(2) by simp
  ultimately have "drop (4 * j) (concat (map unit_bytes us)) =
      unit_bytes (us ! j) @ concat (map unit_bytes (drop (Suc j) us))" by simp
  then show ?thesis
    using assms by (simp add: instructArray_getByOffset_def unit_of_bytes nat_mult_distrib)
qed

text \<open>The units and the pool after a program, from the block depth, the line flag and the pool before it.\<close>

fun asm_run :: "nat \<Rightarrow> bool \<Rightarrow> string list \<Rightarrow> asm_stmt list \<Rightarrow> InstructUnit list \<times> string list" where
  "asm_run b nl strs [] = ([], strs)"
| "asm_run b nl strs (Block n # ss) = asm_run n True strs ss"
| "asm_run b nl strs (Ins k i d # ss) =
     (let (us, r) = asm_run b False (pool_add strs d) ss
      in (asm_unit b k nl i (pool_ref (pool_add strs d) d) # us, r))"

definition frame_rep :: "ByteCodeFrame \<Rightarrow> InstructUnit list \<Rightarrow> string list \<Rightarrow> bool" where
  "frame_rep bf us strs \<longleftrightarrow> pool_rep (const_pool bf) strs \<and> arr_rep (instruct_array bf) us"

lemma asm_run_pool: "\<exists>ts. snd (asm_run b nl strs ss) = strs @ ts"
proof (induction b nl strs ss rule: asm_run.induct)
  case (3 b nl strs k i d ss)
  then obtain ts where "snd (asm_run b False (pool_add strs d) ss) = pool_add strs d @ ts" by blast
  then show ?case by (auto simp: pool_add_def split: if_splits prod.splits)
qed auto

lemma pool_bytes_more: "length (pool_bytes strs) \<le> length (pool_bytes (strs @ ts))"
  by (simp add: pool_bytes_def)

lemma asm_line_Block:
  assumes "n < 16"
  shows "asm_line g asmer bf (asm_text (Block n)) = Some (g, asmer\<lparr>block_deepth_now := n, is_new_line := True\<rparr>, bf)"
proof -
  have "last (decimal n) \<noteq> CH_CR" using decimal_chars [of "last (decimal n)" n] by auto
  moreover have "fast_atoi (decimal n) = Some (int n)" using fast_atoi_decimal [of n] assms by simp
  ultimately show ?thesis using assms by (simp add: asm_line_def str_at_def Let_def)
qed

lemma asm_line_Ins:
  assumes "asm_ok (Ins k i d)" "frame_rep bf us strs" "recent g = VM_default_instruction_set"
    and "length (pool_bytes (pool_add strs d)) \<le> 65535" "fits (4 * length us + 4)"
  shows "\<exists>bf'. asm_line g asmer bf (asm_text (Ins k i d)) = Some (g, asmer\<lparr>is_new_line := False\<rparr>, bf') \<and>
    frame_rep bf' (us @ [asm_unit (block_deepth_now asmer) k (is_new_line asmer) i (pool_ref (pool_add strs d) d)])
      (pool_add strs d) \<and>
    (cp_arg_buff (const_pool bf') = None \<longleftrightarrow> cp_arg_buff (const_pool bf) = None \<and> d = []) \<and>
    cp_output_redirect_fun (const_pool bf') = cp_output_redirect_fun (const_pool bf) \<and>
    ia_output_redirect_fun (instruct_array bf') = ia_output_redirect_fun (instruct_array bf)"
proof -
  let ?t = "asm_text (Ins k i d)"
  let ?u = "asm_unit (block_deepth_now asmer) k (is_new_line asmer) i (pool_ref (pool_add strs d) d)"
  have k: "k < 16" "k < 100" "cstring d" using assms(1) by simp_all
  have rep: "pool_rep (const_pool bf) strs" "arr_rep (instruct_array bf) us"
    using assms(2) by (simp_all add: frame_rep_def)
  obtain c cs where dec: "decimal k = c # cs" by (cases "decimal k") auto
  then have t: "?t \<noteq> []" "str_at ?t 0 \<noteq> CHR ''B''" "last ?t \<noteq> CH_CR"
    using decimal_chars [of c k] assms(1) by (auto simp: str_at_def)
  obtain cp' where cp': "asm_const (const_pool bf) (Some d) = Some (cp', pool_ref (pool_add strs d) d)"
    "pool_rep cp' (pool_add strs d)" "cp_arg_buff cp' = None \<longleftrightarrow> cp_arg_buff (const_pool bf) = None \<and> d = []"
    "cp_output_redirect_fun cp' = cp_output_redirect_fun (const_pool bf)"
    using asm_const_rep [OF rep(1) k(3) assms(4)] by metis
  obtain arr where arr: "instructArray_append (instruct_array bf) ?u = Some arr" "arr_rep arr (us @ [?u])"
    "ia_output_redirect_fun arr = ia_output_redirect_fun (instruct_array bf)"
    using instructArray_append_rep [OF rep(2) assms(5)] by blast
  have "int k mod 256 = int k" using k(1) by simp
  then have "asm_line g asmer bf ?t =
      Some (g, asmer\<lparr>is_new_line := False\<rparr>, bf\<lparr>const_pool := cp', instruct_array := arr\<rparr>)"
    using t fields_text [OF k(2), of i d] cp'(1) array_str_decimal [OF k(2)] fast_atoi_decimal [of k] k(1)
      getInstructFromAsm_name [OF assms(3), of i] arr(1)
    by (cases "is_new_line asmer") (simp_all add: asm_line_def Let_def asm_unit_def del: asm_text.simps)
  then show ?thesis using cp' arr by (simp add: frame_rep_def)
qed

definition asm_lines :: "asm_stmt list \<Rightarrow> string" where
  "asm_lines ss = concat (map (\<lambda>s. asm_text s @ [CH_NL]) ss)"

lemma asm_text_chars: "asm_ok s \<Longrightarrow> cstring (asm_text s) \<and> CH_NL \<notin> set (asm_text s)"
  using decimal_chars [of NUL] decimal_chars [of CH_NL] ins_name_chars(2)
  by (cases s) (auto simp: cstring_def)

lemma asm_lines_step:
  assumes "\<forall>s \<in> set (s # ss). asm_ok s"
  shows "strsGetLine (asm_lines (s # ss)) = Some (asm_text s)"
    "strGetLineSize (asm_lines (s # ss)) 0 = Some (length (asm_text s))"
    "drop (length (asm_text s) + 1) (asm_lines (s # ss)) = asm_lines ss"
proof -
  have c: "cstring (asm_lines ts)" if "\<forall>s \<in> set ts. asm_ok s" for ts
    using that by (induction ts) (auto simp: asm_lines_def asm_text_chars)
  have e: "asm_lines (s # ss) = asm_text s @ CH_NL # asm_lines ss" by (simp add: asm_lines_def)
  have "takeWhile (\<lambda>c. c \<noteq> CH_NL) (asm_lines (s # ss)) = asm_text s"
    using asm_text_chars [of s] assms by (auto simp: e takeWhile_append)
  then show "strsGetLine (asm_lines (s # ss)) = Some (asm_text s)"
    "strGetLineSize (asm_lines (s # ss)) 0 = Some (length (asm_text s))"
    using strsGetLine_eq [OF c [OF assms]] by (simp_all add: strGetLineSize_eq e)
  show "drop (length (asm_text s) + 1) (asm_lines (s # ss)) = asm_lines ss" by (simp add: e)
qed

lemma asm_loop_rep:
  assumes "\<forall>s \<in> set ss. asm_ok s" "frame_rep bf us strs" "recent g = VM_default_instruction_set"
    and "line_pointer asmer = asm_lines ss"
    and "length (pool_bytes (snd (asm_run (block_deepth_now asmer) (is_new_line asmer) strs ss))) \<le> 65535"
    and "fits (4 * length us + 4 * length ss)"
  shows "\<exists>bf'. asm_loop (length ss) g asmer bf = Some (g, bf') \<and>
    frame_rep bf' (us @ fst (asm_run (block_deepth_now asmer) (is_new_line asmer) strs ss))
      (snd (asm_run (block_deepth_now asmer) (is_new_line asmer) strs ss)) \<and>
    (cp_arg_buff (const_pool bf') = None \<longleftrightarrow>
       cp_arg_buff (const_pool bf) = None \<and> (\<forall>k i d. Ins k i d \<in> set ss \<longrightarrow> d = [])) \<and>
    cp_output_redirect_fun (const_pool bf') = cp_output_redirect_fun (const_pool bf) \<and>
    ia_output_redirect_fun (instruct_array bf') = ia_output_redirect_fun (instruct_array bf)"
  using assms
proof (induction ss arbitrary: asmer bf us strs)
  case Nil
  then show ?case by simp
next
  case (Cons s ss)
  note step = asm_lines_step [OF Cons.prems(1)] and lp = Cons.prems(4)
  show ?case
  proof (cases s)
    case (Block n)
    let ?a = "asmer\<lparr>block_deepth_now := n, is_new_line := True, line_pointer := asm_lines ss\<rparr>"
    have "asm_loop (length (s # ss)) g asmer bf = asm_loop (length ss) g ?a bf"
      using step lp asm_line_Block [of n g asmer bf] Cons.prems(1) Block by simp
    moreover have "fits (4 * length us + 4 * length ss)" using Cons.prems(6) by simp
    ultimately show ?thesis
      using Cons.IH [of bf us strs ?a] Cons.prems Block by simp
  next
    case (Ins k i d)
    let ?b = "block_deepth_now asmer" and ?nl = "is_new_line asmer" and ?strs = "pool_add strs d"
    let ?u = "asm_unit ?b k ?nl i (pool_ref ?strs d)"
      and ?a = "asmer\<lparr>is_new_line := False, line_pointer := asm_lines ss\<rparr>"
    have run: "asm_run ?b ?nl strs (s # ss) =
        (?u # fst (asm_run ?b False ?strs ss), snd (asm_run ?b False ?strs ss))"
      by (simp add: Ins split: prod.splits)
    obtain ts where "snd (asm_run ?b False ?strs ss) = ?strs @ ts" using asm_run_pool by blast
    then have le: "length (pool_bytes ?strs) \<le> 65535"
      using Cons.prems(5) pool_bytes_more [of ?strs ts] by (simp add: run)
    have ok: "asm_ok (Ins k i d)" using Cons.prems(1) Ins by simp
    have f: "fits (4 * length us + 4)" "fits (4 * length (us @ [?u]) + 4 * length ss)"
      using Cons.prems(6) by simp_all
    obtain bf1 where bf1: "asm_line g asmer bf (asm_text s) = Some (g, asmer\<lparr>is_new_line := False\<rparr>, bf1)"
      "frame_rep bf1 (us @ [?u]) ?strs"
      "(cp_arg_buff (const_pool bf1) = None) = (cp_arg_buff (const_pool bf) = None \<and> d = [])"
      "cp_output_redirect_fun (const_pool bf1) = cp_output_redirect_fun (const_pool bf)"
      "ia_output_redirect_fun (instruct_array bf1) = ia_output_redirect_fun (instruct_array bf)"
      using asm_line_Ins [OF ok Cons.prems(2,3) le f(1), of asmer] unfolding Ins by metis
    have "asm_loop (length (s # ss)) g asmer bf = asm_loop (length ss) g ?a bf1"
      using step lp bf1(1) by simp
    then show ?thesis
      using Cons.IH [of bf1 "us @ [?u]" ?strs ?a] Cons.prems(1,3,5) bf1 f(2) run Ins by auto
  qed
qed

section \<open>Reading the code back\<close>

text \<open>
  What the virtual machine reads of a frame: for every unit its block depth, invoke depth, line
  flag, instruction and the constant it refers to.
\<close>

type_synonym instr = "nat \<times> nat \<times> bool \<times> nat \<times> string"

definition unit_view :: "ConstPool \<Rightarrow> InstructUnit \<Rightarrow> instr option" where
  "unit_view cp u = do {
     s \<leftarrow> constPool_getByOffset cp (instructUnit_getConstPoolIndex u);
     Some (instructUnit_getBlockDeepth u, instructUnit_getInvokeDeepth u, instructUnit_getIsNewLine u = 1,
       instructUnit_getInstructIndex u, s)
   }"

definition disassemble :: "ByteCodeFrame \<Rightarrow> instr list option" where
  "disassemble bf = those (map (\<lambda>j. do {
       u \<leftarrow> instructArray_getByOffset (instruct_array bf) (4 * int j);
       unit_view (const_pool bf) u
     }) [0..<instructArray_getSize (instruct_array bf) div 4])"

text \<open>The instructions that a program of assembly lines is.\<close>

fun asm_instrs :: "nat \<Rightarrow> bool \<Rightarrow> asm_stmt list \<Rightarrow> instr list" where
  "asm_instrs b nl [] = []"
| "asm_instrs b nl (Block n # ss) = asm_instrs n True ss"
| "asm_instrs b nl (Ins k i d # ss) = (b, k, nl, PIKA_INS i, d) # asm_instrs b False ss"

primrec data_size :: "asm_stmt \<Rightarrow> nat" where
  "data_size (Block n) = 0"
| "data_size (Ins k i d) = length d + 1"

lemma disassemble_eq:
  assumes "ia_content_start (instruct_array bf) = Some (concat (map unit_bytes us) @ rest)"
    and "ia_size (instruct_array bf) = 4 * length us"
  shows "disassemble bf = those (map (unit_view (const_pool bf)) us)"
proof -
  have "map (\<lambda>j. do { u \<leftarrow> instructArray_getByOffset (instruct_array bf) (4 * int j);
      unit_view (const_pool bf) u }) [0..<length us] = map (unit_view (const_pool bf)) us"
    using instructArray_getByOffset_start [OF assms(1)] by (intro nth_equalityI) simp_all
  then show ?thesis using assms(2) by (simp add: disassemble_def instructArray_getSize_def)
qed

lemma those_map_Some [simp]: "those (map Some xs) = Some xs"
  by (induction xs) simp_all

lemma those_append: "those (xs @ ys) = do { a \<leftarrow> those xs; b \<leftarrow> those ys; Some (a @ b) }"
  by (cases "those ys"; induction xs) (auto split: option.splits bind_splits)

lemma frame_rep_disassemble:
  assumes "frame_rep bf us strs" "ia_output_redirect_fun (instruct_array bf) = To_buff"
  shows "disassemble bf = those (map (unit_view (const_pool bf)) us)"
proof (cases "us = []")
  case True
  then show ?thesis using assms by (simp add: disassemble_def frame_rep_def arr_rep_def instructArray_getSize_def)
next
  case False
  then show ?thesis
    using assms disassemble_eq [of bf us "[]"] by (simp add: frame_rep_def arr_rep_def)
qed

lemma pool_ref_lookup:
  assumes "pool_rep cp (pool_add strs d @ ts)" "cp_arg_buff cp \<noteq> None"
  shows "constPool_getByOffset cp (pool_ref (pool_add strs d) d) = Some d"
    and "pool_ref (pool_add strs d) d < length (pool_bytes (pool_add strs d @ ts))"
proof -
  let ?p = "pool_add strs d" and ?j = "if d = [] then 0 else Suc (position d (pool_add strs d))"
  have "d \<noteq> [] \<Longrightarrow> d \<in> set ?p" by (auto simp: pool_add_def)
  then have j: "d \<noteq> [] \<Longrightarrow> position d ?p < length ?p" "d \<noteq> [] \<Longrightarrow> ?p ! position d ?p = d"
    using position_less [of d ?p] nth_position [of d ?p] by simp_all
  then have ref: "pool_ref ?p d = pool_offset (?p @ ts) ?j" "?j \<le> length (?p @ ts)" "('''' # ?p @ ts) ! ?j = d"
    by (auto simp: pool_ref_def pool_offset_append nth_append)
  show "constPool_getByOffset cp (pool_ref ?p d) = Some d"
    using constPool_getByOffset_rep [OF assms ref(2)] ref by simp
  show "pool_ref ?p d < length (pool_bytes (?p @ ts))"
    using pool_offset_less [OF ref(2)] ref(1) by simp
qed

lemma asm_run_views:
  assumes "\<forall>s \<in> set ss. asm_ok s" "b < 16" "pool_rep cp (snd (asm_run b nl strs ss))" "cp_arg_buff cp \<noteq> None"
    and "length (pool_bytes (snd (asm_run b nl strs ss))) \<le> 65535"
  shows "map (unit_view cp) (fst (asm_run b nl strs ss)) = map Some (asm_instrs b nl ss)"
  using assms
proof (induction b nl strs ss rule: asm_run.induct)
  case (3 b nl strs k i d ss)
  let ?p = "pool_add strs d"
  have run: "asm_run b nl strs (Ins k i d # ss) =
      (asm_unit b k nl i (pool_ref ?p d) # fst (asm_run b False ?p ss), snd (asm_run b False ?p ss))"
    by (simp split: prod.splits)
  obtain ts where ts: "snd (asm_run b False ?p ss) = ?p @ ts" using asm_run_pool by blast
  have l: "constPool_getByOffset cp (pool_ref ?p d) = Some d" "pool_ref ?p d < 2 ^ 16" "k < 16"
    using pool_ref_lookup [of cp strs d ts] 3(2,4,5,6) run ts by simp_all
  have "unit_view cp (asm_unit b k nl i (pool_ref ?p d)) = Some (b, k, nl, PIKA_INS i, d)"
    using asm_unit_fields [OF 3(3) l(3,2)] l(1) by (simp add: unit_view_def)
  moreover have "map (unit_view cp) (fst (asm_run b False ?p ss)) = map Some (asm_instrs b False ss)"
    using 3 run by simp
  ultimately show ?case using run by simp
qed auto

lemma asm_run_size:
  "length (pool_bytes (snd (asm_run b nl strs ss))) \<le> length (pool_bytes strs) + sum_list (map data_size ss)"
proof (induction b nl strs ss rule: asm_run.induct)
  case (3 b nl strs k i d ss)
  have "length (pool_bytes (pool_add strs d)) \<le> length (pool_bytes strs) + data_size (Ins k i d)"
    by (simp add: pool_add_def pool_bytes_append)
  then show ?case using 3 by (auto split: prod.splits)
qed auto

section \<open>Properties\<close>

text \<open>A frame the assembler can go on with: an initial one, or one that it built.\<close>

definition frame_ok :: "ByteCodeFrame \<Rightarrow> bool" where
  "frame_ok bf \<longleftrightarrow> (\<exists>us strs. frame_rep bf us strs) \<and>
     cp_output_redirect_fun (const_pool bf) = To_buff \<and> ia_output_redirect_fun (instruct_array bf) = To_buff"

lemma frame_ok_init: "frame_ok (byteCodeFrame_init bf)" "disassemble (byteCodeFrame_init bf) = Some []"
  using pool_rep_init arr_rep_init
  by (auto simp: frame_ok_def frame_rep_def byteCodeFrame_init_def constPool_init_def instructArray_init_def
      disassemble_def instructArray_getSize_def)

lemma constPool_getByOffset_more:
  assumes "pool_rep cp strs" "cp_arg_buff cp \<noteq> None" "pool_rep cp' (strs @ ts)" "cp_arg_buff cp' \<noteq> None"
    and "constPool_getByOffset cp n = Some s"
  shows "constPool_getByOffset cp' n = Some s"
proof -
  let ?r = "concat (map str_bytes ts)"
  have b: "cp_content_start cp = Some (pool_bytes strs)" "cp_content_start cp' = Some (pool_bytes strs @ ?r)"
    using assms(1-4) by (auto simp: pool_rep_def pool_bytes_def split: if_splits)
  have s: "bytes_str (drop n (pool_bytes strs)) = Some s" using assms(5) b(1) by (simp add: constPool_getByOffset_def)
  then have z: "0 \<in> set (drop n (pool_bytes strs))" by (simp add: bytes_str_def split: if_splits)
  then have "n < length (pool_bytes strs)" by (cases "n < length (pool_bytes strs)") auto
  then have "drop n (pool_bytes strs @ ?r) = drop n (pool_bytes strs) @ ?r" by simp
  then show ?thesis
    using s z b(2) by (auto simp: constPool_getByOffset_def bytes_str_def)
qed

lemma asm_append_rep:
  assumes "\<forall>s \<in> set ss. asm_ok s" "frame_rep bf us strs" "recent g = VM_default_instruction_set"
    and "cp_size (const_pool bf) + sum_list (map data_size ss) \<le> 65535"
    and "fits (ia_size (instruct_array bf) + 4 * length ss)"
  shows "\<exists>bf'. byteCodeFrame_appendFromAsm g bf (asm_lines ss) = Some (g, bf') \<and>
    frame_rep bf' (us @ fst (asm_run 0 False strs ss)) (snd (asm_run 0 False strs ss)) \<and>
    length (pool_bytes (snd (asm_run 0 False strs ss))) \<le> 65535 \<and>
    (cp_arg_buff (const_pool bf') = None \<longleftrightarrow>
       cp_arg_buff (const_pool bf) = None \<and> (\<forall>k i d. Ins k i d \<in> set ss \<longrightarrow> d = [])) \<and>
    cp_output_redirect_fun (const_pool bf') = cp_output_redirect_fun (const_pool bf) \<and>
    ia_output_redirect_fun (instruct_array bf') = ia_output_redirect_fun (instruct_array bf)"
proof -
  let ?a = "\<lparr> block_deepth_now = 0, is_new_line = False, line_pointer = asm_lines ss \<rparr>"
  have sizes: "cp_size (const_pool bf) = length (pool_bytes strs)" "ia_size (instruct_array bf) = 4 * length us"
    using assms(2) by (simp_all add: frame_rep_def pool_rep_def arr_rep_def)
  have b: "length (pool_bytes (snd (asm_run 0 False strs ss))) \<le> 65535"
    using asm_run_size [of 0 False strs ss] assms(4) sizes(1) by simp
  have "count_list (asm_lines ss) CH_NL = length ss"
    using assms(1) asm_text_chars by (induction ss) (auto simp: asm_lines_def count_list_append count_list_0_iff)
  then have "byteCodeFrame_appendFromAsm g bf (asm_lines ss) = asm_loop (length ss) g ?a bf"
    by (simp add: byteCodeFrame_appendFromAsm_def strCountSign_eq)
  then show ?thesis
    using asm_loop_rep [OF assms(1-3), of ?a] b assms(5) sizes(2) by simp
qed

lemma unit_view_more:
  assumes "pool_rep cp strs" "pool_rep cp' (strs @ ts)" "cp_arg_buff cp' \<noteq> None" "unit_view cp u = Some v"
  shows "unit_view cp' u = Some v"
proof -
  obtain s where s: "constPool_getByOffset cp (instructUnit_getConstPoolIndex u) = Some s"
    using assms(4) by (auto simp: unit_view_def bind_eq_Some_conv)
  then have "cp_arg_buff cp \<noteq> None"
    using assms(1) by (auto simp: constPool_getByOffset_def pool_rep_def bind_eq_Some_conv)
  with s assms show ?thesis
    using constPool_getByOffset_more [OF assms(1) _ assms(2,3) s] by (simp add: unit_view_def)
qed

lemma those_Some_map: "those (map f xs) = Some ys \<Longrightarrow> (\<And>x y. f x = Some y \<Longrightarrow> g x = Some y) \<Longrightarrow> those (map g xs) = Some ys"
  by (induction xs arbitrary: ys) (auto split: option.splits)

lemma strncmp_equ_eq: "length t \<le> length s \<Longrightarrow> strncmp_equ s t = Some (take (length t) s = t)"
  by (induction s t rule: strncmp_equ.induct) auto

lemma find_ins_idx_none:
  "\<forall>(t, n) \<in> set tab. length t \<le> length s \<and> take (length t) s \<noteq> t \<Longrightarrow> find_ins_idx_loop s tab = Some None"
  by (induction s tab rule: find_ins_idx_loop.induct) (auto simp: strncmp_equ_eq)

lemma table_ins_name: "(t, i) \<in> set instruction_table \<Longrightarrow> t = ins_name i"
  by (simp add: instruction_table_def) (elim disjE; simp add: ins_name_def PIKA_INS_def instruction_table_def)

lemma unit_fields:
  fixes b k i c n :: int
  defines "u \<equiv> instructUnit_setIsNewLine (instructUnit_setInstruct (instructUnit_setConstPoolIndex
      (instructUnit_setInvokeDeepth (instructUnit_setBlockDeepth instructUnit_init b) k) c) i) n"
  shows "unit_of (unit_bytes u @ rest) = Some u"
    and "int (instructUnit_getBlockDeepth u) = b mod 16" "int (instructUnit_getInvokeDeepth u) = k mod 16"
    and "int (instructUnit_getInstructIndex u) = i mod 128" "int (instructUnit_getIsNewLine u) = n mod 2"
    and "int (instructUnit_getConstPoolIndex u) = c mod 2 ^ 16"
proof -
  let ?w = "\<lambda>n. word_of_int n :: byte"
  show "unit_of (unit_bytes u @ rest) = Some u" by (rule unit_of_bytes)
  have d: "deepth u = (0x0F AND ?w b) OR push_bit 4 (0x0F AND ?w k)"
    "isNewLine_instruct u = (0x7F AND ?w i) OR push_bit 7 (0x01 AND ?w n)" "const_pool_index u = word_of_int c"
    by (simp_all add: u_def unit_defs)
  show "int (instructUnit_getBlockDeepth u) = b mod 16"
    unfolding instructUnit_getBlockDeepth_def d byte_pack unat_mask_int by simp
  show "int (instructUnit_getInvokeDeepth u) = k mod 16"
    unfolding instructUnit_getInvokeDeepth_def d byte_pack unat_mask_int by simp
  show "int (instructUnit_getInstructIndex u) = i mod 128"
    unfolding instructUnit_getInstructIndex_def d byte_pack unat_mask_int by simp
  show "int (instructUnit_getIsNewLine u) = n mod 2"
    unfolding instructUnit_getIsNewLine_def d byte_pack unat_mask_int by simp
  show "int (instructUnit_getConstPoolIndex u) = c mod 2 ^ 16"
    unfolding instructUnit_getConstPoolIndex_def d by (simp add: uint_word_of_int)
qed

text \<open>C26: The fields of an instruction unit are stored modulo their widths: four bits for the block
  depth and for the invoke depth, seven for the instruction, one for the line flag and sixteen for
  the constant, and the four bytes in memory give the unit back. A program nested sixteen blocks
  deep therefore assembles to units of depth zero.\<close>

theorem instructUnit_fields:
  "let u = instructUnit_setIsNewLine (instructUnit_setInstruct (instructUnit_setConstPoolIndex
       (instructUnit_setInvokeDeepth (instructUnit_setBlockDeepth instructUnit_init b) k) c) i) n
   in unit_of (unit_bytes u @ rest) = Some u \<and>
     int (instructUnit_getBlockDeepth u) = b mod 16 \<and> int (instructUnit_getInvokeDeepth u) = k mod 16 \<and>
     int (instructUnit_getInstructIndex u) = i mod 128 \<and> int (instructUnit_getIsNewLine u) = n mod 2 \<and>
     int (instructUnit_getConstPoolIndex u) = c mod 2 ^ 16"
  unfolding Let_def by (intro conjI unit_fields)

lemma append_disassemble:
  assumes "frame_ok bf" "disassemble bf = Some old" "recent g = VM_default_instruction_set"
    and "\<forall>s \<in> set ss. asm_ok s" "\<exists>k i d. Ins k i d \<in> set ss \<and> d \<noteq> []"
    and "cp_size (const_pool bf) + sum_list (map data_size ss) \<le> 65535"
    and "ia_size (instruct_array bf) + 4 * length ss + 28 < U32"
  shows "\<exists>bf'. byteCodeFrame_appendFromAsm g bf (asm_lines ss) = Some (g, bf') \<and> frame_ok bf' \<and>
    disassemble bf' = Some (old @ asm_instrs 0 False ss)"
proof -
  obtain us strs where rep: "frame_rep bf us strs" and to: "cp_output_redirect_fun (const_pool bf) = To_buff"
    "ia_output_redirect_fun (instruct_array bf) = To_buff"
    using assms(1) by (auto simp: frame_ok_def)
  let ?new = "fst (asm_run 0 False strs ss)" and ?strs = "snd (asm_run 0 False strs ss)"
  obtain bf' where bf': "byteCodeFrame_appendFromAsm g bf (asm_lines ss) = Some (g, bf')"
    and rep': "frame_rep bf' (us @ ?new) ?strs" and le: "length (pool_bytes ?strs) \<le> 65535"
    and buff: "cp_arg_buff (const_pool bf') \<noteq> None"
    and to': "cp_output_redirect_fun (const_pool bf') = To_buff" "ia_output_redirect_fun (instruct_array bf') = To_buff"
    using asm_append_rep [OF assms(4) rep assms(3,6,7)] assms(5) to by metis
  have pools: "pool_rep (const_pool bf) strs" "pool_rep (const_pool bf') ?strs"
    using rep rep' by (simp_all add: frame_rep_def)
  obtain ts where ts: "?strs = strs @ ts" using asm_run_pool by blast
  have "those (map (unit_view (const_pool bf)) us) = Some old"
    using assms(2) frame_rep_disassemble [OF rep to(2)] by simp
  then have "those (map (unit_view (const_pool bf')) us) = Some old"
    by (rule those_Some_map) (use unit_view_more [OF pools(1) _ buff] pools(2) ts in simp)
  moreover have "those (map (unit_view (const_pool bf')) ?new) = Some (asm_instrs 0 False ss)"
    using asm_run_views [OF assms(4) _ pools(2) buff le] by simp
  ultimately have "disassemble bf' = Some (old @ asm_instrs 0 False ss)"
    using frame_rep_disassemble [OF rep' to'(2)] by (simp add: those_append)
  then show ?thesis using bf' rep' to' by (auto simp: frame_ok_def)
qed

text \<open>C25: The assembler returns on every program whose numbers fit the fields and whose constants fit
  a 16-bit pool, and the virtual machine reads back from the frame exactly the instructions that
  were there before followed by those of the text, each with its block depth, its invoke depth, its
  line flag and its own constant, although equal constants are stored once.\<close>

theorem assemble_disassemble:
  assumes "frame_ok bf" "disassemble bf = Some old" "recent g = VM_default_instruction_set"
    and "\<forall>s \<in> set ss. asm_ok s" "\<exists>k i d. Ins k i d \<in> set ss \<and> d \<noteq> []"
    and "cp_size (const_pool bf) + sum_list (map data_size ss) \<le> 65535"
    and "ia_size (instruct_array bf) + 4 * length ss + 28 < U32"
  shows "\<exists>bf'. byteCodeFrame_appendFromAsm g bf (asm_lines ss) = Some (g, bf') \<and> frame_ok bf' \<and>
    disassemble bf' = Some (old @ asm_instrs 0 False ss)"
  by (rule append_disassemble [OF assms])

definition frame0 :: ByteCodeFrame where
  "frame0 = byteCodeFrame_init \<lparr> bf_name = None, bf_name_hash = 0, const_pool = constPool_init,
     instruct_array = instructArray_init, label_pc = 0 \<rparr>"

theorem assemble_disassemble_witness:
  "\<exists>bf. byteCodeFrame_appendFromAsm g_PikaVMInsSet frame0
      (asm_lines [Block 0, Ins 1 INS_NUM ''1'', Ins 0 INS_OUT ''a'', Block 1, Ins 0 INS_REF ''a'']) =
      Some (g_PikaVMInsSet, bf) \<and>
    disassemble bf = Some [(0, 1, True, 5, ''1''), (0, 0, False, 4, ''a''), (1, 0, True, 1, ''a'')]"
proof -
  let ?ss = "[Block 0, Ins 1 INS_NUM ''1'', Ins 0 INS_OUT ''a'', Block 1, Ins 0 INS_REF ''a'']"
  have p: "PIKA_INS INS_NUM = 5" "PIKA_INS INS_OUT = 4" "PIKA_INS INS_REF = 1"
    by (simp_all add: PIKA_INS_def instruction_table_def)
  have f: "frame_ok frame0" "disassemble frame0 = Some []"
    unfolding frame0_def by (rule frame_ok_init)+
  have r: "recent g_PikaVMInsSet = VM_default_instruction_set" by (simp add: g_PikaVMInsSet_def)
  have sz: "cp_size (const_pool frame0) = 1" "ia_size (instruct_array frame0) = 0"
    by (simp_all add: frame0_def byteCodeFrame_init_def constPool_init_def instructArray_init_def)
  have ok: "\<forall>s \<in> set ?ss. asm_ok s" "\<exists>k i d. Ins k i d \<in> set ?ss \<and> d \<noteq> []" by auto
  have "asm_instrs 0 False ?ss = [(0, 1, True, 5, ''1''), (0, 0, False, 4, ''a''), (1, 0, True, 1, ''a'')]"
    by (simp add: p)
  with assemble_disassemble [OF f r ok] sz show ?thesis by (auto simp: U32_def)
qed

text \<open>C27: The assembler's lookup finds every mnemonic of the table by its first three characters. On
  any other text it does not return \<open>NON\<close>, the fallback it is written for: with the default set
  alone in the list the search goes through a null pointer.\<close>

theorem getInstructFromAsm_default:
  assumes "length s = 4"
  shows "(\<forall>i. take 3 s = ins_name i \<longrightarrow> pikaVM_getInstructFromAsm g_PikaVMInsSet s = Some (g_PikaVMInsSet, PIKA_INS i)) \<and>
    ((\<forall>i. take 3 s \<noteq> ins_name i) \<longrightarrow> pikaVM_getInstructFromAsm g_PikaVMInsSet s = None)"
proof (intro conjI allI impI)
  fix i assume "take 3 s = ins_name i"
  moreover obtain ys c where "s = ys @ [c]" "length ys = 3" using assms by (cases s rule: rev_cases) auto
  ultimately have s: "s = ins_name i @ [c]" by simp
  then have "find_ins_idx_in_ins_set s VM_default_instruction_set = Some (Some (PIKA_INS i))"
    by (cases i) (simp_all add: find_ins_idx_in_ins_set_def VM_default_instruction_set_def ins_name_def PIKA_INS_def
      instruction_table_def)
  then show "pikaVM_getInstructFromAsm g_PikaVMInsSet s = Some (g_PikaVMInsSet, PIKA_INS i)"
    by (simp add: pikaVM_getInstructFromAsm_def g_PikaVMInsSet_def)
next
  assume "\<forall>i. take 3 s \<noteq> ins_name i"
  then have "find_ins_idx_loop s (instructions VM_default_instruction_set) = Some None"
    using assms ins_name_chars(1)
    by (intro find_ins_idx_none) (auto simp: VM_default_instruction_set_def dest!: table_ins_name)
  then have "find_ins_idx_in_ins_set s VM_default_instruction_set = Some None"
    by (simp add: find_ins_idx_in_ins_set_def VM_default_instruction_set_def instruction_table_def)
  then show "pikaVM_getInstructFromAsm g_PikaVMInsSet s = None"
    by (simp add: pikaVM_getInstructFromAsm_def g_PikaVMInsSet_def)
qed

theorem getInstructFromAsm_default_witness:
  "pikaVM_getInstructFromAsm g_PikaVMInsSet [CHR ''J'', CHR ''N'', CHR ''Z'', NUL] = Some (g_PikaVMInsSet, 32) \<and>
   pikaVM_getInstructFromAsm g_PikaVMInsSet [CHR ''A'', CHR ''D'', CHR ''D'', NUL] = None"
proof -
  have n: "ins_name INS_JNZ = ''JNZ''" "PIKA_INS INS_JNZ = 32"
    by (simp_all add: ins_name_def PIKA_INS_def instruction_table_def)
  have "ins_name i \<noteq> ''ADD''" for i by (cases i) (simp_all add: ins_name_def PIKA_INS_def instruction_table_def)
  then have "\<forall>i. ''ADD'' \<noteq> ins_name i" by metis
  then have "pikaVM_getInstructFromAsm g_PikaVMInsSet [CHR ''A'', CHR ''D'', CHR ''D'', NUL] = None"
    using getInstructFromAsm_default [of "[CHR ''A'', CHR ''D'', CHR ''D'', NUL]"] by (simp add: numeral_3_eq_3)
  moreover have "take 3 [CHR ''J'', CHR ''N'', CHR ''Z'', NUL] = ins_name INS_JNZ" by (simp add: n)
  ultimately show ?thesis
    using getInstructFromAsm_default [of "[CHR ''J'', CHR ''N'', CHR ''Z'', NUL]"] n(2) by fastforce
qed

section \<open>The buffer cells\<close>

text \<open>
  The content of a buffer cell under \<open>arg_append\<close> in the store of cells: the pool and the array use
  their cells only so.
\<close>

lemma buff_append_arg_append:
  assumes "heap_ok h" "cells h a = Some c" "serialized c" "releasable h c" "payload c = buf"
    and "buff_append buf bs = Some buf'"
  shows "\<exists>h' a' c'. arg_append h a bs (length bs) = Some (h', a') \<and> heap_ok h' \<and> cells h' a' = Some c' \<and>
    payload c' = buf' \<and> atype c' = atype c \<and> others h' = others h"
proof -
  have "length buf = asize c" using length_payload heap_okD [OF assms(1,2)] assms(5) by blast
  then have "fits (asize c + length bs)" "buf' = buf @ bs"
    using assms(6) by (auto simp: buff_append_def split: if_splits)
  with arg_append_ok [OF assms(1-4), of bs "length bs"] assms(5) show ?thesis by fastforce
qed

end
