(* ===== verification/Pika_VM.thy ===== *)
theory Pika_VM
  imports Pika_ByteCode Pika_Args
begin

text \<open>
  The control flow of the virtual machine, \<open>src/src/PikaVM.c\<close>: reading the units around the
  program counter, the searches that jumps, \<open>break\<close>, \<open>continue\<close>, \<open>raise\<close>, \<open>def\<close> and \<open>super\<close> are made of,
  the handlers that only steer, \<open>pikaVM_runInstructUnit\<close> and the loop that runs a frame.

  An instruction handler is an argument of the machine; what the loop relies on is the contract
  \<open>vm_handlers\<close>: a handler does not move the program counter and does not replace the code. The
  searches have no bound in the code where the loops below have none: running out of the code is
  \<open>None\<close>. No break point is set.
\<close>

section \<open>State\<close>

datatype TRY_STATE = TRY_STATE_NONE | TRY_STATE_INNER

datatype TRY_RESULT = TRY_RESULT_NONE | TRY_RESULT_RAISE

record PikaVMThread =
  try_state :: TRY_STATE
  try_result :: TRY_RESULT
  error_code :: int
  line_error_code :: nat
  try_error_code :: nat

record PikaVMFrame =
  jmp :: int
  pc :: int
  bytecode_frame :: ByteCodeFrame
  loop_deepth :: nat
  ins_cnt :: nat
  ireg :: "bool list"
  vm_thread :: PikaVMThread

definition VM_JMP_EXIT :: int where "VM_JMP_EXIT = -999"
definition VM_JMP_CONTINUE :: int where "VM_JMP_CONTINUE = -997"
definition VM_JMP_BREAK :: int where "VM_JMP_BREAK = -998"
definition VM_JMP_RAISE :: int where "VM_JMP_RAISE = -996"
definition VM_PC_EXIT :: int where "VM_PC_EXIT = -99999"
definition PIKA_REGIST_SIZE :: nat where "PIKA_REGIST_SIZE = 10"

text \<open>Eight-bit signed arithmetic.\<close>

definition i8 :: "int \<Rightarrow> int" where "i8 x = (x + 128) mod 256 - 128"

definition PikaVMFrame_setErrorCode :: "PikaVMFrame \<Rightarrow> int \<Rightarrow> PikaVMFrame" where
  "PikaVMFrame_setErrorCode vm e = vm\<lparr>vm_thread := (vm_thread vm)\<lparr>error_code := i8 e\<rparr>\<rparr>"

section \<open>Reading the code\<close>

definition PikaVMFrame_getInstructArraySize :: "PikaVMFrame \<Rightarrow> int" where
  "PikaVMFrame_getInstructArraySize vm = int (instructArray_getSize (instruct_array (bytecode_frame vm)))"

definition PikaVMFrame_getInstructUnitWithOffset :: "PikaVMFrame \<Rightarrow> int \<Rightarrow> InstructUnit option" where
  "PikaVMFrame_getInstructUnitWithOffset vm offset =
     instructArray_getByOffset (instruct_array (bytecode_frame vm)) (pc vm + offset)"

definition PikaVMFrame_getInstructNow :: "PikaVMFrame \<Rightarrow> InstructUnit option" where
  "PikaVMFrame_getInstructNow vm = instructArray_getByOffset (instruct_array (bytecode_frame vm)) (pc vm)"

definition PikaVMFrame_getInstructWithOffset :: "PikaVMFrame \<Rightarrow> int \<Rightarrow> nat option" where
  "PikaVMFrame_getInstructWithOffset vm offset =
     map_option instructUnit_getInstructIndex (PikaVMFrame_getInstructUnitWithOffset vm offset)"

definition PikaVMFrame_getBlockDeepthNow :: "PikaVMFrame \<Rightarrow> nat option" where
  "PikaVMFrame_getBlockDeepthNow vm = map_option instructUnit_getBlockDeepth (PikaVMFrame_getInstructNow vm)"

definition PikaVMFrame_getInvokeDeepthNow :: "PikaVMFrame \<Rightarrow> nat option" where
  "PikaVMFrame_getInvokeDeepthNow vm = map_option instructUnit_getInvokeDeepth (PikaVMFrame_getInstructNow vm)"

definition PikaVMFrame_getConstWithInstructUnit :: "PikaVMFrame \<Rightarrow> InstructUnit \<Rightarrow> string option" where
  "PikaVMFrame_getConstWithInstructUnit vm ins_unit =
     constPool_getByOffset (const_pool (bytecode_frame vm)) (instructUnit_getConstPoolIndex ins_unit)"

definition PikaVMFrame_getConstWithOffset :: "PikaVMFrame \<Rightarrow> int \<Rightarrow> string option" where
  "PikaVMFrame_getConstWithOffset vm offset =
     do { u \<leftarrow> PikaVMFrame_getInstructUnitWithOffset vm offset; PikaVMFrame_getConstWithInstructUnit vm u }"

abbreviation unit_size :: int where "unit_size \<equiv> int instructUnit_getSize"

section \<open>Jumps\<close>

text \<open>Back to the head of the loop around the program counter; its block depth.\<close>

partial_function (option) loopHead_loop :: "PikaVMFrame \<Rightarrow> nat \<Rightarrow> int \<Rightarrow> nat option" where
  "loopHead_loop vm blockDeepthNow offset0 =
     (let offset = offset0 - unit_size in do {
        u \<leftarrow> PikaVMFrame_getInstructUnitWithOffset vm offset;
        is_head \<leftarrow> (if instructUnit_getInvokeDeepth u = 0 \<and> instructUnit_getInstructIndex u = PIKA_INS INS_JEZ
                    then do { data \<leftarrow> PikaVMFrame_getConstWithInstructUnit vm u; Some (str_at data 0 = CHR ''2'') }
                    else Some False);
        if is_head then do {
          insLast \<leftarrow> PikaVMFrame_getInstructWithOffset vm (offset - unit_size);
          if insLast = PIKA_INS INS_GER \<or> blockDeepthNow \<le> instructUnit_getBlockDeepth u
          then loopHead_loop vm blockDeepthNow offset
          else Some (instructUnit_getBlockDeepth u)
        } else loopHead_loop vm blockDeepthNow offset
      })"

partial_function (option) loopEnd_loop :: "PikaVMFrame \<Rightarrow> nat \<Rightarrow> int \<Rightarrow> int option" where
  "loopEnd_loop vm blockDeepthGot offset0 =
     (let offset = offset0 + unit_size in do {
        u \<leftarrow> PikaVMFrame_getInstructUnitWithOffset vm offset;
        is_end \<leftarrow> (if instructUnit_getBlockDeepth u = blockDeepthGot \<and> instructUnit_getInstructIndex u = PIKA_INS INS_JMP
                   then do { data \<leftarrow> PikaVMFrame_getConstWithInstructUnit vm u;
                             Some (str_at data 0 = CHR ''-'' \<and> str_at data 1 = CHR ''1'') }
                   else Some False);
        if is_end then Some offset else loopEnd_loop vm blockDeepthGot offset
      })"

definition PikaVMFrame_getAddrOffsetOfJmpBack :: "PikaVMFrame \<Rightarrow> int option" where
  "PikaVMFrame_getAddrOffsetOfJmpBack vm = do {
     blockDeepthNow \<leftarrow> PikaVMFrame_getBlockDeepthNow vm;
     blockDeepthGot \<leftarrow> loopHead_loop vm blockDeepthNow 0;
     loopEnd_loop vm blockDeepthGot 0
   }"

text \<open>The counter \<open>blockNum\<close> has eight bits.\<close>

partial_function (option) jmpForward_loop :: "PikaVMFrame \<Rightarrow> nat \<Rightarrow> int \<Rightarrow> int \<Rightarrow> int option" where
  "jmpForward_loop vm thisBlockDeepth blockNum offset0 =
     (let offset = offset0 + unit_size in
      if PikaVMFrame_getInstructArraySize vm \<le> pc vm + offset then Some offset
      else do {
        u \<leftarrow> PikaVMFrame_getInstructUnitWithOffset vm offset;
        let n = (if instructUnit_getIsNewLine u \<noteq> 0 \<and> instructUnit_getBlockDeepth u \<le> thisBlockDeepth
                 then i8 (blockNum + 1) else blockNum);
        if jmp vm \<le> n then Some offset else jmpForward_loop vm thisBlockDeepth n offset
      })"

partial_function (option) jmpBackward_loop :: "PikaVMFrame \<Rightarrow> nat \<Rightarrow> int \<Rightarrow> int \<Rightarrow> int option" where
  "jmpBackward_loop vm thisBlockDeepth blockNum offset0 =
     (let offset = offset0 - unit_size in do {
        u \<leftarrow> PikaVMFrame_getInstructUnitWithOffset vm offset;
        let n = (if instructUnit_getIsNewLine u \<noteq> 0 \<and> instructUnit_getBlockDeepth u = thisBlockDeepth
                 then i8 (blockNum - 1) else blockNum);
        if n \<le> jmp vm then Some offset else jmpBackward_loop vm thisBlockDeepth n offset
      })"

definition PikaVMFrame_getAddrOffsetFromJmp :: "PikaVMFrame \<Rightarrow> int option" where
  "PikaVMFrame_getAddrOffsetFromJmp vm = do {
     thisBlockDeepth \<leftarrow> PikaVMFrame_getBlockDeepthNow vm;
     if 0 < jmp vm then jmpForward_loop vm thisBlockDeepth 0 0
     else if jmp vm < 0 then jmpBackward_loop vm thisBlockDeepth 0 0
     else Some 0
   }"

definition PikaVMFrame_getAddrOffsetOfBreak :: "PikaVMFrame \<Rightarrow> int option" where
  "PikaVMFrame_getAddrOffsetOfBreak vm = map_option (\<lambda>offset. offset + unit_size) (PikaVMFrame_getAddrOffsetOfJmpBack vm)"

definition PikaVMFrame_getAddrOffsetOfContinue :: "PikaVMFrame \<Rightarrow> int option" where
  "PikaVMFrame_getAddrOffsetOfContinue vm = PikaVMFrame_getAddrOffsetOfJmpBack vm"

text \<open>To the end of the \<open>try\<close> block; zero when the function ends first.\<close>

partial_function (option) raise_loop :: "PikaVMFrame \<Rightarrow> int \<Rightarrow> int option" where
  "raise_loop vm offset0 =
     (let offset = offset0 + unit_size in
      if PikaVMFrame_getInstructArraySize vm \<le> pc vm + offset then Some 0
      else do {
        ins \<leftarrow> PikaVMFrame_getInstructWithOffset vm offset;
        if ins = PIKA_INS INS_NTR then Some offset
        else if ins = PIKA_INS INS_RET then Some 0
        else raise_loop vm offset
      })"

definition PikaVMFrame_getAddrOffsetOfRaise :: "PikaVMFrame \<Rightarrow> int option" where
  "PikaVMFrame_getAddrOffsetOfRaise vm = raise_loop vm 0"

section \<open>Searches\<close>

text \<open>The offset where the search stops, and the unit it found; the direction is as the name says it.\<close>

partial_function (option) byteCodeFrame_findInstructUnit ::
  "ByteCodeFrame \<Rightarrow> int \<Rightarrow> nat \<Rightarrow> int \<Rightarrow> bool \<Rightarrow> (int \<times> InstructUnit option) option" where
  "byteCodeFrame_findInstructUnit bcframe iPcStart index iOffset0 bIsForward =
     (let iOffset = iOffset0 + (if bIsForward then - unit_size else unit_size) in
      if int (instructArray_getSize (instruct_array bcframe)) \<le> iPcStart + iOffset then Some (iOffset, None)
      else if iPcStart + iOffset < 0 then Some (iOffset, None)
      else do {
        unit \<leftarrow> instructArray_getByOffset (instruct_array bcframe) (iPcStart + iOffset);
        if index = instructUnit_getInstructIndex unit then Some (iOffset, Some unit)
        else byteCodeFrame_findInstructUnit bcframe iPcStart index iOffset bIsForward
      })"

definition byteCodeFrame_findInsForward :: "ByteCodeFrame \<Rightarrow> int \<Rightarrow> nat \<Rightarrow> int \<Rightarrow> (int \<times> InstructUnit option) option" where
  "byteCodeFrame_findInsForward bcframe pc_start index p_offset =
     byteCodeFrame_findInstructUnit bcframe pc_start index p_offset True"

definition byteCodeFrame_findInsUnitBackward :: "ByteCodeFrame \<Rightarrow> int \<Rightarrow> nat \<Rightarrow> int \<Rightarrow> (int \<times> InstructUnit option) option" where
  "byteCodeFrame_findInsUnitBackward bcframe pc_start index p_offset =
     byteCodeFrame_findInstructUnit bcframe pc_start index p_offset False"

definition find_super_class_name :: "ByteCodeFrame \<Rightarrow> int \<Rightarrow> string option" where
  "find_super_class_name bcframe pc_start = do {
     (offset, _) \<leftarrow> byteCodeFrame_findInsForward bcframe pc_start (PIKA_INS INS_CLS) 0;
     (_, unit_run) \<leftarrow> byteCodeFrame_findInsUnitBackward bcframe pc_start (PIKA_INS INS_RUN) offset;
     u \<leftarrow> unit_run;
     constPool_getByOffset (const_pool bcframe) (instructUnit_getConstPoolIndex u)
   }"

text \<open>The search back has only the upper bound: before the code it is undefined.\<close>

partial_function (option) selfClass_loop :: "PikaVMFrame \<Rightarrow> int \<Rightarrow> int option option" where
  "selfClass_loop vm offset0 =
     (let offset = offset0 - unit_size in
      if PikaVMFrame_getInstructArraySize vm \<le> pc vm + offset then Some None
      else do {
        ins \<leftarrow> PikaVMFrame_getInstructWithOffset vm offset;
        if ins = PIKA_INS INS_CLS then Some (Some offset) else selfClass_loop vm offset
      })"

partial_function (option) selfOut_loop :: "PikaVMFrame \<Rightarrow> int \<Rightarrow> string option option" where
  "selfOut_loop vm offset0 =
     (let offset = offset0 + unit_size in
      if PikaVMFrame_getInstructArraySize vm \<le> pc vm + offset then Some None
      else do {
        ins \<leftarrow> PikaVMFrame_getInstructWithOffset vm offset;
        if ins = PIKA_INS INS_OUT then map_option Some (PikaVMFrame_getConstWithOffset vm offset)
        else selfOut_loop vm offset
      })"

definition find_self_name :: "PikaVMFrame \<Rightarrow> string option option" where
  "find_self_name vm = do {
     offset \<leftarrow> selfClass_loop vm 0;
     (case offset of None \<Rightarrow> Some None | Some k \<Rightarrow> selfOut_loop vm k)
   }"

text \<open>The arguments of a call: the units before it, one invoke depth deeper. The unit is read before the bound is tested.\<close>

partial_function (option) inputArg_loop :: "PikaVMFrame \<Rightarrow> nat \<Rightarrow> int \<Rightarrow> nat \<Rightarrow> nat option" where
  "inputArg_loop vm invoke_deepth_this pc0 num =
     (let pc_this = pc0 - unit_size in do {
        u \<leftarrow> instructArray_getByOffset (instruct_array (bytecode_frame vm)) pc_this;
        if pc_this < 0 then Some num
        else if instructUnit_getInvokeDeepth u = invoke_deepth_this + 1 \<and>
           instructUnit_getInstructIndex u \<in> {PIKA_INS INS_OUT, PIKA_INS INS_NLS}
        then inputArg_loop vm invoke_deepth_this pc_this num
        else let n = (if instructUnit_getInvokeDeepth u = invoke_deepth_this + 1 then u32_add num 1 else num) in
        if instructUnit_getIsNewLine u \<noteq> 0 \<or> instructUnit_getInvokeDeepth u \<le> invoke_deepth_this then Some n
        else inputArg_loop vm invoke_deepth_this pc_this n
      })"

definition PikaVMFrame_getInputArgNum :: "PikaVMFrame \<Rightarrow> nat option" where
  "PikaVMFrame_getInputArgNum vm = do {
     d \<leftarrow> PikaVMFrame_getInvokeDeepthNow vm;
     inputArg_loop vm d (pc vm) 0
   }"

text \<open>The first line of the body of a \<open>def\<close>: the unit that becomes the method's start.\<close>

partial_function (option) defBody_loop :: "PikaVMFrame \<Rightarrow> nat \<Rightarrow> int \<Rightarrow> int option" where
  "defBody_loop vm thisBlockDeepth offset = do {
     u \<leftarrow> PikaVMFrame_getInstructUnitWithOffset vm offset;
     if instructUnit_getIsNewLine u \<noteq> 0 \<and> instructUnit_getBlockDeepth u = thisBlockDeepth + 1 then Some offset
     else defBody_loop vm thisBlockDeepth (offset + unit_size)
   }"

section \<open>Handlers that steer\<close>

type_synonym handler = "PikaVMFrame \<Rightarrow> string option \<Rightarrow> PikaVMFrame option"

definition VM_instruction_handler_NON :: handler where
  "VM_instruction_handler_NON vm data = Some vm"

definition VM_instruction_handler_TRY :: handler where
  "VM_instruction_handler_TRY vm data = Some (vm\<lparr>vm_thread := (vm_thread vm)\<lparr>try_state := TRY_STATE_INNER\<rparr>\<rparr>)"

definition VM_instruction_handler_EXP :: handler where
  "VM_instruction_handler_EXP vm data = Some (vm\<lparr>vm_thread := (vm_thread vm)\<lparr>try_error_code := 0\<rparr>\<rparr>)"

definition VM_instruction_handler_NTR :: handler where
  "VM_instruction_handler_NTR vm data = Some (vm\<lparr>vm_thread := (vm_thread vm)\<lparr>try_state := TRY_STATE_NONE\<rparr>\<rparr>)"

text \<open>\<open>jmp\<close> has 32 bits, the error code of \<open>try\<close> eight.\<close>

definition i32 :: "int \<Rightarrow> int" where "i32 x = (x + 2 ^ 31) mod 2 ^ 32 - 2 ^ 31"

definition VM_instruction_handler_JMP :: handler where
  "VM_instruction_handler_JMP vm data = do { d \<leftarrow> data; v \<leftarrow> fast_atoi d; Some (vm\<lparr>jmp := i32 v\<rparr>) }"

definition VM_instruction_handler_SER :: handler where
  "VM_instruction_handler_SER vm data = do {
     d \<leftarrow> data;
     v \<leftarrow> fast_atoi d;
     Some (vm\<lparr>vm_thread := (vm_thread vm)\<lparr>try_error_code := nat (v mod 256)\<rparr>\<rparr>)
   }"

text \<open>The condition flag of the block is kept in \<open>ireg\<close>, an array of ten.\<close>

definition VM_JEZ :: "PikaVMFrame \<Rightarrow> string option \<Rightarrow> bool \<Rightarrow> PikaVMFrame option" where
  "VM_JEZ vm data bAssert = do {
     thisBlockDeepth \<leftarrow> PikaVMFrame_getBlockDeepthNow vm;
     d \<leftarrow> data;
     v \<leftarrow> fast_atoi d;
     let jmp_expect = i32 v;
     regs \<leftarrow> wr (ireg vm) thisBlockDeepth (\<not> bAssert);
     let vm1 = vm\<lparr>ireg := regs\<rparr>;
     let vm2 = (if \<not> bAssert then vm1\<lparr>jmp := jmp_expect\<rparr> else vm1);
     Some (if jmp_expect = 2 \<and> \<not> bAssert then vm2\<lparr>loop_deepth := thisBlockDeepth\<rparr> else vm2)
   }"

definition VM_instruction_handler_NEL :: handler where
  "VM_instruction_handler_NEL vm data = do {
     thisBlockDeepth \<leftarrow> PikaVMFrame_getBlockDeepthNow vm;
     r \<leftarrow> rd (ireg vm) thisBlockDeepth;
     if \<not> r then do { d \<leftarrow> data; v \<leftarrow> fast_atoi d; Some (vm\<lparr>jmp := i32 v\<rparr>) } else Some vm
   }"

definition VM_instruction_handler_BRK :: handler where
  "VM_instruction_handler_BRK vm data = Some (vm\<lparr>jmp := VM_JMP_BREAK\<rparr>)"

definition VM_instruction_handler_CTN :: handler where
  "VM_instruction_handler_CTN vm data = Some (vm\<lparr>jmp := VM_JMP_CONTINUE\<rparr>)"

section \<open>Running\<close>

text \<open>On to the next line.\<close>

partial_function (option) nextLine_loop :: "PikaVMFrame \<Rightarrow> int \<Rightarrow> int option" where
  "nextLine_loop vm pc_next =
     (if PikaVMFrame_getInstructArraySize vm \<le> pc_next then Some VM_PC_EXIT
      else do {
        ins_next \<leftarrow> instructArray_getByOffset (instruct_array (bytecode_frame vm)) pc_next;
        if instructUnit_getIsNewLine ins_next \<noteq> 0 then Some pc_next else nextLine_loop vm (pc_next + unit_size)
      })"

text \<open>Where the machine goes on, from what the handler left in \<open>jmp\<close>.\<close>

definition vm_nextPc :: "PikaVMFrame \<Rightarrow> (PikaVMFrame \<times> int) option" where
  "vm_nextPc vm =
     (if jmp vm = VM_JMP_EXIT then Some (vm, VM_PC_EXIT)
      else if jmp vm = VM_JMP_BREAK
      then do { offset \<leftarrow> PikaVMFrame_getAddrOffsetOfBreak vm; Some (vm, pc vm + offset) }
      else if jmp vm = VM_JMP_CONTINUE
      then do { offset \<leftarrow> PikaVMFrame_getAddrOffsetOfContinue vm; Some (vm, pc vm + offset) }
      else if jmp vm = VM_JMP_RAISE
      then do {
        offset \<leftarrow> PikaVMFrame_getAddrOffsetOfRaise vm;
        Some (if offset = 0
              then (vm\<lparr>vm_thread := (vm_thread vm)\<lparr>try_result := TRY_RESULT_RAISE\<rparr>\<rparr>, VM_PC_EXIT)
              else (vm\<lparr>vm_thread := (vm_thread vm)\<lparr>try_result := TRY_RESULT_NONE\<rparr>\<rparr>, pc vm + offset))
      }
      else if jmp vm \<noteq> 0
      then do { offset \<leftarrow> PikaVMFrame_getAddrOffsetFromJmp vm; Some (vm, pc vm + offset) }
      else if error_code (vm_thread vm) \<noteq> 0
      then do { p \<leftarrow> nextLine_loop vm (pc vm + unit_size); Some (vm, p) }
      else Some (vm, pc vm + unit_size))"

text \<open>An error, or a request to exit from outside, ends the \<open>try\<close> block or the frame.\<close>

definition vm_checkError :: "bool \<Rightarrow> PikaVMFrame \<Rightarrow> PikaVMFrame" where
  "vm_checkError signal vm =
     (if error_code (vm_thread vm) \<noteq> 0 \<or> signal
      then vm\<lparr>jmp := (if try_state (vm_thread vm) = TRY_STATE_INNER then VM_JMP_RAISE else VM_JMP_EXIT)\<rparr>
      else vm)"

text \<open>The end of the code ends the frame.\<close>

definition vm_endPc :: "PikaVMFrame \<Rightarrow> int \<Rightarrow> int" where
  "vm_endPc vm pc_next = (if PikaVMFrame_getInstructArraySize vm \<le> pc_next then VM_PC_EXIT else pc_next)"

text \<open>One unit. The handlers are indexed by the number of the instruction.\<close>

definition pikaVM_runInstructUnit ::
  "(nat \<Rightarrow> handler) \<Rightarrow> bool \<Rightarrow> VMInsSet \<Rightarrow> PikaVMFrame \<Rightarrow> InstructUnit \<Rightarrow> (VMInsSet \<times> PikaVMFrame \<times> int) option" where
  "pikaVM_runInstructUnit handlers signal g vm ins_unit = do {
     (g1, ins) \<leftarrow> instructUnit_getInstruct g (instructUnit_getInstructIndex ins_unit);
     (op_str, op_idx) \<leftarrow> ins;
     vm1 \<leftarrow> handlers op_idx vm (PikaVMFrame_getConstWithInstructUnit vm ins_unit);
     (vm2, pc_next) \<leftarrow> vm_nextPc (vm_checkError signal vm1);
     Some (g1, vm2\<lparr>jmp := 0\<rparr>, vm_endPc vm2 pc_next)
   }"

text \<open>Back to the first unit of the line, for the error message.\<close>

partial_function (option) lineHead_loop :: "PikaVMFrame \<Rightarrow> int \<Rightarrow> int option" where
  "lineHead_loop vm p = do {
     u \<leftarrow> instructArray_getByOffset (instruct_array (bytecode_frame vm)) p;
     if instructUnit_getIsNewLine u \<noteq> 0 then Some p else lineHead_loop vm (p - unit_size)
   }"

definition vm_running :: "PikaVMFrame \<Rightarrow> bool" where
  "vm_running vm \<longleftrightarrow> pc vm < PikaVMFrame_getInstructArraySize vm \<and> pc vm \<noteq> VM_PC_EXIT"

text \<open>A new line clears the errors of the one before it.\<close>

definition vm_newLine :: "InstructUnit \<Rightarrow> PikaVMFrame \<Rightarrow> PikaVMFrame" where
  "vm_newLine u vm = (if instructUnit_getIsNewLine u \<noteq> 0
     then vm\<lparr>vm_thread := (vm_thread vm)\<lparr>error_code := 0, line_error_code := 0\<rparr>\<rparr> else vm)"

text \<open>After an error: the line is looked up for the message, and the code is kept for \<open>except\<close>.\<close>

definition vm_lineError :: "int \<Rightarrow> PikaVMFrame \<Rightarrow> PikaVMFrame option" where
  "vm_lineError pc_this vm =
     (if error_code (vm_thread vm) = 0 then Some vm
      else do {
        _ \<leftarrow> lineHead_loop vm pc_this;
        let e = nat (error_code (vm_thread vm) mod 256);
        Some (vm\<lparr>vm_thread := (vm_thread vm)\<lparr>line_error_code := e,
          try_error_code := (if try_state (vm_thread vm) = TRY_STATE_NONE
                             then try_error_code (vm_thread vm) else e)\<rparr>\<rparr>)
      })"

text \<open>
  One round of the loop of \<open>__pikaVM_runByteCodeFrameWithState\<close>; \<open>signal\<close> is looked at once for every
  instruction.
\<close>

definition vm_round ::
  "(nat \<Rightarrow> handler) \<Rightarrow> (nat \<Rightarrow> bool) \<Rightarrow> VMInsSet \<times> PikaVMFrame \<Rightarrow> (VMInsSet \<times> PikaVMFrame) option" where
  "vm_round handlers signal = (\<lambda>(g, vm). do {
     u \<leftarrow> PikaVMFrame_getInstructNow vm;
     (g1, vm1, p) \<leftarrow> pikaVM_runInstructUnit handlers (signal (ins_cnt vm)) g (vm_newLine u vm) u;
     vm2 \<leftarrow> vm_lineError (pc vm) (vm1\<lparr>pc := p, ins_cnt := u32_add (ins_cnt vm1) 1\<rparr>);
     Some (g1, vm2)
   })"

partial_function (option) vm_loop ::
  "(nat \<Rightarrow> handler) \<Rightarrow> (nat \<Rightarrow> bool) \<Rightarrow> VMInsSet \<times> PikaVMFrame \<Rightarrow> (VMInsSet \<times> PikaVMFrame) option" where
  "vm_loop handlers signal s =
     (if vm_running (snd s) then do { s' \<leftarrow> vm_round handlers signal s; vm_loop handlers signal s' } else Some s)"

text \<open>A new frame; the start that a caller asks for goes through a 16-bit argument.\<close>

definition PikaVMFrame_create :: "ByteCodeFrame \<Rightarrow> int \<Rightarrow> PikaVMThread \<Rightarrow> PikaVMFrame" where
  "PikaVMFrame_create bytecode start thread = \<lparr>
     jmp = 0, pc = start, bytecode_frame = bytecode, loop_deepth = 0, ins_cnt = 0,
     ireg = replicate PIKA_REGIST_SIZE False,
     vm_thread = thread\<lparr>error_code := 0, line_error_code := 0, try_error_code := 0\<rparr> \<rparr>"

definition pikaVM_runByteCodeFrameWithState ::
  "(nat \<Rightarrow> handler) \<Rightarrow> (nat \<Rightarrow> bool) \<Rightarrow> VMInsSet \<Rightarrow> ByteCodeFrame \<Rightarrow> nat \<Rightarrow> PikaVMThread \<Rightarrow> (VMInsSet \<times> PikaVMFrame) option" where
  "pikaVM_runByteCodeFrameWithState handlers signal g bytecode start thread =
     vm_loop handlers signal (g, PikaVMFrame_create bytecode (int (start mod 2 ^ 16)) thread)"

section \<open>The code in memory\<close>

definition code_rep :: "ByteCodeFrame \<Rightarrow> InstructUnit list \<Rightarrow> bool" where
  "code_rep bf us \<longleftrightarrow> ia_size (instruct_array bf) = 4 * length us \<and>
     (\<exists>rest. ia_content_start (instruct_array bf) = Some (concat (map unit_bytes us) @ rest))"

lemma code_unit: "code_rep bf us \<Longrightarrow> j < length us \<Longrightarrow> instructArray_getByOffset (instruct_array bf) (4 * int j) = Some (us ! j)"
  using instructArray_getByOffset_start by (auto simp: code_rep_def)

lemma code_size: "code_rep (bytecode_frame vm) us \<Longrightarrow> PikaVMFrame_getInstructArraySize vm = 4 * int (length us)"
  by (simp add: code_rep_def PikaVMFrame_getInstructArraySize_def instructArray_getSize_def)

lemma code_offset:
  assumes "code_rep (bytecode_frame vm) us" "pc vm = 4 * int p" "p + k < length us"
  shows "PikaVMFrame_getInstructUnitWithOffset vm (4 * int k) = Some (us ! (p + k))"
  using code_unit [OF assms(1,3)] by (simp add: PikaVMFrame_getInstructUnitWithOffset_def assms(2) distrib_left)

lemma code_now: "code_rep (bytecode_frame vm) us \<Longrightarrow> pc vm = 4 * int p \<Longrightarrow> p < length us \<Longrightarrow> PikaVMFrame_getInstructNow vm = Some (us ! p)"
  by (simp add: PikaVMFrame_getInstructNow_def code_unit)

lemma unit_size_4 [simp]: "unit_size = 4"
  by (simp add: instructUnit_getSize_def)

section \<open>Forward jumps\<close>

text \<open>The lines that count for a jump from block depth \<open>d\<close>: those not nested deeper.\<close>

definition leads :: "nat \<Rightarrow> InstructUnit \<Rightarrow> bool" where
  "leads d u \<longleftrightarrow> instructUnit_getIsNewLine u \<noteq> 0 \<and> instructUnit_getBlockDeepth u \<le> d"

definition leaders :: "nat \<Rightarrow> InstructUnit list \<Rightarrow> nat \<Rightarrow> nat \<Rightarrow> nat" where
  "leaders d us a b = length (filter (\<lambda>m. leads d (us ! m)) [a..<b])"

lemma leaders_step: "a < b \<Longrightarrow> leaders d us a b = of_bool (leads d (us ! a)) + leaders d us (Suc a) b"
  by (simp add: leaders_def upt_conv_Cons)

lemma leaders_empty [simp]: "leaders d us a a = 0"
  by (simp add: leaders_def)

lemma i8_small: "0 \<le> n \<Longrightarrow> n \<le> 127 \<Longrightarrow> i8 n = n"
  by (simp add: i8_def)

lemma jmpForward_step:
  assumes "code_rep (bytecode_frame vm) us" "pc vm = 4 * int p"
  shows "p + Suc k = length us \<Longrightarrow> jmpForward_loop vm d n (4 * int k) = Some (4 * int (Suc k))"
    and "p + Suc k < length us \<Longrightarrow> jmpForward_loop vm d n (4 * int k) =
      (let n' = if leads d (us ! (p + Suc k)) then i8 (n + 1) else n
       in if jmp vm \<le> n' then Some (4 * int (Suc k)) else jmpForward_loop vm d n' (4 * int (Suc k)))"
proof -
  note size = code_size [OF assms(1)] and simps = jmpForward_loop.simps [of vm d n]
  have off: "4 * int k + 4 = 4 * int (Suc k)" by simp
  show "p + Suc k = length us \<Longrightarrow> jmpForward_loop vm d n (4 * int k) = Some (4 * int (Suc k))"
    using size by (auto simp: simps assms(2))
  assume l: "p + Suc k < length us"
  then have "\<not> PikaVMFrame_getInstructArraySize vm \<le> 4 * int p + 4 * int (Suc k)" using size by simp
  with code_offset [OF assms l] show "jmpForward_loop vm d n (4 * int k) =
      (let n' = if leads d (us ! (p + Suc k)) then i8 (n + 1) else n
       in if jmp vm \<le> n' then Some (4 * int (Suc k)) else jmpForward_loop vm d n' (4 * int (Suc k)))"
    by (subst simps) (auto simp: assms(2) off Let_def leads_def simp del: of_nat_Suc)
qed

lemma jmpForward_returns:
  assumes "code_rep (bytecode_frame vm) us" "pc vm = 4 * int p" "p + k < length us"
  shows "\<exists>t. jmpForward_loop vm d n (4 * int k) = Some (4 * int t) \<and> k < t \<and> p + t \<le> length us"
  using assms(3)
proof (induction "length us - (p + k)" arbitrary: k n)
  case (Suc m)
  note step = jmpForward_step [OF assms(1,2), of k d n]
  show ?case
  proof (cases "p + Suc k < length us")
    case False
    then have "p + Suc k = length us" using Suc.prems by simp
    with step(1) show ?thesis by (intro exI [of _ "Suc k"]) simp
  next
    case True
    let ?n = "if leads d (us ! (p + Suc k)) then i8 (n + 1) else n"
    have m: "m = length us - (p + Suc k)" using Suc.hyps(2) by simp
    obtain t where "jmpForward_loop vm d ?n (4 * int (Suc k)) = Some (4 * int t)" "Suc k < t" "p + t \<le> length us"
      using Suc.hyps(1) [OF m True] by blast
    then show ?thesis
      using step(2) [OF True] True
      by (cases "jmp vm \<le> ?n") (auto simp: Let_def simp del: of_nat_Suc intro: exI [of _ "Suc k"] exI [of _ t])
  qed
qed simp

lemma jmpForward_lands:
  assumes "code_rep (bytecode_frame vm) us" "pc vm = 4 * int p" "p + k < length us"
    and "0 \<le> n" "n < jmp vm" "jmp vm \<le> 127"
  shows "\<exists>t > k. jmpForward_loop vm d n (4 * int k) = Some (4 * int t) \<and> p + t \<le> length us \<and>
    (if p + t = length us then n + int (leaders d us (Suc (p + k)) (length us)) < jmp vm
     else leads d (us ! (p + t)) \<and> n + int (leaders d us (Suc (p + k)) (Suc (p + t))) = jmp vm)"
  using assms(3-5)
proof (induction "length us - (p + k)" arbitrary: k n)
  case (Suc m)
  note step = jmpForward_step [OF assms(1,2), of k d n]
  show ?case
  proof (cases "p + Suc k < length us")
    case False
    then have e: "p + Suc k = length us" using Suc.prems by simp
    then have "leaders d us (Suc (p + k)) (length us) = 0" using leaders_empty [of d us "Suc (p + k)"] by simp
    with e step(1) Suc.prems show ?thesis by (intro exI [of _ "Suc k"]) auto
  next
    case True
    let ?l = "leads d (us ! (p + Suc k))"
    let ?n = "if ?l then n + 1 else n"
    have i8: "(if ?l then i8 (n + 1) else n) = ?n" using Suc.prems assms(6) by (simp add: i8_small)
    have m: "m = length us - (p + Suc k)" using Suc.hyps(2) by simp
    show ?thesis
    proof (cases "jmp vm \<le> ?n")
      case True
      then have "?l" "jmp vm = n + 1" using Suc.prems by (auto split: if_splits)
      moreover from this have "leaders d us (Suc (p + k)) (Suc (p + Suc k)) = 1"
        using leaders_step [of "Suc (p + k)" "Suc (p + Suc k)" d us] by simp
      ultimately show ?thesis
        using step(2) \<open>p + Suc k < length us\<close> True i8 by (intro exI [of _ "Suc k"]) (auto simp: Let_def)
    next
      case False
      then have n: "0 \<le> ?n" "?n < jmp vm" using Suc.prems by auto
      obtain t where t: "Suc k < t" "jmpForward_loop vm d ?n (4 * int (Suc k)) = Some (4 * int t)" "p + t \<le> length us"
        "if p + t = length us then ?n + int (leaders d us (Suc (p + Suc k)) (length us)) < jmp vm
         else leads d (us ! (p + t)) \<and> ?n + int (leaders d us (Suc (p + Suc k)) (Suc (p + t))) = jmp vm"
        using Suc.hyps(1) [OF m True n] by blast
      have c: "leaders d us (Suc (p + k)) b = of_bool ?l + leaders d us (Suc (p + Suc k)) b" if "p + Suc k < b" for b
        using leaders_step [of "Suc (p + k)" b d us] that by simp
      have "jmpForward_loop vm d n (4 * int k) = Some (4 * int t)"
        using step(2) [OF True] False i8 t(2) by (simp add: Let_def del: of_nat_Suc)
      then show ?thesis
        using t c [of "length us"] c [of "Suc (p + t)"] True
        by (intro exI [of _ t]) (auto split: if_splits)
    qed
  qed
qed simp

section \<open>Where a jump can go\<close>

lemmas loopEnd_induct = loopEnd_loop.raw_induct [rotated, consumes 1, case_names step]
lemmas raise_induct = raise_loop.raw_induct [rotated, consumes 1, case_names step]
lemmas jmpForward_induct = jmpForward_loop.raw_induct [rotated, consumes 1, case_names step]
lemmas jmpBackward_induct = jmpBackward_loop.raw_induct [rotated, consumes 1, case_names step]
lemmas nextLine_induct = nextLine_loop.raw_induct [rotated, consumes 1, case_names step]

definition aligned :: "int \<Rightarrow> bool" where
  "aligned p \<longleftrightarrow> 0 \<le> p \<and> 4 dvd p"

lemma aligned_add [simp]: "aligned p \<Longrightarrow> aligned (p + 4)"
  by (simp add: aligned_def dvd_add)

lemma loopEnd_aligned: "loopEnd_loop vm d off = Some r \<Longrightarrow> 4 dvd off \<Longrightarrow> off < r \<and> 4 dvd r"
proof (induction rule: loopEnd_induct)
  case (step loop vm d off r)
  from step(2) obtain u b where "PikaVMFrame_getInstructUnitWithOffset vm (off + 4) = Some u"
    "(if b then Some (off + 4) else loop vm d (off + 4)) = Some r"
    by (auto simp: Let_def bind_eq_Some_conv)
  then show ?case using step(1) [of vm d "off + 4" r] step(3) by (cases b) fastforce+
qed

lemma raise_aligned: "raise_loop vm off = Some r \<Longrightarrow> aligned off \<Longrightarrow> aligned r"
proof (induction rule: raise_induct)
  case (step loop vm off r)
  have 0: "aligned 0" "aligned (off + 4)" using step(3) by (simp_all add: aligned_def)
  from step(2) have "r = 0 \<or> r = off + 4 \<or> loop vm (off + 4) = Some r"
    by (simp add: Let_def split: if_splits bind_splits)
  then show ?case using 0 step(1) [of vm "off + 4" r] by blast
qed

lemma jmpForward_aligned: "jmpForward_loop vm d n off = Some r \<Longrightarrow> 4 dvd off \<Longrightarrow> off < r \<and> 4 dvd r"
proof (induction rule: jmpForward_induct)
  case (step loop vm d n off r)
  have d: "4 dvd off + 4" using step(3) by simp
  from step(2) have "r = off + 4 \<or> (\<exists>n'. loop vm d n' (off + 4) = Some r)"
    by (simp add: Let_def split: if_splits bind_splits) blast+
  then show ?case using step(1) [OF _ d] d by fastforce
qed

lemma jmpBackward_aligned:
  "jmpBackward_loop vm d n off = Some r \<Longrightarrow> 4 dvd off \<Longrightarrow> 4 dvd r \<and> 0 \<le> pc vm + r"
proof (induction rule: jmpBackward_induct)
  case (step loop vm d n off r)
  have d: "4 dvd off - 4" using step(3) by simp
  from step(2) have "0 \<le> pc vm + (off - 4)"
    by (auto simp: Let_def bind_eq_Some_conv PikaVMFrame_getInstructUnitWithOffset_def instructArray_getByOffset_def
        split: if_splits)
  moreover from step(2) have "r = off - 4 \<or> (\<exists>n'. loop vm d n' (off - 4) = Some r)"
    by (simp add: Let_def split: if_splits bind_splits) blast+
  ultimately show ?case using step(1) [OF _ d] d by fastforce
qed

lemma nextLine_aligned: "nextLine_loop vm p = Some r \<Longrightarrow> aligned p \<Longrightarrow> r = VM_PC_EXIT \<or> aligned r"
proof (induction rule: nextLine_induct)
  case (step loop vm p r)
  from step(2) have "r = VM_PC_EXIT \<or> r = p \<or> loop vm (p + 4) = Some r"
    by (simp split: if_splits bind_splits)
  then show ?case using step(1) [of vm "p + 4" r] step(3) by auto
qed

lemma vm_nextPc_aligned:
  assumes "vm_nextPc vm = Some (vm', p)" "aligned (pc vm)"
  shows "p = VM_PC_EXIT \<or> aligned p"
proof -
  have jb: "aligned (pc vm + k)" if "PikaVMFrame_getAddrOffsetOfJmpBack vm = Some k" for k
    using that loopEnd_aligned [of vm _ 0 k] assms(2)
    by (fastforce simp: PikaVMFrame_getAddrOffsetOfJmpBack_def bind_eq_Some_conv aligned_def)
  have fj: "aligned (pc vm + k)" if "PikaVMFrame_getAddrOffsetFromJmp vm = Some k" for k
    using that jmpForward_aligned [of vm _ 0 0 k] jmpBackward_aligned [of vm _ 0 0 k] assms(2)
    by (fastforce simp: PikaVMFrame_getAddrOffsetFromJmp_def bind_eq_Some_conv aligned_def split: if_splits)
  have ra: "aligned (pc vm + k)" if "raise_loop vm 0 = Some k" for k
    using raise_aligned [OF that] assms(2) by (auto simp: aligned_def)
  have nl: "p = VM_PC_EXIT \<or> aligned p" if "nextLine_loop vm (pc vm + 4) = Some p" for p
    using nextLine_aligned [OF that] assms(2) by simp
  show ?thesis
    using assms jb fj ra nl
    by (auto simp: vm_nextPc_def bind_eq_Some_conv PikaVMFrame_getAddrOffsetOfBreak_def
        PikaVMFrame_getAddrOffsetOfContinue_def PikaVMFrame_getAddrOffsetOfRaise_def add.assoc [symmetric]
        split: if_splits)
qed

lemma vm_nextPc_keeps: "vm_nextPc vm = Some (vm', p) \<Longrightarrow> bytecode_frame vm' = bytecode_frame vm \<and> pc vm' = pc vm \<and>
    ins_cnt vm' = ins_cnt vm \<and> error_code (vm_thread vm') = error_code (vm_thread vm)"
  by (auto simp: vm_nextPc_def bind_eq_Some_conv split: if_splits)

section \<open>The contract of the handlers\<close>

lemma vm_parts [simp]:
  "pc (vm_checkError sg vm) = pc vm" "bytecode_frame (vm_checkError sg vm) = bytecode_frame vm"
  "ins_cnt (vm_checkError sg vm) = ins_cnt vm"
  "pc (vm_newLine u vm) = pc vm" "bytecode_frame (vm_newLine u vm) = bytecode_frame vm"
  "ins_cnt (vm_newLine u vm) = ins_cnt vm" "jmp (vm_newLine u vm) = jmp vm"
  by (simp_all add: vm_checkError_def vm_newLine_def)

lemma vm_lineError_keeps:
  "vm_lineError q vm = Some vm' \<Longrightarrow> pc vm' = pc vm \<and> bytecode_frame vm' = bytecode_frame vm \<and>
    ins_cnt vm' = ins_cnt vm \<and> jmp vm' = jmp vm"
  by (auto simp: vm_lineError_def bind_eq_Some_conv Let_def split: if_splits)

lemma run_unit_conv:
  "pikaVM_runInstructUnit handlers sg g vm u = Some (g', vm', p) \<longleftrightarrow>
   (\<exists>name i vm1 vm2 q. instructUnit_getInstruct g (instructUnit_getInstructIndex u) = Some (g', Some (name, i)) \<and>
      handlers i vm (PikaVMFrame_getConstWithInstructUnit vm u) = Some vm1 \<and>
      vm_nextPc (vm_checkError sg vm1) = Some (vm2, q) \<and> vm' = vm2\<lparr>jmp := 0\<rparr> \<and>
      p = vm_endPc vm2 q)"
  by (auto simp: pikaVM_runInstructUnit_def bind_eq_Some_conv)

locale vm_handlers =
  fixes handlers :: "nat \<Rightarrow> handler"
  assumes keeps_code: "handlers i vm data = Some vm' \<Longrightarrow>
    pc vm' = pc vm \<and> bytecode_frame vm' = bytecode_frame vm \<and> ins_cnt vm' = ins_cnt vm"
begin

lemma run_unit_keeps:
  assumes "pikaVM_runInstructUnit handlers sg g vm u = Some (g', vm', p)"
  shows "pc vm' = pc vm \<and> bytecode_frame vm' = bytecode_frame vm \<and> ins_cnt vm' = ins_cnt vm"
proof -
  obtain i vm1 vm2 q where s: "handlers i vm (PikaVMFrame_getConstWithInstructUnit vm u) = Some vm1"
    "vm_nextPc (vm_checkError sg vm1) = Some (vm2, q)" "vm' = vm2\<lparr>jmp := 0\<rparr>"
    using assms unfolding run_unit_conv by blast
  then show ?thesis using vm_nextPc_keeps [OF s(2)] keeps_code [OF s(1)] by simp
qed

lemma run_unit_pc:
  assumes "pikaVM_runInstructUnit handlers sg g vm u = Some (g', vm', p)" "aligned (pc vm)"
  shows "p = VM_PC_EXIT \<or> aligned p"
proof -
  obtain i vm1 vm2 q where s: "handlers i vm (PikaVMFrame_getConstWithInstructUnit vm u) = Some vm1"
    "vm_nextPc (vm_checkError sg vm1) = Some (vm2, q)"
    "p = vm_endPc vm2 q"
    using assms(1) unfolding run_unit_conv by blast
  then show ?thesis using vm_nextPc_aligned [OF s(2)] keeps_code [OF s(1)] assms(2) by (simp add: vm_endPc_def)
qed

lemma vm_round_inv:
  assumes "vm_round handlers sg (g, vm) = Some (g', vm')" "aligned (pc vm)"
  shows "bytecode_frame vm' = bytecode_frame vm \<and> (pc vm' = VM_PC_EXIT \<or> aligned (pc vm')) \<and>
    ins_cnt vm' = u32_add (ins_cnt vm) 1"
proof -
  obtain u vm1 p where s: "pikaVM_runInstructUnit handlers (sg (ins_cnt vm)) g (vm_newLine u vm) u = Some (g', vm1, p)"
    "vm_lineError (pc vm) (vm1\<lparr>pc := p, ins_cnt := u32_add (ins_cnt vm1) 1\<rparr>) = Some vm'"
    using assms(1) by (auto simp: vm_round_def bind_eq_Some_conv)
  then show ?thesis using run_unit_keeps [OF s(1)] run_unit_pc [OF s(1)] vm_lineError_keeps [OF s(2)] assms(2) by simp
qed

end

text \<open>The states that the loop goes through.\<close>

inductive vm_reach ::
  "(nat \<Rightarrow> handler) \<Rightarrow> (nat \<Rightarrow> bool) \<Rightarrow> VMInsSet \<times> PikaVMFrame \<Rightarrow> VMInsSet \<times> PikaVMFrame \<Rightarrow> bool"
  for handlers signal s0 where
  vm_start: "vm_reach handlers signal s0 s0"
| vm_next: "vm_reach handlers signal s0 s \<Longrightarrow> vm_running (snd s) \<Longrightarrow> vm_round handlers signal s = Some s' \<Longrightarrow>
    vm_reach handlers signal s0 s'"

lemma aligned_index: "aligned p \<Longrightarrow> p < 4 * int n \<Longrightarrow> \<exists>j < n. p = 4 * int j"
  by (auto simp: aligned_def dvd_def intro!: exI [of _ "nat (p div 4)"])

lemma vm_running_index:
  assumes "vm_running vm" "code_rep (bytecode_frame vm) us" "pc vm = VM_PC_EXIT \<or> aligned (pc vm)"
  shows "\<exists>j < length us. pc vm = 4 * int j \<and> PikaVMFrame_getInstructNow vm = Some (us ! j)"
  using assms aligned_index [of "pc vm" "length us"] code_size [OF assms(2)] code_now [OF assms(2)]
  by (auto simp: vm_running_def)

context vm_handlers
begin

lemma vm_reach_inv:
  assumes "vm_reach handlers sg s0 s" "aligned (pc (snd s0))"
  shows "bytecode_frame (snd s) = bytecode_frame (snd s0) \<and> (pc (snd s) = VM_PC_EXIT \<or> aligned (pc (snd s)))"
  using assms(1)
proof induction
  case vm_start
  then show ?case using assms(2) by simp
next
  case (vm_next s s')
  have "aligned (pc (snd s))" using vm_next by (auto simp: vm_running_def)
  moreover have "vm_round handlers sg (fst s, snd s) = Some (fst s', snd s')" using vm_next.hyps(3) by simp
  ultimately show ?case using vm_round_inv vm_next.IH by metis
qed

end

text \<open>The handlers above, by the number of their instruction; the others are not described here.\<close>

definition control_handlers :: "nat \<Rightarrow> handler" where
  "control_handlers i =
     (if i = PIKA_INS INS_NON then VM_instruction_handler_NON
      else if i = PIKA_INS INS_TRY then VM_instruction_handler_TRY
      else if i = PIKA_INS INS_EXP then VM_instruction_handler_EXP
      else if i = PIKA_INS INS_NTR then VM_instruction_handler_NTR
      else if i = PIKA_INS INS_JMP then VM_instruction_handler_JMP
      else if i = PIKA_INS INS_SER then VM_instruction_handler_SER
      else if i = PIKA_INS INS_NEL then VM_instruction_handler_NEL
      else if i = PIKA_INS INS_BRK then VM_instruction_handler_BRK
      else if i = PIKA_INS INS_CTN then VM_instruction_handler_CTN
      else (\<lambda>vm data. None))"

lemmas control_handler_defs = VM_instruction_handler_NON_def VM_instruction_handler_TRY_def
  VM_instruction_handler_EXP_def VM_instruction_handler_NTR_def VM_instruction_handler_JMP_def
  VM_instruction_handler_SER_def VM_instruction_handler_NEL_def VM_instruction_handler_BRK_def
  VM_instruction_handler_CTN_def

interpretation control: vm_handlers control_handlers
  by unfold_locales
    (auto simp: control_handlers_def control_handler_defs bind_eq_Some_conv split: if_splits)

section \<open>Running to the end\<close>

lemma raise_returns:
  assumes "code_rep (bytecode_frame vm) us" "pc vm = 4 * int p" "p + k < length us"
  shows "\<exists>t. raise_loop vm (4 * int k) = Some (4 * int t)"
  using assms(3)
proof (induction "length us - (p + k)" arbitrary: k)
  case (Suc m)
  note size = code_size [OF assms(1)]
  have off: "4 * int k + 4 = 4 * int (Suc k)" by simp
  show ?case
  proof (cases "p + Suc k < length us")
    case False
    then have "PikaVMFrame_getInstructArraySize vm \<le> pc vm + (4 * int k + 4)"
      using size assms(2) Suc.prems by simp
    then show ?thesis by (intro exI [of _ 0]) (simp add: raise_loop.simps [of vm "4 * int k"])
  next
    case True
    then have l: "\<not> PikaVMFrame_getInstructArraySize vm \<le> pc vm + (4 * int k + 4)"
      using size assms(2) by simp
    have m: "m = length us - (p + Suc k)" using Suc.hyps(2) by simp
    have u: "PikaVMFrame_getInstructWithOffset vm (4 * int k + 4) = Some (instructUnit_getInstructIndex (us ! (p + Suc k)))"
      using code_offset [OF assms(1,2) True] unfolding off PikaVMFrame_getInstructWithOffset_def by simp
    obtain t where "raise_loop vm (4 * int k + 4) = Some (4 * int t)"
      using Suc.hyps(1) [OF m True] unfolding off by auto
    then have "raise_loop vm (4 * int k) \<in> {Some (4 * int (Suc k)), Some (4 * int 0), Some (4 * int t)}"
      using l u by (simp add: raise_loop.simps [of vm "4 * int k"] Let_def)
    then show ?thesis by blast
  qed
qed simp

lemma lineHead_returns:
  assumes "code_rep (bytecode_frame vm) us" "instructUnit_getIsNewLine (us ! 0) \<noteq> 0" "j < length us"
  shows "\<exists>r. lineHead_loop vm (4 * int j) = Some r"
  using assms(3)
proof (induction j)
  case 0
  then show ?case using code_unit [OF assms(1), of 0] assms(2) by (simp add: lineHead_loop.simps [of vm 0])
next
  case (Suc j)
  have "4 * int (Suc j) - 4 = 4 * int j" by simp
  then show ?case
    using Suc code_unit [OF assms(1), of "Suc j"]
    by (cases "instructUnit_getIsNewLine (us ! Suc j) = 0")
      (simp_all add: lineHead_loop.simps [of vm "4 * int (Suc j)"] del: of_nat_Suc)
qed

lemma getInstruct_default:
  assumes "recent g = VM_default_instruction_set"
  shows "\<exists>name. instructUnit_getInstruct g (PIKA_INS i) = Some (g, Some (name, PIKA_INS i))"
  using assms
  by (cases i)
    (simp_all add: instructUnit_getInstruct_def op_in_set_def rd_def VM_default_instruction_set_def PIKA_INS_def
      INSTRUCTION_CNT_def instruction_table_def)

text \<open>What a handler may leave in \<open>jmp\<close> when the program does not loop: nothing, a jump forward, or the end.\<close>

definition jumps_on :: "PikaVMFrame \<Rightarrow> bool" where
  "jumps_on vm \<longleftrightarrow> 0 \<le> jmp vm \<or> jmp vm = VM_JMP_EXIT \<or> jmp vm = VM_JMP_RAISE"

lemma vm_nextPc_returns:
  assumes "code_rep (bytecode_frame vm) us" "pc vm = 4 * int p" "p < length us" "jumps_on vm"
    and "jmp vm = 0 \<Longrightarrow> error_code (vm_thread vm) = 0"
  shows "\<exists>vm' q. vm_nextPc vm = Some (vm', q) \<and> (q = VM_PC_EXIT \<or> pc vm < q)"
proof -
  obtain t where "raise_loop vm 0 = Some (4 * int t)" using raise_returns [OF assms(1,2), of 0] assms(3) by auto
  moreover have "\<exists>t. jmpForward_loop vm d n 0 = Some (4 * int t) \<and> 0 < t" for d n
    using jmpForward_returns [OF assms(1,2), of 0 d n] assms(3) by auto
  then have "\<exists>k. PikaVMFrame_getAddrOffsetFromJmp vm = Some k \<and> 0 < k" if "0 < jmp vm"
    using that code_now [OF assms(1-3)]
    by (fastforce simp: PikaVMFrame_getAddrOffsetFromJmp_def PikaVMFrame_getBlockDeepthNow_def)
  ultimately show ?thesis
    using assms(4,5)
    by (cases "0 < jmp vm")
      (auto simp: vm_nextPc_def jumps_on_def PikaVMFrame_getAddrOffsetOfRaise_def VM_JMP_EXIT_def VM_JMP_BREAK_def
        VM_JMP_CONTINUE_def VM_JMP_RAISE_def)
qed

lemma vm_checkError_jumps:
  "jumps_on vm \<Longrightarrow> jumps_on (vm_checkError sg vm)"
  "jmp (vm_checkError sg vm) = 0 \<Longrightarrow> error_code (vm_thread (vm_checkError sg vm)) = 0"
  by (auto simp: vm_checkError_def jumps_on_def VM_JMP_EXIT_def VM_JMP_RAISE_def split: if_splits)

context vm_handlers
begin

text \<open>One round moves on, whatever errors and exit requests there are.\<close>

lemma vm_round_progress:
  assumes code: "code_rep (bytecode_frame vm) us" "instructUnit_getIsNewLine (us ! 0) \<noteq> 0"
    and pc: "pc vm = 4 * int p" "p < length us" "jmp vm = 0"
    and ins: "instructUnit_getInstructIndex (us ! p) = PIKA_INS i" "recent g = VM_default_instruction_set"
    and hd: "\<And>vm'. bytecode_frame vm' = bytecode_frame vm \<Longrightarrow> jmp vm' = 0 \<Longrightarrow>
      \<exists>vm1. handlers (PIKA_INS i) vm' (constPool_getByOffset (const_pool (bytecode_frame vm))
        (instructUnit_getConstPoolIndex (us ! p))) = Some vm1 \<and> jumps_on vm1"
  shows "\<exists>vm'. vm_round handlers sg (g, vm) = Some (g, vm') \<and> jmp vm' = 0 \<and> (pc vm' = VM_PC_EXIT \<or> pc vm < pc vm')"
proof -
  let ?vm = "vm_newLine (us ! p) vm"
  obtain vm1 where vm1: "handlers (PIKA_INS i) ?vm (PikaVMFrame_getConstWithInstructUnit ?vm (us ! p)) = Some vm1" "jumps_on vm1"
    using hd [of ?vm] pc(3) by (auto simp: PikaVMFrame_getConstWithInstructUnit_def)
  let ?vm1 = "vm_checkError (sg (ins_cnt vm)) vm1"
  have k: "pc ?vm1 = pc vm" "bytecode_frame ?vm1 = bytecode_frame vm" using keeps_code [OF vm1(1)] by simp_all
  obtain vm2 q where nx: "vm_nextPc ?vm1 = Some (vm2, q)" "q = VM_PC_EXIT \<or> pc vm < q"
    using vm_nextPc_returns [of ?vm1 us p] k code(1) pc(1,2) vm_checkError_jumps vm1(2) by metis
  let ?q = "vm_endPc vm2 q" and ?vm2 = "vm2\<lparr>jmp := 0\<rparr>"
  let ?vm3 = "?vm2\<lparr>pc := ?q, ins_cnt := u32_add (ins_cnt ?vm2) 1\<rparr>"
  obtain name where "instructUnit_getInstruct g (PIKA_INS i) = Some (g, Some (name, PIKA_INS i))"
    using getInstruct_default [OF ins(2)] by blast
  then have run: "pikaVM_runInstructUnit handlers (sg (ins_cnt vm)) g ?vm (us ! p) = Some (g, ?vm2, ?q)"
    using vm1(1) nx(1) ins(1) by (simp add: pikaVM_runInstructUnit_def)
  have "code_rep (bytecode_frame ?vm3) us" using vm_nextPc_keeps [OF nx(1)] k code(1) by simp
  then obtain r where "lineHead_loop ?vm3 (pc vm) = Some r"
    using lineHead_returns [OF _ code(2) pc(2)] pc(1) by metis
  then have "\<exists>vm4. vm_lineError (pc vm) ?vm3 = Some vm4" by (auto simp: vm_lineError_def Let_def)
  then obtain vm4 where vm4: "vm_lineError (pc vm) ?vm3 = Some vm4" by blast
  then have "pc vm4 = ?q" "jmp vm4 = 0" using vm_lineError_keeps [OF vm4] by simp_all
  moreover have "vm_round handlers sg (g, vm) = Some (g, vm4)"
    using code_now [OF code(1) pc(1,2)] run vm4 by (simp add: vm_round_def)
  ultimately show ?thesis using nx(2) by (auto simp: vm_endPc_def)
qed

lemma vm_loop_returns:
  assumes code: "code_rep bf us" "instructUnit_getIsNewLine (us ! 0) \<noteq> 0"
    and ins: "\<And>u. u \<in> set us \<Longrightarrow> \<exists>i. instructUnit_getInstructIndex u = PIKA_INS i" "recent g = VM_default_instruction_set"
    and hd: "\<And>u vm'. u \<in> set us \<Longrightarrow> bytecode_frame vm' = bf \<Longrightarrow> jmp vm' = 0 \<Longrightarrow>
      \<exists>vm1. handlers (instructUnit_getInstructIndex u) vm' (constPool_getByOffset (const_pool bf)
        (instructUnit_getConstPoolIndex u)) = Some vm1 \<and> jumps_on vm1"
    and vm: "bytecode_frame vm = bf" "pc vm = VM_PC_EXIT \<or> aligned (pc vm)" "jmp vm = 0"
  shows "\<exists>vm'. vm_loop handlers sg (g, vm) = Some (g, vm') \<and> \<not> vm_running vm'"
  using vm
proof (induction "if vm_running vm then Suc (nat (4 * int (length us) - pc vm)) else 0"
    arbitrary: vm rule: less_induct)
  case less
  note simps = vm_loop.simps [of handlers sg "(g, vm)"]
  show ?case
  proof (cases "vm_running vm")
    case False
    then show ?thesis by (simp add: simps)
  next
    case True
    obtain p where p: "p < length us" "pc vm = 4 * int p"
      using vm_running_index [OF True] less.prems(1,2) code(1) by metis
    then obtain i where i: "instructUnit_getInstructIndex (us ! p) = PIKA_INS i" using ins(1) by (meson nth_mem)
    obtain vm' where vm': "vm_round handlers sg (g, vm) = Some (g, vm')" "pc vm' = VM_PC_EXIT \<or> pc vm < pc vm'"
      "jmp vm' = 0"
      using vm_round_progress [OF _ code(2) p(2,1) less.prems(3) i ins(2), of sg] hd [of "us ! p"] p(1) i code(1)
        less.prems(1) by (metis nth_mem)
    have inv: "bytecode_frame vm' = bf" "pc vm' = VM_PC_EXIT \<or> aligned (pc vm')"
      using vm_round_inv [OF vm'(1)] p(2) less.prems(1) by (auto simp: aligned_def)
    have "(if vm_running vm' then Suc (nat (4 * int (length us) - pc vm')) else 0) <
        (if vm_running vm then Suc (nat (4 * int (length us) - pc vm)) else 0)"
      using vm'(2) True code_size [of vm us] code_size [of vm' us] code(1) inv(1) less.prems(1)
      by (auto simp: vm_running_def)
    from less.hyps [OF this inv vm'(3)] show ?thesis using True vm'(1) by (simp add: simps)
  qed
qed

end

section \<open>Properties\<close>

definition demo_units :: "InstructUnit list" where
  "demo_units = [asm_unit 0 0 True INS_JMP 1, asm_unit 1 0 True INS_NON 0, asm_unit 0 0 True INS_NON 0]"

definition demo_frame :: ByteCodeFrame where
  "demo_frame = frame0\<lparr>
     instruct_array := instructArray_init\<lparr>ia_size := 12, ia_content_start := Some (concat (map unit_bytes demo_units))\<rparr>,
     const_pool := constPool_init\<lparr>cp_size := 3, cp_content_start := Some (pool_bytes [''1''])\<rparr>\<rparr>"

definition demo_thread :: PikaVMThread where
  "demo_thread = \<lparr> try_state = TRY_STATE_NONE, try_result = TRY_RESULT_NONE, error_code = 0, line_error_code = 0, try_error_code = 0 \<rparr>"

lemma demo_code: "code_rep demo_frame demo_units"
  by (simp add: code_rep_def demo_frame_def demo_units_def)

lemma demo_const: "constPool_getByOffset (const_pool demo_frame) 1 = Some ''1''"
  "constPool_getByOffset (const_pool demo_frame) 0 = Some ''''"
  by (simp_all add: constPool_getByOffset_def demo_frame_def pool_bytes_def str_bytes_def bytes_str_def)

lemma demo_fields:
  "map instructUnit_getInstructIndex demo_units = [6, 0, 0]" "map instructUnit_getConstPoolIndex demo_units = [1, 0, 0]"
  "map instructUnit_getIsNewLine demo_units = [1, 1, 1]" "map instructUnit_getBlockDeepth demo_units = [0, 1, 0]"
  by (simp_all add: demo_units_def asm_unit_fields) (simp_all add: PIKA_INS_def instruction_table_def)




lemma demo_ins: "u \<in> set demo_units \<Longrightarrow> \<exists>i. instructUnit_getInstructIndex u = PIKA_INS i"
  by (auto simp: demo_units_def asm_unit_fields)

lemma fast_atoi_1: "fast_atoi ''1'' = Some 1"
  by (simp add: fast_atoi_def atoi_table_def)

lemma demo_handlers:
  assumes "u \<in> set demo_units" "jmp vm = 0"
  shows "\<exists>vm'. control_handlers (instructUnit_getInstructIndex u) vm
    (constPool_getByOffset (const_pool demo_frame) (instructUnit_getConstPoolIndex u)) = Some vm' \<and> jumps_on vm'"
proof -
  have p: "PIKA_INS INS_JMP = 6" "PIKA_INS INS_NON = 0" by (simp_all add: PIKA_INS_def instruction_table_def)
  have "instructUnit_getInstructIndex u = PIKA_INS INS_JMP \<and> instructUnit_getConstPoolIndex u = 1 \<or>
      instructUnit_getInstructIndex u = PIKA_INS INS_NON"
    using assms(1) by (auto simp: demo_units_def asm_unit_fields)
  moreover have "control_handlers (PIKA_INS INS_JMP) = VM_instruction_handler_JMP"
    "control_handlers (PIKA_INS INS_NON) = VM_instruction_handler_NON"
    by (simp_all add: control_handlers_def PIKA_INS_def instruction_table_def)
  ultimately show ?thesis
    using assms(2) demo_const(1) fast_atoi_1 by (auto simp: control_handler_defs jumps_on_def i32_def)
qed


text \<open>C36: A forward jump of \<open>n\<close> blocks returns and lands on the \<open>n\<close>-th following line that is not nested
  deeper than the jump, or behind the code when there are fewer such lines.\<close>

theorem jmp_forward_lands:
  assumes "code_rep (bytecode_frame vm) us" "pc vm = 4 * int p" "p < length us" "0 < jmp vm" "jmp vm \<le> 127"
  shows "\<exists>t > p. PikaVMFrame_getAddrOffsetFromJmp vm = Some (4 * (int t - int p)) \<and> t \<le> length us \<and>
    (let d = instructUnit_getBlockDeepth (us ! p) in
     if t = length us then int (leaders d us (Suc p) t) < jmp vm
     else leads d (us ! t) \<and> int (leaders d us (Suc p) (Suc t)) = jmp vm)"
proof -
  let ?d = "instructUnit_getBlockDeepth (us ! p)"
  obtain t where t: "0 < t" "jmpForward_loop vm ?d 0 (4 * int 0) = Some (4 * int t)" "p + t \<le> length us"
    "if p + t = length us then 0 + int (leaders ?d us (Suc (p + 0)) (length us)) < jmp vm
     else leads ?d (us ! (p + t)) \<and> 0 + int (leaders ?d us (Suc (p + 0)) (Suc (p + t))) = jmp vm"
    using jmpForward_lands [OF assms(1,2), of 0 0 ?d] assms(3-5) by auto
  have "PikaVMFrame_getAddrOffsetFromJmp vm = Some (4 * (int (p + t) - int p))"
    using t(2) assms(4) code_now [OF assms(1-3)]
    by (simp add: PikaVMFrame_getAddrOffsetFromJmp_def PikaVMFrame_getBlockDeepthNow_def)
  then show ?thesis using t(1,3,4) by (intro exI [of _ "p + t"]) (auto simp: Let_def split: if_splits)
qed

theorem jmp_forward_lands_witness:
  "PikaVMFrame_getAddrOffsetFromJmp ((PikaVMFrame_create demo_frame 0 demo_thread)\<lparr>jmp := 1\<rparr>) = Some 8"
proof -
  let ?vm = "(PikaVMFrame_create demo_frame 0 demo_thread)\<lparr>jmp := 1\<rparr>" and ?us = demo_units
  have vm: "code_rep (bytecode_frame ?vm) ?us" "pc ?vm = 4 * int 0" "0 < length ?us" "0 < jmp ?vm" "jmp ?vm \<le> 127"
    using demo_code by (simp_all add: PikaVMFrame_create_def demo_units_def)
  have f: "leads 0 (?us ! 1) = False" "leads 0 (?us ! 2) = True" "instructUnit_getBlockDeepth (?us ! 0) = 0"
    by (simp_all add: leads_def demo_units_def asm_unit_fields)
  have len: "length ?us = 3" and j: "jmp ?vm = 1" by (simp_all add: demo_units_def)
  from f have l: "leaders 0 ?us 1 2 = 0" "leaders 0 ?us 1 3 = 1" by (simp_all add: leaders_def upt_rec numeral_3_eq_3 numeral_2_eq_2)
  obtain t where t: "0 < t" "PikaVMFrame_getAddrOffsetFromJmp ?vm = Some (4 * (int t - int 0))" "t \<le> 3"
    "if t = 3 then int (leaders 0 ?us (Suc 0) t) < 1 else leads 0 (?us ! t) \<and> int (leaders 0 ?us (Suc 0) (Suc t)) = 1"
    using jmp_forward_lands [OF vm] unfolding f(3) len j Let_def by auto
  from t(1,3) have "t = 1 \<or> t = 2 \<or> t = 3" by auto
  then have "t = 2" using t(4) f l by auto
  then show ?thesis using t(2) by simp
qed

text \<open>The condition flags have ten places and a unit has room for sixteen block depths: a conditional
  jump at depth ten or more writes behind the array, and at a smaller depth it is safe.\<close>

lemma JEZ_register_bound:
  assumes "PikaVMFrame_getInstructNow vm = Some u" "length (ireg vm) = PIKA_REGIST_SIZE" "fast_atoi d = Some v"
  shows "VM_JEZ vm (Some d) b = None \<longleftrightarrow> 10 \<le> instructUnit_getBlockDeepth u"
  using assms
  by (cases "instructUnit_getBlockDeepth u < 10")
    (simp_all add: VM_JEZ_def PikaVMFrame_getBlockDeepthNow_def wr_def PIKA_REGIST_SIZE_def Let_def)

lemma JEZ_register_bound_demo:
  "VM_JEZ (PikaVMFrame_create (demo_frame\<lparr>instruct_array := instructArray_init\<lparr>ia_size := 4,
      ia_content_start := Some (unit_bytes (asm_unit 12 0 True INS_JEZ 1))\<rparr>\<rparr>) 0 demo_thread) (Some ''1'') False = None"
proof -
  let ?u = "asm_unit 12 0 True INS_JEZ 1"
  let ?vm = "PikaVMFrame_create (demo_frame\<lparr>instruct_array := instructArray_init\<lparr>ia_size := 4,
      ia_content_start := Some (unit_bytes ?u)\<rparr>\<rparr>) 0 demo_thread"
  have "PikaVMFrame_getInstructNow ?vm = Some ?u"
    using code_now [of ?vm "[?u]" 0] by (simp add: code_rep_def PikaVMFrame_create_def)
  moreover have "length (ireg ?vm) = PIKA_REGIST_SIZE" by (simp add: PikaVMFrame_create_def)
  ultimately show ?thesis
    using JEZ_register_bound [of ?vm ?u "''1''" 1 False] fast_atoi_1 by (simp add: asm_unit_fields)
qed

end
