(* ===== verification/Pika_CodeGen.thy ===== *)
theory Pika_CodeGen
  imports Pika_VM Pika_Cursor
begin

text \<open>
  The code generator of \<open>src/src/PikaParser.c\<close>: from the syntax tree of a line to its assembly text.

  A node of the tree is the table of its text attributes and the queue of its sub-statements. The
  code generator takes the sub-statements out of the queue, so that it can walk a tree only once; it
  is called once for each tree. The attribute \<open>deepth\<close> of the root, which it counts up and down, is
  an argument. Where it compiles further lines of source text, the parser is a parameter.
\<close>

section \<open>Trees and rules\<close>

datatype AST = AST (attrs: "string \<Rightarrow> string option") (sub_stmts: "AST list")

datatype GenRuleValType = VAL_NONEVAL | VAL_DYNAMIC | VAL_STATIC

record GenRule =
  gr_ins :: string
  gr_type :: GenRuleValType
  gr_ast :: string
  gr_val :: string

definition rule :: "string \<Rightarrow> GenRuleValType \<Rightarrow> string \<Rightarrow> string \<Rightarrow> GenRule" where
  "rule i t a v = \<lparr> gr_ins = i, gr_type = t, gr_ast = a, gr_val = v \<rparr>"

definition rules_after :: "GenRule list" where
  "rules_after = [
     rule ''RUN'' VAL_DYNAMIC ''method'' '''', rule ''OPT'' VAL_DYNAMIC ''operator'' '''',
     rule ''BYT'' VAL_DYNAMIC ''bytes'' '''', rule ''NUM'' VAL_DYNAMIC ''num'' '''',
     rule ''IMP'' VAL_DYNAMIC ''import'' '''', rule ''INH'' VAL_DYNAMIC ''inhert'' '''',
     rule ''REF'' VAL_DYNAMIC ''ref'' '''', rule ''STR'' VAL_DYNAMIC ''string'' '''',
     rule ''SLC'' VAL_NONEVAL ''slice'' '''', rule ''DCT'' VAL_NONEVAL ''dict'' '''',
     rule ''TPL'' VAL_NONEVAL ''tuple'' '''', rule ''NLS'' VAL_NONEVAL ''list'' '''',
     rule ''OUT'' VAL_DYNAMIC ''left'' '''']"

definition rules_topAst :: "GenRule list" where
  "rules_topAst = [
     rule ''CTN'' VAL_NONEVAL ''continue'' '''', rule ''BRK'' VAL_NONEVAL ''break'' '''',
     rule ''DEL'' VAL_DYNAMIC ''del'' '''', rule ''GLB'' VAL_DYNAMIC ''global'' '''',
     rule ''RIS'' VAL_DYNAMIC ''raise'' '''', rule ''ASS'' VAL_NONEVAL ''assert'' '''',
     rule ''RET'' VAL_NONEVAL ''return'' '''']"

definition rules_block :: "GenRule list" where
  "rules_block = [
     rule ''TRY'' VAL_NONEVAL ''try'' '''', rule ''EXP'' VAL_NONEVAL ''except'' '''',
     rule ''NEL'' VAL_STATIC ''else'' ''1'', rule ''JEZ'' VAL_STATIC ''if'' ''1'',
     rule ''JEZ'' VAL_STATIC ''while'' ''2'']"

section \<open>The code of a statement\<close>

text \<open>\<open>strsFormat\<close> with a buffer for a line of source text: longer text is cut off.\<close>

definition PIKA_LINE_BUFF_SIZE :: nat where "PIKA_LINE_BUFF_SIZE = 128"

definition strsFormat_line :: "string \<Rightarrow> string" where
  "strsFormat_line s = take (PIKA_LINE_BUFF_SIZE - 1) s"

definition arg_strAddIndent :: "string \<Rightarrow> nat \<Rightarrow> string option" where
  "arg_strAddIndent aStrIn indent =
     (if indent = 0 then Some aStrIn else strsAppend (replicate indent (CHR '' '')) aStrIn)"

primrec indentMulti_loop :: "nat \<Rightarrow> nat \<Rightarrow> string \<Rightarrow> string \<Rightarrow> string option" where
  "indentMulti_loop 0 indent sStrInMuti aStrOut = Some aStrOut"
| "indentMulti_loop (Suc n) indent sStrInMuti aStrOut = do {
     (sLine, rest) \<leftarrow> strsPopLine sStrInMuti;
     aLine \<leftarrow> arg_strAddIndent sLine indent;
     out1 \<leftarrow> strsAppend aStrOut aLine;
     out2 \<leftarrow> (if n \<noteq> 0 then strsAppend out1 [CH_NL] else Some out1);
     indentMulti_loop n indent rest out2
   }"

definition arg_strAddIndentMulti :: "string \<Rightarrow> nat \<Rightarrow> string option" where
  "arg_strAddIndentMulti aStrInMuti indent =
     (if indent = 0 then Some aStrInMuti
      else indentMulti_loop (nat (strGetLineNum aStrInMuti)) indent aStrInMuti '''')"

text \<open>The code of several lines, null where they do not parse.\<close>

type_synonym lines_code = "string \<Rightarrow> string option"

text \<open>
  The code of a comprehension is that of the loop it stands for, without the depth of its first line
  and of its last line: three characters each are taken off.
\<close>

definition comprehension2Asm :: "lines_code \<Rightarrow> nat \<Rightarrow> string \<Rightarrow> string \<Rightarrow> string \<Rightarrow> string option" where
  "comprehension2Asm lines2Asm iBlockDeepth sSubStmt1 sSubStmt2 sSubStmt3 = do {
     l1 \<leftarrow> strsAppend (''$tmp = []'' @ [CH_NL])
             (strsFormat_line (''for '' @ sSubStmt2 @ '' in '' @ sSubStmt3 @ '':'' @ [CH_NL]));
     l2 \<leftarrow> strsAppend l1 (strsFormat_line (''    $tmp.append('' @ sSubStmt1 @ '')'' @ [CH_NL] @ ''pass'' @ [CH_NL]));
     sLineOut \<leftarrow> arg_strAddIndentMulti l2 (4 * iBlockDeepth);
     sAsmOut \<leftarrow> lines2Asm sLineOut;
     if strGetSize sAsmOut < 3 then None
     else do {
       a \<leftarrow> strsAppend (take (strGetSize sAsmOut - 3) sAsmOut) (''0 REF $tmp'' @ [CH_NL]);
       strsCopy (drop 3 a)
     }
   }"

text \<open>The printed form of an \<open>int\<close>.\<close>

definition int_text :: "int \<Rightarrow> string" where
  "int_text n = (if n < 0 then CHR ''-'' # decimal (nat (- n)) else decimal (nat n))"

definition ins_text :: "int \<Rightarrow> string \<Rightarrow> string" where
  "ins_text dp i = int_text dp @ '' '' @ i @ '' ''"

primrec gen_rules :: "int \<Rightarrow> (string \<Rightarrow> string option) \<Rightarrow> GenRule list \<Rightarrow> string \<Rightarrow> string option" where
  "gen_rules dp a [] sPikaAsm = Some sPikaAsm"
| "gen_rules dp a (r # rs) sPikaAsm = (case a (gr_ast r) of
     None \<Rightarrow> gen_rules dp a rs sPikaAsm
   | Some sNodeVal \<Rightarrow> do {
       b1 \<leftarrow> (if gr_type r = VAL_DYNAMIC then strsAppend (ins_text dp (gr_ins r)) sNodeVal
             else Some (ins_text dp (gr_ins r)));
       b2 \<leftarrow> strsAppend b1 [CH_NL];
       asm1 \<leftarrow> strsAppend sPikaAsm b2;
       gen_rules dp a rs asm1
     })"

text \<open>The attributes of a comprehension are looked up in the root of the tree, for every node.\<close>

fun AST_genAsm :: "lines_code \<Rightarrow> nat \<Rightarrow> (string \<Rightarrow> string option) \<Rightarrow> int \<Rightarrow> AST \<Rightarrow> string \<Rightarrow> string option"
  and AST_genSubs :: "lines_code \<Rightarrow> nat \<Rightarrow> (string \<Rightarrow> string option) \<Rightarrow> int \<Rightarrow> AST list \<Rightarrow> string \<Rightarrow> string option" where
  "AST_genAsm lines2Asm bd root dp (AST a subs) sPikaAsm = do {
     asm1 \<leftarrow> (if a ''list'' \<noteq> None then strsAppend sPikaAsm (ins_text dp ''LST'' @ [CH_NL]) else Some sPikaAsm);
     asm2 \<leftarrow> AST_genSubs lines2Asm bd root dp subs asm1;
     asm3 \<leftarrow> (if root ''comprehension'' \<noteq> None then do {
                s1 \<leftarrow> root ''substmt1'';
                s2 \<leftarrow> root ''substmt2'';
                s3 \<leftarrow> root ''substmt3'';
                c \<leftarrow> comprehension2Asm lines2Asm bd s1 s2 s3;
                strsAppend asm2 c
              } else Some asm2);
     asm4 \<leftarrow> gen_rules dp a rules_after asm3;
     strsCopy asm4
   }"
| "AST_genSubs lines2Asm bd root dp [] sPikaAsm = Some sPikaAsm"
| "AST_genSubs lines2Asm bd root dp (t # ts) sPikaAsm = do {
     asm1 \<leftarrow> AST_genAsm lines2Asm bd root (dp + 1) t sPikaAsm;
     AST_genSubs lines2Asm bd root dp ts asm1
   }"

section \<open>The code of a line\<close>

text \<open>A line with its block depth and the blocks that end before it.\<close>

record TopAST =
  ta_tree :: AST
  ta_blockDeepth :: nat
  ta_exitBlock :: "string list option"

definition ASM_addBlockDeepth :: "nat \<Rightarrow> string \<Rightarrow> nat \<Rightarrow> string option" where
  "ASM_addBlockDeepth bd pikaAsm deepthOffset = do {
     a1 \<leftarrow> strsAppend pikaAsm ''B'';
     n \<leftarrow> fast_itoa itoa_buff (bd + deepthOffset mod 256);
     a2 \<leftarrow> strsAppend a1 n;
     strsAppend a2 [CH_NL]
   }"

definition GenRule_toAsm :: "lines_code \<Rightarrow> GenRule \<Rightarrow> nat \<Rightarrow> AST \<Rightarrow> string \<Rightarrow> int \<Rightarrow> string option" where
  "GenRule_toAsm lines2Asm r bd ast pikaAsm dp = do {
     asm1 \<leftarrow> AST_genAsm lines2Asm bd (attrs ast) 0 ast pikaAsm;
     let b0 = ins_text dp (gr_ins r);
     b1 \<leftarrow> (case gr_type r of
             VAL_DYNAMIC \<Rightarrow> do { v \<leftarrow> attrs ast (gr_ast r); strsAppend b0 v }
           | VAL_STATIC \<Rightarrow> strsAppend b0 (gr_val r)
           | VAL_NONEVAL \<Rightarrow> Some b0);
     b2 \<leftarrow> strsAppend b1 [CH_NL];
     strsAppend asm1 b2
   }"

text \<open>The name \<open>$lx\<close> with the block depth as its last character.\<close>

definition iter_name :: "nat \<Rightarrow> string" where
  "iter_name n = ''$l'' @ [char_of ((48 + n) mod 256)]"

definition append_lines :: "string \<Rightarrow> string list \<Rightarrow> string option" where
  "append_lines asm ls = foldl (\<lambda>a l. do { x \<leftarrow> a; strsAppend x (l @ [CH_NL]) }) (Some asm) ls"

text \<open>Leaving the blocks, the innermost first; the offset is the number of those still to leave.\<close>

primrec exit_loop :: "nat \<Rightarrow> string list \<Rightarrow> string \<Rightarrow> string option" where
  "exit_loop bd [] sPikaAsm = Some sPikaAsm"
| "exit_loop bd (t # ts) sPikaAsm = (let off = length ts mod 256 in do {
     a1 \<leftarrow> (if t = ''while'' then do {
              a \<leftarrow> ASM_addBlockDeepth bd sPikaAsm off; append_lines a [''0 JMP -1''] }
           else if t = ''try'' then do {
              a \<leftarrow> ASM_addBlockDeepth bd sPikaAsm off; append_lines a [''0 NTR '', ''0 GER '', ''0 JEZ 2''] }
           else if t = ''for'' then do {
              a \<leftarrow> ASM_addBlockDeepth bd sPikaAsm off;
              b \<leftarrow> append_lines a [''0 JMP -1''];
              c \<leftarrow> ASM_addBlockDeepth bd b off;
              append_lines c [''0 DEL '' @ iter_name (bd + off)] }
           else if t = ''def'' then do {
              a \<leftarrow> ASM_addBlockDeepth bd sPikaAsm (off + 1); append_lines a [''0 RET ''] }
           else if t = ''class'' then do {
              a \<leftarrow> ASM_addBlockDeepth bd sPikaAsm (off + 1);
              b \<leftarrow> append_lines a [''0 RAS $origin''];
              c \<leftarrow> ASM_addBlockDeepth bd b 1;
              append_lines c [''0 NEW self'', ''0 RET ''] }
           else Some sPikaAsm);
     exit_loop bd ts a1
   })"

definition check_is_multi_assign :: "string \<Rightarrow> bool option" where
  "check_is_multi_assign sArgList = Cursor_forEach (Some sArgList)
     (\<lambda>cs bRes. Some (bRes \<or> (bracket_deepth cs = 0 \<and> equ (p1 cs) '',''), False)) False"

text \<open>The code of a further line at a block depth.\<close>

type_synonym line_code = "string \<Rightarrow> nat \<Rightarrow> string option"

text \<open>One assignment for each name of a loop with several; the search ends at an empty item.\<close>

partial_function (option) items_loop :: "line_code \<Rightarrow> nat \<Rightarrow> string \<Rightarrow> nat \<Rightarrow> string \<Rightarrow> string option" where
  "items_loop code bd sArgInKv out_num sPikaAsm = do {
     (item, rest) \<leftarrow> Cursor_popToken sArgInKv '','';
     if item = [] then Some sPikaAsm
     else do {
       c \<leftarrow> code (strsFormat_line (item @ '' = $tmp['' @ decimal out_num @ '']'' @ [CH_NL])) (bd + 1);
       a \<leftarrow> strsAppend sPikaAsm c;
       items_loop code bd rest (out_num + 1) a
     }
   }"

declare items_loop.simps [code]

definition gen_for :: "lines_code \<Rightarrow> line_code \<Rightarrow> nat \<Rightarrow> AST \<Rightarrow> string \<Rightarrow> string option" where
  "gen_for lines2Asm code bd ast sPikaAsm = do {
     sArgIn0 \<leftarrow> attrs ast ''arg_in'';
     let l_x = iter_name bd;
     a1 \<leftarrow> AST_genAsm lines2Asm bd (attrs ast) 0 ast sPikaAsm;
     a2 \<leftarrow> append_lines a1 [''0 OUT '' @ l_x];
     multi \<leftarrow> check_is_multi_assign sArgIn0;
     let sArgIn = (if multi then ''$tmp'' else sArgIn0);
     a3 \<leftarrow> ASM_addBlockDeepth bd a2 0;
     a4 \<leftarrow> append_lines a3 [''0 RUN '' @ l_x @ ''.__next__'', ''0 OUT '' @ sArgIn, ''0 EST '' @ sArgIn, ''0 JEZ 2''];
     if multi then do {
       a5 \<leftarrow> items_loop code bd sArgIn0 0 a4;
       a6 \<leftarrow> ASM_addBlockDeepth bd a5 1;
       append_lines a6 [''0 DEL $tmp'']
     } else Some a4
   }"

primrec defaults_loop :: "nat \<Rightarrow> line_code \<Rightarrow> nat \<Rightarrow> string \<Rightarrow> string \<Rightarrow> string option" where
  "defaults_loop 0 code bd sDefaultStmts sPikaAsm = Some sPikaAsm"
| "defaults_loop (Suc n) code bd sDefaultStmts sPikaAsm = do {
     (sStmt, rest) \<leftarrow> Cursor_popToken sDefaultStmts '','';
     sArgName \<leftarrow> strsGetFirstToken sStmt CHR ''='';
     a1 \<leftarrow> ASM_addBlockDeepth bd sPikaAsm 1;
     a2 \<leftarrow> append_lines a1 [''0 EST '' @ sArgName, ''0 JNZ 2''];
     c \<leftarrow> code sStmt (bd + 1);
     a3 \<leftarrow> strsAppend a2 c;
     defaults_loop n code bd rest a3
   }"

definition gen_def :: "line_code \<Rightarrow> nat \<Rightarrow> AST \<Rightarrow> string \<Rightarrow> string option" where
  "gen_def code bd ast sPikaAsm = do {
     declare \<leftarrow> attrs ast ''declare'';
     a1 \<leftarrow> append_lines sPikaAsm [''0 DEF '' @ declare, ''0 JMP 1''];
     (case attrs ast ''default'' of
        None \<Rightarrow> Some a1
      | Some sDefaultStmts \<Rightarrow> do {
          n \<leftarrow> Cursor_count_ex sDefaultStmts TOKEN_devider '','' True;
          defaults_loop (unat n + 1) code bd sDefaultStmts a1
        })
   }"

definition gen_class :: "nat \<Rightarrow> AST \<Rightarrow> string \<Rightarrow> string option" where
  "gen_class bd ast sPikaAsm = do {
     sDeclare \<leftarrow> attrs ast ''declare'';
     sThisClass \<leftarrow> (if strIsContain sDeclare CHR ''('' then strsGetFirstToken sDeclare CHR ''('' else Some sDeclare);
     sSuper \<leftarrow> (if strIsContain sDeclare CHR ''('' then do { r \<leftarrow> strsCut sDeclare CHR ''('' CHR '')''; r } else Some '''');
     let sSuperClass = (if sSuper = '''' then ''TinyObj'' else sSuper);
     let sBlockDeepth = ''B'' @ [char_of ((48 + bd + 1) mod 256)];
     append_lines sPikaAsm [''0 CLS '' @ sThisClass @ ''()'', ''0 JMP 1'', sBlockDeepth, ''0 RUN '' @ sSuperClass,
       ''0 OUT self'', sBlockDeepth, ''0 RAS self'']
   }"

primrec find_rule :: "(GenRule \<Rightarrow> bool) \<Rightarrow> GenRule list \<Rightarrow> GenRule option" where
  "find_rule P [] = None"
| "find_rule P (r # rs) = (if P r then Some r else find_rule P rs)"

text \<open>
  A missing tree gives the null result. A line with a documentation string has no depth set, so that
  its depth is the error value of the look-up.
\<close>

definition AST_genAsm_top :: "lines_code \<Rightarrow> line_code \<Rightarrow> TopAST option \<Rightarrow> string option option" where
  "AST_genAsm_top lines2Asm code oAST = (case oAST of
     None \<Rightarrow> Some None
   | Some tp \<Rightarrow>
       (let ast = ta_tree tp; bd = ta_blockDeepth tp; block = attrs ast ''block'';
            plain = (\<lambda>dp asm. map_option Some (AST_genAsm lines2Asm bd (attrs ast) dp ast asm)) in
        if attrs ast ''docstring'' \<noteq> None then plain (sint PIKA_INT_ERR) ''''
        else do {
          a0 \<leftarrow> (case ta_exitBlock tp of None \<Rightarrow> Some '''' | Some ts \<Rightarrow> exit_loop bd ts '''');
          a1 \<leftarrow> ASM_addBlockDeepth bd a0 0;
          if block = Some ''for'' then map_option Some (gen_for lines2Asm code bd ast a1)
          else if block = Some ''elif'' then do {
            a2 \<leftarrow> append_lines a1 [''0 NEL 1''];
            a3 \<leftarrow> AST_genAsm lines2Asm bd (attrs ast) 0 ast a2;
            map_option Some (append_lines a3 [''0 JEZ 1''])
          }
          else if block = Some ''def'' then map_option Some (gen_def code bd ast a1)
          else if block = Some ''class'' then map_option Some (gen_class bd ast a1)
          else (case find_rule (\<lambda>r. block = Some (gr_ast r)) rules_block of
            Some r \<Rightarrow> map_option Some (GenRule_toAsm lines2Asm r bd ast a1 0)
          | None \<Rightarrow> (case find_rule (\<lambda>r. attrs ast (gr_ast r) \<noteq> None) rules_topAst of
              Some r \<Rightarrow> map_option Some (GenRule_toAsm lines2Asm r bd ast a1 0)
            | None \<Rightarrow> plain 0 a1))
        }))"

section \<open>What a tree is printed as\<close>

definition rule_codes :: "(GenRule \<times> InstructIndex) list" where
  "rule_codes = zip rules_after [INS_RUN, INS_OPT, INS_BYT, INS_NUM, INS_IMP, INS_INH, INS_REF, INS_STR,
     INS_SLC, INS_DCT, INS_TPL, INS_NLS, INS_OUT]"

definition rule_stmt :: "nat \<Rightarrow> (string \<Rightarrow> string option) \<Rightarrow> GenRule \<times> InstructIndex \<Rightarrow> asm_stmt list" where
  "rule_stmt d a = (\<lambda>(r, i). case a (gr_ast r) of None \<Rightarrow> []
     | Some v \<Rightarrow> [Ins d i (if gr_type r = VAL_DYNAMIC then v else [])])"

text \<open>The statements of a tree: a list opens with its own instruction, every node follows its sub-statements.\<close>

fun post :: "nat \<Rightarrow> AST \<Rightarrow> asm_stmt list" where
  "post d (AST a subs) = (if a ''list'' \<noteq> None then [Ins d INS_LST []] else []) @
     concat (map (post (Suc d)) subs) @ concat (map (rule_stmt d a) rule_codes)"

fun attrs_ok :: "AST \<Rightarrow> bool" where
  "attrs_ok (AST a subs) \<longleftrightarrow> (\<forall>(r, i) \<in> set rule_codes. \<forall>v. a (gr_ast r) = Some v \<longrightarrow> cstring v) \<and>
     (\<forall>t \<in> set subs. attrs_ok t)"

lemma rule_codes_names: "\<forall>(r, i) \<in> set rule_codes. gr_ins r = ins_name i"
  by (simp add: rule_codes_def rules_after_def rule_def ins_name_def PIKA_INS_def instruction_table_def)

lemma rules_after_codes: "rules_after = map fst rule_codes"
  by (simp add: rule_codes_def rules_after_def)

lemma ins_text_eq: "ins_text (int d) (ins_name i) @ v = asm_text (Ins d i v)"
  by (simp add: ins_text_def int_text_def)

lemma cstring_ins_text: "cstring (ins_text (int d) (ins_name i))"
  using decimal_chars [of NUL d] ins_name_chars(2) [of i] by (auto simp: ins_text_def int_text_def cstring_def)

lemma asm_lines_simps [simp]: "asm_lines [] = []" "asm_lines (s # ss) = asm_text s @ CH_NL # asm_lines ss"
    "asm_lines (ss @ ts) = asm_lines ss @ asm_lines ts"
  by (simp_all add: asm_lines_def)

lemma gen_rules_eq:
  assumes "\<forall>(r, i) \<in> set rs. gr_ins r = ins_name i \<and> (\<forall>v. a (gr_ast r) = Some v \<longrightarrow> cstring v)" "cstring asm"
  shows "gen_rules (int d) a (map fst rs) asm = Some (asm @ asm_lines (concat (map (rule_stmt d a) rs))) \<and>
    cstring (asm_lines (concat (map (rule_stmt d a) rs)))"
  using assms
proof (induction rs arbitrary: asm)
  case (Cons x rs)
  obtain r i where x: "x = (r, i)" by force
  show ?case
  proof (cases "a (gr_ast r)")
    case None
    then show ?thesis using Cons by (simp add: x rule_stmt_def)
  next
    case (Some v)
    define w where "w = (if gr_type r = VAL_DYNAMIC then v else [])"
    have v: "cstring v" "gr_ins r = ins_name i" using Cons.prems(1) Some x by auto
    let ?l = "ins_text (int d) (ins_name i) @ w @ [CH_NL]"
    have l: "cstring ?l" using v(1) cstring_ins_text by (simp add: cstring_def w_def)
    have "gen_rules (int d) a (map fst (x # rs)) asm = gen_rules (int d) a (map fst rs) (asm @ ?l)"
      using Some v l cstring_ins_text [of d i] Cons.prems(2)
      by (simp add: x strsAppend_eq w_def)
    moreover have "rule_stmt d a x = [Ins d i w]" by (simp add: x Some rule_stmt_def w_def)
    moreover have t: "?l = asm_text (Ins d i w) @ [CH_NL]" using ins_text_eq [of d i w] by simp
    moreover have "cstring (asm @ asm_text (Ins d i w) @ [CH_NL])" using l Cons.prems(2) unfolding t by simp
    ultimately show ?thesis
      using Cons.IH [of "asm @ asm_text (Ins d i w) @ [CH_NL]"] Cons.prems(1) by (simp del: asm_text.simps)
  qed
qed simp

lemma AST_genSubs_post:
  assumes "\<And>t d asm. t \<in> set ts \<Longrightarrow> cstring asm \<Longrightarrow>
      AST_genAsm lc bd root (int d) t asm = Some (asm @ asm_lines (post d t)) \<and> cstring (asm_lines (post d t))"
    and "cstring asm"
  shows "AST_genSubs lc bd root (int d) ts asm = Some (asm @ asm_lines (concat (map (post (Suc d)) ts))) \<and>
    cstring (asm_lines (concat (map (post (Suc d)) ts)))"
  using assms
proof (induction ts arbitrary: asm)
  case (Cons t ts)
  have d: "int d + 1 = int (Suc d)" by simp
  have t: "AST_genAsm lc bd root (int d + 1) t asm = Some (asm @ asm_lines (post (Suc d) t))"
    "cstring (asm_lines (post (Suc d) t))"
    unfolding d using Cons.prems by (simp_all del: of_nat_Suc)
  then show ?case using Cons.IH [of "asm @ asm_lines (post (Suc d) t)"] Cons.prems by simp
qed simp

lemma AST_genAsm_post:
  assumes "root ''comprehension'' = None" "attrs_ok T" "cstring asm"
  shows "AST_genAsm lc bd root (int d) T asm = Some (asm @ asm_lines (post d T)) \<and> cstring (asm_lines (post d T))"
  using assms(2,3)
proof (induction T arbitrary: d asm)
  case (AST a subs)
  let ?l = "if a ''list'' \<noteq> None then [Ins d INS_LST []] else []" and ?s = "concat (map (post (Suc d)) subs)"
  have l: "ins_text (int d) ''LST'' @ [CH_NL] = asm_lines [Ins d INS_LST []]"
    using ins_text_eq [of d INS_LST "[]"] by (simp add: ins_name_def PIKA_INS_def instruction_table_def)
  have c: "cstring (asm_lines ?l)"
    using asm_text_chars [of "Ins 0 INS_LST []"] cstring_ins_text [of d INS_LST] ins_text_eq [of d INS_LST "[]"]
    by (simp del: asm_text.simps)
  have s: "AST_genSubs lc bd root (int d) subs (asm @ asm_lines ?l) = Some ((asm @ asm_lines ?l) @ asm_lines ?s) \<and>
    cstring (asm_lines ?s)"
    using AST c by (intro AST_genSubs_post) auto
  have "\<forall>(r, i) \<in> set rule_codes. gr_ins r = ins_name i \<and> (\<forall>v. a (gr_ast r) = Some v \<longrightarrow> cstring v)"
    using AST.prems(1) rule_codes_names by fastforce
  then have r: "gen_rules (int d) a rules_after (asm @ asm_lines ?l @ asm_lines ?s) =
      Some ((asm @ asm_lines ?l @ asm_lines ?s) @ asm_lines (concat (map (rule_stmt d a) rule_codes))) \<and>
    cstring (asm_lines (concat (map (rule_stmt d a) rule_codes)))"
    unfolding rules_after_codes using AST.prems(2) c s by (intro gen_rules_eq) auto
  have "(if a ''list'' \<noteq> None then strsAppend asm (ins_text (int d) ''LST'' @ [CH_NL]) else Some asm) = Some (asm @ asm_lines ?l)"
    using AST.prems(2) c unfolding l by (cases "a ''list''") (simp_all add: strsAppend_eq del: asm_text.simps)
  then show ?case
    using s r c AST.prems(2) assms(1) by (simp add: strsCopy_eq del: asm_lines_simps(1,2))
qed

section \<open>The arguments of an instruction\<close>

text \<open>The scan of \<open>PikaVMFrame_getInputArgNum\<close> over the instructions before it, the last one first.\<close>

definition passed :: "nat \<Rightarrow> instr \<Rightarrow> bool" where
  "passed d = (\<lambda>(b, k, nl, i, s). k = d + 1 \<and> i \<in> {PIKA_INS INS_OUT, PIKA_INS INS_NLS})"

definition counted :: "nat \<Rightarrow> instr \<Rightarrow> bool" where
  "counted d u \<longleftrightarrow> fst (snd u) = d + 1 \<and> \<not> passed d u"

fun argc :: "nat \<Rightarrow> instr list \<Rightarrow> nat \<Rightarrow> nat option" where
  "argc d [] n = None"
| "argc d (u # us) n =
     (if passed d u then argc d us n
      else if fst (snd (snd u)) \<or> fst (snd u) \<le> d then Some (n + of_bool (counted d u))
      else argc d us (n + of_bool (counted d u)))"

lemma those_SomeD: "those xs = Some ys \<Longrightarrow> length xs = length ys \<and> (\<forall>j < length ys. xs ! j = Some (ys ! j))"
proof (induction xs arbitrary: ys)
  case (Cons x xs)
  then obtain z zs where "x = Some z" "those xs = Some zs" "ys = z # zs" by (auto split: option.splits)
  with Cons.IH [of zs] show ?case by (auto simp: nth_Cons split: nat.split)
qed simp

lemma disassemble_nth:
  assumes "disassemble bf = Some xs" "j < length xs"
  obtains u where "instructArray_getByOffset (instruct_array bf) (4 * int j) = Some u"
    "unit_view (const_pool bf) u = Some (xs ! j)"
proof -
  have "\<exists>u. instructArray_getByOffset (instruct_array bf) (4 * int j) = Some u \<and> unit_view (const_pool bf) u = Some (xs ! j)"
    using those_SomeD [OF assms(1) [unfolded disassemble_def]] assms(2) by (auto simp: bind_eq_Some_conv)
  then show thesis using that by blast
qed

lemma isNewLine_flag: "instructUnit_getIsNewLine u \<noteq> 0 \<longleftrightarrow> instructUnit_getIsNewLine u = 1"
proof -
  have "unat (isNewLine_instruct u) < 2 ^ LENGTH(8)" by (rule unsigned_less)
  then have "unat (isNewLine_instruct u) div 128 < 2" by simp
  then show ?thesis by (auto simp: instructUnit_getIsNewLine_def drop_bit_eq_div unat_div)
qed



lemma inputArg_loop_argc:
  assumes "disassemble (bytecode_frame vm) = Some xs" "p \<le> length xs" "n + p < U32"
    and "argc d (rev (take p xs)) n = Some m"
  shows "inputArg_loop vm d (4 * int p) n = Some m"
  using assms(2-4)
proof (induction p arbitrary: n)
  case (Suc p)
  let ?u = "xs ! p"
  have p: "p < length xs" using Suc.prems(1) by simp
  obtain u where u: "instructArray_getByOffset (instruct_array (bytecode_frame vm)) (4 * int p) = Some u"
    "unit_view (const_pool (bytecode_frame vm)) u = Some (xs ! p)"
    by (rule disassemble_nth [OF assms(1) p])
  then obtain s where s: "?u = (instructUnit_getBlockDeepth u, instructUnit_getInvokeDeepth u,
      instructUnit_getIsNewLine u = 1, instructUnit_getInstructIndex u, s)"
    by (cases "xs ! p") (auto simp: unit_view_def bind_eq_Some_conv)
  then have v: "fst (snd ?u) = instructUnit_getInvokeDeepth u" "fst (snd (snd ?u)) \<longleftrightarrow> instructUnit_getIsNewLine u \<noteq> 0"
    "passed d ?u \<longleftrightarrow> instructUnit_getInvokeDeepth u = d + 1 \<and> instructUnit_getInstructIndex u \<in> {PIKA_INS INS_OUT, PIKA_INS INS_NLS}"
    unfolding isNewLine_flag by (simp_all add: passed_def)
  have a: "argc d (?u # rev (take p xs)) n = Some m" using Suc.prems(3) p by (simp add: take_Suc_conv_app_nth)
  have n: "u32_add n 1 = n + 1" using Suc.prems(2) by (simp add: u32_add_def)
  have "4 * int (Suc p) - 4 = 4 * int p" by simp
  then show ?case
    using a Suc.IH [of n] Suc.IH [of "n + 1"] Suc.prems(1,2) u(1) n
    by (subst inputArg_loop.simps) (auto simp: Let_def v counted_def split: if_splits)
qed simp

text \<open>
  The trees of expressions: every node is one thing, the value of which may also be assigned. The
  nodes of a tree are listed with the position of their instruction among the statements, their
  depth and the number of their sub-statements.
\<close>

definition has :: "(string \<Rightarrow> string option) \<Rightarrow> GenRule \<times> InstructIndex \<Rightarrow> bool" where
  "has a = (\<lambda>(r, i). a (gr_ast r) \<noteq> None)"

fun one_kind :: "AST \<Rightarrow> bool" where
  "one_kind (AST a subs) \<longleftrightarrow> length (filter (has a) (butlast rule_codes)) = 1 \<and> (\<forall>t \<in> set subs. one_kind t)"

fun nodes :: "nat \<Rightarrow> nat \<Rightarrow> AST \<Rightarrow> (nat \<times> nat \<times> nat) list"
  and nodes_of :: "nat \<Rightarrow> nat \<Rightarrow> AST list \<Rightarrow> (nat \<times> nat \<times> nat) list" where
  "nodes d k (AST a subs) =
     (let k1 = k + of_bool (a ''list'' \<noteq> None)
      in nodes_of (Suc d) k1 subs @ [(k1 + length (concat (map (post (Suc d)) subs)), d, length subs)])"
| "nodes_of d k [] = []"
| "nodes_of d k (t # ts) = nodes d k t @ nodes_of d (k + length (post d t)) ts"

lemma concat_map_single:
  assumes "length (filter P xs) = 1" "\<And>x. \<not> P x \<Longrightarrow> f x = []"
  obtains x where "x \<in> set xs" "P x" "concat (map f xs) = f x" "\<And>y. y \<in> set xs \<Longrightarrow> P y \<Longrightarrow> y = x"
proof -
  obtain x where x: "filter P xs = [x]" using assms(1) by (auto simp: length_Suc_conv)
  have "concat (map f xs) = concat (map f (filter P xs))" using assms(2) by (induction xs) auto
  then have f: "concat (map f xs) = f x" by (simp add: x)
  have "set (filter P xs) = {x}" using x by simp
  then have "y \<in> set xs \<and> P y \<longleftrightarrow> y = x" for y unfolding set_filter by blast
  then show thesis using that [of x] f by metis
qed

lemma butlast_codes: "(r, i) \<in> set (butlast rule_codes) \<Longrightarrow> i \<noteq> INS_OUT \<and> (i = INS_NLS \<longleftrightarrow> gr_ast r = ''list'')"
proof -
  have "\<forall>(r, i) \<in> set (butlast rule_codes). i \<noteq> INS_OUT \<and> (i = INS_NLS \<longleftrightarrow> gr_ast r = ''list'')"
    by (simp add: rule_codes_def rules_after_def rule_def)
  then show "(r, i) \<in> set (butlast rule_codes) \<Longrightarrow> i \<noteq> INS_OUT \<and> (i = INS_NLS \<longleftrightarrow> gr_ast r = ''list'')" by blast
qed

lemma list_code: "\<exists>r. (r, INS_NLS) \<in> set (butlast rule_codes) \<and> gr_ast r = ''list''"
  by (simp add: rule_codes_def rules_after_def rule_def)

lemma codes_last: "rule_codes = butlast rule_codes @ [(rule ''OUT'' VAL_DYNAMIC ''left'' [], INS_OUT)]"
  by (simp add: rule_codes_def rules_after_def)

text \<open>The instructions of a node after its sub-statements: its own, and an assignment or none.\<close>

lemma one_kind_rules:
  assumes "length (filter (has a) (butlast rule_codes)) = 1"
  obtains i v out where "concat (map (rule_stmt d a) rule_codes) = Ins d i v # out"
    "out = [] \<or> (\<exists>w. out = [Ins d INS_OUT w])" "i \<noteq> INS_OUT" "i = INS_NLS \<longleftrightarrow> a ''list'' \<noteq> None"
proof -
  have "rule_stmt d a x = []" if "\<not> has a x" for x using that by (cases x) (auto simp: has_def rule_stmt_def)
  then obtain x where x: "x \<in> set (butlast rule_codes)" "has a x"
    "concat (map (rule_stmt d a) (butlast rule_codes)) = rule_stmt d a x"
    "\<And>y. y \<in> set (butlast rule_codes) \<Longrightarrow> has a y \<Longrightarrow> y = x"
    using concat_map_single [OF assms, of "rule_stmt d a"] by metis
  obtain r i where ri: "x = (r, i)" by force
  obtain v where v: "rule_stmt d a x = [Ins d i v]" using x(2) ri by (auto simp: has_def rule_stmt_def)
  obtain q where q: "(q, INS_NLS) \<in> set (butlast rule_codes)" "gr_ast q = ''list''" using list_code by blast
  have "a (gr_ast r) \<noteq> None" using x(2) by (simp add: ri has_def)
  moreover have "i = INS_NLS \<longleftrightarrow> gr_ast r = ''list''" using butlast_codes [of r i] x(1) ri by simp
  moreover have "a ''list'' \<noteq> None \<Longrightarrow> (q, INS_NLS) = x" using q by (intro x(4)) (simp_all add: has_def)
  ultimately have "i = INS_NLS \<longleftrightarrow> a ''list'' \<noteq> None" unfolding ri by (metis prod.inject)
  moreover have "concat (map (rule_stmt d a) rule_codes) = Ins d i v # rule_stmt d a (rule ''OUT'' VAL_DYNAMIC ''left'' [], INS_OUT)"
    by (subst codes_last) (simp add: x(3) v)
  moreover have "rule_stmt d a (rule ''OUT'' VAL_DYNAMIC ''left'' [], INS_OUT) = [] \<or>
      (\<exists>w. rule_stmt d a (rule ''OUT'' VAL_DYNAMIC ''left'' [], INS_OUT) = [Ins d INS_OUT w])"
    by (auto simp: rule_stmt_def split: option.split)
  ultimately show thesis using that butlast_codes x(1) ri by blast
qed

definition ins_stmt :: "nat \<Rightarrow> asm_stmt \<Rightarrow> bool" where
  "ins_stmt d s \<longleftrightarrow> (\<exists>k i v. s = Ins k i v \<and> d \<le> k)"

lemma ins_stmt_Ins [simp]: "ins_stmt d (Ins k i v) \<longleftrightarrow> d \<le> k"
  by (simp add: ins_stmt_def)

lemma ins_stmt_mono: "ins_stmt d s \<Longrightarrow> c \<le> d \<Longrightarrow> ins_stmt c s"
  by (auto simp: ins_stmt_def)

lemma post_stmts: "s \<in> set (post d T) \<Longrightarrow> ins_stmt d s"
proof (induction T arbitrary: d)
  case (AST a subs)
  from AST.prems consider "s = Ins d INS_LST []" | t where "t \<in> set subs" "s \<in> set (post (Suc d) t)"
    | x where "s \<in> set (rule_stmt d a x)"
    by (auto split: if_splits)
  then show ?case
  proof cases
    case 2
    then show ?thesis using AST.IH [of t "Suc d"] ins_stmt_mono [of "Suc d" s d] by simp
  qed (auto simp: rule_stmt_def ins_stmt_def split: option.splits prod.splits)
qed

lemma asm_instrs_append:
  "\<forall>s \<in> set xs. ins_stmt d s \<Longrightarrow> asm_instrs b nl (xs @ ys) = asm_instrs b nl xs @ asm_instrs b (nl \<and> xs = []) ys"
  by (induction xs arbitrary: nl) (auto simp: ins_stmt_def)

lemma length_asm_instrs: "\<forall>s \<in> set xs. ins_stmt d s \<Longrightarrow> length (asm_instrs b nl xs) = length xs"
  by (induction xs arbitrary: nl) (auto simp: ins_stmt_def)

lemma asm_instrs_quiet:
  "\<forall>s \<in> set xs. ins_stmt d s \<Longrightarrow> u \<in> set (asm_instrs b False xs) \<Longrightarrow> \<not> fst (snd (snd u)) \<and> d \<le> fst (snd u)"
  by (induction xs) (auto simp: ins_stmt_def)

lemma PIKA_INS_eq: "PIKA_INS i = PIKA_INS INS_OUT \<longleftrightarrow> i = INS_OUT" "PIKA_INS i = PIKA_INS INS_NLS \<longleftrightarrow> i = INS_NLS"
  by (cases i; simp add: PIKA_INS_def instruction_table_def)+

text \<open>The statements that are counted.\<close>

primrec counts :: "nat \<Rightarrow> asm_stmt \<Rightarrow> bool" where
  "counts d (Block n) = False"
| "counts d (Ins k i v) \<longleftrightarrow> k = Suc d \<and> i \<notin> {INS_OUT, INS_NLS}"

lemma counted_asm_instrs:
  "length (filter (counted d) (asm_instrs b nl xs)) = length (filter (counts d) xs)"
  by (induction b nl xs rule: asm_instrs.induct) (auto simp: counted_def passed_def PIKA_INS_eq)

lemma counts_deep: "\<forall>s \<in> set xs. ins_stmt (Suc (Suc d)) s \<Longrightarrow> filter (counts d) xs = []"
  by (auto simp: filter_empty_conv ins_stmt_def)

lemma argc_quiet:
  assumes "\<forall>u \<in> set us. \<not> fst (snd (snd u)) \<and> d < fst (snd u)"
  shows "argc d (rev us @ r) n = argc d r (n + length (filter (counted d) us))"
  using assms
proof (induction us arbitrary: r)
  case (Cons u us)
  then have "argc d (rev us @ u # r) n = argc d (u # r) (n + length (filter (counted d) us))" by simp
  moreover have "passed d u \<Longrightarrow> \<not> counted d u" by (simp add: counted_def)
  ultimately show ?case using Cons.prems by auto
qed simp

text \<open>The shape of the code of a tree: how it begins and ends, and that it counts as one argument.\<close>

lemma post_shape:
  assumes "one_kind T"
  shows "\<exists>k i v rest. post d T = Ins k i v # rest \<and> i \<notin> {INS_OUT, INS_NLS}"
    and "\<exists>xs i v. post d T = xs @ [Ins d i v]" and "length (filter (counts d) (post (Suc d) T)) = 1"
proof -
  obtain a subs where T: "T = AST a subs" by (cases T)
  have k: "length (filter (has a) (butlast rule_codes)) = 1" using assms by (simp add: T)
  show "\<exists>xs i v. post d T = xs @ [Ins d i v]"
  proof (rule one_kind_rules [OF k, of d])
    fix i v out
    assume r: "concat (map (rule_stmt d a) rule_codes) = Ins d i v # out" "out = [] \<or> (\<exists>w. out = [Ins d INS_OUT w])"
    obtain pre where "post d T = pre @ Ins d i v # out" using r(1) by (simp add: T)
    then have "post d T = pre @ [Ins d i v] \<or> (\<exists>w. post d T = (pre @ [Ins d i v]) @ [Ins d INS_OUT w])"
      using r(2) by auto
    then show ?thesis by blast
  qed
  have "filter (counts d) (concat (map (post (Suc (Suc d))) subs)) = []"
    by (rule counts_deep) (auto dest: post_stmts)
  then have kids: "filter (counts d) (post (Suc d) T) = filter (counts d) (if a ''list'' \<noteq> None then [Ins (Suc d) INS_LST []] else []) @
      filter (counts d) (concat (map (rule_stmt (Suc d) a) rule_codes))"
    by (simp add: T)
  show "length (filter (counts d) (post (Suc d) T)) = 1"
    unfolding kids by (rule one_kind_rules [OF k, of "Suc d"]) auto
  show "\<exists>k i v rest. post d T = Ins k i v # rest \<and> i \<notin> {INS_OUT, INS_NLS}"
    using assms
  proof (induction T arbitrary: d)
    case (AST a subs)
    have k: "length (filter (has a) (butlast rule_codes)) = 1" using AST.prems by simp
    show ?case
    proof (rule one_kind_rules [OF k, of d])
      fix i v out
      assume r: "concat (map (rule_stmt d a) rule_codes) = Ins d i v # out" "i \<noteq> INS_OUT" "i = INS_NLS \<longleftrightarrow> a ''list'' \<noteq> None"
      show ?thesis
      proof (cases "a ''list'' = None \<and> subs \<noteq> []")
        case True
        then obtain t ts where "subs = t # ts" by (cases subs) auto
        with AST.IH [of t "Suc d"] AST.prems True show ?thesis by (auto simp del: post.simps simp: post.simps [of d a])
      qed (use r in auto)
    qed
  qed
qed

text \<open>What may stand before the code of a node: nothing, or a statement that is not deeper.\<close>

definition before :: "nat \<Rightarrow> asm_stmt list \<Rightarrow> bool" where
  "before d pre \<longleftrightarrow> (\<forall>s \<in> set pre. ins_stmt 0 s) \<and> (pre = [] \<or> (\<exists>k i v. last pre = Ins k i v \<and> k \<le> d))"

lemma argc_stop: "fst (snd u) \<le> d \<Longrightarrow> argc d (u # r) n = Some n"
  by (cases u) (auto simp: passed_def counted_def)

lemma argc_before:
  assumes "before d pre" "pre \<noteq> []"
  shows "argc d (rev (asm_instrs b nl pre) @ r) n = Some n"
proof -
  obtain xs k i v where x: "pre = xs @ [Ins k i v]" "k \<le> d"
    using assms by (metis append_butlast_last_id before_def)
  moreover have "\<forall>s \<in> set xs. ins_stmt 0 s" using assms(1) x(1) by (simp add: before_def)
  ultimately show ?thesis by (simp add: asm_instrs_append argc_stop del: argc.simps)
qed

text \<open>The sub-statements of a node, scanned from its own instruction, are counted one by one.\<close>

lemma argc_subs:
  assumes "\<forall>t \<in> set subs. one_kind t" "before d pre" "pre = [] \<and> subs = [] \<Longrightarrow> \<exists>u r'. r = u # r' \<and> fst (snd u) \<le> d"
  shows "argc d (rev (asm_instrs b True (pre @ concat (map (post (Suc d)) subs))) @ r) 0 = Some (length subs)"
proof -
  let ?kids = "concat (map (post (Suc d)) subs)"
  have deep: "\<forall>s \<in> set ?kids. ins_stmt (Suc d) s" by (auto dest: post_stmts)
  have cnt: "length (filter (counts d) ?kids) = length subs"
    using assms(1) post_shape(3) by (induction subs) auto
  have pre: "\<forall>s \<in> set pre. ins_stmt 0 s" using assms(2) by (simp add: before_def)
  have quiet: "argc d (rev (asm_instrs b False xs) @ r) n = argc d r (n + length (filter (counts d) xs))"
    if "\<forall>s \<in> set xs. ins_stmt (Suc d) s" for xs r n
    using asm_instrs_quiet [OF that] argc_quiet [of "asm_instrs b False xs" d r n]
    by (metis Suc_le_lessD counted_asm_instrs)
  show ?thesis
  proof (cases "pre = []")
    case False
    then show ?thesis
      using quiet [OF deep] argc_before [OF assms(2)] by (simp add: asm_instrs_append [OF pre] cnt)
  next
    case p: True
    show ?thesis
    proof (cases "subs = []")
      case True
      then show ?thesis using assms(3) p argc_stop by auto
    next
      case False
      then obtain t ts where s: "subs = t # ts" by (cases subs) auto
      then obtain k i v rest where k: "?kids = Ins k i v # rest" "i \<notin> {INS_OUT, INS_NLS}"
        using post_shape(1) [of t "Suc d"] assms(1) by fastforce
      have "argc d (rev (asm_instrs b False rest) @ (b, k, True, PIKA_INS i, v) # r) 0 =
          argc d ((b, k, True, PIKA_INS i, v) # r) (length (filter (counts d) rest))"
        using quiet [of rest] deep k(1) by simp
      moreover have "length subs = length (filter (counts d) rest) + of_bool (counts d (Ins k i v))"
        using cnt k(1) by (simp split: if_splits)
      ultimately show ?thesis using k by (auto simp: p passed_def counted_def PIKA_INS_eq)
    qed
  qed
qed

definition node_ok :: "nat \<Rightarrow> instr list \<Rightarrow> asm_stmt list \<Rightarrow> nat \<times> nat \<times> nat \<Rightarrow> bool" where
  "node_ok b old ss = (\<lambda>(j, e, n). j < length ss \<and> (\<exists>i v. ss ! j = Ins e i v) \<and>
     (0 < j \<or> old \<noteq> [] \<longrightarrow> argc e (rev (asm_instrs b True (take j ss)) @ rev old) 0 = Some n))"

lemma node_ok_append: "node_ok b old ss x \<Longrightarrow> node_ok b old (ss @ ts) x"
  by (auto simp: node_ok_def nth_append)

lemma before_mono: "before d pre \<Longrightarrow> d \<le> e \<Longrightarrow> before e pre"
  using le_trans by (fastforce simp: before_def)

lemma nodes_argc:
  assumes "old \<noteq> [] \<longrightarrow> fst (snd (last old)) = 0"
  shows "one_kind T \<Longrightarrow> before d pre \<Longrightarrow> k = length pre \<Longrightarrow> x \<in> set (nodes d k T) \<Longrightarrow> node_ok b old (pre @ post d T) x"
    and "\<forall>t \<in> set ts. one_kind t \<Longrightarrow> before d pre \<Longrightarrow> k = length pre \<Longrightarrow> x \<in> set (nodes_of d k ts) \<Longrightarrow>
      node_ok b old (pre @ concat (map (post d) ts)) x"
proof (induction d k T and d k ts arbitrary: pre and pre rule: nodes_nodes_of.induct)
  case (1 d k a subs)
  define pre1 where "pre1 = pre @ (if a ''list'' \<noteq> None then [Ins d INS_LST []] else [])"
  let ?kids = "concat (map (post (Suc d)) subs)"
  have w: "pre @ post d (AST a subs) = (pre1 @ ?kids) @ concat (map (rule_stmt d a) rule_codes)"
    by (simp add: pre1_def)
  have k1: "k + of_bool (a ''list'' \<noteq> None) = length pre1" using 1(4) by (simp add: pre1_def)
  have b1: "before d pre1" using 1(3) by (auto simp: before_def pre1_def)
  have subs: "\<forall>t \<in> set subs. one_kind t" and one: "length (filter (has a) (butlast rule_codes)) = 1" using 1(2) by auto
  from 1(5) consider "x \<in> set (nodes_of (Suc d) (length pre1) subs)" | "x = (length (pre1 @ ?kids), d, length subs)"
    unfolding nodes.simps Let_def k1 by auto
  then show ?case
  proof cases
    case 1
    then have "node_ok b old (pre1 @ ?kids) x" using "1.IH" [OF refl subs before_mono [OF b1]] k1 by simp
    then show ?thesis unfolding w by (rule node_ok_append)
  next
    case 2
    have "pre1 @ ?kids \<noteq> [] \<or> old \<noteq> [] \<Longrightarrow>
        argc d (rev (asm_instrs b True (pre1 @ ?kids)) @ rev old) 0 = Some (length subs)"
      using assms by (intro argc_subs [OF subs b1]) (cases old rule: rev_cases; auto)
    moreover obtain i v out where "concat (map (rule_stmt d a) rule_codes) = Ins d i v # out"
      by (rule one_kind_rules [OF one])
    ultimately show ?thesis unfolding w 2 node_ok_def by (simp add: nth_append)
  qed
next
  case (3 d k t ts)
  have t: "one_kind t" using 3(3) by simp
  obtain xs i v where l: "post d t = xs @ [Ins d i v]" using post_shape(2) [OF t] by blast
  have b: "before d (pre @ post d t)"
    using 3(4) post_stmts [of _ d t] ins_stmt_mono by (fastforce simp: before_def l)
  from 3(6) consider "x \<in> set (nodes d k t)" | "x \<in> set (nodes_of d (k + length (post d t)) ts)" by auto
  then show ?case
  proof cases
    case 1
    then show ?thesis using 3(1) [OF t 3(4,5)] node_ok_append [of b old "pre @ post d t"] by simp
  next
    case 2
    then show ?thesis using 3(2) [OF _ b] 3(3,5) by simp
  qed
qed simp

lemma getInputArgNum_argc:
  assumes "disassemble (bytecode_frame vm) = Some xs" "p < length xs" "pc vm = 4 * int p" "p < U32"
    and "argc (fst (snd (xs ! p))) (rev (take p xs)) 0 = Some m"
  shows "PikaVMFrame_getInputArgNum vm = Some m"
proof -
  obtain u where u: "instructArray_getByOffset (instruct_array (bytecode_frame vm)) (4 * int p) = Some u"
    "unit_view (const_pool (bytecode_frame vm)) u = Some (xs ! p)"
    by (rule disassemble_nth [OF assms(1,2)])
  then have "fst (snd (xs ! p)) = instructUnit_getInvokeDeepth u"
    by (cases "xs ! p") (auto simp: unit_view_def bind_eq_Some_conv)
  then show ?thesis
    using inputArg_loop_argc [OF assms(1) _ _ assms(5)] assms(2-4) u(1)
    by (simp add: PikaVMFrame_getInputArgNum_def PikaVMFrame_getInvokeDeepthNow_def PikaVMFrame_getInstructNow_def)
qed

text \<open>A line that is an expression or an assignment.\<close>

definition plain_line :: "AST \<Rightarrow> bool" where
  "plain_line T \<longleftrightarrow> (\<forall>n \<in> set ([''docstring'', ''block'', ''comprehension''] @ map gr_ast rules_topAst). attrs T n = None)"

lemma find_rule_None: "find_rule P rs = None \<longleftrightarrow> (\<forall>r \<in> set rs. \<not> P r)"
  by (induction rs) auto

lemma genAsm_top_plain:
  assumes "plain_line T" "attrs_ok T" "bd < U32"
  shows "AST_genAsm_top lc code (Some \<lparr> ta_tree = T, ta_blockDeepth = bd, ta_exitBlock = None \<rparr>) =
    Some (Some (asm_lines (Block bd # post 0 T)))"
proof -
  have none: "attrs T ''docstring'' = None" "attrs T ''block'' = None" "attrs T ''comprehension'' = None"
    "find_rule (\<lambda>r. attrs T (gr_ast r) \<noteq> None) rules_topAst = None"
    "find_rule (\<lambda>r. attrs T ''block'' = Some (gr_ast r)) rules_block = None"
    using assms(1) by (auto simp: plain_line_def find_rule_None)
  have d: "cstring (decimal bd)" using decimal_chars [of NUL bd] by (auto simp: cstring_def)
  have b: "ASM_addBlockDeepth bd [] 0 = Some (asm_lines [Block bd])"
    using assms(3) d by (simp add: ASM_addBlockDeepth_def strsAppend_eq itoa_name)
  have "AST_genAsm lc bd (attrs T) 0 T (asm_lines [Block bd]) = Some (asm_lines [Block bd] @ asm_lines (post 0 T))"
    using AST_genAsm_post [where root = "attrs T" and d = 0, OF none(3) assms(2)] d by simp
  then show ?thesis using b none by (simp add: AST_genAsm_top_def Let_def)
qed

lemma line_arguments:
  assumes "plain_line T" "attrs_ok T" "one_kind T" "bd < 16" "\<forall>s \<in> set (post 0 T). asm_ok s"
    and "\<exists>k i v. Ins k i v \<in> set (post 0 T) \<and> v \<noteq> []"
    and "frame_ok bf" "disassemble bf = Some old" "old \<noteq> [] \<longrightarrow> fst (snd (last old)) = 0"
    and "recent g = VM_default_instruction_set"
    and "cp_size (const_pool bf) + sum_list (map data_size (post 0 T)) \<le> 65535"
    and "ia_size (instruct_array bf) + 4 * length (post 0 T) + 32 < U32" "length old + length (post 0 T) < U32"
  shows "\<exists>asm bf'. AST_genAsm_top lc code (Some \<lparr> ta_tree = T, ta_blockDeepth = bd, ta_exitBlock = None \<rparr>) = Some (Some asm) \<and>
    byteCodeFrame_appendFromAsm g bf asm = Some (g, bf') \<and> frame_ok bf' \<and>
    disassemble bf' = Some (old @ asm_instrs bd True (post 0 T)) \<and>
    (\<forall>(j, e, n) \<in> set (nodes 0 0 T). \<forall>vm. bytecode_frame vm = bf' \<and> pc vm = 4 * int (length old + j) \<and> (0 < j \<or> old \<noteq> []) \<longrightarrow>
       PikaVMFrame_getInputArgNum vm = Some n)"
proof -
  let ?ss = "post 0 T"
  let ?xs = "old @ asm_instrs bd True ?ss"
  have ins: "\<forall>s \<in> set ?ss. ins_stmt 0 s" using post_stmts by blast
  obtain bf' where bf': "byteCodeFrame_appendFromAsm g bf (asm_lines (Block bd # ?ss)) = Some (g, bf')" "frame_ok bf'"
    "disassemble bf' = Some ?xs"
    using append_disassemble [OF assms(7,8,10), of "Block bd # ?ss"] assms(4,5,6,11,12) by auto
  have "PikaVMFrame_getInputArgNum vm = Some n"
    if h: "(j, e, n) \<in> set (nodes 0 0 T)" "bytecode_frame vm = bf'" "pc vm = 4 * int (length old + j)" "0 < j \<or> old \<noteq> []" for j e n vm
  proof -
    have "node_ok bd old ([] @ ?ss) (j, e, n)"
      using h(1) by (intro nodes_argc(1) [OF assms(9,3), of _ "[]"]) (simp_all add: before_def)
    then obtain i v where j: "j < length ?ss" "?ss ! j = Ins e i v"
      "argc e (rev (asm_instrs bd True (take j ?ss)) @ rev old) 0 = Some n"
      using h(4) by (auto simp: node_ok_def)
    have s: "?ss = take j ?ss @ Ins e i v # drop (Suc j) ?ss" using id_take_nth_drop [OF j(1)] j(2) by simp
    have tk: "\<forall>s \<in> set (take j ?ss). ins_stmt 0 s" using ins by (auto dest: in_set_takeD)
    have x: "asm_instrs bd True ?ss = asm_instrs bd True (take j ?ss) @
        (bd, e, take j ?ss = [], PIKA_INS i, v) # asm_instrs bd False (drop (Suc j) ?ss)"
      by (subst s, subst asm_instrs_append [OF tk]) simp
    have l: "length (asm_instrs bd True (take j ?ss)) = j" using length_asm_instrs [OF tk] j(1) by simp
    show ?thesis
      using j(1,3) h(2,3) assms(13) bf'(3)
      by (intro getInputArgNum_argc [of vm ?xs "length old + j"]) (simp_all add: x l nth_append length_asm_instrs [OF ins])
  qed
  then show ?thesis using genAsm_top_plain [OF assms(1,2), of bd lc code] bf' assms(4) by (auto simp: U32_def)
qed

text \<open>C24: The arguments of an instruction. The line of an expression or an assignment whose tree has
  one kind for each node compiles to code that assembles, after a program whose last instruction has
  depth 0; and for every node of the tree, the number of arguments that the virtual machine counts
  back from the node's instruction is the number of its sub-statements, lists, assignments of
  keyword arguments and calls without arguments included, unless it is the first instruction of the
  whole program.\<close>

theorem statement_arguments:
  assumes "plain_line T" "attrs_ok T" "one_kind T" "bd < 16" "\<forall>s \<in> set (post 0 T). asm_ok s"
    and "\<exists>k i v. Ins k i v \<in> set (post 0 T) \<and> v \<noteq> []"
    and "frame_ok bf" "disassemble bf = Some old" "old \<noteq> [] \<longrightarrow> fst (snd (last old)) = 0"
    and "recent g = VM_default_instruction_set"
    and "cp_size (const_pool bf) + sum_list (map data_size (post 0 T)) \<le> 65535"
    and "ia_size (instruct_array bf) + 4 * length (post 0 T) + 32 < U32" "length old + length (post 0 T) < U32"
  shows "\<exists>asm bf'. AST_genAsm_top lc code (Some \<lparr> ta_tree = T, ta_blockDeepth = bd, ta_exitBlock = None \<rparr>) = Some (Some asm) \<and>
    byteCodeFrame_appendFromAsm g bf asm = Some (g, bf') \<and> frame_ok bf' \<and>
    disassemble bf' = Some (old @ asm_instrs bd True (post 0 T)) \<and>
    (\<forall>(j, e, n) \<in> set (nodes 0 0 T). \<forall>vm. bytecode_frame vm = bf' \<and> pc vm = 4 * int (length old + j) \<and> (0 < j \<or> old \<noteq> []) \<longrightarrow>
       PikaVMFrame_getInputArgNum vm = Some n)"
  using assms by (rule line_arguments)

text \<open>The line \<open>x = f([1, a])\<close>.\<close>

definition demo_line :: AST where
  "demo_line = AST [''method'' \<mapsto> ''f'', ''left'' \<mapsto> ''x'']
     [AST [''list'' \<mapsto> ''list''] [AST [''num'' \<mapsto> ''1''] [], AST [''ref'' \<mapsto> ''a''] []]]"

lemma demo_line_post:
  "post 0 demo_line = [Ins 1 INS_LST [], Ins 2 INS_NUM ''1'', Ins 2 INS_REF ''a'', Ins 1 INS_NLS [], Ins 0 INS_RUN ''f'', Ins 0 INS_OUT ''x'']"
  by (simp add: demo_line_def rule_codes_def rules_after_def rule_def rule_stmt_def)

lemma demo_line_ok: "plain_line demo_line" "attrs_ok demo_line" "one_kind demo_line"
  by (simp_all add: demo_line_def plain_line_def rule_codes_def rules_after_def rules_topAst_def rule_def has_def)

lemma demo_line_nodes: "nodes 0 0 demo_line = [(1, 2, 0), (2, 2, 0), (3, 1, 2), (4, 0, 1)]"
  by (simp add: demo_line_def rule_codes_def rules_after_def rule_def rule_stmt_def)

theorem statement_arguments_witness:
  "\<exists>asm bf'. AST_genAsm_top (\<lambda>_. None) (\<lambda>_ _. None) (Some \<lparr> ta_tree = demo_line, ta_blockDeepth = 1, ta_exitBlock = None \<rparr>) =
      Some (Some asm) \<and> byteCodeFrame_appendFromAsm g_PikaVMInsSet frame0 asm = Some (g_PikaVMInsSet, bf') \<and>
    (\<forall>vm. bytecode_frame vm = bf' \<longrightarrow> (pc vm = 12 \<longrightarrow> PikaVMFrame_getInputArgNum vm = Some 2) \<and>
      (pc vm = 16 \<longrightarrow> PikaVMFrame_getInputArgNum vm = Some 1))"
proof -
  have f: "frame_ok frame0" "disassemble frame0 = Some []" using frame_ok_init by (simp_all add: frame0_def)
  have sz: "cp_size (const_pool frame0) \<le> 4" "ia_size (instruct_array frame0) = 0"
    by (simp_all add: frame0_def byteCodeFrame_init_def constPool_init_def instructArray_init_def)
  have r: "recent g_PikaVMInsSet = VM_default_instruction_set" by (simp add: g_PikaVMInsSet_def)
  have ok: "\<forall>s \<in> set (post 0 demo_line). asm_ok s" "\<exists>k i v. Ins k i v \<in> set (post 0 demo_line) \<and> v \<noteq> []"
    by (auto simp: demo_line_post cstring_def)
  have n: "cp_size (const_pool frame0) + sum_list (map data_size (post 0 demo_line)) \<le> 65535"
    "ia_size (instruct_array frame0) + 4 * length (post 0 demo_line) + 32 < U32" "length [] + length (post 0 demo_line) < U32"
    using sz by (simp_all add: demo_line_post U32_def)
  show ?thesis
    using statement_arguments [OF demo_line_ok _ ok f _ r n, of 1 "\<lambda>_. None" "\<lambda>_ _. None"]
    unfolding demo_line_nodes by fastforce
qed

section \<open>Comprehensions\<close>

lemma comprehension2Asm_eq:
  assumes "cstring s1" "cstring s2" "cstring s3" "lc src = Some (h @ body @ t)" "length h = 3" "length t = 3" "cstring (h @ body @ t)"
    and "arg_strAddIndentMulti (''$tmp = []'' @ [CH_NL] @ strsFormat_line (''for '' @ s2 @ '' in '' @ s3 @ '':'' @ [CH_NL]) @
      strsFormat_line (''    $tmp.append('' @ s1 @ '')'' @ [CH_NL] @ ''pass'' @ [CH_NL])) (4 * bd) = Some src"
  shows "comprehension2Asm lc bd s1 s2 s3 = Some (body @ ''0 REF $tmp'' @ [CH_NL])"
proof -
  let ?f = "strsFormat_line (''for '' @ s2 @ '' in '' @ s3 @ '':'' @ [CH_NL])"
  let ?a = "strsFormat_line (''    $tmp.append('' @ s1 @ '')'' @ [CH_NL] @ ''pass'' @ [CH_NL])"
  have c: "cstring ?f" "cstring ?a" using assms(1-3) by (simp_all add: strsFormat_line_def)
  have "strsAppend (''$tmp = []'' @ [CH_NL]) ?f = Some ((''$tmp = []'' @ [CH_NL]) @ ?f)" using c by (intro strsAppend_eq) simp_all
  moreover have "strsAppend ((''$tmp = []'' @ [CH_NL]) @ ?f) ?a = Some (((''$tmp = []'' @ [CH_NL]) @ ?f) @ ?a)"
    using c by (intro strsAppend_eq) simp_all
  moreover have "strsAppend (h @ body) (''0 REF $tmp'' @ [CH_NL]) = Some ((h @ body) @ ''0 REF $tmp'' @ [CH_NL])"
    using assms(7) by (intro strsAppend_eq) simp_all
  moreover have "strsCopy (body @ ''0 REF $tmp'' @ [CH_NL]) = Some (body @ ''0 REF $tmp'' @ [CH_NL])"
    using assms(7) by (intro strsCopy_eq) simp_all
  ultimately show ?thesis using assms(4-6,8) by (simp add: comprehension2Asm_def strGetSize_def)
qed

end
