(* ===== verification/Pika_Parser.thy ===== *)
theory Pika_Parser
  imports Pika_CodeGen
begin

text \<open>
  The statement parser of \<open>src/src/PikaParser.c\<close>: from the text of a statement to its tree.

  The parser looks at the tokens of a statement, rewrites some forms into others and cuts the
  statement into sub-statements, which it parses in turn. What it does with the tree is kept apart
  from the text: for a statement it yields the list of calls on the tree, in their order.
\<close>

section \<open>Rewriting\<close>

definition selfOperators :: "string list" where
  "selfOperators = [''+='', ''-='', ''*='', ''/='', ''%='', ''&='', ''|='', ''^='', ''<<='', ''>>='', ''**='', ''//='']"

fun find_selfOperator :: "string \<Rightarrow> string list \<Rightarrow> string option option" where
  "find_selfOperator sStmt [] = Some None"
| "find_selfOperator sStmt (q # qs) = do {
     c \<leftarrow> Cursor_isContain sStmt TOKEN_operator q;
     if c then Some (Some (butlast q)) else find_selfOperator sStmt qs
   }"

text \<open>The new right and left sides, or none if there is no such operator.\<close>

definition Suger_selfOperator :: "string \<Rightarrow> (string \<times> string) option option" where
  "Suger_selfOperator sStmt = do {
     r \<leftarrow> find_selfOperator sStmt selfOperators;
     (case r of
        None \<Rightarrow> Some None
      | Some sOperator \<Rightarrow> do {
          (aLeft, aRight, bRight) \<leftarrow> Cursor_forEach (Some sStmt)
            (\<lambda>cs (aLeft, aRight, bRight).
               if \<exists>q \<in> set selfOperators. equ (p1 cs) q then Some ((aLeft, aRight, True), False)
               else if \<not> bRight then do { l \<leftarrow> strsAppend aLeft (p1 cs); Some ((l, aRight, bRight), False) }
               else do { r \<leftarrow> strsAppend aRight (p1 cs); Some ((aLeft, r, bRight), False) }) ([], [], False);
          r1 \<leftarrow> strsAppend [] aLeft;
          r2 \<leftarrow> strsAppend r1 sOperator;
          r3 \<leftarrow> strsAppend r2 ''('';
          r4 \<leftarrow> strsAppend r3 aRight;
          r5 \<leftarrow> strsAppend r4 '')'';
          sRight \<leftarrow> strsCopy r5;
          sLeft \<leftarrow> strsCopy aLeft;
          Some (Some (sRight, sLeft))
        })
   }"

definition append_all_strs :: "string \<Rightarrow> string list \<Rightarrow> string option" where
  "append_all_strs s ts = foldl (\<lambda>a t. do { x \<leftarrow> a; strsAppend x t }) (Some s) ts"

text \<open>The variables of the loop of \<open>Suger_leftSlice\<close>: the new right side, \<open>obj\<close>, \<open>inner\<close> and \<open>bInBrancket\<close>.\<close>

definition leftSlice_body :: "string \<Rightarrow> Cursor \<Rightarrow> string \<times> string option \<times> string \<times> bool \<Rightarrow>
    ((string \<times> string option \<times> string \<times> bool) \<times> bool) option" where
  "leftSlice_body sRight cs v = (case v of (aRight, obj, inner, bInBrancket) \<Rightarrow>
     if tk_type (token2 cs) = TOKEN_devider \<and> equ (p2 cs) ''['' then Some ((aRight, Some (p1 cs), inner, True), False)
     else if tk_type (token2 cs) = TOKEN_devider \<and> equ (p2 cs) '']'' then do {
       sInner \<leftarrow> strsAppend inner (p1 cs);
       (sStart, sEnd, sStep) \<leftarrow> Slice_getPars sInner;
       sObj \<leftarrow> obj;
       r \<leftarrow> append_all_strs aRight [''__setitem__('', sObj, '','', sStart, '','', sRight, '')''];
       Some ((r, obj, [], False), False)
     }
     else if bInBrancket \<and> \<not> equ (p1 cs) ''['' then do {
       i \<leftarrow> strsAppend inner (p1 cs);
       Some ((aRight, obj, i, bInBrancket), False)
     }
     else if \<not> bInBrancket \<and> \<not> equ (p1 cs) '']'' then do {
       r \<leftarrow> (if tk_type (token1 cs) \<noteq> TOKEN_strEnd then strsAppend aRight (p1 cs) else Some aRight);
       Some ((r, obj, inner, bInBrancket), False)
     }
     else Some (v, False))"

text \<open>The right side and the left side, which is cut at its first bracket.\<close>

definition Suger_leftSlice :: "string \<Rightarrow> string option \<Rightarrow> (string \<times> string option) option" where
  "Suger_leftSlice sRight sLeft_p = (case sLeft_p of
     None \<Rightarrow> do { r \<leftarrow> strsCopy sRight; Some (r, None) }
   | Some sLeft \<Rightarrow> do {
       bMatched \<leftarrow> Cursor_forEach (Some sLeft)
         (\<lambda>cs b. if equ (p2 cs) ''['' \<and> (tk_type (token1 cs) = TOKEN_symbol \<or> tk_type (token1 cs) = TOKEN_literal)
            then Some (True, True) else Some (b, False)) False;
       if \<not> bMatched then do { r \<leftarrow> strsCopy sRight; Some (r, Some sLeft) }
       else do {
         (aRight, obj, inner, bIn) \<leftarrow> Cursor_forEach (Some sLeft) (leftSlice_body sRight) ([], None, [], False);
         r \<leftarrow> strsCopy aRight;
         Some (r, Some (takeWhile (\<lambda>c. c \<noteq> CHR ''['') sLeft))
       }
     })"

text \<open>The variables of the loop of \<open>Suger_format\<close>.\<close>

record Format =
  aStrBuf :: string
  aVarBuf :: string
  bInFormat :: bool
  bTuple :: bool
  bOutVars :: bool
  sFmt :: string

definition format_body :: "Cursor \<Rightarrow> Format \<Rightarrow> (Format \<times> bool) option" where
  "format_body cs f =
     (if \<not> bInFormat f then
        (if tk_type (token1 cs) \<noteq> TOKEN_literal \<or> str_at (p1 cs) 0 \<notin> {CH_SQ, CH_DQ} \<or> \<not> equ (p2 cs) ''%'' then do {
           s \<leftarrow> strsAppend (aStrBuf f) (p1 cs);
           Some (f\<lparr>aStrBuf := s\<rparr>, False)
         }
         else do {
           s \<leftarrow> strsCopy (p1 cs);
           Some (f\<lparr>bInFormat := True, sFmt := s\<rparr>, False)
         })
      else if equ (p1 cs) ''%'' then
        (if equ (p2 cs) ''('' then Some (f\<lparr>bTuple := True\<rparr>, False)
         else do { v \<leftarrow> strsAppend (aVarBuf f) (p2 cs); Some (f\<lparr>aVarBuf := v\<rparr>, False) })
      else do {
        f1 \<leftarrow> (if iter_index cs = cs_length cs then Some (f\<lparr>bOutVars := True, bInFormat := False\<rparr>)
               else do { v \<leftarrow> strsAppend (aVarBuf f) (p2 cs); Some (f\<lparr>aVarBuf := v\<rparr>) });
        f2 \<leftarrow> (if bOutVars f1 then do {
                 s \<leftarrow> append_all_strs (aStrBuf f1)
                        ([''cformat('', sFmt f1, '','', aVarBuf f1] @ (if bTuple f1 then [] else ['')'']));
                 Some (f1\<lparr>aStrBuf := s\<rparr>)
               } else Some f1);
        Some (f2, False)
      })"

definition Suger_format :: "string \<Rightarrow> string option" where
  "Suger_format sRight =
     (if \<not> strIsContain sRight CHR ''%'' then Some sRight
      else do {
        bFormat \<leftarrow> Cursor_forEach (Some sRight)
          (\<lambda>cs b. Some (b \<or> (bracket_deepth cs = 0 \<and> equ (p1 cs) ''%''), False)) False;
        if \<not> bFormat then Some sRight
        else do {
          f \<leftarrow> Cursor_forEach (Some sRight) format_body
                 \<lparr> aStrBuf = [], aVarBuf = [], bInFormat = False, bTuple = False, bOutVars = False, sFmt = [] \<rparr>;
          strsCopy (aStrBuf f)
        }
      })"

text \<open>
  The operator of two words in front of its operands. The format is that of \<open>Suger_not_in\<close> and
  \<open>Suger_is_not\<close>, with the second word or the first one left in the middle; its buffer has sixteen bits.
\<close>

definition Suger_process :: "string \<Rightarrow> string \<Rightarrow> string \<Rightarrow> (string \<Rightarrow> string \<Rightarrow> string) \<Rightarrow> string option" where
  "Suger_process sLine sToken1 sToken2 sFormat = do {
     n1 \<leftarrow> Cursor_count sLine TOKEN_operator sToken1;
     if n1 \<noteq> 1 then Some sLine
     else do {
       n2 \<leftarrow> Cursor_count sLine TOKEN_operator sToken2;
       if n2 \<noteq> 1 then Some sLine
       else do {
         (sStmt1, sStmt2, bGotTokens, bSkip) \<leftarrow> Cursor_forEach (Some sLine)
           (\<lambda>cs (s1, s2, got, skip).
              if \<not> got then
                (if equ (p1 cs) sToken1 \<and> equ (p2 cs) sToken2 then Some ((s1, s2, True, skip), False)
                 else do { t \<leftarrow> strsAppend s1 (p1 cs); Some ((t, s2, got, skip), False) })
              else if \<not> skip then Some ((s1, s2, got, True), False)
              else do { t \<leftarrow> strsAppend s2 (p1 cs); Some ((s1, t, got, skip), False) }) ([], [], False, False);
         if \<not> bGotTokens then Some sLine
         else Some (take ((strGetSize sLine + length sToken1 + length sToken2) mod 2 ^ 16 - 1) (sFormat sStmt1 sStmt2))
       }
     }
   }"

definition Suger_not_in :: "string \<Rightarrow> string option" where
  "Suger_not_in sLine = Suger_process sLine '' not '' '' in '' (\<lambda>s1 s2. '' not '' @ s1 @ '' in '' @ s2)"

definition Suger_is_not :: "string \<Rightarrow> string option" where
  "Suger_is_not sLine = Suger_process sLine '' is '' '' not '' (\<lambda>s1 s2. '' not '' @ s1 @ '' is '' @ s2)"

section \<open>Sub-statements\<close>

text \<open>The sub-statement in front of the delimiter and the statement that is left.\<close>

definition popSub_body :: "string \<Rightarrow> Cursor \<Rightarrow> string \<times> string \<times> bool \<Rightarrow> ((string \<times> string \<times> bool) \<times> bool) option" where
  "popSub_body sDelimiter cs v = (case v of (aSubstmt, aNewStmt, bIsGetSubstmt) \<Rightarrow>
     if bIsGetSubstmt then do { n \<leftarrow> strsAppend aNewStmt (p1 cs); Some ((aSubstmt, n, bIsGetSubstmt), False) }
     else if 0 < sint (bracket_deepth cs) then do { s \<leftarrow> strsAppend aSubstmt (p1 cs); Some ((s, aNewStmt, bIsGetSubstmt), False) }
     else if equ (p1 cs) sDelimiter then Some ((aSubstmt, aNewStmt, True), False)
     else do { s \<leftarrow> strsAppend aSubstmt (p1 cs); Some ((s, aNewStmt, bIsGetSubstmt), False) })"

definition Parser_popSubStmt :: "string \<Rightarrow> string \<Rightarrow> (string \<times> string) option" where
  "Parser_popSubStmt sStmt sDelimiter = do {
     (aSubstmt, aNewStmt, bGet) \<leftarrow> Cursor_forEach (Some sStmt) (popSub_body sDelimiter) ([], [], False);
     Some (aSubstmt, aNewStmt)
   }"

definition Parser_getSubStmtNum :: "string \<Rightarrow> string \<Rightarrow> int option" where
  "Parser_getSubStmtNum sSubStmts sDelimiter =
     (if equ sSubStmts '','' then Some 0 else map_option uint (Cursor_count_ex sSubStmts TOKEN_devider sDelimiter True))"

text \<open>The main statement and the last one, which begins with the delimiter. The index has eight bits.\<close>

definition Parser_popLastSubStmt_ex :: "string \<Rightarrow> string \<Rightarrow> bool \<Rightarrow> (string \<times> string) option" where
  "Parser_popLastSubStmt_ex stmt sDelimiter bSkipBracket = do {
     uLastStmtI \<leftarrow> Cursor_forEach (Some stmt)
       (\<lambda>cs u. Some (
          if strIsStartWith (Some (p1 cs)) (Some sDelimiter) \<and> \<not> (bSkipBracket \<and> 0 < sint (bracket_deepth cs)) \<and>
             \<not> 1 < sint (bracket_deepth cs)
          then iter_index cs mod 256 else u, False)) 0;
     (aMainStmt, aLastStmt) \<leftarrow> Cursor_forEach (Some stmt)
       (\<lambda>cs (m, l). do {
          m1 \<leftarrow> (if iter_index cs < uLastStmtI then strsAppend m (p1 cs) else Some m);
          l1 \<leftarrow> (if iter_index cs \<ge> uLastStmtI then strsAppend l (p1 cs) else Some l);
          Some ((m1, l1), False)
        }) ([], []);
     Some (aMainStmt, aLastStmt)
   }"

definition Parser_popLastSubStmt :: "string \<Rightarrow> string \<Rightarrow> (string \<times> string) option" where
  "Parser_popLastSubStmt stmt sDelimiter = Parser_popLastSubStmt_ex stmt sDelimiter True"

section \<open>The calls on the tree\<close>

text \<open>
  \<open>AST_setNodeAttr\<close>, \<open>AST_parseSubStmt\<close>, \<open>AST_parseStmt\<close> on the same node, and the error result.
\<close>

datatype call = Set_attr string string | Sub_stmt string | Same_node string | Syntax_error

definition cut_stmts :: "string \<Rightarrow> char \<Rightarrow> char \<Rightarrow> string \<Rightarrow> string option" where
  "cut_stmts sStmt a b sDelimiter = do {
     c \<leftarrow> strsCut sStmt a b;
     sSubStmts \<leftarrow> c;
     strsAppend sSubStmts sDelimiter
   }"

partial_function (option) list_loop :: "string \<Rightarrow> call list option" where
  "list_loop sSubStmts = do {
     (sSubStmt, rest) \<leftarrow> Parser_popSubStmt sSubStmts '','';
     if equ rest [] then Some [Sub_stmt sSubStmt]
     else do { r \<leftarrow> list_loop rest; Some (Sub_stmt sSubStmt # r) }
   }"

declare list_loop.simps [code]

definition AST_parse_list :: "string \<Rightarrow> call list option" where
  "AST_parse_list sStmt = do {
     sSubStmts \<leftarrow> cut_stmts sStmt CHR ''['' CHR '']'' '','';
     r \<leftarrow> list_loop sSubStmts;
     Some (Set_attr ''list'' ''list'' # r)
   }"

definition AST_parse_comprehension :: "string \<Rightarrow> call list option" where
  "AST_parse_comprehension sStmt = do {
     c \<leftarrow> strsCut sStmt CHR ''['' CHR '']'';
     sSubStmts \<leftarrow> c;
     sSubStms1 \<leftarrow> Cursor_splitCollect sSubStmts '' for '' 0;
     sSubStms23 \<leftarrow> Cursor_splitCollect sSubStmts '' for '' 1;
     sSubStms2 \<leftarrow> Cursor_splitCollect sSubStms23 '' in '' 0;
     sSubStms3 \<leftarrow> Cursor_splitCollect sSubStms23 '' in '' 1;
     Some [Set_attr ''comprehension'' [], Set_attr ''substmt1'' sSubStms1, Set_attr ''substmt2'' sSubStms2,
       Set_attr ''substmt3'' sSubStms3]
   }"

definition AST_parse_list_comprehension :: "string \<Rightarrow> call list option" where
  "AST_parse_list_comprehension sStmt = do {
     c \<leftarrow> Cursor_isContain sStmt TOKEN_keyword '' for '';
     if c then AST_parse_comprehension sStmt else AST_parse_list sStmt
   }"

partial_function (option) dict_loop :: "string \<Rightarrow> call list option" where
  "dict_loop subStmts = do {
     (sSubStmt, rest) \<leftarrow> Parser_popSubStmt subStmts '','';
     (sKey, sValue) \<leftarrow> Parser_popSubStmt sSubStmt '':'';
     if equ rest [] then Some [Sub_stmt sKey, Sub_stmt sValue]
     else do { r \<leftarrow> dict_loop rest; Some (Sub_stmt sKey # Sub_stmt sValue # r) }
   }"

declare dict_loop.simps [code]

definition AST_parse_dict :: "string \<Rightarrow> call list option" where
  "AST_parse_dict sStmt = do {
     subStmts \<leftarrow> cut_stmts sStmt CHR ''{'' CHR ''}'' '','';
     r \<leftarrow> dict_loop subStmts;
     Some (Set_attr ''dict'' ''dict'' # r)
   }"

partial_function (option) slice_loop :: "nat \<Rightarrow> string \<Rightarrow> call list option" where
  "slice_loop iIndex sSliceList = do {
     (sSlice, rest) \<leftarrow> Parser_popSubStmt sSliceList '':'';
     let c = Sub_stmt (if iIndex = 0 \<and> equ sSlice [] then ''0'' else if iIndex = 1 \<and> equ sSlice [] then ''-99999'' else sSlice);
     if equ [] rest then Some [c]
     else do { r \<leftarrow> slice_loop (iIndex + 1) rest; Some (c # r) }
   }"

declare slice_loop.simps [code]

definition AST_parse_slice :: "string \<Rightarrow> call list option" where
  "AST_parse_slice sStmt0 = do {
     s \<leftarrow> strsCopy sStmt0;
     (sStmt, sLaststmt) \<leftarrow> Parser_popLastSubStmt_ex s ''['' False;
     sSliceList \<leftarrow> cut_stmts sLaststmt CHR ''['' CHR '']'' '':'';
     r \<leftarrow> slice_loop 0 sSliceList;
     Some (Set_attr ''slice'' ''slice'' # Sub_stmt sStmt # r)
   }"

text \<open>
  The arguments of a call from the \<open>i\<close>-th on; the result ends with the attribute of the node, or with
  the error. What is between brackets without a name is a tuple if it ends with a comma.
\<close>

fun method_loop :: "nat \<Rightarrow> int \<Rightarrow> int \<Rightarrow> string \<Rightarrow> string \<Rightarrow> call list option" where
  "method_loop 0 i n sMethod sSubStmts = Some [Set_attr ''method'' sMethod]"
| "method_loop (Suc k) i n sMethod sSubStmts = do {
     (substmt, rest) \<leftarrow> Parser_popSubStmt sSubStmts '','';
     if strOnly rest CHR '','' then
       Some [Sub_stmt substmt,
         if i < n - 2 then Syntax_error
         else Set_attr (if i = n - 2 \<and> equ sMethod [] then ''tuple'' else ''method'') sMethod]
     else if equ [] rest then
       Some [Sub_stmt substmt, if i \<noteq> n - 1 then Syntax_error else Set_attr ''method'' sMethod]
     else do { r \<leftarrow> method_loop k (i + 1) n sMethod rest; Some (Sub_stmt substmt # r) }
   }"

definition parse_method :: "string \<Rightarrow> call list option" where
  "parse_method sRight = do {
     sMethodStmt \<leftarrow> strsCopy sRight;
     n1 \<leftarrow> Cursor_count_ex sMethodStmt TOKEN_devider ''('' True;
     n2 \<leftarrow> Cursor_count_ex sMethodStmt TOKEN_devider ''['' True;
     (calls, sLastStmt) \<leftarrow>
       (if unat n1 + unat n2 > 1 then do {
          (sHost, sLast) \<leftarrow> Parser_popLastSubStmt_ex sMethodStmt ''('' False;
          n \<leftarrow> Cursor_count_ex sLast TOKEN_devider ''('' False;
          sLast1 \<leftarrow> (if n = 1 then do {
                       sMethodCheck \<leftarrow> strsGetFirstToken sLast CHR ''('';
                       if equ sMethodCheck [] then strsAppend ''.'' sLast else Some sLast
                     } else Some sLast);
          Some ([Sub_stmt sHost], sLast1)
        } else Some ([], sMethodStmt));
     sMethod \<leftarrow> strsGetFirstToken sLastStmt CHR ''('';
     c \<leftarrow> strsCut sLastStmt CHR ''('' CHR '')'';
     (case c of
        None \<Rightarrow> Some (calls @ [Syntax_error])
      | Some sSub \<Rightarrow> do {
          sSubStmts \<leftarrow> strsAppend sSub '','';
          iSubStmtsNum \<leftarrow> Parser_getSubStmtNum sSubStmts '','';
          r \<leftarrow> method_loop (nat iSubStmtsNum) 0 iSubStmtsNum sMethod sSubStmts;
          Some (calls @ r)
        })
   }"

definition parse_operator :: "string \<Rightarrow> call list option" where
  "parse_operator sRight0 = do {
     s1 \<leftarrow> Suger_not_in sRight0;
     sRight \<leftarrow> Suger_is_not s1;
     rightWithoutSubStmt \<leftarrow> remove_sub_stmt sRight;
     r \<leftarrow> Lexer_getOperator rightWithoutSubStmt;
     (case r of
        None \<Rightarrow> Some [Syntax_error]
      | Some opr \<Rightarrow> do {
          sRightBuff \<leftarrow> strsCopy sRight;
          (sSubStmt1, sSubStmt2) \<leftarrow> Cursor_popLastToken sRightBuff opr;
          Some [Set_attr ''operator'' opr, Sub_stmt sSubStmt1, Sub_stmt sSubStmt2]
        })
   }"

definition parse_chain :: "string \<Rightarrow> call list option" where
  "parse_chain sRight = do {
     s \<leftarrow> strsCopy sRight;
     (sHost, sMethodStmt) \<leftarrow> Parser_popLastSubStmt s ''.'';
     Some [Sub_stmt sHost, Same_node sMethodStmt]
   }"

text \<open>
  The text between the quotes, behind the \<open>b\<close> for bytes. Where there is nothing behind the opening
  quote, the terminator is written in front of it.
\<close>

definition parse_string :: "StmtType \<Rightarrow> string \<Rightarrow> call list option" where
  "parse_string eStmtType sRight = do {
     s \<leftarrow> strsCopy sRight;
     let n = (if eStmtType = STMT_string then 1 else 2);
     let firstChar = str_at s 0;
     if length s < n then None
     else do {
       let sStr = butlast (drop n s);
       sStr1 \<leftarrow> (if strIsContain sStr CH_BS then
                   (if firstChar = CH_SQ then do { r \<leftarrow> strsReplace sStr [CH_BS, CH_SQ] (Some [CH_SQ]); r }
                    else if firstChar = CH_DQ then do { r \<leftarrow> strsReplace sStr [CH_BS, CH_DQ] (Some [CH_DQ]); r }
                    else Some sStr)
                 else Some sStr);
       Some [Set_attr (if eStmtType = STMT_string then ''string'' else ''bytes'') sStr1]
     }
   }"

definition parse_reference :: "string \<Rightarrow> call list option" where
  "parse_reference sRight = do {
     sRef \<leftarrow> Cursor_splitCollect sRight '':'' 0;
     Some (if \<not> equ sRef sRight then [] else [Set_attr ''ref'' sRef])
   }"

definition parse_last :: "string \<Rightarrow> string \<Rightarrow> call list option" where
  "parse_last sAttr sRight = do { s \<leftarrow> strsGetLastToken sRight CHR '' ''; Some [Set_attr sAttr s] }"

definition parse_right :: "string \<Rightarrow> call list option" where
  "parse_right sRight0 = do {
     t0 \<leftarrow> Lexer_matchStmtType sRight0;
     let sRight = (if t0 = STMT_tuple then strsFormat_line (''('' @ sRight0 @ '')'') else sRight0);
     let eStmtType = (if t0 = STMT_tuple then STMT_method else t0);
     (case eStmtType of
        STMT_operator \<Rightarrow> parse_operator sRight
      | STMT_list \<Rightarrow> AST_parse_list_comprehension sRight
      | STMT_dict \<Rightarrow> AST_parse_dict sRight
      | STMT_chain \<Rightarrow> parse_chain sRight
      | STMT_slice \<Rightarrow> AST_parse_slice sRight
      | STMT_method \<Rightarrow> parse_method sRight
      | STMT_reference \<Rightarrow> parse_reference sRight
      | STMT_import \<Rightarrow> parse_last ''import'' sRight
      | STMT_inhert \<Rightarrow> parse_last ''inhert'' sRight
      | STMT_string \<Rightarrow> parse_string eStmtType sRight
      | STMT_bytes \<Rightarrow> parse_string eStmtType sRight
      | STMT_number \<Rightarrow> Some [Set_attr ''num'' sRight]
      | _ \<Rightarrow> Some [])
   }"

section \<open>A statement\<close>

text \<open>The sides of an assignment: at the first equals sign that is an operator.\<close>

definition direct_body :: "Cursor \<Rightarrow> string \<times> string \<times> bool \<Rightarrow> ((string \<times> string \<times> bool) \<times> bool) option" where
  "direct_body cs v = (case v of (sLeft, sRight, bMeetEqu) \<Rightarrow>
     if \<not> bMeetEqu \<and> equ (p1 cs) ''='' \<and> tk_type (token1 cs) = TOKEN_operator then Some ((sLeft, sRight, True), False)
     else if \<not> bMeetEqu then do { l \<leftarrow> strsAppend sLeft (p1 cs); Some ((l, sRight, bMeetEqu), False) }
     else do { r \<leftarrow> strsAppend sRight (p1 cs); Some ((sLeft, r, bMeetEqu), False) })"

text \<open>The left side, if there is one, and the right side.\<close>

definition stmt_sides :: "string \<Rightarrow> (string option \<times> string) option" where
  "stmt_sides sStmt = do {
     assignment \<leftarrow> Cursor_splitCollect sStmt ''('' 0;
     direct \<leftarrow> Parser_checkIsDirect assignment;
     if direct then do {
       (sLeft, sRight, b) \<leftarrow> Cursor_forEach (Some sStmt) direct_body ([], [], False);
       Some (Some sLeft, sRight)
     }
     else do {
       r \<leftarrow> Suger_selfOperator sStmt;
       Some (case r of None \<Rightarrow> (None, sStmt) | Some (sRight, sLeft) \<Rightarrow> (Some sLeft, sRight))
     }
   }"

definition stmt_calls :: "string \<Rightarrow> call list option" where
  "stmt_calls sStmt = do {
     (l0, r0) \<leftarrow> stmt_sides sStmt;
     l1 \<leftarrow> (case l0 of None \<Rightarrow> Some None | Some l \<Rightarrow> map_option Some (Cursor_splitCollect l '':'' 0));
     (r1, l2) \<leftarrow> Suger_leftSlice r0 l1;
     sRight \<leftarrow> Suger_format r1;
     (case l2 of
        None \<Rightarrow> parse_right sRight
      | Some sLeft \<Rightarrow>
          if equ sLeft [] then Some [Syntax_error]
          else do { r \<leftarrow> parse_right sRight; Some (Set_attr ''left'' sLeft # r) })
   }"

text \<open>
  The calls on a node. A node that could not be parsed has been released: the parent of a
  sub-statement and the caller for a further part of the same node ignore the null result and keep
  the released node, so that any use of the tree, its release included, is undefined. The null
  result of the statement itself is the inner \<open>None\<close>.
\<close>

definition AST_setNodeAttr :: "AST \<Rightarrow> string \<Rightarrow> string \<Rightarrow> AST" where
  "AST_setNodeAttr ast sAttrName sAttrVal = AST ((attrs ast)(sAttrName \<mapsto> sAttrVal)) (sub_stmts ast)"

definition AST_create :: AST where
  "AST_create = AST (\<lambda>_. None) []"

definition AST_push :: "AST \<Rightarrow> AST \<Rightarrow> AST" where
  "AST_push ast c = AST (attrs ast) (sub_stmts ast @ [c])"

partial_function (option) AST_calls :: "AST \<Rightarrow> call list \<Rightarrow> AST option option" where
  "AST_calls ast cs = (case cs of
     [] \<Rightarrow> Some (Some ast)
   | c # r \<Rightarrow> (case c of
       Set_attr n v \<Rightarrow> AST_calls (AST_setNodeAttr ast n v) r
     | Sub_stmt s \<Rightarrow> do {
         k \<leftarrow> stmt_calls s;
         t \<leftarrow> AST_calls AST_create k;
         t1 \<leftarrow> t;
         AST_calls (AST_push ast t1) r
       }
     | Same_node s \<Rightarrow> do {
         k \<leftarrow> stmt_calls s;
         t \<leftarrow> AST_calls ast k;
         t1 \<leftarrow> t;
         AST_calls t1 r
       }
     | Syntax_error \<Rightarrow> Some None))"

declare AST_calls.simps [code]

definition AST_parseStmt :: "AST \<Rightarrow> string \<Rightarrow> AST option option" where
  "AST_parseStmt ast sStmt = do {
     k \<leftarrow> stmt_calls sStmt;
     AST_calls ast k
   }"

end
