(* ===== verification/Pika_Expr.thy ===== *)
theory Pika_Expr
  imports Pika_Parser
begin

text \<open>
  What the lexer, the parser and the code generator make of assignments and of calls nested to any
  depth: the text of a statement is lexed, cut and parsed to the tree it was printed from.
\<close>

section \<open>The tokens of a text without blanks\<close>

definition wtok :: "string \<Rightarrow> tok" where
  "wtok w = (symbol_type (w ! 0) ((w @ [NUL]) ! 1), w)"

text \<open>The tokens from a pending word and the rest of the text.\<close>

fun scan :: "string \<Rightarrow> string \<Rightarrow> tok list" where
  "scan w [] = (if w = [] then [] else [wtok w])"
| "scan w (c # cs) =
     (if is_word_char c then scan (w @ [c]) cs
      else (if w = [] then [] else [wtok w]) @ (if c \<in> set dividers then TOKEN_devider else TOKEN_operator, [c]) # scan [] cs)"

text \<open>Words, dividers and single equals signs.\<close>

fun simple :: "string \<Rightarrow> bool" where
  "simple [] \<longleftrightarrow> True"
| "simple (c # cs) \<longleftrightarrow> (is_word_char c \<or> c \<in> set dividers \<or> c = CHR ''='' \<and> str_at cs 0 \<noteq> CHR ''='') \<and> simple cs"

lemma word_chars:
  "is_word_char c \<Longrightarrow> c \<notin> set dividers \<and> c \<notin> set op_chars \<and> c \<notin> {CH_SQ, CH_DQ, CHR ''#'', CHR '' '', CHR ''@'', NUL, SEP, CHR ''%'', CH_BS}"
  by (auto simp: is_word_char_def is_digit_def dividers_def op_chars_def)

lemma divider_chars: "c \<in> set dividers \<Longrightarrow> c \<notin> set op_chars \<and> c \<notin> {CH_SQ, CH_DQ, CHR ''#'', CHR '' '', CHR ''@'', NUL, SEP, CHR ''%'', CH_BS}"
  by (auto simp: dividers_def op_chars_def)

lemma simple_chars: "simple s \<Longrightarrow> c \<in> set s \<Longrightarrow> c \<notin> {CH_SQ, CH_DQ, CHR ''#'', CHR '' '', CHR ''@'', NUL, SEP, CHR ''%'', CH_BS}"
  by (induction s) (use word_chars divider_chars in force)+

lemma equals_char [simp]: "\<not> is_word_char CHR ''=''" "CHR ''='' \<notin> set dividers"
  by (simp_all add: is_word_char_def is_digit_def dividers_def)

lemma simple_append: "simple (s @ t) \<longleftrightarrow> simple s \<and> simple t \<and> \<not> (s \<noteq> [] \<and> last s = CHR ''='' \<and> str_at t 0 = CHR ''='')"
proof (induction s)
  case (Cons c s)
  then show ?case by (cases s) auto
qed simp

lemma cstring_simple: "simple s \<Longrightarrow> cstring s"
  using simple_chars by (fastforce simp: cstring_def)

lemma payloads_scan: "payloads (scan w s) = w @ s"
  by (induction w s rule: scan.induct) (auto simp: wtok_def)

lemma wtok_ok: "w \<noteq> [] \<Longrightarrow> cstring w \<Longrightarrow> SEP \<notin> set w \<Longrightarrow> tok_ok (wtok w)"
  by (simp add: wtok_def tok_ok_def symbol_type_def)

lemma Lexer_word_None: "\<forall>c \<in> set rest. c \<noteq> CHR '' '' \<and> c \<noteq> CHR ''@'' \<Longrightarrow> Lexer_word cn1 rest = None"
proof -
  assume "\<forall>c \<in> set rest. c \<noteq> CHR '' '' \<and> c \<noteq> CHR ''@''"
  then have "str_at rest k \<noteq> CHR '' ''" "str_at rest k \<noteq> CHR ''@''" for k
    by (auto simp: str_at_def dest: nth_mem)
  then show "Lexer_word cn1 rest = None" by (simp add: Lexer_word_def Let_def)
qed

lemma operator_equals: "str_at r 0 \<noteq> CHR ''='' \<Longrightarrow> Lexer_operator (CHR ''='' # r) = (''='', 0)"
  by (simp add: Lexer_operator_def)

lemma setSymbel_word:
  assumes "s = a @ w @ r" "aTokenStream st = stream ts" "\<forall>t \<in> set ts. tok_ok t" "cstring w" "SEP \<notin> set w" "w \<noteq> []"
    and "iSymbolStartIndex st = Some (length a)"
  shows "Lexer_setSymbel s (length a + length w) st = Some (st\<lparr>aTokenStream := stream (ts @ [wtok w]), iSymbolStartIndex := None\<rparr>)"
proof -
  have b: "put_at (getBuff (length w)) 0 w = Some (w @ [NUL])" by (simp add: put_at_def drop_getBuff)
  have r: "rd (w @ [NUL]) 0 = Some (w ! 0)" "rd (w @ [NUL]) 1 = Some ((w @ [NUL]) ! 1)"
    using assms(6) by (auto simp: rd_def nth_append)
  show ?thesis
    using assms b r c_str_app_NUL [OF assms(4), of "[]"] setToken_eq [OF assms(3), of "fst (wtok w)" w] wtok_ok [OF assms(6,4,5)]
    by (simp add: Lexer_setSymbel_def wtok_def)
qed

lemma loop_simple:
  assumes "simple r" "w \<noteq> [] \<Longrightarrow> r \<noteq> []" "\<forall>c \<in> set w. is_word_char c" "\<forall>t \<in> set ts. tok_ok t"
    and "aTokenStream st = stream ts" "bInString st = 0" "iSymbolStartIndex st = (if w = [] then None else Some (length a))"
  shows "\<exists>st'. Lexer_loop (a @ w @ r) (length a + length w) st = Some st' \<and> aTokenStream st' = stream (ts @ scan w r)"
  using assms
proof (induction r arbitrary: a w ts st)
  case Nil
  then show ?case by (subst Lexer_loop.simps) (auto simp: strGetSize_def)
next
  case (Cons c r)
  let ?s = "a @ w @ c # r" and ?i = "length a + length w"
  let ?st = "Lexer_mark ?s ?i st" and ?a = "if w = [] then a @ w else a"
  let ?w = "if w = [] then [] else [wtok w]"
  have c0: "str_at ?s ?i = c" "drop ?i ?s = c # r" by (simp_all add: str_at_def nth_append)
  have c: "c \<notin> {CH_SQ, CH_DQ, CHR ''#'', CHR '' ''}" using simple_chars [OF Cons.prems(1)] by auto
  have st: "aTokenStream ?st = stream ts" "bInString ?st = 0" "iSymbolStartIndex ?st = Some (length a)"
    using Cons.prems(5-7) by (auto simp: Lexer_mark_def)
  have wc: "cstring w" "SEP \<notin> set w" using Cons.prems(3) word_chars by (fastforce simp: cstring_def)+
  have sym: "Lexer_setSymbel ?s ?i ?st = Some (?st\<lparr>aTokenStream := stream (ts @ ?w), iSymbolStartIndex := None\<rparr>)"
  proof (cases "w = []")
    case True
    then show ?thesis using st by (simp add: Lexer_setSymbel_def)
  next
    case False
    then show ?thesis using setSymbel_word [OF refl st(1) Cons.prems(4) wc False st(3)] by simp
  qed
  have ok: "\<forall>t \<in> set (ts @ ?w). tok_ok t" using Cons.prems(4) wtok_ok [OF _ wc] by auto
  have go: "Lexer_loop ?s ?i st = Lexer_loop ?s (Suc ?i) st1" if "Lexer_step ?s ?i st = Some (st1, Some (Suc ?i))" for st1
    using that by (subst Lexer_loop.simps) (simp add: strGetSize_def)
  show ?case
  proof (cases "is_word_char c")
    case True
    have wd: "Lexer_word cn (c # r) = None" for cn
      using simple_chars [OF Cons.prems(1)] by (intro Lexer_word_None) auto
    have wc1: "cstring (w @ [c])" "SEP \<notin> set (w @ [c])" "\<forall>x \<in> set (w @ [c]). is_word_char x"
      using wc Cons.prems(3) True word_chars [OF True] by auto
    have step: "Lexer_step ?s ?i st = do { st1 \<leftarrow> Lexer_space ?s ?i ?st; Some (st1, Some (Suc ?i)) }"
      using c word_chars [OF True] st(2) c0 wd by (auto simp: Lexer_step_def Lexer_body_def Let_def)
    show ?thesis
    proof (cases "r = []")
      case r: True
      have "Lexer_setSymbel ?s (Suc ?i) ?st = Some (?st\<lparr>aTokenStream := stream (ts @ [wtok (w @ [c])]), iSymbolStartIndex := None\<rparr>)"
        using setSymbel_word [of ?s a "w @ [c]" "[]" ?st ts] st wc1 Cons.prems(4) by (simp add: r)
      then have "Lexer_step ?s ?i st = Some (?st\<lparr>aTokenStream := stream (ts @ [wtok (w @ [c])]), iSymbolStartIndex := None\<rparr>, Some (Suc ?i))"
        using step c c0(1) by (simp add: Lexer_space_def strGetSize_def r)
      from go [OF this] show ?thesis using True by (subst (asm) Lexer_loop.simps [of _ "Suc ?i"]) (simp add: r strGetSize_def)
    next
      case r: False
      then have "Lexer_step ?s ?i st = Some (?st, Some (Suc ?i))"
        using step c c0(1) by (simp add: Lexer_space_def strGetSize_def)
      moreover have "\<exists>st'. Lexer_loop (a @ (w @ [c]) @ r) (length a + length (w @ [c])) ?st = Some st' \<and>
          aTokenStream st' = stream (ts @ scan (w @ [c]) r)"
        using Cons.prems(1,4) r wc1(3) st by (intro Cons.IH) auto
      ultimately show ?thesis using go True by simp
    qed
  next
    case False
    let ?ty = "if c \<in> set dividers then TOKEN_devider else TOKEN_operator"
    have "tok_ok (?ty, [c])" using simple_chars [OF Cons.prems(1), of c] by (auto simp: tok_ok_def)
    then have "Lexer_setToken (stream (ts @ ?w)) ?ty [c] = Some (stream ((ts @ ?w) @ [(?ty, [c])]))" by (rule setToken_eq [OF ok])
    then obtain st2 where emit: "Lexer_emit ?s ?i ?ty [c] ?st = Some st2" and st2: "bInString st2 = 0"
        "iSymbolStartIndex st2 = None" "aTokenStream st2 = stream ((ts @ ?w) @ [(?ty, [c])])"
      using sym st(2) by (simp add: Lexer_emit_def)
    have "\<exists>st1. Lexer_step ?s ?i st = Some (st1, Some (Suc ?i)) \<and> bInString st1 = 0 \<and> iSymbolStartIndex st1 = None \<and>
        aTokenStream st1 = stream ((ts @ ?w) @ [(?ty, [c])])"
    proof (cases "c \<in> set dividers")
      case d: True
      have "Lexer_emit ?s ?i TOKEN_devider [c] ?st = Some st2" using emit d by simp
      then show ?thesis using c st(2) st2 d by (simp add: Lexer_step_def Lexer_body_def Let_def c0)
    next
      case d: False
      then have e: "c = CHR ''=''" "str_at r 0 \<noteq> CHR ''=''" using Cons.prems(1) False by auto
      then have "Lexer_operator (c # r) = ([c], 0)" using operator_equals by blast
      moreover have "Lexer_emit ?s ?i TOKEN_operator [c] ?st = Some st2" using emit d by simp
      moreover have "c \<in> set op_chars" "c \<noteq> CHR ''-''" using e(1) by (simp_all add: op_chars_def)
      ultimately show ?thesis using c st(2) st2 d by (simp add: Lexer_step_def Lexer_body_def Let_def c0)
    qed
    then obtain st1 where st1: "Lexer_step ?s ?i st = Some (st1, Some (Suc ?i))" "bInString st1 = 0" "iSymbolStartIndex st1 = None"
        "aTokenStream st1 = stream ((ts @ ?w) @ [(?ty, [c])])" by blast
    have "\<exists>st'. Lexer_loop ((a @ w @ [c]) @ [] @ r) (length (a @ w @ [c]) + length ([] :: string)) st1 = Some st' \<and>
        aTokenStream st' = stream (((ts @ ?w) @ [(?ty, [c])]) @ scan [] r)"
      using Cons.prems(1) ok \<open>tok_ok (?ty, [c])\<close> st1 by (intro Cons.IH) auto
    then show ?thesis using go [OF st1(1)] False by simp
  qed
qed

lemma scan_ok: "simple s \<Longrightarrow> \<forall>c \<in> set w. is_word_char c \<Longrightarrow> t \<in> set (scan w s) \<Longrightarrow> tok_ok t"
proof (induction w s rule: scan.induct)
  case (1 w)
  then show ?case using wtok_ok [of w] word_chars by (fastforce simp: cstring_def split: if_splits)
next
  case (2 w c cs)
  have "w \<noteq> [] \<Longrightarrow> tok_ok (wtok w)" using 2(4) word_chars by (intro wtok_ok) (fastforce simp: cstring_def)+
  moreover have "tok_ok (ty, [c])" if "ty \<in> {TOKEN_devider, TOKEN_operator}" for ty
    using that simple_chars [OF 2(3), of c] by (auto simp: tok_ok_def)
  ultimately show ?case using 2 by (auto split: if_splits)
qed

lemma lexes_simple:
  assumes "simple s"
  shows "lexes s (scan [] s)"
proof -
  have "\<exists>st'. Lexer_loop ([] @ [] @ s) (length ([] :: string) + length ([] :: string)) lexer0 = Some st' \<and>
      aTokenStream st' = stream ([] @ scan [] s)"
    using assms by (intro loop_simple) (simp_all add: lexer0_def)
  moreover have ok: "\<forall>t \<in> set (scan [] s). tok_ok t" using scan_ok [OF assms, of "[]"] by auto
  moreover have "cstring (stream (scan [] s))" using ok by (intro cstring_stream) simp
  ultimately show ?thesis
    by (auto simp: lexes_def Lexer_getTokenStream_def strsCopy_eq payloads_scan)
qed

section \<open>What a loop over the cursor sees\<close>

text \<open>The type, the text and the bracket depth of every token, and of the end.\<close>

type_synonym tview = "TokenType \<times> string \<times> 8 word"

definition view_of :: "Cursor \<Rightarrow> tview" where
  "view_of c = (tk_type (token1 c), p1 c, bracket_deepth c)"

fun tviews :: "8 word \<Rightarrow> tok list \<Rightarrow> tview list" where
  "tviews d [] = []"
| "tviews d (t # ts) = (fst t, snd t, bracket_step (snd t) d) # tviews (bracket_step (snd t) d) ts"

definition deep :: "8 word \<Rightarrow> tok list \<Rightarrow> 8 word" where
  "deep d ts = fold (\<lambda>t. bracket_step (snd t)) ts d"

lemma tviews_append: "tviews d (ts @ us) = tviews d ts @ tviews (deep d ts) us"
  by (induction ts arbitrary: d) (simp_all add: deep_def)

lemma deep_append: "deep d (ts @ us) = deep (deep d ts) us"
  by (simp add: deep_def)

lemma length_tviews: "length (tviews d ts) = length ts"
  by (induction ts arbitrary: d) simp_all

lemma tviews_nth: "k < length ts \<Longrightarrow> tviews d ts ! k = (fst (ts ! k), snd (ts ! k), deep d (take (Suc k) ts))"
  by (induction ts arbitrary: d k) (auto simp: deep_def nth_Cons split: nat.split)

lemma depth_deep: "k \<le> length ts \<Longrightarrow> depth ts k = deep 0 (take k ts)"
  by (induction k) (simp_all add: deep_def lex_token_def take_Suc_conv_app_nth)

lemma view_visits:
  assumes "ts \<noteq> []"
  shows "map view_of (visits ts) = tviews 0 ts @ [(TOKEN_strEnd, [], deep 0 ts)]"
proof (rule nth_equalityI)
  show "length (map view_of (visits ts)) = length (tviews 0 ts @ [(TOKEN_strEnd, [], deep 0 ts)])"
    using assms by (simp add: visits_def length_tviews del: upt_Suc)
next
  fix k
  assume "k < length (map view_of (visits ts))"
  then have k: "k \<le> length ts" using assms by (simp add: visits_def del: upt_Suc)
  then have v: "map view_of (visits ts) ! k = view_of (cursor_at ts (Suc k))" using assms by (simp add: visits_def del: upt_Suc)
  show "map view_of (visits ts) ! k = (tviews 0 ts @ [(TOKEN_strEnd, [], deep 0 ts)]) ! k"
  proof (cases "k < length ts")
    case True
    then show ?thesis
      unfolding v by (simp add: view_of_def cursor_at_def tviews_nth nth_append length_tviews lex_token_def
          depth_deep take_Suc_conv_app_nth deep_def)
  next
    case False
    then have "k = length ts" using k by simp
    then show ?thesis
      unfolding v by (simp add: view_of_def cursor_at_def nth_append length_tviews lex_token_def depth_deep bracket_step_def strEqu_def str_at_def)
  qed
qed

lemma run_views:
  assumes "\<And>c v. body c v = g (view_of c) v"
  shows "run body cs v = run g (map view_of cs) v"
proof (induction cs arbitrary: v)
  case (Cons c cs)
  then show ?case by (cases "g (view_of c) v") (auto simp: assms)
qed simp

section \<open>Statements\<close>

text \<open>
  A number, a name or a call, with the name it is assigned to or passed as: \<open>Stmt l k x as\<close> has
  arguments \<open>as\<close> only if it is a call.
\<close>

datatype kind = KNum | KName | KCall

datatype stmt = Stmt "string option" kind string "stmt list"

fun commas :: "'a \<Rightarrow> 'a list list \<Rightarrow> 'a list" where
  "commas c [] = []"
| "commas c [x] = x"
| "commas c (x # xs) = x @ c # commas c xs"

definition left_text :: "string option \<Rightarrow> string" where
  "left_text l = (case l of None \<Rightarrow> [] | Some y \<Rightarrow> y @ ''='')"

fun print :: "stmt \<Rightarrow> string" where
  "print (Stmt l k x as) = left_text l @ x @ (if k = KCall then CHR ''('' # commas CHR '','' (map print as) @ '')'' else [])"

definition node_attrs :: "string option \<Rightarrow> kind \<Rightarrow> string \<Rightarrow> string \<Rightarrow> string option" where
  "node_attrs l k x = (case l of None \<Rightarrow> (\<lambda>_. None) | Some y \<Rightarrow> [''left'' \<mapsto> y])
     ((case k of KNum \<Rightarrow> ''num'' | KName \<Rightarrow> ''ref'' | KCall \<Rightarrow> ''method'') \<mapsto> x)"

fun tree :: "stmt \<Rightarrow> AST" where
  "tree (Stmt l k x as) = AST (node_attrs l k x) (map tree as)"

definition word_ok :: "string \<Rightarrow> bool" where
  "word_ok x \<longleftrightarrow> x \<noteq> [] \<and> (\<forall>c \<in> set x. is_word_char c)"

definition name_ok :: "string \<Rightarrow> bool" where
  "name_ok x \<longleftrightarrow> word_ok x \<and> \<not> is_digit (hd x) \<and> hd x \<noteq> CHR ''.'' \<and> x \<noteq> ''pass''"

text \<open>The counters of the parser have eight bits: up to 125 nested calls and 255 arguments.\<close>

fun stmt_wf :: "nat \<Rightarrow> stmt \<Rightarrow> bool" where
  "stmt_wf n (Stmt l k x as) \<longleftrightarrow> (\<forall>y. l = Some y \<longrightarrow> name_ok y) \<and>
     (if k = KNum then word_ok x \<and> is_digit (hd x) else name_ok x) \<and>
     (if k = KCall then 0 < n \<and> length as < 256 \<and> (\<forall>a \<in> set as. stmt_wf (n - 1) a) else as = [])"

definition comma :: tok where "comma = (TOKEN_devider, '','')"
definition lparen :: tok where "lparen = (TOKEN_devider, ''('')"
definition rparen :: tok where "rparen = (TOKEN_devider, '')'')"

definition left_toks :: "string option \<Rightarrow> tok list" where
  "left_toks l = (case l of None \<Rightarrow> [] | Some y \<Rightarrow> [wtok y, (TOKEN_operator, ''='')])"

fun ptoks :: "stmt \<Rightarrow> tok list" where
  "ptoks (Stmt l k x as) = left_toks l @ wtok x # (if k = KCall then lparen # commas comma (map ptoks as) @ [rparen] else [])"

lemma commas_Cons: "commas c (x # xs) = x @ (if xs = [] then [] else c # commas c xs)"
  by (cases xs) simp_all

lemma word_char_dividers: "\<not> is_word_char CHR ''(''" "\<not> is_word_char CHR '')''" "\<not> is_word_char CHR '',''"
    "CHR ''('' \<in> set dividers" "CHR '')'' \<in> set dividers" "CHR '','' \<in> set dividers"
  by (simp_all add: is_word_char_def is_digit_def dividers_def)

lemma scan_word: "\<forall>c \<in> set x. is_word_char c \<Longrightarrow> scan w (x @ r) = scan (w @ x) r"
  by (induction x arbitrary: w) simp_all

lemma scan_end: "w \<noteq> [] \<Longrightarrow> r = [] \<or> \<not> is_word_char (hd r) \<Longrightarrow> scan w r = wtok w # scan [] r"
  by (cases r) simp_all

lemma scan_name:
  assumes "word_ok x" "r = [] \<or> \<not> is_word_char (hd r)"
  shows "scan [] (x @ r) = wtok x # scan [] r"
  using assms scan_word [of x "[]" r] scan_end [of x r] by (simp add: word_ok_def)

lemma name_word: "name_ok x \<Longrightarrow> word_ok x" by (simp add: name_ok_def)

lemma scan_commas:
  assumes "\<And>a r. a \<in> set as \<Longrightarrow> r = [] \<or> \<not> is_word_char (hd r) \<Longrightarrow> scan [] (print a @ r) = ptoks a @ scan [] r"
    and "r = [] \<or> \<not> is_word_char (hd r)"
  shows "scan [] (commas CHR '','' (map print as) @ r) = commas comma (map ptoks as) @ scan [] r"
  using assms(1)
proof (induction as)
  case (Cons a as)
  then show ?case
    using assms(2) by (cases as) (simp_all add: commas_Cons word_char_dividers comma_def)
qed simp

lemma scan_print:
  "stmt_wf n s \<Longrightarrow> r = [] \<or> \<not> is_word_char (hd r) \<Longrightarrow> scan [] (print s @ r) = ptoks s @ scan [] r"
proof (induction s arbitrary: n r)
  case (Stmt l k x as)
  have x: "word_ok x" using Stmt.prems(1) by (auto simp: name_word split: if_splits)
  have l: "scan [] (left_text l @ q) = left_toks l @ scan [] q" for q
    using Stmt.prems(1) by (cases l) (simp_all add: left_text_def left_toks_def scan_name name_word)
  show ?case
  proof (cases "k = KCall")
    case True
    have ih: "scan [] (print a @ q) = ptoks a @ scan [] q" if "a \<in> set as" "q = [] \<or> \<not> is_word_char (hd q)" for a q
      using Stmt.IH [OF that(1) _ that(2), of "n - 1"] Stmt.prems(1) True that(1) by simp
    have "scan [] (commas CHR '','' (map print as) @ '')'' @ r) = commas comma (map ptoks as) @ scan [] ('')'' @ r)"
      by (rule scan_commas [OF ih]) (auto simp: word_char_dividers)
    then show ?thesis using True x by (simp add: l scan_name word_char_dividers lparen_def rparen_def)
  next
    case False
    then show ?thesis using x Stmt.prems(2) by (simp add: l scan_name)
  qed
qed

lemma simple_word: "\<forall>c \<in> set x. is_word_char c \<Longrightarrow> simple x"
  by (induction x) simp_all

lemma word_ends: "word_ok x \<Longrightarrow> x \<noteq> [] \<and> is_word_char (hd x) \<and> is_word_char (last x) \<and> is_word_char (str_at x 0)"
  by (cases x) (auto simp: word_ok_def)

lemma print_simple: "stmt_wf n s \<Longrightarrow> simple (print s) \<and> print s \<noteq> [] \<and> is_word_char (str_at (print s) 0) \<and> last (print s) \<noteq> CHR ''=''"
proof (induction s arbitrary: n)
  case (Stmt l k x as)
  have x: "word_ok x" using Stmt.prems by (auto simp: name_word split: if_splits)
  have ax: "x \<noteq> [] \<and> is_word_char (str_at x 0) \<and> last x \<noteq> CHR ''=''" using word_ends [OF x] by auto
  have "simple (commas CHR '','' (map print as)) \<and> last (z # commas CHR '','' (map print as)) \<in> {z} \<union> {c. c \<noteq> CHR ''=''}"
    if "k = KCall" for z
  proof -
    have "\<forall>a \<in> set as. simple (print a) \<and> print a \<noteq> [] \<and> is_word_char (str_at (print a) 0) \<and> last (print a) \<noteq> CHR ''=''"
      using Stmt.IH [of _ "n - 1"] Stmt.prems that by simp
    then show ?thesis
      by (induction as) (auto simp: commas_Cons simple_append word_char_dividers)
  qed
  then have b: "simple (if k = KCall then CHR ''('' # commas CHR '','' (map print as) @ '')'' else [])"
    using word_char_dividers by (fastforce simp: simple_append)
  have sx: "simple x" using x simple_word by (simp add: word_ok_def)
  have r: "simple (x @ (if k = KCall then CHR ''('' # commas CHR '','' (map print as) @ '')'' else [])) \<and>
      last (x @ (if k = KCall then CHR ''('' # commas CHR '','' (map print as) @ '')'' else [])) \<noteq> CHR ''=''"
    using b sx ax by (auto simp: simple_append)
  have z: "is_word_char (str_at (x @ q) 0)" for q using ax by (cases x) auto
  show ?case
  proof (cases l)
    case None
    then show ?thesis using r ax z by (simp add: left_text_def)
  next
    case (Some y)
    then have y: "word_ok y" "simple y" using Stmt.prems simple_word by (auto simp: name_word word_ok_def name_ok_def)
    have "is_word_char (str_at (y @ q) 0)" for q using word_ends [OF y(1)] by (cases y) auto
    moreover define body where "body = x @ (if k = KCall then CHR ''('' # commas CHR '','' (map print as) @ '')'' else [])"
    moreover have "str_at body 0 \<noteq> CHR ''=''" "body \<noteq> []" using z equals_char(1) ax unfolding body_def by (metis, simp)
    moreover have "simple body" "last body \<noteq> CHR ''=''" using r by (simp_all add: body_def)
    moreover have "last y \<noteq> CHR ''=''" using word_ends [OF y(1)] equals_char(1) by metis
    moreover have "print (Stmt l k x as) = y @ CHR ''='' # body" by (simp add: Some left_text_def body_def)
    ultimately show ?thesis using y(2) by (simp add: simple_append del: print.simps)
  qed
qed

lemma bracket_step_simps:
  "word_ok x \<Longrightarrow> bracket_step x d = d" "bracket_step ''='' d = d" "bracket_step '','' d = d"
  "bracket_step ''('' d = d + 1" "bracket_step '')'' d = d - 1"
proof -
  assume "word_ok x"
  then have "str_at x 0 \<notin> set ''()[]{}''" using word_ends [of x] word_chars [of "str_at x 0"] by (auto simp: dividers_def)
  then show "bracket_step x d = d" by (simp add: bracket_step_def strEqu_def)
qed (simp_all add: bracket_step_def strEqu_def)

text \<open>
  Balanced tokens from depth \<open>d\<close>, at most \<open>n\<close> deeper: on the depth itself the text is in \<open>P\<close>, and an
  opening bracket is deeper.
\<close>

definition vok :: "nat \<Rightarrow> nat \<Rightarrow> (string \<Rightarrow> bool) \<Rightarrow> tok list \<Rightarrow> bool" where
  "vok d n P ts \<longleftrightarrow> deep (of_nat d) ts = of_nat d \<and>
     (\<forall>(ty, p, e) \<in> set (tviews (of_nat d) ts). \<exists>j \<le> n. e = of_nat (d + j) \<and> (p = ''('' \<longrightarrow> 0 < j) \<and> (j = 0 \<longrightarrow> P p))"

lemma vokD: "vok d n P ts \<Longrightarrow> (ty, p, e) \<in> set (tviews (of_nat d) ts) \<Longrightarrow>
    \<exists>j \<le> n. e = of_nat (d + j) \<and> (p = ''('' \<longrightarrow> 0 < j) \<and> (j = 0 \<longrightarrow> P p)"
  unfolding vok_def by blast

lemma vok_Nil: "vok d n P []"
  by (simp add: vok_def deep_def)

lemma vok_append: "vok d n P ts \<Longrightarrow> vok d n P us \<Longrightarrow> vok d n P (ts @ us)"
  by (auto simp: vok_def deep_append tviews_append)

lemma vok_mono:
  assumes "vok d n P ts" "n \<le> m" "\<And>p. P p \<Longrightarrow> Q p"
  shows "vok d m Q ts"
proof -
  have "\<exists>j \<le> m. e = of_nat (d + j) \<and> (p = ''('' \<longrightarrow> 0 < j) \<and> (j = 0 \<longrightarrow> Q p)"
    if "(ty, p, e) \<in> set (tviews (of_nat d) ts)" for ty p e
  proof -
    from assms(1) that obtain j where "j \<le> n" "e = of_nat (d + j)" "p = ''('' \<longrightarrow> 0 < j" "j = 0 \<longrightarrow> P p"
      unfolding vok_def by blast
    then show ?thesis using assms(2,3) by (intro exI [of _ j]) simp
  qed
  then show ?thesis using assms(1) unfolding vok_def by blast
qed

lemma vok_tok: "(\<And>e. bracket_step (snd t) e = e) \<Longrightarrow> snd t \<noteq> ''('' \<Longrightarrow> P (snd t) \<Longrightarrow> vok d n P [t]"
  by (auto simp: vok_def deep_def)

lemma vok_word: "word_ok x \<Longrightarrow> (\<And>q. word_ok q \<Longrightarrow> P q) \<Longrightarrow> vok d n P [wtok x]"
  by (rule vok_tok) (auto simp: wtok_def bracket_step_simps word_ok_def word_char_dividers)

lemma vok_paren:
  assumes "vok (Suc d) n (\<lambda>_. True) ts" "P '')''"
  shows "vok d (Suc n) P (lparen # ts @ [rparen])"
proof -
  have e: "bracket_step ''('' (of_nat d) = of_nat (Suc d)" "bracket_step '')'' (of_nat (Suc d)) = of_nat d"
    by (simp_all add: bracket_step_simps)
  have d: "deep (of_nat (Suc d)) ts = of_nat (Suc d)" using assms(1) unfolding vok_def by blast
  then have t: "tviews (of_nat d) (lparen # ts @ [rparen]) =
      (TOKEN_devider, ''('', of_nat (Suc d)) # tviews (of_nat (Suc d)) ts @ [(TOKEN_devider, '')'', of_nat d)]"
    by (simp add: lparen_def rparen_def tviews_append e del: of_nat_Suc)
  have "\<exists>j \<le> Suc n. e = of_nat (d + j) \<and> (p = ''('' \<longrightarrow> 0 < j) \<and> (j = 0 \<longrightarrow> P p)"
    if "(ty, p, e) \<in> set (tviews (of_nat (Suc d)) ts)" for ty p e
  proof -
    from assms(1) that obtain j where "j \<le> n" "e = of_nat (Suc d + j)" unfolding vok_def by blast
    then show ?thesis by (intro exI [of _ "Suc j"]) simp
  qed
  moreover have "\<exists>j \<le> Suc n. (of_nat (Suc d) :: 8 word) = of_nat (d + j) \<and> 0 < j" by (intro exI [of _ 1]) simp
  moreover have "\<exists>j \<le> Suc n. (of_nat d :: 8 word) = of_nat (d + j) \<and> (j = 0 \<longrightarrow> P '')'')" using assms(2) by (intro exI [of _ 0]) simp
  moreover have "deep (of_nat d) (lparen # ts @ [rparen]) = of_nat d"
  proof -
    have "deep (of_nat d) (lparen # ts @ [rparen]) = bracket_step '')'' (deep (bracket_step ''('' (of_nat d)) ts)"
      by (simp add: deep_def lparen_def rparen_def)
    then show ?thesis unfolding e(1) d e(2) .
  qed
  ultimately show ?thesis unfolding vok_def t by auto
qed

lemma vok_commas: "(\<And>a. a \<in> set as \<Longrightarrow> vok d n P (f a)) \<Longrightarrow> P '','' \<Longrightarrow> vok d n P (commas comma (map f as))"
proof (induction as)
  case (Cons a as)
  have "vok d n P [comma]" using Cons.prems(2) by (intro vok_tok) (simp_all add: comma_def bracket_step_simps)
  then have "vok d n P (f a @ [comma] @ commas comma (map f as))" using Cons by (intro vok_append) simp_all
  then show ?case using Cons.prems(1) by (simp add: commas_Cons)
qed (simp add: vok_Nil)

lemma vok_ptoks: "stmt_wf n s \<Longrightarrow> vok d n (\<lambda>p. p \<noteq> '','') (ptoks s)"
proof (induction s arbitrary: n d)
  case (Stmt l k x as)
  have w: "word_ok q \<Longrightarrow> q \<noteq> '',''" for q by (auto simp: word_ok_def word_char_dividers)
  have x: "word_ok x" using Stmt.prems by (auto simp: name_word split: if_splits)
  have "vok d n (\<lambda>p. p \<noteq> '','') (left_toks l)"
  proof (cases l)
    case (Some y)
    have "vok d n (\<lambda>p. p \<noteq> '','') ([wtok y] @ [(TOKEN_operator, ''='')])"
      using Stmt.prems Some w by (intro vok_append vok_word vok_tok) (simp_all add: name_word bracket_step_simps)
    then show ?thesis by (simp add: left_toks_def Some)
  qed (simp add: left_toks_def vok_Nil)
  moreover have "vok d n (\<lambda>p. p \<noteq> '','') [wtok x]" using x w by (intro vok_word)
  moreover have "vok d n (\<lambda>p. p \<noteq> '','') (if k = KCall then lparen # commas comma (map ptoks as) @ [rparen] else [])"
  proof (cases "k = KCall")
    case True
    then have n: "n = Suc (n - 1)" using Stmt.prems by simp
    have "vok (Suc d) (n - 1) (\<lambda>_. True) (ptoks a)" if a: "a \<in> set as" for a
    proof (rule vok_mono [OF Stmt.IH [OF a]])
      show "stmt_wf (n - 1) a" using Stmt.prems True a by simp
    qed simp_all
    then have "vok (Suc d) (n - 1) (\<lambda>_. True) (commas comma (map ptoks as))" by (intro vok_commas) simp_all
    then have "vok d (Suc (n - 1)) (\<lambda>p. p \<noteq> '','') (lparen # commas comma (map ptoks as) @ [rparen])" by (rule vok_paren) simp
    then show ?thesis using True n by simp
  qed (simp add: vok_Nil)
  ultimately have "vok d n (\<lambda>p. p \<noteq> '','') (left_toks l @ [wtok x] @ (if k = KCall then lparen # commas comma (map ptoks as) @ [rparen] else []))"
    by (intro vok_append)
  then show ?case by simp
qed

section \<open>Cutting a statement\<close>

lemma forEach_views:
  assumes "lexes t ts" "short t" "ts \<noteq> []" "\<And>c v. body c v = g (view_of c) v"
  shows "Cursor_forEach (Some t) body v = run g (tviews 0 ts @ [(TOKEN_strEnd, [], deep 0 ts)]) v"
  by (simp add: forEach_run [OF assms(1,2)] run_views [of body g, OF assms(4)] view_visits [OF assms(3)])

lemma sint_small: "j < 128 \<Longrightarrow> sint (of_nat j :: 8 word) = int j"
proof -
  assume "j < 128"
  moreover from this have "uint (of_nat j :: 8 word) = int j" by (simp add: unsigned_of_nat take_bit_eq_mod)
  ultimately show ?thesis by (simp add: sint_uint signed_take_bit_int_eq_self)
qed

lemma strstr_missing: "c \<notin> set t \<Longrightarrow> strstr t (c # cs) = None"
proof (rule ccontr)
  assume c: "c \<notin> set t" "strstr t (c # cs) \<noteq> None"
  then obtain i where "i + length (c # cs) \<le> length t" "take (length (c # cs)) (drop i t) = c # cs"
    using strstr_Some_iff by blast
  then have "c \<in> set (take (length (c # cs)) (drop i t))" by simp
  then show False using c(1) by (auto dest: in_set_takeD in_set_dropD)
qed

lemma strstr_present: "c \<in> set t \<Longrightarrow> strstr t [c] \<noteq> None"
proof
  assume "c \<in> set t" "strstr t [c] = None"
  then obtain i where "i < length t" "t ! i = c" by (auto simp: in_set_conv_nth)
  then have "take 1 (drop i t) = [c]" by (simp add: take_Suc_conv_app_nth)
  then show False using strstr_None [OF \<open>strstr t [c] = None\<close>, of i] \<open>i < length t\<close> by simp
qed

definition texts :: "tview list \<Rightarrow> string" where
  "texts vs = concat (map (\<lambda>(ty, p, e). p) vs)"

lemma texts_simps [simp]: "texts [] = []" "texts ((ty, p, e) # vs) = p @ texts vs" "texts (vs @ us) = texts vs @ texts us"
  by (simp_all add: texts_def)

lemma texts_tviews: "texts (tviews d ts) = payloads ts"
  by (induction ts arbitrary: d) simp_all

definition popSub_view :: "string \<Rightarrow> tview \<Rightarrow> string \<times> string \<times> bool \<Rightarrow> ((string \<times> string \<times> bool) \<times> bool) option" where
  "popSub_view q = (\<lambda>(ty, p, e) (a, b, got).
     if got then do { n \<leftarrow> strsAppend b p; Some ((a, n, got), False) }
     else if 0 < sint e then do { s \<leftarrow> strsAppend a p; Some ((s, b, got), False) }
     else if p = q then Some ((a, b, True), False)
     else do { s \<leftarrow> strsAppend a p; Some ((s, b, got), False) })"

lemma popSub_body_view: "popSub_body q c v = popSub_view q (view_of c) v"
  by (simp add: popSub_body_def popSub_view_def view_of_def split: prod.split)

lemma popSub_at: "popSub_view q (ty, q, 0) (a, b, False) = Some ((a, b, True), False)"
  by (simp add: popSub_view_def)

lemma popSub_skip:
  assumes "\<forall>(ty, p, e) \<in> set vs. cstring p \<and> (0 < sint e \<or> p \<noteq> q)" "cstring a"
  shows "run (popSub_view q) (vs @ us) (a, b, False) = run (popSub_view q) us (a @ texts vs, b, False)"
  using assms
proof (induction vs arbitrary: a)
  case (Cons v vs)
  obtain ty p e where v: "v = (ty, p, e)" by (cases v)
  have p: "cstring p" "0 < sint e \<or> p \<noteq> q" using Cons.prems(1) v by auto
  have "run (popSub_view q) ((v # vs) @ us) (a, b, False) = run (popSub_view q) (vs @ us) (a @ p, b, False)"
    using p Cons.prems(2) by (auto simp: v popSub_view_def strsAppend_eq)
  then show ?case using Cons.IH [of "a @ p"] Cons.prems p v by auto
qed simp

lemma popSub_rest:
  assumes "\<forall>(ty, p, e) \<in> set vs. cstring p" "cstring b"
  shows "run (popSub_view q) vs (a, b, True) = Some (a, b @ texts vs, True)"
  using assms
proof (induction vs arbitrary: b)
  case (Cons v vs)
  obtain ty p e where v: "v = (ty, p, e)" by (cases v)
  then have p: "cstring p" using Cons.prems(1) by simp
  then show ?case using Cons.IH [of "b @ p"] Cons.prems v by (auto simp: popSub_view_def strsAppend_eq)
qed simp

lemma tviews_cstring: "\<forall>t \<in> set ts. tok_ok t \<Longrightarrow> \<forall>(ty, p, e) \<in> set (tviews d ts). cstring p"
  by (induction ts arbitrary: d) (auto simp: tok_ok_def)

text \<open>\<open>Parser_popSubStmt\<close> cuts at the first comma outside brackets.\<close>

lemma popSubStmt_cut:
  assumes "lexes t (A @ comma # R)" "short t" "vok 0 n (\<lambda>p. p \<noteq> '','') A" "n < 128"
  shows "Parser_popSubStmt t '','' = Some (payloads A, payloads R)"
proof -
  have ok: "\<forall>x \<in> set (A @ comma # R). tok_ok x" using assms(1) by (simp add: lexes_def)
  have A: "\<forall>(ty, p, e) \<in> set (tviews 0 A). cstring p \<and> (0 < sint e \<or> p \<noteq> '','')"
  proof (clarify)
    fix ty p e
    assume h: "(ty, p, e) \<in> set (tviews 0 A)"
    obtain j where "j \<le> n" "e = of_nat j" "j = 0 \<longrightarrow> p \<noteq> '',''" using vokD [OF assms(3), of ty p e] h by auto
    then show "cstring p \<and> (0 < sint e \<or> p \<noteq> '','')"
      using sint_small [of j] assms(4) tviews_cstring [of A 0] h ok by (cases j) (auto simp del: of_nat_Suc)
  qed
  have d: "deep 0 A = 0" using assms(3) by (simp add: vok_def)
  let ?R = "tviews 0 R @ [(TOKEN_strEnd, [], deep 0 (A @ comma # R))]"
  have R: "\<forall>(ty, p, e) \<in> set ?R. cstring p" using tviews_cstring [of R 0] ok by auto
  have "Cursor_forEach (Some t) (popSub_body '','') ([], [], False) =
      run (popSub_view '','') (tviews 0 A @ (TOKEN_devider, '','', 0) # ?R) ([], [], False)"
    using forEach_views [where body = "popSub_body '',''" and g = "popSub_view '',''", OF assms(1,2) _ popSub_body_view]
    by (simp add: tviews_append d comma_def bracket_step_simps)
  also have "\<dots> = run (popSub_view '','') ((TOKEN_devider, '','', 0) # ?R) (texts (tviews 0 A), [], False)"
    using popSub_skip [OF A, of "[]"] by simp
  also have "\<dots> = run (popSub_view '','') ?R (texts (tviews 0 A), [], True)" by (simp add: popSub_at)
  also have "\<dots> = Some (texts (tviews 0 A), texts (tviews 0 R), True)" using popSub_rest [OF R, of "[]"] by simp
  finally show ?thesis by (simp add: Parser_popSubStmt_def texts_tviews)
qed

definition cntv :: "string \<Rightarrow> tview \<Rightarrow> bool" where
  "cntv q = (\<lambda>(ty, p, e). ty = TOKEN_devider \<and> p = q \<and> sint e \<le> of_bool (q \<in> {''('', ''['', ''{''}))"

lemma run_count:
  "run (\<lambda>x v. Some (if P x then v + 1 else v, False)) xs (v :: 8 word) = Some (v + of_nat (length (filter P xs)))"
  by (induction xs arbitrary: v) (simp_all add: add.assoc)

lemma count_views:
  assumes "lexes t ts" "short t" "ts \<noteq> []" "strstr t q \<noteq> None"
  shows "Cursor_count_ex t TOKEN_devider q True = Some (of_nat (length (filter (cntv q) (tviews 0 ts))))"
proof -
  let ?b = "\<lambda>cs uRes. go (Some (if tk_type (token1 cs) = TOKEN_devider \<and> equ (p1 cs) q then
      (if True \<and> (if Token_isBranketStart (token1 cs) then 1 else 0) < sint (bracket_deepth cs) then uRes else uRes + 1) else uRes))"
  have b: "?b c v = Some (if cntv q (view_of c) then v + 1 else v, False)" for c and v :: "8 word"
    by (auto simp: cntv_def view_of_def Token_isBranketStart_def)
  have "Cursor_forEach (Some t) ?b (0 :: 8 word) =
      run (\<lambda>x v. Some (if cntv q x then v + 1 else v, False)) (tviews 0 ts @ [(TOKEN_strEnd, [], deep 0 ts)]) 0"
    by (rule forEach_views [OF assms(1-3)]) (rule b)
  moreover have "\<not> cntv q (TOKEN_strEnd, [], deep 0 ts)" by (simp add: cntv_def)
  ultimately have "Cursor_forEach (Some t) ?b (0 :: 8 word) = Some (of_nat (length (filter (cntv q) (tviews 0 ts))))" by (simp add: run_count)
  then show ?thesis using assms(4) unfolding Cursor_count_ex_def by auto
qed

lemma cntv_comma: "vok 0 n (\<lambda>p. p \<noteq> '','') ts \<Longrightarrow> n < 128 \<Longrightarrow> filter (cntv '','') (tviews 0 ts) = []"
proof -
  assume a: "vok 0 n (\<lambda>p. p \<noteq> '','') ts" "n < 128"
  have "\<not> cntv '','' x" if x: "x \<in> set (tviews 0 ts)" for x
  proof -
    obtain ty p e where e: "x = (ty, p, e)" by (cases x)
    then obtain j where "j \<le> n" "e = of_nat j" "j = 0 \<longrightarrow> p \<noteq> '',''" using vokD [OF a(1), of ty p e] x by auto
    then show ?thesis using sint_small [of j] a(2) by (auto simp: cntv_def e)
  qed
  then show ?thesis by (simp add: filter_empty_conv)
qed

lemma cntv_paren: "vok 1 n (\<lambda>_. True) ts \<Longrightarrow> n < 126 \<Longrightarrow> filter (cntv ''('') (tviews 1 ts) = []"
proof -
  assume a: "vok 1 n (\<lambda>_. True) ts" "n < 126"
  have "\<not> cntv ''('' x" if x: "x \<in> set (tviews 1 ts)" for x
  proof -
    obtain ty p e where e: "x = (ty, p, e)" by (cases x)
    then obtain j where "j \<le> n" "e = of_nat (1 + j)" "p = ''('' \<longrightarrow> 0 < j" using vokD [OF a(1), of ty p e] x by auto
    then show ?thesis using sint_small [of "1 + j"] a(2) by (auto simp: cntv_def e simp del: of_nat_add of_nat_Suc)
  qed
  then show ?thesis by (simp add: filter_empty_conv)
qed

section \<open>The arguments of a call\<close>

definition args_text :: "stmt list \<Rightarrow> string" where
  "args_text as = concat (map (\<lambda>a. print a @ '','') as)"

definition args_toks :: "stmt list \<Rightarrow> tok list" where
  "args_toks as = concat (map (\<lambda>a. ptoks a @ [comma]) as)"

lemma commas_text: "as \<noteq> [] \<Longrightarrow> commas CHR '','' (map print as) @ '','' = args_text as"
  by (induction as) (auto simp: args_text_def commas_Cons)

lemma args_simple:
  assumes "\<forall>a \<in> set as. stmt_wf n a"
  shows "simple (args_text as)" "scan [] (args_text as) = args_toks as"
proof -
  show "simple (args_text as)"
    using assms
  proof (induction as)
    case (Cons a as)
    then show ?case using print_simple [of n a] by (simp add: args_text_def simple_append word_char_dividers)
  qed (simp add: args_text_def)
  show "scan [] (args_text as) = args_toks as"
    using assms
  proof (induction as)
    case (Cons a as)
    have "scan [] (print a @ CHR '','' # args_text as) = ptoks a @ scan [] (CHR '','' # args_text as)"
      using Cons.prems by (intro scan_print [of n]) (simp_all add: word_char_dividers)
    then show ?case using Cons by (simp add: args_text_def args_toks_def word_char_dividers comma_def)
  qed (simp add: args_text_def args_toks_def)
qed

lemma short_append: "short (s @ t) \<Longrightarrow> short s \<and> short t"
  by (simp add: short_def)

lemma payloads_ptoks: "stmt_wf n s \<Longrightarrow> payloads (ptoks s) = print s"
  using scan_print [of n s "[]"] payloads_scan [of "[]" "print s"] by simp

lemma payloads_args: "\<forall>a \<in> set as. stmt_wf n a \<Longrightarrow> payloads (args_toks as) = args_text as"
  using args_simple(2) [of as n] payloads_scan [of "[]" "args_text as"] by simp

lemma popSub_args:
  assumes "stmt_wf n a" "\<forall>b \<in> set as. stmt_wf n b" "short (args_text (a # as))" "n < 128"
  shows "Parser_popSubStmt (args_text (a # as)) '','' = Some (print a, args_text as)"
proof -
  have wf: "\<forall>b \<in> set (a # as). stmt_wf n b" using assms(1,2) by simp
  have "lexes (args_text (a # as)) (ptoks a @ comma # args_toks as)"
    using lexes_simple [OF args_simple(1) [OF wf]] args_simple(2) [OF wf] by (simp add: args_toks_def)
  from popSubStmt_cut [OF this assms(3) vok_ptoks [OF assms(1)] assms(4)] show ?thesis
    using payloads_ptoks [OF assms(1)] payloads_args [OF assms(2)] by simp
qed

lemma count_args:
  assumes "\<forall>a \<in> set as. stmt_wf n a" "short (args_text as)" "n < 128" "as \<noteq> []"
  shows "Cursor_count_ex (args_text as) TOKEN_devider '','' True = Some (of_nat (length as))"
proof -
  have l: "lexes (args_text as) (args_toks as)"
    using lexes_simple [OF args_simple(1) [OF assms(1)]] args_simple(2) [OF assms(1)] by simp
  have "length (filter (cntv '','') (tviews 0 (args_toks bs))) = length bs" if "\<forall>a \<in> set bs. stmt_wf n a" for bs
    using that
  proof (induction bs)
    case (Cons a bs)
    have v: "vok 0 n (\<lambda>p. p \<noteq> '','') (ptoks a)" using vok_ptoks Cons.prems by simp
    then have "deep 0 (ptoks a) = 0" by (simp add: vok_def)
    then show ?case
      using Cons cntv_comma [OF v assms(3)]
      by (simp add: args_toks_def tviews_append comma_def bracket_step_simps) (simp add: cntv_def)
  qed (simp add: args_toks_def)
  moreover have "args_toks as \<noteq> []" using assms(4) by (cases as) (simp_all add: args_toks_def)
  moreover have "strstr (args_text as) '','' \<noteq> None" using assms(4) by (intro strstr_present) (cases as; simp add: args_text_def)
  ultimately show ?thesis using count_views [OF l assms(2)] assms(1) by simp
qed

lemma method_loop_args:
  assumes "as \<noteq> []" "\<forall>a \<in> set as. stmt_wf n a" "n < 128" "short (args_text as)" "i + int (length as) = m"
  shows "method_loop (length as) i m f (args_text as) = Some (map (\<lambda>a. Sub_stmt (print a)) as @ [Set_attr ''method'' f])"
  using assms
proof (induction as arbitrary: i)
  case (Cons a as)
  have pop: "Parser_popSubStmt (args_text (a # as)) '','' = Some (print a, args_text as)"
    using Cons.prems by (intro popSub_args [of n]) simp_all
  show ?case
  proof (cases "as = []")
    case True
    then show ?thesis using pop Cons.prems(5) by (simp add: args_text_def strOnly_def strGetSize_def)
  next
    case False
    then obtain b bs where b: "as = b # bs" by (cases as) auto
    have "is_word_char (str_at (print b) 0)" "print b \<noteq> []" using print_simple [of n b] Cons.prems(2) b by auto
    then have h: "args_text as \<noteq> []" "hd (args_text as) \<noteq> CHR '',''"
      using word_char_dividers(3) by (cases "print b"; auto simp: b args_text_def)+
    then have "\<not> strOnly (args_text as) CHR '',''" by (cases "args_text as") (auto simp: strOnly_def)
    moreover have "short (args_text as)" using Cons.prems(4) short_append by (simp add: args_text_def short_def)
    ultimately show ?thesis using pop h(1) Cons.IH [of "i + 1"] Cons.prems False by simp
  qed
qed simp

lemma word_neq: "word_ok x \<Longrightarrow> c \<in> set s \<Longrightarrow> \<not> is_word_char c \<Longrightarrow> x \<noteq> s"
  by (auto simp: word_ok_def)

lemma print_set: "stmt_wf n s \<Longrightarrow> c \<in> set (print s) \<Longrightarrow> is_word_char c \<or> c \<in> set ''(),=''"
proof (induction s arbitrary: n)
  case (Stmt l k x as)
  have "c \<in> set (commas CHR '','' (map print bs)) \<Longrightarrow> c = CHR '','' \<or> (\<exists>b \<in> set bs. c \<in> set (print b))" for bs
    by (induction bs) (auto simp: commas_Cons split: if_splits)
  from this [of as] show ?case
    using Stmt.prems Stmt.IH [of _ "n - 1"]
    by (auto simp: left_text_def name_ok_def word_ok_def split: option.splits if_splits)
qed

section \<open>The parts of a statement\<close>

text \<open>The text of a statement without the assignment.\<close>

definition body_text :: "kind \<Rightarrow> string \<Rightarrow> stmt list \<Rightarrow> string" where
  "body_text k x as = print (Stmt None k x as)"

definition body_toks :: "kind \<Rightarrow> string \<Rightarrow> stmt list \<Rightarrow> tok list" where
  "body_toks k x as = ptoks (Stmt None k x as)"

lemma print_lexes: "stmt_wf n s \<Longrightarrow> lexes (print s) (ptoks s)"
  using lexes_simple print_simple [of n s] scan_print [of n s "[]"] by fastforce

lemma ptoks_not_Nil: "ptoks s \<noteq> []"
  by (cases s) simp

lemma takeWhile_upto: "c \<notin> set x \<Longrightarrow> takeWhile (\<lambda>y. y \<noteq> c) (x @ c # r) = x"
  by (induction x) auto

lemma strsCut_ends:
  assumes "cstring (x @ a # inner @ [b])" "a \<notin> set x"
  shows "strsCut (x @ a # inner @ [b]) a b = Some (Some inner)"
proof -
  let ?s = "x @ a # inner @ [b]"
  obtain o' i j where c: "strCut (getBuff (length ?s)) ?s a b = Some (o', True)"
    "scan_fwd a ?s 0 = Some i" "scan_bwd b ?s (length ?s) = Some j" "c_str o' = take (j - Suc i) (drop (Suc i) ?s)"
    using strCut_between [OF assms(1), of "getBuff (length ?s)" a b] by auto
  have "i = length x" using c(2) assms(2) by (simp add: scan_fwd_eq takeWhile_upto)
  moreover have "j = length x + Suc (length inner)"
    using c(3) by (simp add: nth_append)
  ultimately have "c_str o' = inner" using c(4) by simp
  then show ?thesis using c(1) by (simp add: strsCut_def strGetSize_def)
qed

lemma count_paren:
  assumes "stmt_wf n (Stmt None KCall x as)" "n < 126" "short (body_text KCall x as)"
  shows "Cursor_count_ex (body_text KCall x as) TOKEN_devider ''('' True = Some 1"
proof -
  let ?C = "commas comma (map ptoks as)"
  have x: "word_ok x" using assms(1) by (simp add: name_word)
  have "vok 1 (n - 1) (\<lambda>_. True) (ptoks a)" if "a \<in> set as" for a
    using vok_mono [OF vok_ptoks [of "n - 1" a 1], of "n - 1" "\<lambda>_. True"] assms(1) that by simp
  then have v: "vok 1 (n - 1) (\<lambda>_. True) ?C" by (intro vok_commas) simp_all
  then have d: "deep 1 ?C = 1" by (simp add: vok_def)
  have "filter (cntv ''('') (tviews 0 (ptoks (Stmt None KCall x as))) = [(TOKEN_devider, ''('', 1)]"
    using cntv_paren [OF v] assms(2) d word_neq [OF x, of "CHR ''(''" "''(''"]
    by (simp add: left_toks_def wtok_def lparen_def rparen_def bracket_step_simps x tviews_append word_char_dividers)
      (simp add: cntv_def)
  moreover have "strstr (body_text KCall x as) ''('' \<noteq> None" by (rule strstr_present) (simp add: body_text_def left_text_def)
  ultimately show ?thesis
    using count_views [OF print_lexes [OF assms(1)], of "''(''"] assms(3) ptoks_not_Nil by (simp add: body_text_def del: print.simps ptoks.simps)
qed

lemma parse_method_eq:
  assumes "stmt_wf n (Stmt None KCall x as)" "n < 126" "short (body_text KCall x as)"
  shows "parse_method (body_text KCall x as) = Some (map (\<lambda>a. Sub_stmt (print a)) as @ [Set_attr ''method'' x])"
proof -
  let ?t = "body_text KCall x as" and ?i = "commas CHR '','' (map print as)"
  have t: "?t = x @ ''('' @ ?i @ '')''" by (simp add: body_text_def left_text_def)
  have x: "word_ok x" "CHR ''('' \<notin> set x" using assms(1) word_char_dividers(1) by (auto simp: name_word name_ok_def word_ok_def)
  have c: "cstring ?t" using print_simple [OF assms(1)] cstring_simple by (simp add: body_text_def del: print.simps)
  have b: "Cursor_count_ex ?t TOKEN_devider ''['' True = Some 0"
  proof -
    have "CHR ''['' \<notin> set ?t" using print_set [OF assms(1), of "CHR ''[''"]
      by (auto simp: body_text_def is_word_char_def is_digit_def simp del: print.simps)
    then show ?thesis using strstr_missing by (simp add: Cursor_count_ex_def)
  qed
  have f: "strsGetFirstToken ?t CHR ''('' = Some x" using x(2) strsGetFirstToken_eq [OF c] by (simp add: t takeWhile_upto)
  have cut: "strsCut ?t CHR ''('' CHR '')'' = Some (Some ?i)" using strsCut_ends [of x] x(2) c unfolding t by simp
  have wf: "\<forall>a \<in> set as. stmt_wf (n - 1) a" "length as < 256" using assms(1) by simp_all
  have ci: "cstring ?i" using c by (simp add: t)
  show ?thesis
  proof (cases "as = []")
    case True
    then show ?thesis
      using count_paren [OF assms] b f cut c by (simp add: parse_method_def strsCopy_eq strsAppend_eq Parser_getSubStmtNum_def)
  next
    case False
    have a: "strsAppend ?i '','' = Some (args_text as)" using ci False commas_text by (simp add: strsAppend_eq)
    have sh: "short (args_text as)" using assms(3) commas_text [OF False] by (simp add: short_def t flip: commas_text [OF False])
    have num: "Parser_getSubStmtNum (args_text as) '','' = Some (int (length as))"
    proof -
      have "args_text as \<noteq> '',''"
        using False print_simple [of "n - 1" "hd as"] wf by (cases as) (auto simp: args_text_def append_eq_Cons_conv)
      then show ?thesis
        using count_args [OF wf(1) sh _ False] assms(2) wf(2)
        by (simp add: Parser_getSubStmtNum_def unsigned_of_nat take_bit_eq_mod)
    qed
    have "method_loop (length as) 0 (int (length as)) x (args_text as) = Some (map (\<lambda>a. Sub_stmt (print a)) as @ [Set_attr ''method'' x])"
      using False wf(1) assms(2) sh by (intro method_loop_args [of _ "n - 1"]) simp_all
    then show ?thesis
      using count_paren [OF assms] b f cut c a num by (simp add: parse_method_def strsCopy_eq)
  qed
qed

text \<open>\<open>Cursor_removeTokensBetween\<close> over the tokens.\<close>

definition remove_view :: "string \<Rightarrow> string \<Rightarrow> tview \<Rightarrow> string \<times> 8 word \<Rightarrow> ((string \<times> 8 word) \<times> bool) option" where
  "remove_view a b = (\<lambda>(ty, p, e) (out, d). do {
     out1 \<leftarrow> (if a = p \<and> d = 0 then strsAppend out p else Some out);
     let d1 = (if a = p then d + 1 else d);
     let d2 = (if b = p then d1 - 1 else d1);
     out2 \<leftarrow> (if d2 = 0 then strsAppend out1 p else Some out1);
     Some ((out2, d2), False)
   })"

lemma remove_views:
  assumes "lexes t ts" "short t" "ts \<noteq> []"
  shows "Cursor_removeTokensBetween t a b = do {
    (out, d) \<leftarrow> run (remove_view a b) (tviews 0 ts @ [(TOKEN_strEnd, [], deep 0 ts)]) ([], 0); strsCopy out }"
proof -
  let ?b = "\<lambda>cs (out, d :: 8 word). do {
          out1 \<leftarrow> (if equ a (p1 cs) \<and> d = 0 then strsAppend out (p1 cs) else Some out);
          let d1 = (if equ a (p1 cs) then d + 1 else d);
          let d2 = (if equ b (p1 cs) then d1 - 1 else d1);
          out2 \<leftarrow> (if d2 = 0 then strsAppend out1 (p1 cs) else Some out1);
          Some ((out2, d2), False)
        }"
  have b: "?b c v = remove_view a b (view_of c) v" for c v
    by (simp add: remove_view_def view_of_def split: prod.split)
  have "Cursor_forEach (Some t) ?b ([], 0) = run (remove_view a b) (tviews 0 ts @ [(TOKEN_strEnd, [], deep 0 ts)]) ([], 0)"
    by (rule forEach_views [OF assms]) (rule b)
  then show ?thesis unfolding Cursor_removeTokensBetween_def by simp
qed

lemma remove_plain:
  assumes "\<forall>(ty, p, e) \<in> set vs. cstring p \<and> p \<noteq> a \<and> p \<noteq> b" "cstring out"
  shows "run (remove_view a b) vs (out, 0) = Some (out @ texts vs, 0)"
  using assms
proof (induction vs arbitrary: out)
  case (Cons v vs)
  obtain ty p e where v: "v = (ty, p, e)" by (cases v)
  then have "cstring p" "p \<noteq> a" "p \<noteq> b" using Cons.prems(1) by auto
  then show ?case using Cons.IH [of "out @ p"] Cons.prems by (auto simp: v remove_view_def strsAppend_eq)
qed simp

lemma remove_absent:
  assumes "lexes t ts" "short t" "ts \<noteq> []" "\<forall>x \<in> set ts. snd x \<noteq> a \<and> snd x \<noteq> b" "a \<noteq> []" "b \<noteq> []"
  shows "Cursor_removeTokensBetween t a b = Some (payloads ts)"
proof -
  have ok: "\<forall>x \<in> set ts. tok_ok x" using assms(1) by (simp add: lexes_def)
  have "\<forall>x \<in> set ts. tok_ok x \<Longrightarrow> \<forall>x \<in> set ts. snd x \<noteq> a \<and> snd x \<noteq> b \<Longrightarrow>
      \<forall>(ty, p, e) \<in> set (tviews d ts). cstring p \<and> p \<noteq> a \<and> p \<noteq> b" for d
    by (induction ts arbitrary: d) (auto simp: tok_ok_def)
  then have "\<forall>(ty, p, e) \<in> set (tviews 0 ts @ [(TOKEN_strEnd, [], deep 0 ts)]). cstring p \<and> p \<noteq> a \<and> p \<noteq> b"
    using ok assms(4-6) by auto
  from remove_plain [OF this, of "[]"] have "run (remove_view a b) (tviews 0 ts @ [(TOKEN_strEnd, [], deep 0 ts)]) ([], 0) = Some (payloads ts, 0)"
    by (simp add: texts_tviews)
  moreover have "cstring (payloads ts)" using ok by (induction ts) (auto simp: tok_ok_def)
  ultimately show ?thesis unfolding remove_views [OF assms(1-3)] by (simp add: strsCopy_eq)
qed

text \<open>Inside the outermost brackets nothing is kept; the count of \<open>(\<close> and \<open>)\<close> is the depth.\<close>

lemma remove_inside:
  assumes "\<forall>(ty, p, e) \<in> set (tviews d ts). e \<noteq> 0 \<and> p \<notin> {''['', '']'', ''{'', ''}''}" "d \<noteq> 0"
  shows "run (remove_view ''('' '')'') (tviews d ts @ us) (out, d) = run (remove_view ''('' '')'') us (out, deep d ts)"
  using assms
proof (induction ts arbitrary: d)
  case (Cons t ts)
  have b: "bracket_step (snd t) d = (if snd t = ''('' then d + 1 else if snd t = '')'' then d - 1 else d)"
    using Cons.prems(1) by (auto simp: bracket_step_def)
  have e: "bracket_step (snd t) d \<noteq> 0" using Cons.prems(1) by simp
  have "run (remove_view ''('' '')'') (tviews d (t # ts) @ us) (out, d) =
      run (remove_view ''('' '')'') (tviews (bracket_step (snd t) d) ts @ us) (out, bracket_step (snd t) d)"
  proof -
    have "remove_view ''('' '')'' (ty, snd t, x) (out, d) = Some ((out, bracket_step (snd t) d), False)" for ty x
      using e Cons.prems(2) unfolding b by (cases "snd t = ''(''"; cases "snd t = '')''"; auto simp: remove_view_def)
    then show ?thesis by simp
  qed
  then show ?case using Cons.IH [OF _ e] Cons.prems(1) by (simp add: deep_def)
qed (simp add: deep_def)

lemma ptoks_texts: "stmt_wf n s \<Longrightarrow> t \<in> set (ptoks s) \<Longrightarrow> word_ok (snd t) \<or> snd t \<in> {''('', '')'', '','', ''=''}"
proof (induction s arbitrary: n)
  case (Stmt l k x as)
  have "t \<in> set (commas comma (map ptoks bs)) \<Longrightarrow> t = comma \<or> (\<exists>b \<in> set bs. t \<in> set (ptoks b))" for bs
    by (induction bs) (auto simp: commas_Cons split: if_splits)
  from this [of as] show ?case
    using Stmt.prems Stmt.IH [of _ "n - 1"] name_word
    by (auto simp: left_toks_def wtok_def comma_def lparen_def rparen_def split: option.splits if_splits)
qed

lemma word_not_bracket: "word_ok p \<Longrightarrow> p \<notin> {''('', '')'', ''['', '']'', ''{'', ''}'', '','', ''='', '':'', []}"
  using word_ends [of p] word_chars [of "hd p"] by (auto simp: dividers_def op_chars_def)

text \<open>The kind of statement is decided on the name, or on the name with an empty pair of brackets.\<close>

definition top_text :: "kind \<Rightarrow> string \<Rightarrow> string" where
  "top_text k x = x @ (if k = KCall then ''()'' else [])"

definition top_toks :: "kind \<Rightarrow> string \<Rightarrow> tok list" where
  "top_toks k x = wtok x # (if k = KCall then [lparen, rparen] else [])"

lemma top_stmt: "stmt_wf n (Stmt None k x as) \<Longrightarrow> stmt_wf n (Stmt None k x [])"
  by (auto split: if_splits)

lemma top_print: "print (Stmt None k x []) = top_text k x" "ptoks (Stmt None k x []) = top_toks k x"
  by (simp_all add: top_text_def top_toks_def left_text_def left_toks_def)

lemma remove_steps:
  "word_ok x \<Longrightarrow> cstring x \<Longrightarrow> cstring out \<Longrightarrow> remove_view ''('' '')'' (ty, x, e) (out, 0) = Some ((out @ x, 0), False)"
  "cstring out \<Longrightarrow> remove_view ''('' '')'' (ty, ''('', e) (out, 0) = Some ((out @ ''('', 1), False)"
  "cstring out \<Longrightarrow> remove_view ''('' '')'' (ty, '')'', e) (out, 1) = Some ((out @ '')'', 0), False)"
  "cstring out \<Longrightarrow> remove_view ''('' '')'' (ty, [], e) (out, 0) = Some ((out, 0), False)"
  using word_not_bracket [of x] by (auto simp: remove_view_def strsAppend_eq)

lemma tviews_texts: "(ty, p, e) \<in> set (tviews d ts) \<Longrightarrow> \<exists>t \<in> set ts. p = snd t"
  by (induction ts arbitrary: d) auto

lemma remove_sub_eq:
  assumes "stmt_wf n (Stmt None k x as)" "n < 126" "short (body_text k x as)"
  shows "remove_sub_stmt (body_text k x as) = Some (top_text k x)"
proof -
  let ?t = "body_text k x as" and ?C = "commas comma (map ptoks as)"
  have x: "word_ok x" using assms(1) by (auto simp: name_word split: if_splits)
  have lx: "lexes ?t (ptoks (Stmt None k x as))" using print_lexes [OF assms(1)] by (simp add: body_text_def)
  have c: "cstring ?t" using print_simple [OF assms(1)] cstring_simple by (simp add: body_text_def del: print.simps)
  have one: "Cursor_removeTokensBetween ?t ''('' '')'' = Some (top_text k x)"
  proof (cases "k = KCall")
    case False
    then have "as = []" using assms(1) by simp
    then have p: "ptoks (Stmt None k x as) = [wtok x]" "?t = x" using False by (simp_all add: left_toks_def body_text_def left_text_def)
    have "Cursor_removeTokensBetween ?t ''('' '')'' = Some (payloads [wtok x])"
      using lx assms(3) word_not_bracket [OF x] unfolding p(1) by (intro remove_absent) (simp_all add: wtok_def)
    then show ?thesis using False by (simp add: top_text_def wtok_def)
  next
    case True
    have cx: "cstring x" using c True by (simp add: body_text_def left_text_def)
    have v: "vok 1 (n - 1) (\<lambda>_. True) ?C"
    proof (rule vok_commas)
      fix a
      assume "a \<in> set as"
      then show "vok 1 (n - 1) (\<lambda>_. True) (ptoks a)"
        using vok_mono [OF vok_ptoks [of "n - 1" a 1], of "n - 1" "\<lambda>_. True"] assms(1) True by simp
    qed simp
    have d: "deep 1 ?C = 1" using v by (simp add: vok_def)
    have "\<forall>(ty, p, e) \<in> set (tviews 1 ?C). e \<noteq> 0 \<and> p \<notin> {''['', '']'', ''{'', ''}''}"
    proof (clarify, intro conjI)
      fix ty p e
      assume h: "(ty, p, e) \<in> set (tviews 1 ?C)"
      then obtain j where "j \<le> n - 1" "e = of_nat (1 + j)" using vokD [OF v, of ty p e] by auto
      then have "sint e = 1 + int j" using sint_small [of "1 + j"] assms(2) by (simp del: of_nat_add of_nat_Suc)
      then show "e \<noteq> 0" by auto
      obtain t where "t \<in> set ?C" "p = snd t" using tviews_texts [OF h] by blast
      then have "word_ok p \<or> p \<in> {''('', '')'', '','', ''=''}"
        using ptoks_texts [OF assms(1), of t] True by (simp add: left_toks_def)
      then show "p \<notin> {''['', '']'', ''{'', ''}''}" using word_not_bracket [of p] by auto
    qed
    from remove_inside [OF this] have inside: "run (remove_view ''('' '')'') (tviews 1 ?C @ us) (out, 1) = run (remove_view ''('' '')'') us (out, 1)" for us out
      using d by simp
    have "tviews 0 (ptoks (Stmt None k x as)) = (fst (wtok x), x, 0) # (TOKEN_devider, ''('', 1) # tviews 1 ?C @ [(TOKEN_devider, '')'', 0)]"
      using x d True by (simp add: left_toks_def wtok_def lparen_def rparen_def tviews_append bracket_step_simps)
    then have "run (remove_view ''('' '')'') (tviews 0 (ptoks (Stmt None k x as)) @ [(TOKEN_strEnd, [], deep 0 (ptoks (Stmt None k x as)))]) ([], 0) =
        Some (x @ ''()'', 0)"
      using cx x by (simp add: remove_steps inside)
    then show ?thesis
      using True cx remove_views [OF lx assms(3) ptoks_not_Nil] by (simp add: top_text_def strsCopy_eq)
  qed
  have wf: "stmt_wf n (Stmt None k x [])" using top_stmt [OF assms(1)] .
  have lt: "lexes (top_text k x) (top_toks k x)" "payloads (top_toks k x) = top_text k x"
    using print_lexes [OF wf] payloads_ptoks [OF wf] by (simp_all only: top_print)
  have sh: "short (top_text k x)" using assms(3) by (auto simp: short_def body_text_def left_text_def top_text_def)
  have ne: "\<forall>t \<in> set (top_toks k x). snd t \<notin> {''['', '']'', ''{'', ''}''}" "top_toks k x \<noteq> []"
    using word_not_bracket [OF x] by (auto simp: top_toks_def wtok_def lparen_def rparen_def)
  have "Cursor_removeTokensBetween (top_text k x) ''['' '']'' = Some (top_text k x)"
    "Cursor_removeTokensBetween (top_text k x) ''{'' ''}'' = Some (top_text k x)"
    using remove_absent [OF lt(1) sh ne(2)] ne(1) lt(2) by auto
  moreover have "cstring (top_text k x)" using print_simple [OF wf] cstring_simple by (simp only: top_print)
  ultimately show ?thesis using one c by (simp add: remove_sub_stmt_def strsCopy_eq)
qed

lemma word_at: "word_ok x \<Longrightarrow> str_at x k \<notin> {CH_SQ, CH_DQ, CHR '' ''}"
proof -
  assume x: "word_ok x"
  have "str_at x k = NUL \<or> is_word_char (str_at x k)" using x by (auto simp: str_at_def word_ok_def)
  then show ?thesis using word_chars by auto
qed

lemma wtok_name: "name_ok x \<Longrightarrow> wtok x = (TOKEN_symbol, x)"
proof -
  assume x: "name_ok x"
  then have w: "word_ok x" by (rule name_word)
  obtain c r where c: "x = c # r" using w by (cases x) (auto simp: word_ok_def)
  have q: "is_word_char c" using w c by (simp add: word_ok_def)
  have "(x @ [NUL]) ! 1 = str_at x 1" using c by (auto simp: str_at_def nth_append)
  then show ?thesis
    using word_at [OF w, of 1] word_chars [OF q] x c by (simp add: wtok_def symbol_type_def name_ok_def)
qed

lemma wtok_num: "word_ok x \<Longrightarrow> is_digit (hd x) \<Longrightarrow> wtok x = (TOKEN_literal, x)"
  by (cases x) (auto simp: wtok_def symbol_type_def word_ok_def)

lemma visits_1: "visits [t] = [cursor_at [t] 1, cursor_at [t] 2]"
  by (simp add: visits_def upt_conv_Cons eval_nat_numeral)

lemma visits_3: "visits [a, b, c] = [cursor_at [a, b, c] 1, cursor_at [a, b, c] 2, cursor_at [a, b, c] 3, cursor_at [a, b, c] 4]"
  by (simp add: visits_def upt_conv_Cons eval_nat_numeral)

lemma word_special: "word_ok x \<Longrightarrow> x \<notin> {'' import '', ''@inh ''}"
  using word_neq [of x "CHR '' ''"] by (auto simp: is_word_char_def is_digit_def)

lemma name_special: "name_ok x \<or> word_ok x \<and> is_digit (hd x) \<Longrightarrow> x \<noteq> ''...'' \<and> x \<noteq> ''pass''"
  by (auto simp: name_ok_def is_digit_def)

definition kind_type :: "kind \<Rightarrow> StmtType" where
  "kind_type k = (case k of KNum \<Rightarrow> STMT_number | KName \<Rightarrow> STMT_reference | KCall \<Rightarrow> STMT_method)"

lemma collect_top:
  assumes "stmt_wf n (Stmt None k x as)"
  shows "fold collect_type (visits (top_toks k x)) StmtFlags_init =
    (case k of KNum \<Rightarrow> StmtFlags_init\<lparr>bNum := True\<rparr> | KName \<Rightarrow> StmtFlags_init\<lparr>bSymbol := True\<rparr>
     | KCall \<Rightarrow> StmtFlags_init\<lparr>bMethod := True, bSymbol := True\<rparr>)"
proof -
  have x: "name_ok x \<or> word_ok x \<and> is_digit (hd x)" using assms by (auto split: if_splits)
  then have w: "word_ok x" using name_word by auto
  have at0: "str_at x 0 \<noteq> CHR ''b''" if "is_digit (hd x)" using that w by (cases x) (auto simp: is_digit_def word_ok_def)
  note f = word_not_bracket [OF w] word_special [OF w] name_special [OF x] word_at [OF w, of 0] word_at [OF w, of 1]
  show ?thesis
  proof (cases k)
    case KNum
    then have "wtok x = (TOKEN_literal, x)" "is_digit (hd x)" using assms wtok_num by auto
    then show ?thesis
      using f at0 by (simp add: KNum top_toks_def visits_1 cursor_at_def lex_token_def collect_type_def collect_rest_def StmtFlags_init_def strIsStartWith_def)
  next
    case KName
    then have "wtok x = (TOKEN_symbol, x)" using assms wtok_name by auto
    then show ?thesis
      using f by (simp add: KName top_toks_def visits_1 cursor_at_def lex_token_def collect_type_def collect_rest_def StmtFlags_init_def strIsStartWith_def)
  next
    case KCall
    then have "wtok x = (TOKEN_symbol, x)" using assms wtok_name by auto
    then show ?thesis
      using f by (simp add: KCall top_toks_def visits_3 cursor_at_def lex_token_def collect_type_def collect_rest_def StmtFlags_init_def
          strIsStartWith_def lparen_def rparen_def)
  qed
qed

lemma matchStmtType_eq:
  assumes "stmt_wf n (Stmt None k x as)" "n < 126" "short (body_text k x as)"
  shows "Lexer_matchStmtType (body_text k x as) = Some (kind_type k)"
proof -
  have wf: "stmt_wf n (Stmt None k x [])" using top_stmt [OF assms(1)] .
  have lt: "lexes (top_text k x) (top_toks k x)" using print_lexes [OF wf] by (simp only: top_print)
  have sh: "short (top_text k x)" using assms(3) by (auto simp: short_def body_text_def left_text_def top_text_def)
  have f: "Cursor_forEach (Some (top_text k x)) (\<lambda>cs f. Some (collect_type cs f, False)) StmtFlags_init =
      Some (fold collect_type (visits (top_toks k x)) StmtFlags_init)"
    by (simp add: forEach_run [OF lt sh] run_pure)
  have "Cursor_isContain (body_text k x as) TOKEN_devider '','' = Some False" if "k \<noteq> KCall"
  proof -
    have "word_ok x" using assms(1) by (auto simp: name_word split: if_splits)
    then have "CHR '','' \<notin> set (body_text k x as)"
      using that word_char_dividers(3) by (auto simp: body_text_def left_text_def word_ok_def)
    then show ?thesis using strstr_missing by (simp add: Cursor_isContain_def Cursor_count_def Cursor_count_ex_def)
  qed
  then show ?thesis
    using remove_sub_eq [OF assms] f collect_top [OF assms(1)]
    by (cases k) (simp_all add: Lexer_matchStmtType_def kind_type_def StmtFlags_init_def)
qed

text \<open>\<open>Cursor_splitCollect\<close> over the tokens.\<close>

definition split_view :: "string \<Rightarrow> 8 word \<Rightarrow> int \<Rightarrow> tview \<Rightarrow> string \<times> int \<Rightarrow> ((string \<times> int) \<times> bool) option" where
  "split_view q b index = (\<lambda>(ty, p, e) (out, i).
     if e = b \<and> p = q then Some ((out, i + 1), False)
     else do { o1 \<leftarrow> (if i = index then strsAppend out p else Some out); Some ((o1, i), False) })"

lemma split_views:
  assumes "lexes t ts" "short t" "ts \<noteq> []"
  shows "Cursor_splitCollect t q index = do {
    (out, i) \<leftarrow> run (split_view q (if str_at q 0 \<in> {CHR ''('', CHR ''['', CHR ''{''} then 1 else 0) index)
      (tviews 0 ts @ [(TOKEN_strEnd, [], deep 0 ts)]) ([], 0);
    strsCopy (if i = 0 then t else out) }"
proof -
  let ?e = "if str_at q 0 \<in> {CHR ''('', CHR ''['', CHR ''{''} then 1 else 0 :: 8 word"
  let ?b = "\<lambda>cs (aOut, i). if bracket_deepth cs = ?e \<and> equ (p1 cs) q then Some ((aOut, i + 1), False)
      else do { out \<leftarrow> (if i = index then strsAppend aOut (p1 cs) else Some aOut); Some ((out, i), False) }"
  have b: "?b c v = split_view q ?e index (view_of c) v" for c v
    by (simp add: split_view_def view_of_def split: prod.split)
  have "Cursor_forEach (Some t) ?b ([], 0) = run (split_view q ?e index) (tviews 0 ts @ [(TOKEN_strEnd, [], deep 0 ts)]) ([], 0)"
    by (rule forEach_views [OF assms]) (rule b)
  then show ?thesis unfolding Cursor_splitCollect_def by (simp add: Let_def)
qed

lemma split_no_hit:
  assumes "\<forall>(ty, p, e) \<in> set vs. cstring p \<and> p \<noteq> q" "cstring out"
  shows "run (split_view q b index) (vs @ us) (out, i) = run (split_view q b index) us (if i = index then out @ texts vs else out, i)"
  using assms
proof (induction vs arbitrary: out)
  case (Cons v vs)
  obtain ty p e where v: "v = (ty, p, e)" by (cases v)
  then have p: "cstring p" "p \<noteq> q" using Cons.prems(1) by auto
  then have "run (split_view q b index) ((v # vs) @ us) (out, i) =
      run (split_view q b index) (vs @ us) (if i = index then out @ p else out, i)"
    using Cons.prems(2) by (simp add: v split_view_def strsAppend_eq)
  then show ?case using Cons.IH [of "if i = index then out @ p else out"] Cons.prems p v by (auto split: if_splits)
qed simp

lemma split_passed: "0 < i \<Longrightarrow> \<exists>i'. 0 < i' \<and> run (split_view q b 0) vs (out, i) = Some (out, i')"
  by (induction vs arbitrary: i) (auto simp: split_view_def)

lemma cstring_payloads: "\<forall>x \<in> set ts. tok_ok x \<Longrightarrow> cstring (payloads ts)"
  by (induction ts) (auto simp: tok_ok_def)

lemma split_absent:
  assumes "lexes t ts" "short t" "ts \<noteq> []" "\<forall>x \<in> set ts. snd x \<noteq> q" "q \<noteq> []" "cstring t"
  shows "Cursor_splitCollect t q index = Some t"
proof -
  have ok: "\<forall>x \<in> set ts. tok_ok x" using assms(1) by (simp add: lexes_def)
  have "\<forall>(ty, p, e) \<in> set (tviews 0 ts @ [(TOKEN_strEnd, [], deep 0 ts)]). cstring p \<and> p \<noteq> q"
    using tviews_cstring [OF ok, of 0] tviews_texts assms(4,5) by fastforce
  from split_no_hit [OF this, of "[]" _ index "[]" 0] show ?thesis
    using assms(6) unfolding split_views [OF assms(1-3)] by (simp add: strsCopy_eq split: if_splits)
qed

lemma split_first:
  assumes "lexes t (A @ (ty, q) # R)" "short t" "\<forall>x \<in> set A. snd x \<noteq> q" "q \<noteq> []"
    and "bracket_step q (deep 0 A) = (if str_at q 0 \<in> {CHR ''('', CHR ''['', CHR ''{''} then 1 else 0)"
  shows "Cursor_splitCollect t q 0 = Some (payloads A)"
    and "\<forall>x \<in> set R. snd x \<noteq> q \<Longrightarrow> Cursor_splitCollect t q 1 = Some (payloads R)"
proof -
  let ?b = "if str_at q 0 \<in> {CHR ''('', CHR ''['', CHR ''{''} then 1 else 0 :: 8 word"
  let ?E = "[(TOKEN_strEnd, [], deep 0 (A @ (ty, q) # R))]"
  have ok: "\<forall>x \<in> set A. tok_ok x" "\<forall>x \<in> set R. tok_ok x" using assms(1) by (simp_all add: lexes_def)
  have A: "\<forall>(ty, p, e) \<in> set (tviews 0 A). cstring p \<and> p \<noteq> q"
    using tviews_cstring [OF ok(1), of 0] tviews_texts assms(3) by fastforce
  have v: "tviews 0 (A @ (ty, q) # R) = tviews 0 A @ (ty, q, ?b) # tviews ?b R" by (simp add: tviews_append assms(5))
  have c: "cstring (payloads A)" "cstring (payloads R)" using ok cstring_payloads by blast+
  have hit: "run (split_view q ?b index) (tviews 0 (A @ (ty, q) # R) @ ?E) ([], 0) =
      run (split_view q ?b index) (tviews ?b R @ ?E) (if index = 0 then payloads A else [], 1)" for index
    using split_no_hit [OF A, of "[]" ?b index "(ty, q, ?b) # tviews ?b R @ ?E" 0]
    by (simp add: v texts_tviews) (simp add: split_view_def)
  have ne: "A @ (ty, q) # R \<noteq> []" by simp
  show "Cursor_splitCollect t q 0 = Some (payloads A)"
    using split_passed [of 1 q ?b "tviews ?b R @ ?E" "payloads A"] c(1) hit [of 0]
    unfolding split_views [OF assms(1,2) ne] by (auto simp: strsCopy_eq)
  show "Cursor_splitCollect t q 1 = Some (payloads R)" if r: "\<forall>x \<in> set R. snd x \<noteq> q"
  proof -
    have "\<forall>(ty, p, e) \<in> set (tviews ?b R @ ?E). cstring p \<and> p \<noteq> q"
      using tviews_cstring [OF ok(2), of ?b] tviews_texts r assms(4) by fastforce
    from split_no_hit [OF this, of "[]" ?b 1 "[]" 1]
    have "run (split_view q ?b 1) (tviews ?b R @ ?E) ([], 1) = Some (payloads R, 1)" by (simp add: texts_tviews)
    then show ?thesis using c(2) hit [of 1] unfolding split_views [OF assms(1,2) ne] by (simp add: strsCopy_eq)
  qed
qed

section \<open>The calls of a statement\<close>

definition direct_view :: "tview \<Rightarrow> string \<times> string \<times> bool \<Rightarrow> ((string \<times> string \<times> bool) \<times> bool) option" where
  "direct_view = (\<lambda>(ty, p, e) (l, r, m).
     if \<not> m \<and> p = ''='' \<and> ty = TOKEN_operator then Some ((l, r, True), False)
     else if \<not> m then do { l1 \<leftarrow> strsAppend l p; Some ((l1, r, m), False) }
     else do { r1 \<leftarrow> strsAppend r p; Some ((l, r1, m), False) })"

lemma direct_body_view: "direct_body c v = direct_view (view_of c) v"
  by (simp add: direct_body_def direct_view_def view_of_def split: prod.split)

lemma direct_rest:
  assumes "\<forall>(ty, p, e) \<in> set vs. cstring p" "cstring r"
  shows "run direct_view vs (l, r, True) = Some (l, r @ texts vs, True)"
  using assms
proof (induction vs arbitrary: r)
  case (Cons v vs)
  obtain ty p e where v: "v = (ty, p, e)" by (cases v)
  then have "cstring p" using Cons.prems(1) by simp
  then show ?case using Cons.IH [of "r @ p"] Cons.prems v by (auto simp: direct_view_def strsAppend_eq)
qed simp

lemma stmt_parts:
  assumes "stmt_wf n (Stmt l k x as)"
  shows "print (Stmt l k x as) = left_text l @ body_text k x as" "ptoks (Stmt l k x as) = left_toks l @ body_toks k x as"
    and "stmt_wf n (Stmt None k x as)" "\<And>y. l = Some y \<Longrightarrow> name_ok y" "word_ok x"
  using assms by (auto simp: body_text_def body_toks_def left_text_def left_toks_def name_word split: if_splits)

lemma selfOperator_None:
  assumes "stmt_wf n s"
  shows "Suger_selfOperator (print s) = Some None"
proof -
  have "c \<notin> set (print s)" if "c \<in> set ''+-*/%&|^<>''" for c
    using that print_set [OF assms, of c] by (auto simp: is_word_char_def is_digit_def)
  then have "strstr (print s) (c # q) = None" if "c \<in> set ''+-*/%&|^<>''" for c q using that strstr_missing by blast
  then have "Cursor_isContain (print s) TOKEN_operator (c # q) = Some False" if "c \<in> set ''+-*/%&|^<>''" for c q
    using that by (simp add: Cursor_isContain_def Cursor_count_def Cursor_count_ex_def)
  then show ?thesis by (simp add: Suger_selfOperator_def selfOperators_def)
qed

lemma sides_call:
  assumes "stmt_wf n (Stmt l k x as)" "short (print (Stmt l k x as))"
  shows "Cursor_splitCollect (print (Stmt l k x as)) ''('' 0 = Some (left_text l @ x)"
proof -
  let ?A = "left_toks l @ [wtok x]"
  have lx: "lexes (print (Stmt l k x as)) (ptoks (Stmt l k x as))" using print_lexes [OF assms(1)] .
  note p = stmt_parts [OF assms(1)]
  have A: "\<forall>t \<in> set ?A. snd t \<noteq> ''(''" "deep 0 ?A = 0" "payloads ?A = left_text l @ x"
    using p(4,5) word_not_bracket name_word
    by (auto simp: left_toks_def left_text_def wtok_def deep_def bracket_step_simps split: option.splits)
  show ?thesis
  proof (cases "k = KCall")
    case True
    then have "ptoks (Stmt l k x as) = ?A @ (TOKEN_devider, ''('') # commas comma (map ptoks as) @ [rparen]" by (simp add: lparen_def)
    then show ?thesis using split_first(1) [of _ ?A TOKEN_devider "''(''"] lx assms(2) A by (simp add: bracket_step_simps del: print.simps)
  next
    case False
    then have t: "ptoks (Stmt l k x as) = ?A" "print (Stmt l k x as) = left_text l @ x" using assms(1) by simp_all
    have "cstring (print (Stmt l k x as))" using print_simple [OF assms(1)] cstring_simple by blast
    then show ?thesis using split_absent [OF lx assms(2) ptoks_not_Nil] A(1) unfolding t by simp
  qed
qed

lemma checkIsDirect_eq:
  assumes "stmt_wf n (Stmt l k x as)" "short (left_text l @ x)"
  shows "Parser_checkIsDirect (left_text l @ x) = Some (l \<noteq> None)"
proof -
  note p = stmt_parts [OF assms(1)]
  let ?s = "Stmt l (if k = KNum then KNum else KName) x []"
  have wf: "stmt_wf n ?s" using assms(1) by (auto split: if_splits)
  have "print ?s = left_text l @ x" "ptoks ?s = left_toks l @ [wtok x]" by simp_all
  then have lx: "lexes (left_text l @ x) (left_toks l @ [wtok x])" and s: "simple (left_text l @ x)"
    using print_lexes [OF wf] print_simple [OF wf] by metis+
  show ?thesis
  proof (cases l)
    case None
    then have "Cursor_splitCollect (left_text l @ x) ''='' 1 = Some (left_text l @ x)"
      using cstring_simple [OF s] word_not_bracket [OF p(5)]
      by (intro split_absent [OF lx assms(2)]) (simp_all add: left_toks_def wtok_def)
    then show ?thesis by (simp add: Parser_checkIsDirect_def None)
  next
    case (Some y)
    then have y: "word_ok y" using p(4) name_word by simp
    have "Cursor_splitCollect (left_text l @ x) ''='' 1 = Some (payloads [wtok x])"
      using lx assms(2) word_not_bracket [OF y] word_not_bracket [OF p(5)]
      by (intro split_first(2) [of _ "[wtok y]" TOKEN_operator]) (simp_all add: Some left_toks_def wtok_def deep_def bracket_step_simps y)
    then show ?thesis by (simp add: Parser_checkIsDirect_def Some left_text_def wtok_def)
  qed
qed

lemma stmt_sides_eq:
  assumes "stmt_wf n (Stmt l k x as)" "short (print (Stmt l k x as))"
  shows "stmt_sides (print (Stmt l k x as)) = Some (l, body_text k x as)"
proof -
  note p = stmt_parts [OF assms(1)]
  have sh: "short (left_text l @ x)" using assms(2) by (auto simp: short_def)
  show ?thesis
  proof (cases l)
    case None
    then have "print (Stmt l k x as) = body_text k x as" using p(1) by (simp add: left_text_def)
    then show ?thesis
      using sides_call [OF assms] checkIsDirect_eq [OF assms(1) sh] selfOperator_None [OF assms(1)] None
      by (simp add: stmt_sides_def del: print.simps)
  next
    case (Some y)
    let ?R = "tviews 0 (body_toks k x as) @ [(TOKEN_strEnd, [], deep 0 (ptoks (Stmt l k x as)))]"
    have y: "word_ok y" "cstring y" using p(4) [OF Some] word_chars by (auto simp: name_ok_def word_ok_def cstring_def)
    have lx: "lexes (print (Stmt l k x as)) (ptoks (Stmt l k x as))" using print_lexes [OF assms(1)] .
    then have "\<forall>t \<in> set (body_toks k x as). tok_ok t" by (simp add: lexes_def p(2) del: ptoks.simps)
    then have R: "\<forall>(ty, p, e) \<in> set ?R. cstring p" using tviews_cstring [of "body_toks k x as" 0] by auto
    have v: "tviews 0 (ptoks (Stmt l k x as)) = (fst (wtok y), y, 0) # (TOKEN_operator, ''='', 0) # tviews 0 (body_toks k x as)"
      unfolding p(2) using y by (simp add: Some left_toks_def wtok_def bracket_step_simps)
    have "Cursor_forEach (Some (print (Stmt l k x as))) direct_body ([], [], False) =
        run direct_view (tviews 0 (ptoks (Stmt l k x as)) @ [(TOKEN_strEnd, [], deep 0 (ptoks (Stmt l k x as)))]) ([], [], False)"
      by (rule forEach_views [OF lx assms(2) ptoks_not_Nil]) (rule direct_body_view)
    also have "\<dots> = run direct_view ?R (y, [], True)"
      using y word_not_bracket [OF y(1)] unfolding v by (simp add: direct_view_def strsAppend_eq)
    also have "\<dots> = Some (y, payloads (body_toks k x as), True)" using direct_rest [OF R, of "[]"] by (simp add: texts_tviews)
    finally have "Cursor_forEach (Some (print (Stmt l k x as))) direct_body ([], [], False) = Some (y, body_text k x as, True)"
      using payloads_ptoks [OF p(3)] by (simp add: body_toks_def body_text_def)
    then show ?thesis
      using sides_call [OF assms] checkIsDirect_eq [OF assms(1) sh] Some by (simp add: stmt_sides_def del: print.simps)
  qed
qed

lemma split_word:
  assumes "word_ok y" "short y"
  shows "Cursor_splitCollect y '':'' i = Some y"
proof -
  have "simple y" using assms(1) simple_word by (simp add: word_ok_def)
  moreover from this have "lexes y [wtok y]" using lexes_simple scan_name [OF assms(1), of "[]"] by fastforce
  ultimately show ?thesis
    using split_absent [of y "[wtok y]" "'':''" i] assms(2) word_not_bracket [OF assms(1)] cstring_simple by (simp add: wtok_def)
qed

lemma leftSlice_name:
  assumes "word_ok y" "short y" "cstring r"
  shows "Suger_leftSlice r (Some y) = Some (r, Some y)"
proof -
  have "simple y" using assms(1) simple_word by (simp add: word_ok_def)
  then have lx: "lexes y [wtok y]" using lexes_simple scan_name [OF assms(1), of "[]"] by fastforce
  show ?thesis
    using assms(3) by (simp add: Suger_leftSlice_def forEach_run [OF lx assms(2)] visits_1 cursor_at_def lex_token_def strsCopy_eq)
qed

definition kind_calls :: "kind \<Rightarrow> string \<Rightarrow> stmt list \<Rightarrow> call list" where
  "kind_calls k x as = (case k of KNum \<Rightarrow> [Set_attr ''num'' x] | KName \<Rightarrow> [Set_attr ''ref'' x]
     | KCall \<Rightarrow> map (\<lambda>a. Sub_stmt (print a)) as @ [Set_attr ''method'' x])"

lemma parse_right_eq:
  assumes "stmt_wf n (Stmt None k x as)" "n < 126" "short (body_text k x as)"
  shows "parse_right (body_text k x as) = Some (kind_calls k x as)"
proof (cases k)
  case KNum
  then have "body_text k x as = x" by (simp add: body_text_def left_text_def)
  then show ?thesis using matchStmtType_eq [OF assms] KNum by (simp add: parse_right_def kind_type_def kind_calls_def)
next
  case KName
  then have "body_text k x as = x" by (simp add: body_text_def left_text_def)
  moreover have "word_ok x" using stmt_parts(5) [OF assms(1)] .
  ultimately show ?thesis
    using matchStmtType_eq [OF assms] assms(3) split_word [of x 0] KName
    by (simp add: parse_right_def kind_type_def kind_calls_def parse_reference_def)
next
  case KCall
  then show ?thesis
    using matchStmtType_eq [OF assms] parse_method_eq [of n x as] assms by (simp add: parse_right_def kind_type_def kind_calls_def)
qed

lemma stmt_calls_eq:
  assumes "stmt_wf n (Stmt l k x as)" "n < 126" "short (print (Stmt l k x as))"
  shows "stmt_calls (print (Stmt l k x as)) = Some ((case l of None \<Rightarrow> [] | Some y \<Rightarrow> [Set_attr ''left'' y]) @ kind_calls k x as)"
proof -
  note p = stmt_parts [OF assms(1)]
  have sh: "short (body_text k x as)" "\<And>y. l = Some y \<Longrightarrow> short y" using assms(3) unfolding p(1) by (auto simp: short_def left_text_def)
  have c: "cstring (body_text k x as)" "CHR ''%'' \<notin> set (body_text k x as)"
    using print_simple [OF p(3)] cstring_simple simple_chars by (auto simp: body_text_def simp del: print.simps)
  show ?thesis
  proof (cases l)
    case None
    then show ?thesis
      using stmt_sides_eq [OF assms(1,3)] parse_right_eq [OF p(3) assms(2) sh(1)] c
      by (simp add: stmt_calls_def Suger_leftSlice_def Suger_format_def strsCopy_eq del: print.simps)
  next
    case (Some y)
    have y: "word_ok y" "y \<noteq> []" using p(4) [OF Some] by (auto simp: name_ok_def word_ok_def)
    show ?thesis
      using stmt_sides_eq [OF assms(1,3)] parse_right_eq [OF p(3) assms(2) sh(1)] c split_word [OF y(1) sh(2) [OF Some]]
        leftSlice_name [OF y(1) sh(2) [OF Some] c(1)] Some y(2)
      by (simp add: stmt_calls_def Suger_format_def del: print.simps)
  qed
qed

section \<open>From the text of a statement to its tree\<close>

lemma short_arg:
  assumes "short (print (Stmt l k x as))" "stmt_wf n (Stmt l k x as)" "a \<in> set as"
  shows "short (print a)"
proof -
  have "length (print a) \<le> length (commas CHR '','' (map print as))"
    using assms(3) by (induction as) (auto simp: commas_Cons)
  then show ?thesis using assms by (auto simp: short_def split: if_splits)
qed

lemma AST_calls_subs:
  assumes "\<And>a. a \<in> set as \<Longrightarrow> \<exists>k. stmt_calls (print a) = Some k \<and> AST_calls AST_create k = Some (Some (tree a))"
  shows "AST_calls t (map (\<lambda>a. Sub_stmt (print a)) as @ r) = AST_calls (AST (attrs t) (sub_stmts t @ map tree as)) r"
  using assms
proof (induction as arbitrary: t)
  case Nil
  then show ?case by (cases t) simp
next
  case (Cons a as)
  then obtain k where "stmt_calls (print a) = Some k" "AST_calls AST_create k = Some (Some (tree a))" by auto
  then show ?case using Cons by (simp add: AST_calls.simps [of _ "Sub_stmt _ # _"] AST_push_def)
qed

lemma calls_tree:
  "stmt_wf n s \<Longrightarrow> n < 126 \<Longrightarrow> short (print s) \<Longrightarrow> \<exists>k. stmt_calls (print s) = Some k \<and> AST_calls AST_create k = Some (Some (tree s))"
proof (induction n s rule: stmt_wf.induct)
  case (1 n l k x as)
  have sub: "\<exists>k. stmt_calls (print a) = Some k \<and> AST_calls AST_create k = Some (Some (tree a))" if "k = KCall" "a \<in> set as" for a
    using that 1 short_arg [OF 1(4,2)] by auto
  then show ?case
    using stmt_calls_eq [OF 1(2-4)] 1(2)
    by (cases k; cases l)
       (auto simp: kind_calls_def AST_calls_subs AST_calls.simps [of _ "[]"] AST_calls.simps [of _ "Set_attr _ _ # _"]
          AST_setNodeAttr_def AST_create_def node_attrs_def simp del: print.simps)
qed

lemma parse_tree:
  "stmt_wf n s \<Longrightarrow> n < 126 \<Longrightarrow> short (print s) \<Longrightarrow> AST_parseStmt AST_create (print s) = Some (Some (tree s))"
  using calls_tree by (fastforce simp: AST_parseStmt_def)

text \<open>C22: Parsing undoes printing. The text of a number, a name or a call, with arguments that are
  statements again, keyword arguments and nested calls included, assigned to a name or not, is parsed
  to exactly the tree it was printed from, for calls nested up to 125 deep with up to 255 arguments
  each, in a text of less than 32767 characters: every character of the text is given to the node it
  belongs to.\<close>

theorem parse_print:
  assumes "stmt_wf n s" "n < 126" "short (print s)"
  shows "AST_parseStmt AST_create (print s) = Some (Some (tree s))"
  using assms by (rule parse_tree)

text \<open>The statement \<open>x=f(g(),k=a.b(7))\<close>.\<close>

definition demo_stmt :: stmt where
  "demo_stmt = Stmt (Some ''x'') KCall ''f'' [Stmt None KCall ''g'' [], Stmt (Some ''k'') KCall ''a.b'' [Stmt None KNum ''7'' []]]"

lemma demo_stmt_ok: "stmt_wf 2 demo_stmt" "short (print demo_stmt)"
  by (simp_all add: demo_stmt_def short_def left_text_def name_ok_def word_ok_def is_word_char_def is_digit_def)

theorem parse_print_witness:
  "AST_parseStmt AST_create ''x=f(g(),k=a.b(7))'' = Some (Some
     (AST [''left'' \<mapsto> ''x'', ''method'' \<mapsto> ''f'']
        [AST [''method'' \<mapsto> ''g''] [],
         AST [''left'' \<mapsto> ''k'', ''method'' \<mapsto> ''a.b''] [AST [''num'' \<mapsto> ''7''] []]]))"
  using parse_print [OF demo_stmt_ok(1) _ demo_stmt_ok(2)] by (simp add: demo_stmt_def left_text_def node_attrs_def)

section \<open>From the text of a statement to its instructions\<close>

fun stmt_code :: "nat \<Rightarrow> stmt \<Rightarrow> asm_stmt list" where
  "stmt_code d (Stmt l k x as) = concat (map (stmt_code (Suc d)) as) @
     [Ins d (case k of KNum \<Rightarrow> INS_NUM | KName \<Rightarrow> INS_REF | KCall \<Rightarrow> INS_RUN) x] @
     (case l of None \<Rightarrow> [] | Some y \<Rightarrow> [Ins d INS_OUT y])"

lemma node_rules:
  "concat (map (rule_stmt d (node_attrs l k x)) rule_codes) =
     [Ins d (case k of KNum \<Rightarrow> INS_NUM | KName \<Rightarrow> INS_REF | KCall \<Rightarrow> INS_RUN) x] @ (case l of None \<Rightarrow> [] | Some y \<Rightarrow> [Ins d INS_OUT y])"
  "node_attrs l k x ''list'' = None"
  "length (filter (has (node_attrs l k x)) (butlast rule_codes)) = 1"
  by (cases l; cases k; simp add: node_attrs_def rule_codes_def rules_after_def rule_def rule_stmt_def has_def)+

lemma post_tree: "post d (tree s) = stmt_code d s"
proof (induction d s rule: stmt_code.induct)
  case (1 d l k x as)
  then have "map (post (Suc d)) (map tree as) = map (stmt_code (Suc d)) as" by simp
  then show ?case by (simp add: node_rules del: map_map)
qed

lemma name_cstring: "word_ok x \<Longrightarrow> cstring x \<and> CH_NL \<notin> set x \<and> last x \<noteq> CH_CR \<and> x \<noteq> []"
proof -
  assume x: "word_ok x"
  have c: "c \<noteq> NUL \<and> c \<noteq> CH_NL \<and> c \<noteq> CH_CR" if "c \<in> set x" for c
  proof -
    have "is_word_char c" using that x by (simp add: word_ok_def)
    then show ?thesis by (auto simp: is_word_char_def is_digit_def)
  qed
  have "x \<noteq> []" using x by (simp add: word_ok_def)
  then show ?thesis using c last_in_set [of x] by (auto simp: cstring_def)
qed

lemma tree_ok:
  "stmt_wf n s \<Longrightarrow> plain_line (tree s) \<and> attrs_ok (tree s) \<and> one_kind (tree s)"
proof (induction n s rule: stmt_wf.induct)
  case (1 n l k x as)
  have "plain_line (tree (Stmt l k x as))"
    by (cases l; cases k) (simp_all add: plain_line_def node_attrs_def rules_topAst_def rule_def)
  moreover have "node_attrs l k x a = Some v \<Longrightarrow> cstring v" for a v
    using stmt_parts(4,5) [OF 1(2)] name_word name_cstring
    by (cases l; cases k) (auto simp: node_attrs_def split: if_splits)
  ultimately show ?case using 1 by (auto simp: node_rules split: if_splits)
qed

lemma stmt_code_size:
  "stmt_wf n s \<Longrightarrow> sum_list (map data_size (stmt_code d s)) \<le> length (print s) + 1 \<and> length (stmt_code d s) \<le> length (print s)"
proof (induction n s arbitrary: d rule: stmt_wf.induct)
  case (1 n l k x as)
  have x: "x \<noteq> []" "\<And>y. l = Some y \<Longrightarrow> y \<noteq> []" using stmt_parts(4,5) [OF 1(2)] by (auto simp: name_ok_def word_ok_def)
  show ?case
  proof (cases "k = KCall")
    case False
    then show ?thesis using x 1(2) by (cases l) (auto simp: left_text_def Suc_le_eq split: if_splits)
  next
    case True
    have IH: "\<forall>a \<in> set as. sum_list (map data_size (stmt_code (Suc d) a)) \<le> length (print a) + 1 \<and> length (stmt_code (Suc d) a) \<le> length (print a)"
      using 1 True by auto
    then have "sum_list (map data_size (concat (map (stmt_code (Suc d)) as))) \<le> length (commas CHR '','' (map print as)) + 1 \<and>
        length (concat (map (stmt_code (Suc d)) as)) \<le> length (commas CHR '','' (map print as))"
      by (induction as) (fastforce simp: commas_Cons)+
    then show ?thesis using x True by (cases l) (auto simp: left_text_def Suc_le_eq)
  qed
qed

lemma code_ok: "stmt_wf n s \<Longrightarrow> d + n < 16 \<Longrightarrow> t \<in> set (stmt_code d s) \<Longrightarrow> asm_ok t"
proof (induction n s arbitrary: d rule: stmt_wf.induct)
  case (1 n l k x as)
  have n: "word_ok x" "\<And>y. l = Some y \<Longrightarrow> word_ok y" using stmt_parts(4,5) [OF 1(2)] name_word by auto
  have "asm_ok t" if "k = KCall" "a \<in> set as" "t \<in> set (stmt_code (Suc d) a)" for a
    using that 1(1) [OF that(1,2), of "Suc d"] 1(2,3) by auto
  then show ?case using 1(2-4) n name_cstring by (auto split: option.splits if_splits)
qed

text \<open>C23: Compiling a statement. The text of a statement with calls nested at most 15 deep is parsed,
  printed as assembly and assembled behind a program whose last instruction has depth 0, and the code
  then holds exactly the old instructions followed by those of the statement: the arguments of each
  call one deeper and in order, then the call, then the assignment. For every number, name and call
  of the statement the virtual machine counts exactly its arguments, unless it is the first
  instruction of the whole program.\<close>

theorem statement_compiles:
  assumes "stmt_wf n s" "n < 16" "short (print s)" "bd < 16"
    and "frame_ok bf" "disassemble bf = Some old" "old \<noteq> [] \<longrightarrow> fst (snd (last old)) = 0"
    and "recent g = VM_default_instruction_set" "cp_size (const_pool bf) + length (print s) < 65535"
    and "ia_size (instruct_array bf) + 4 * length (print s) + 32 < U32" "length old + length (print s) < U32"
  shows "\<exists>T asm bf'. AST_parseStmt AST_create (print s) = Some (Some T) \<and>
    AST_genAsm_top lc lcode (Some \<lparr> ta_tree = T, ta_blockDeepth = bd, ta_exitBlock = None \<rparr>) = Some (Some asm) \<and>
    byteCodeFrame_appendFromAsm g bf asm = Some (g, bf') \<and> frame_ok bf' \<and>
    disassemble bf' = Some (old @ asm_instrs bd True (stmt_code 0 s)) \<and>
    (\<forall>(j, e, m) \<in> set (nodes 0 0 T). \<forall>vm. bytecode_frame vm = bf' \<and> pc vm = 4 * int (length old + j) \<and> (0 < j \<or> old \<noteq> []) \<longrightarrow>
       PikaVMFrame_getInputArgNum vm = Some m)"
proof -
  let ?ss = "post 0 (tree s)"
  note z = stmt_code_size [OF assms(1), of 0, folded post_tree]
  have ok: "\<forall>t \<in> set ?ss. asm_ok t" using code_ok [OF assms(1), of 0] assms(2) by (auto simp: post_tree)
  obtain l k x as where s: "s = Stmt l k x as" by (cases s)
  have x: "x \<noteq> []" using stmt_parts(5) [OF assms(1) [unfolded s]] by (simp add: word_ok_def)
  have "Ins 0 (case k of KNum \<Rightarrow> INS_NUM | KName \<Rightarrow> INS_REF | KCall \<Rightarrow> INS_RUN) x \<in> set ?ss" unfolding post_tree s by simp
  with x have v: "\<exists>k i v. Ins k i v \<in> set ?ss \<and> v \<noteq> []" by blast
  have n: "cp_size (const_pool bf) + sum_list (map data_size ?ss) \<le> 65535"
    "ia_size (instruct_array bf) + 4 * length ?ss + 32 < U32" "length old + length ?ss < U32" using z assms(9-11) by linarith+
  have t: "plain_line (tree s)" "attrs_ok (tree s)" "one_kind (tree s)" using tree_ok [OF assms(1)] by simp_all
  have "AST_parseStmt AST_create (print s) = Some (Some (tree s))" using parse_tree [OF assms(1) _ assms(3)] assms(2) by simp
  with line_arguments [OF t assms(4) ok v assms(5-8) n, of lc lcode] show ?thesis unfolding post_tree by blast
qed

lemma demo_stmt_nodes: "nodes 0 0 (tree demo_stmt) = [(0, 1, 0), (1, 2, 0), (2, 1, 1), (4, 0, 2)]"
  by (simp add: demo_stmt_def post_tree node_rules)

theorem statement_compiles_witness:
  "\<exists>T asm bf'. AST_parseStmt AST_create ''x=f(g(),k=a.b(7))'' = Some (Some T) \<and>
    AST_genAsm_top (\<lambda>_. None) (\<lambda>_ _. None) (Some \<lparr> ta_tree = T, ta_blockDeepth = 1, ta_exitBlock = None \<rparr>) = Some (Some asm) \<and>
    byteCodeFrame_appendFromAsm g_PikaVMInsSet frame0 asm = Some (g_PikaVMInsSet, bf') \<and>
    disassemble bf' = Some [(1, 1, True, PIKA_INS INS_RUN, ''g''), (1, 2, False, PIKA_INS INS_NUM, ''7''),
      (1, 1, False, PIKA_INS INS_RUN, ''a.b''), (1, 1, False, PIKA_INS INS_OUT, ''k''),
      (1, 0, False, PIKA_INS INS_RUN, ''f''), (1, 0, False, PIKA_INS INS_OUT, ''x'')] \<and>
    (\<forall>vm. bytecode_frame vm = bf' \<longrightarrow> (pc vm = 8 \<longrightarrow> PikaVMFrame_getInputArgNum vm = Some 1) \<and>
      (pc vm = 16 \<longrightarrow> PikaVMFrame_getInputArgNum vm = Some 2))"
proof -
  have f: "frame_ok frame0" "disassemble frame0 = Some []" using frame_ok_init by (simp_all add: frame0_def)
  have p: "print demo_stmt = ''x=f(g(),k=a.b(7))''" by (simp add: demo_stmt_def left_text_def)
  have c: "asm_instrs 1 True (stmt_code 0 demo_stmt) = [(1, 1, True, PIKA_INS INS_RUN, ''g''), (1, 2, False, PIKA_INS INS_NUM, ''7''),
      (1, 1, False, PIKA_INS INS_RUN, ''a.b''), (1, 1, False, PIKA_INS INS_OUT, ''k''),
      (1, 0, False, PIKA_INS INS_RUN, ''f''), (1, 0, False, PIKA_INS INS_OUT, ''x'')]"
    by (simp add: demo_stmt_def)
  have n: "cp_size (const_pool frame0) + length (print demo_stmt) < 65535"
    "ia_size (instruct_array frame0) + 4 * length (print demo_stmt) + 32 < U32" "length [] + length (print demo_stmt) < U32"
    by (simp_all add: p U32_def frame0_def byteCodeFrame_init_def constPool_init_def instructArray_init_def)
  have r: "recent g_PikaVMInsSet = VM_default_instruction_set" by (simp add: g_PikaVMInsSet_def)
  obtain T asm bf' where h: "AST_parseStmt AST_create ''x=f(g(),k=a.b(7))'' = Some (Some T)"
    "AST_genAsm_top (\<lambda>_. None) (\<lambda>_ _. None) (Some \<lparr> ta_tree = T, ta_blockDeepth = 1, ta_exitBlock = None \<rparr>) = Some (Some asm)"
    "byteCodeFrame_appendFromAsm g_PikaVMInsSet frame0 asm = Some (g_PikaVMInsSet, bf')"
    "disassemble bf' = Some (asm_instrs 1 True (stmt_code 0 demo_stmt))"
    "\<forall>(j, e, m) \<in> set (nodes 0 0 T). \<forall>vm. bytecode_frame vm = bf' \<and> pc vm = 4 * int j \<and> 0 < j \<longrightarrow> PikaVMFrame_getInputArgNum vm = Some m"
    using statement_compiles [OF demo_stmt_ok(1) _ demo_stmt_ok(2) _ f _ r n, of 1 "\<lambda>_. None" "\<lambda>_ _. None"] unfolding p by auto
  have T: "T = tree demo_stmt" using h(1) parse_tree [OF demo_stmt_ok(1) _ demo_stmt_ok(2)] unfolding p by simp
  have "\<forall>vm. bytecode_frame vm = bf' \<longrightarrow> (pc vm = 8 \<longrightarrow> PikaVMFrame_getInputArgNum vm = Some 1) \<and>
      (pc vm = 16 \<longrightarrow> PikaVMFrame_getInputArgNum vm = Some 2)"
    using h(5) unfolding T demo_stmt_nodes by simp
  then show ?thesis using h(1-4) unfolding c by blast
qed

end
