(* ===== verification/Pika_Lines.thy ===== *)
theory Pika_Lines
  imports Pika_Parser
begin

text \<open>
  The line parser of \<open>src/src/PikaParser.c\<close>: lines are joined, stripped of comments, rewritten to
  simpler lines, recognised by their keyword and parsed, with the blocks they open and close, and
  their code is collected or assembled.

  The block stack is the list of its keywords, the innermost first; a stack that is full does not
  return and is not modelled. The printed messages are left out. A write one byte in front of an
  empty text, which \<open>Suger_import\<close> does for every empty line, hits the highest byte of the hash in the
  header of its cell, which is zero already for the empty name; the read of that byte in
  \<open>parser_lines2Target\<close> gives zero.
\<close>

section \<open>Comments and depth\<close>

definition PIKA_BLOCK_SPACE :: nat where "PIKA_BLOCK_SPACE = 4"

definition Parser_getPyLineBlockDeepth :: "string \<Rightarrow> int" where
  "Parser_getPyLineBlockDeepth sLine =
     (let iSpaceNum = strGetIndent sLine in
      if iSpaceNum mod PIKA_BLOCK_SPACE = 0 then int (iSpaceNum div PIKA_BLOCK_SPACE) else -1)"

text \<open>The position of the first comment sign outside of quotes.\<close>

fun comment_loop :: "string \<Rightarrow> nat \<Rightarrow> bool \<Rightarrow> bool \<Rightarrow> bool \<Rightarrow> nat option" where
  "comment_loop [] i bInSingleQuotes bInDoubleQuotes bPrevCharWasBackslash = None"
| "comment_loop (c # cs) i bInSingleQuotes bInDoubleQuotes bPrevCharWasBackslash =
     (if bPrevCharWasBackslash then comment_loop cs (Suc i) bInSingleQuotes bInDoubleQuotes False
      else if c = CH_BS then comment_loop cs (Suc i) bInSingleQuotes bInDoubleQuotes True
      else if c = CH_SQ \<and> \<not> bInDoubleQuotes then comment_loop cs (Suc i) (\<not> bInSingleQuotes) bInDoubleQuotes False
      else if c = CH_DQ \<and> \<not> bInSingleQuotes then comment_loop cs (Suc i) bInSingleQuotes (\<not> bInDoubleQuotes) False
      else if bInSingleQuotes \<or> bInDoubleQuotes then comment_loop cs (Suc i) bInSingleQuotes bInDoubleQuotes False
      else if c = CHR ''#'' then Some i
      else comment_loop cs (Suc i) bInSingleQuotes bInDoubleQuotes False)"

definition Parser_removeComment :: "string \<Rightarrow> string" where
  "Parser_removeComment sLine = (case comment_loop sLine 0 False False False of
     None \<Rightarrow> sLine
   | Some i \<Rightarrow> (let s = take i sLine in if \<exists>c \<in> set s. c \<noteq> CHR '' '' then s else ''@annotation''))"

definition Parser_isVoidLine :: "string \<Rightarrow> bool" where
  "Parser_isVoidLine sLine \<longleftrightarrow> (\<forall>c \<in> set sLine. c = CHR '' '')"

section \<open>Declarations of functions\<close>

text \<open>The declaration without the default values, and the list of the default values.\<close>

primrec default_loop :: "nat \<Rightarrow> string \<Rightarrow> string \<Rightarrow> string \<Rightarrow> (string \<times> string) option" where
  "default_loop 0 sArgList aDeclear aDefault = Some (aDeclear, aDefault)"
| "default_loop (Suc n) sArgList aDeclear aDefault = do {
     (sItem, rest) \<leftarrow> Cursor_popToken sArgList '','';
     bDefault \<leftarrow> Cursor_isContain sItem TOKEN_operator ''='';
     if bDefault then do {
       sDefaultVal \<leftarrow> Cursor_splitCollect sItem ''='' 1;
       k0 \<leftarrow> Cursor_splitCollect sItem ''='' 0;
       sDefaultKey \<leftarrow> Cursor_splitCollect k0 '':'' 0;
       default_loop n rest (aDeclear @ sDefaultKey @ ''=,'') (aDefault @ sDefaultKey @ ''='' @ sDefaultVal @ '','')
     } else default_loop n rest (aDeclear @ sItem @ '','') aDefault
   }"

definition defGetDefault :: "string \<Rightarrow> (string \<times> string) option" where
  "defGetDefault sDeclear = do {
     sFnName \<leftarrow> strsGetFirstToken sDeclear CHR ''('';
     c \<leftarrow> strsCut sDeclear CHR ''('' CHR '')'';
     sArgList \<leftarrow> c;
     n \<leftarrow> Cursor_count_ex sArgList TOKEN_devider '','' True;
     (aDeclear, aDefault) \<leftarrow> default_loop (unat n + 1) sArgList (sFnName @ ''('') [];
     sDeclearOut \<leftarrow> strsCopy (c_str (fst (strPopLastToken aDeclear CHR '','')) @ '')'');
     sDefaultOut \<leftarrow> strsCopy aDefault;
     Some (sDeclearOut, c_str (fst (strPopLastToken sDefaultOut CHR '','')))
   }"

definition Suger_multiReturn :: "string \<Rightarrow> string option" where
  "Suger_multiReturn sLine = Cursor_forEach (Some sLine)
     (\<lambda>cs s. Some (if bracket_deepth cs = 0 \<and> equ (p1 cs) '','' then (''('' @ s @ '')'', True) else (s, False))) sLine"

section \<open>The parts of a line\<close>

text \<open>
  What a line does: the calls on its tree, the block it opens and the statement that is parsed last,
  which may be null. Without a result the line is not accepted and nothing has been opened.
\<close>

type_synonym line_form = "call list \<times> string option \<times> string option"

definition control_keywords :: "string list" where "control_keywords = [''break'', ''continue'']"

definition normal_keywords :: "string list" where "normal_keywords = [''while'', ''if'', ''elif'']"

definition starts :: "string \<Rightarrow> string \<Rightarrow> bool" where
  "starts s t = strIsStartWith (Some s) (Some t)"

definition form_for :: "string \<Rightarrow> line_form option option" where
  "form_for sLineStart = do {
     l0 \<leftarrow> strsCopy (drop 4 sLineStart);
     l1 \<leftarrow> Cursor_getCleanStmt l0;
     if strCountSign l1 CHR '':'' < 1 then Some None
     else do {
       (sArgIn, l2) \<leftarrow> strsPopToken l1 CHR '' '';
       (skipped, l3) \<leftarrow> strsPopToken l2 CHR '' '';
       i0 \<leftarrow> Cursor_splitCollect l3 '':'' 0;
       i1 \<leftarrow> strsAppend ''iter('' i0;
       i2 \<leftarrow> strsAppend i1 '')'';
       sListIn \<leftarrow> strsCopy i2;
       Some (Some ([Set_attr ''arg_in'' sArgIn, Set_attr ''block'' ''for'', Set_attr ''list_in'' sListIn], Some ''for'', Some sListIn))
     }
   }"

text \<open>Lines that begin with \<open>else\<close>, \<open>try\<close> or \<open>except\<close> and go on otherwise are statements.\<close>

definition form_mark :: "string \<Rightarrow> string \<Rightarrow> line_form" where
  "form_mark sKeyword sLineStart =
     (if str_at sLineStart (strGetSize sKeyword) \<in> {CHR '' '', CHR '':''}
      then ([Set_attr ''block'' sKeyword], Some sKeyword, Some []) else ([], None, Some sLineStart))"

definition form_return :: "string \<Rightarrow> line_form option option" where
  "form_return sLineStart = do {
     lineBuff \<leftarrow> strsCopy sLineStart;
     (skipped, l) \<leftarrow> strsPopToken lineBuff CHR '' '';
     sStmt \<leftarrow> Suger_multiReturn l;
     Some (Some ([Set_attr ''return'' []], None, Some sStmt))
   }"

definition form_raise :: "string \<Rightarrow> line_form option option" where
  "form_raise sLineStart = do {
     sLineBuff \<leftarrow> strsCopy sLineStart;
     (skipped, l) \<leftarrow> strsPopToken sLineBuff CHR '' '';
     Some (Some ([Set_attr ''raise'' []], None, Some (if l = [] then ''RuntimeError'' else l)))
   }"

definition form_assert :: "string \<Rightarrow> line_form option option" where
  "form_assert sLineStart = do {
     sLineBuff \<leftarrow> strsCopy (drop 7 sLineStart);
     subs \<leftarrow> list_loop sLineBuff;
     Some (Some (Set_attr ''assert'' [] # subs, None, Some []))
   }"

definition form_del :: "string \<Rightarrow> line_form option option" where
  "form_del sLineStart = do {
     c \<leftarrow> strsCut sLineStart CHR ''('' CHR '')'';
     sDelDir \<leftarrow> Cursor_getCleanStmt (case c of None \<Rightarrow> drop 4 sLineStart | Some d \<Rightarrow> d);
     Some (Some ([Set_attr ''del'' sDelDir], None, Some []))
   }"

definition form_def :: "string \<Rightarrow> line_form option option" where
  "form_def sLineStart = do {
     c \<leftarrow> strsCut sLineStart CHR '' '' CHR '':'';
     (case c of
        None \<Rightarrow> Some None
      | Some d \<Rightarrow> do {
          sDeclare \<leftarrow> Cursor_getCleanStmt d;
          if \<not> strIsContain sDeclare CHR ''('' \<or> \<not> strIsContain sDeclare CHR '')'' then Some None
          else do {
            (sDeclare1, sDefaultStmt) \<leftarrow> defGetDefault sDeclare;
            Some (Some ([Set_attr ''raw'' sDeclare, Set_attr ''block'' ''def'', Set_attr ''declare'' sDeclare1] @
              (if sDefaultStmt \<noteq> [] then [Set_attr ''default'' sDefaultStmt] else []), Some ''def'', Some []))
          }
        })
   }"

definition form_class :: "string \<Rightarrow> line_form option option" where
  "form_class sLineStart = do {
     c \<leftarrow> strsCut sLineStart CHR '' '' CHR '':'';
     (case c of
        None \<Rightarrow> Some None
      | Some d \<Rightarrow> do {
          sDeclare \<leftarrow> Cursor_getCleanStmt d;
          Some (Some ([Set_attr ''block'' ''class'', Set_attr ''declare'' sDeclare], Some ''class'', Some []))
        })
   }"

definition line_form :: "string \<Rightarrow> line_form option option" where
  "line_form sLineStart =
     (case find (\<lambda>k. starts sLineStart k \<and> str_at sLineStart (strGetSize k) = CHR '' '') normal_keywords of
        Some sKeyword \<Rightarrow> do {
          sStmt \<leftarrow> strsCut sLineStart CHR '' '' CHR '':'';
          Some (Some ([Set_attr ''block'' sKeyword], Some sKeyword, sStmt))
        }
      | None \<Rightarrow>
     (case find (\<lambda>k. starts sLineStart k \<and> str_at sLineStart (strGetSize k) \<in> {CHR '' '', NUL}) control_keywords of
        Some sKeyword \<Rightarrow> Some (Some ([Set_attr sKeyword []], None, Some []))
      | None \<Rightarrow>
          if starts sLineStart ''for '' then form_for sLineStart
          else if starts sLineStart ''else'' then Some (Some (form_mark ''else'' sLineStart))
          else if starts sLineStart ''try'' then Some (Some (form_mark ''try'' sLineStart))
          else if starts sLineStart ''except'' then Some (Some (form_mark ''except'' sLineStart))
          else if equ sLineStart ''return'' then Some (Some ([Set_attr ''return'' []], None, Some []))
          else if starts sLineStart ''return '' then form_return sLineStart
          else if equ sLineStart ''raise'' then Some (Some ([Set_attr ''raise'' []], None, Some ''RuntimeError''))
          else if starts sLineStart ''raise '' then form_raise sLineStart
          else if starts sLineStart ''assert '' then form_assert sLineStart
          else if starts sLineStart ''global '' then do {
            sGlobalList \<leftarrow> Cursor_getCleanStmt (drop 7 sLineStart);
            Some (Some ([Set_attr ''global'' sGlobalList], None, Some []))
          }
          else if starts sLineStart ''del '' \<or> starts sLineStart ''del('' then form_del sLineStart
          else if starts sLineStart ''def '' then form_def sLineStart
          else if starts sLineStart ''class '' then form_class sLineStart
          else Some (Some ([], None, Some sLineStart))))"

section \<open>The tree of a line\<close>

text \<open>The parser without its text buffers and the function that turns a tree into text.\<close>

record Parser =
  block_stack :: "string list"
  block_deepth :: int
  blockDeepthOrigin :: int
  isGenBytecode :: bool
  bytecode_frame_p :: "ByteCodeFrame option"

definition VAL_NEED_INIT :: int where "VAL_NEED_INIT = -1"

definition parser_create :: Parser where
  "parser_create = \<lparr> block_stack = [], block_deepth = 0, blockDeepthOrigin = VAL_NEED_INIT,
     isGenBytecode = False, bytecode_frame_p = None \<rparr>"

text \<open>Taking keywords off the stack; a further one goes through a null pointer.\<close>

definition pop_blocks :: "nat \<Rightarrow> string list \<Rightarrow> (string list \<times> string list) option" where
  "pop_blocks n st = (if length st < n then None else Some (take n st, drop n st))"

definition finish_line :: "AST \<Rightarrow> string option \<Rightarrow> AST option option" where
  "finish_line oAst sStmt = (case sStmt of
     None \<Rightarrow> Some None
   | Some s \<Rightarrow> do { c \<leftarrow> Cursor_getCleanStmt s; AST_parseStmt oAst c })"

definition parser_line2Ast :: "Parser \<Rightarrow> string \<Rightarrow> (Parser \<times> TopAST option) option" where
  "parser_line2Ast self sLine =
     (if starts sLine ''@docstring'' then
        (if length sLine < 11 then None
         else do {
           t \<leftarrow> finish_line (AST_setNodeAttr AST_create ''docstring'' (drop 11 sLine)) (Some []);
           Some (self, map_option (\<lambda>t. \<lparr> ta_tree = t, ta_blockDeepth = 0, ta_exitBlock = None \<rparr>) t)
         })
      else
        (let d0 = i8 (Parser_getPyLineBlockDeepth sLine);
             self1 = (if blockDeepthOrigin self = VAL_NEED_INIT then self\<lparr>blockDeepthOrigin := d0\<rparr> else self) in
         if d0 = -1 then Some (self1, None)
         else
           (let iBlockDeepthNow = i8 (d0 + block_deepth self1);
                top = length (block_stack self1);
                iBlockDeepthLast = i8 (int top + block_deepth self1 + blockDeepthOrigin self1);
                n = (if top = 0 then 0 else nat (iBlockDeepthLast - iBlockDeepthNow));
                start = (iBlockDeepthNow - block_deepth self1) * 4 in do {
              (closed, st) \<leftarrow> pop_blocks n (block_stack self1);
              let exits = (if n = 0 then None else Some closed);
              let self2 = self1\<lparr>block_stack := st\<rparr>;
              if start < 0 \<or> int (length sLine) < start then None
              else do {
                f \<leftarrow> line_form (drop (nat start) sLine);
                (case f of
                   None \<Rightarrow> Some (self2, None)
                 | Some (calls, blk, sStmt) \<Rightarrow> do {
                     let self3 = (case blk of None \<Rightarrow> self2 | Some b \<Rightarrow> self2\<lparr>block_stack := b # st\<rparr>);
                     t \<leftarrow> AST_calls AST_create calls;
                     oAst \<leftarrow> t;
                     r \<leftarrow> finish_line oAst sStmt;
                     Some (self3, map_option (\<lambda>t. \<lparr> ta_tree = t, ta_blockDeepth = nat iBlockDeepthNow, ta_exitBlock = exits \<rparr>) r)
                   })
              }
            })))"

definition line2Ast_withBlockDeepth :: "string \<Rightarrow> int \<Rightarrow> TopAST option option" where
  "line2Ast_withBlockDeepth sLine iBlockDeepth =
     map_option snd (parser_line2Ast (parser_create\<lparr>block_deepth := iBlockDeepth\<rparr>) sLine)"

definition line2Ast :: "string \<Rightarrow> TopAST option option" where
  "line2Ast sLine = line2Ast_withBlockDeepth sLine 0"

section \<open>Rewriting lines\<close>

definition Suger_import_as :: "string \<Rightarrow> string option" where
  "Suger_import_as sLine =
     (if \<not> starts sLine ''import '' then strsCopy sLine
      else do {
        b \<leftarrow> Cursor_isContain (drop 7 sLine) TOKEN_operator '' as '';
        if \<not> b then strsCopy sLine
        else do {
          (sOrigin, sAlias) \<leftarrow> Cursor_popToken (drop 7 sLine) '' as '';
          strsCopy (strsFormat_line (''import '' @ sOrigin @ [CH_NL] @ sAlias @ '' = '' @ sOrigin))
        }
      })"

partial_function (option) class_loop :: "string \<Rightarrow> string \<Rightarrow> string \<Rightarrow> string option" where
  "class_loop sModule sClass sClassAfter = do {
     (sClassItem, rest) \<leftarrow> Cursor_popToken sClass '','';
     if sClassItem = [] then Some sClassAfter
     else do {
       a \<leftarrow> strsAppend sClassAfter (strsFormat_line (sModule @ ''.'' @ sClassItem @ '',''));
       class_loop sModule rest a
     }
   }"

declare class_loop.simps [code]

text \<open>The last comma is cut off; without a class the text is the empty literal and the write is in front of it.\<close>

definition Suger_from_import_as :: "string \<Rightarrow> string option" where
  "Suger_from_import_as sLine =
     (if \<not> starts sLine ''from '' then Some sLine
      else do {
        (sModule, sStmt) \<leftarrow> Cursor_popToken (drop 5 sLine) '' import '';
        b \<leftarrow> Cursor_isContain sStmt TOKEN_operator '' as '';
        (sClass, sAlias) \<leftarrow> (if \<not> b then Some (sStmt, sStmt) else Cursor_popToken sStmt '' as '');
        if equ sModule ''PikaObj'' then strsCopy []
        else if equ sClass ''*'' then strsCopy (strsFormat_line (''@inh '' @ sModule @ [CH_NL]))
        else do {
          sClassAfter \<leftarrow> class_loop sModule sClass [];
          if sClassAfter = [] then None
          else let c = butlast sClassAfter in
            strsCopy (''import '' @ c @ [CH_NL] @ sAlias @ '' = '' @ c)
        }
      })"

text \<open>One line for each module of an import line.\<close>

function imports_loop :: "string \<Rightarrow> string \<Rightarrow> string \<times> string" where
  "imports_loop sSingleLine aLineBuff =
     (let (t, rest) = strPopFirstToken sSingleLine CHR '',''; single_import = c_str t in
      if single_import = [] then (drop rest sSingleLine, aLineBuff)
      else imports_loop (drop rest sSingleLine) (aLineBuff @ ''import '' @ single_import @ [CH_NL]))"
  by pat_completeness auto

termination
proof (relation "measure (\<lambda>(s, a). length s)", goal_cases)
  case (2 s a x t rest y)
  then show ?case by (cases s) (auto simp: strPopFirstToken_def split: option.splits)
qed simp

function import_loop :: "string \<Rightarrow> string \<Rightarrow> string" where
  "import_loop sLine aLineBuff =
     (let (t, rest) = strPopFirstToken sLine CH_NL; sSingleLine = c_str t in
      if sSingleLine = [] then aLineBuff
      else let (l, a) = (if starts sSingleLine ''import '' \<and> strIsContain sSingleLine CHR '',''
                         then let (l, a) = imports_loop (drop 7 sSingleLine) aLineBuff in (l, butlast a)
                         else (sSingleLine, aLineBuff))
           in import_loop (drop rest sLine) (a @ l @ [CH_NL]))"
  by pat_completeness auto

termination
proof (relation "measure (\<lambda>(s, a). length s)", goal_cases)
  case (2 s a x t rest y)
  then show ?case by (cases s) (auto simp: strPopFirstToken_def split: option.splits)
qed simp

declare imports_loop.simps [simp del] import_loop.simps [simp del]

definition Suger_import :: "string \<Rightarrow> string option" where
  "Suger_import sLine = do {
     l1 \<leftarrow> Suger_import_as sLine;
     l2 \<leftarrow> Suger_from_import_as l1;
     strsCopy (butlast (import_loop l2 []))
   }"

partial_function (option) semicolon_loop :: "string \<Rightarrow> string \<Rightarrow> string option" where
  "semicolon_loop sStmt sStmtAfter = do {
     (sStmtItem, rest) \<leftarrow> Cursor_popToken sStmt '';'';
     if sStmtItem = [] then Some sStmtAfter
     else do {
       i \<leftarrow> strsAppend sStmtItem [CH_NL];
       a \<leftarrow> strsAppend sStmtAfter i;
       semicolon_loop rest a
     }
   }"

declare semicolon_loop.simps [code]

definition Suger_semicolon :: "string \<Rightarrow> string option" where
  "Suger_semicolon sLine = do {
     n \<leftarrow> Cursor_count sLine TOKEN_devider '';'';
     if n < 1 then Some sLine
     else do {
       sStmtAfter \<leftarrow> semicolon_loop sLine [];
       if sStmtAfter = [] then None else strsCopy (butlast sStmtAfter)
     }
   }"

definition assign_body :: "Cursor \<Rightarrow> bool \<times> string \<times> string \<Rightarrow> ((bool \<times> string \<times> string) \<times> bool) option" where
  "assign_body cs v = (case v of (bAssign, aStmt, aOutList) \<Rightarrow>
     if bracket_deepth cs = 0 \<and> equ (p1 cs) ''='' then Some ((True, aStmt, aOutList), False)
     else if bAssign then do { a \<leftarrow> strsAppend aStmt (p1 cs); Some ((bAssign, a, aOutList), False) }
     else do { a \<leftarrow> strsAppend aOutList (p1 cs); Some ((bAssign, aStmt, a), False) })"

partial_function (option) assign_loop :: "string \<Rightarrow> nat \<Rightarrow> string \<Rightarrow> string option" where
  "assign_loop sOutList iOutNum aLineOut = do {
     (item, rest) \<leftarrow> Cursor_popToken sOutList '','';
     if item = [] then Some aLineOut
     else do {
       a \<leftarrow> strsAppend aLineOut (strsFormat_line (item @ '' = $tmp['' @ decimal iOutNum @ '']'' @ [CH_NL]));
       assign_loop rest (iOutNum + 1) a
     }
   }"

declare assign_loop.simps [code]

definition Suger_multiAssign :: "string \<Rightarrow> string option" where
  "Suger_multiAssign sLine =
     (if \<not> strIsContain sLine CHR ''='' \<or> \<not> strIsContain sLine CHR '','' then Some sLine
      else do {
        (bAssign, aStmt, aOutList) \<leftarrow> Cursor_forEach (Some sLine) assign_body (False, [], []);
        if \<not> bAssign then Some sLine
        else do {
          multi \<leftarrow> check_is_multi_assign aOutList;
          if \<not> multi then Some sLine
          else do {
            l1 \<leftarrow> assign_loop aOutList 0 (strsFormat_line (''$tmp= '' @ aStmt @ [CH_NL]));
            l2 \<leftarrow> strsAppend l1 ''del $tmp'';
            l3 \<leftarrow> arg_strAddIndentMulti l2 (strGetIndent sLine);
            strsCopy l3
          }
        }
      })"

definition Suger_processor_list :: "(string \<Rightarrow> string option) list" where
  "Suger_processor_list = [Suger_import, Suger_semicolon, Suger_multiAssign]"

primrec processor_loop :: "(string \<Rightarrow> string option) list \<Rightarrow> string \<Rightarrow> string option" where
  "processor_loop [] sLine = Some sLine"
| "processor_loop (f # fs) sLine = do {
     l \<leftarrow> f sLine;
     if 1 < strCountSign l CH_NL then Some l else processor_loop fs l
   }"

definition Parser_sugerProcessOnce :: "string \<Rightarrow> string option" where
  "Parser_sugerProcessOnce sLine = processor_loop Suger_processor_list sLine"

primrec pop_lines :: "nat \<Rightarrow> string \<Rightarrow> string list option" where
  "pop_lines 0 sLine = Some []"
| "pop_lines (Suc n) sLine = do {
     (l, rest) \<leftarrow> strsPopToken sLine CH_NL;
     ls \<leftarrow> pop_lines n rest;
     Some (l # ls)
   }"

fun join_lines :: "string list \<Rightarrow> string" where
  "join_lines [] = []"
| "join_lines [l] = l"
| "join_lines (l # ls) = l @ CH_NL # join_lines ls"

text \<open>
  The lines that a line is rewritten to are rewritten again. For one of them a wrong indentation
  gives a null pointer that is appended.
\<close>

partial_function (option) suger_lines :: "string list \<Rightarrow> string list option" where
  "suger_lines lines = (case lines of
     [] \<Rightarrow> Some []
   | sLine # ls \<Rightarrow> (let block_deepth = Parser_getPyLineBlockDeepth sLine in
       if block_deepth < 0 then None
       else do {
         l1 \<leftarrow> Parser_sugerProcessOnce (drop (nat block_deepth * PIKA_BLOCK_SPACE) sLine);
         r \<leftarrow> (if equ sLine l1 then Some l1
               else do {
                 singles \<leftarrow> pop_lines (nat (strCountSign l1 CH_NL + 1)) l1;
                 rs \<leftarrow> suger_lines singles;
                 aLine \<leftarrow> strsCopy (join_lines rs);
                 strsAddIndentation aLine (block_deepth * int PIKA_BLOCK_SPACE)
               });
         rs \<leftarrow> suger_lines ls;
         Some (r # rs)
       }))"

declare suger_lines.simps [code]

definition Parser_sugerProcess :: "string \<Rightarrow> string option option" where
  "Parser_sugerProcess sLine =
     (if Parser_getPyLineBlockDeepth sLine < 0 then Some None
      else do { rs \<leftarrow> suger_lines [sLine]; Some (Some (hd rs)) })"

definition Parser_linePreProcess :: "string \<Rightarrow> string option option" where
  "Parser_linePreProcess sLine = do {
     let l0 = Parser_removeComment sLine;
     e \<leftarrow> Lexer_isError l0;
     if e \<noteq> 0 then Some None
     else do { l1 \<leftarrow> strsDeleteChar l0 CH_CR; Parser_sugerProcess l1 }
   }"

section \<open>The code of a line\<close>

text \<open>What the parser makes of the tree of a line, null for a missing tree.\<close>

type_synonym ast2Target = "TopAST option \<Rightarrow> string option option"

primrec singles_loop :: "nat \<Rightarrow> ast2Target \<Rightarrow> Parser \<Rightarrow> string \<Rightarrow> string option \<Rightarrow> (Parser \<times> string option) option" where
  "singles_loop 0 fn_ast2Target self sLine sOut = Some (self, sOut)"
| "singles_loop (Suc n) fn_ast2Target self sLine sOut = do {
     (sSingleLine, rest) \<leftarrow> strsPopToken sLine CH_NL;
     (self1, oAst) \<leftarrow> parser_line2Ast self sSingleLine;
     if oAst = None then Some (self1, sOut)
     else do {
       sBackendCode \<leftarrow> fn_ast2Target oAst;
       out \<leftarrow> (case sOut of
                 None \<Rightarrow> Some sBackendCode
               | Some o1 \<Rightarrow> do { c \<leftarrow> sBackendCode; a \<leftarrow> strsAppend o1 c; Some (Some a) });
       singles_loop n fn_ast2Target self1 rest out
     }
   }"

definition parser_line2Target :: "ast2Target \<Rightarrow> Parser \<Rightarrow> string \<Rightarrow> (Parser \<times> string option) option" where
  "parser_line2Target fn_ast2Target self sLine =
     (if starts sLine ''@docstring'' then do {
        (self1, oAst) \<leftarrow> parser_line2Ast self sLine;
        sBackendCode \<leftarrow> fn_ast2Target oAst;
        Some (self1, if oAst = None then Some [] else sBackendCode)
      }
      else do {
        p \<leftarrow> Parser_linePreProcess sLine;
        (case p of
           None \<Rightarrow> Some (self, None)
         | Some l \<Rightarrow>
             if equ ''@annotation'' l then Some (self, Some [])
             else singles_loop (nat (strCountSign l CH_NL + 1) mod 256) fn_ast2Target self l None)
      })"

section \<open>The lines of a program\<close>

text \<open>
  The scan of a line for documentation quotes: whether there are any, the start and the end of the
  documentation text, and whether it also ends in the line. A text that ends before it starts
  writes in front of the buffer.
\<close>

function docstring_loop :: "string \<Rightarrow> bool \<Rightarrow> nat \<Rightarrow> bool \<Rightarrow> nat \<Rightarrow> nat option \<Rightarrow> bool \<times> nat \<times> nat option \<times> bool" where
  "docstring_loop line bIsInDocstring i bIsDocstring iStart iEnd =
     (if \<not> i + 2 < strGetSize line then (bIsDocstring, iStart, iEnd, False)
      else if line ! i \<noteq> CH_SQ \<and> line ! i \<noteq> CH_DQ then
        (if \<not> bIsDocstring \<and> \<not> bIsInDocstring \<and> \<not> charIsBlank (line ! i) then (bIsDocstring, iStart, iEnd, False)
         else docstring_loop line bIsInDocstring (i + 1) bIsDocstring iStart iEnd)
      else if \<not> (line ! (i + 1) = line ! i \<and> line ! (i + 2) = line ! i) then
        docstring_loop line bIsInDocstring (i + 1) bIsDocstring iStart iEnd
      else if bIsDocstring then (bIsDocstring, iStart, Some i, True)
      else if bIsInDocstring then docstring_loop line bIsInDocstring (i + 1) True iStart (Some i)
      else docstring_loop line bIsInDocstring (i + 1) True (i + 3) iEnd)"
  by pat_completeness auto

termination
  by (relation "measure (\<lambda>(line, b, i, c, s, e). length line - i)") (auto simp: strGetSize_def)

declare docstring_loop.simps [simp del]

text \<open>The documentation text of the line, if it has one, and whether it is complete.\<close>

definition Parser_checkIsDocstring :: "string \<Rightarrow> bool \<Rightarrow> (string \<times> bool) option option" where
  "Parser_checkIsDocstring line bIsInDocstring =
     (let (bIsDocstring, iStart, iEnd, bSingle) = docstring_loop line bIsInDocstring 0 False 0 None in
      if \<not> bIsDocstring then Some None
      else do {
        sDocstring \<leftarrow> strsCopy (drop iStart line);
        (case iEnd of
           None \<Rightarrow> Some (Some (sDocstring, bSingle))
         | Some e \<Rightarrow> if e < iStart then None else Some (Some (take (e - iStart) sDocstring, bSingle)))
      })"

record Lines =
  parser :: Parser
  ins_set :: VMInsSet
  uLinesOffset :: nat
  uLinesIndex :: nat
  bIsInDocstring :: bool
  bIsLineConnection :: bool
  bIsLineConnectionForBracket :: bool
  aLineConnection :: string
  aDocstring :: string
  aBackendCode :: string

text \<open>What is done with a line: nothing yet, its code, or an error.\<close>

datatype line_action = Next_line | Parse_line string | Bracket_error

definition connect_line :: "Lines \<Rightarrow> string \<Rightarrow> (Lines \<times> string) option" where
  "connect_line st sLine0 =
     (if bIsLineConnection st then do {
        let l = (if bIsLineConnectionForBracket st then
                   (let r = Parser_removeComment sLine0 in if equ r ''@annotation'' then [] else r)
                 else sLine0);
        sLine \<leftarrow> strsCopy (aLineConnection st @ l);
        Some (st\<lparr>aLineConnection := [], bIsLineConnection := False, bIsLineConnectionForBracket := False\<rparr>, sLine)
      } else Some (st, sLine0))"

definition doc_line :: "Lines \<Rightarrow> string \<Rightarrow> bool \<Rightarrow> (Lines \<times> line_action) option" where
  "doc_line st sDocstring bSingle =
     (let doc = (if sDocstring \<noteq> [] then aDocstring st @ sDocstring @ [CH_NL] else aDocstring st);
          inside = (\<not> bIsInDocstring st \<and> \<not> bSingle) in
      if \<not> inside then do {
        l \<leftarrow> strsAppend (''@docstring'' @ [CH_NL]) doc;
        Some (st\<lparr>bIsInDocstring := inside, aDocstring := []\<rparr>, Parse_line l)
      } else Some (st\<lparr>bIsInDocstring := inside, aDocstring := doc\<rparr>, Next_line))"

definition bracket_end :: "string \<Rightarrow> int option" where
  "bracket_end sLine = Cursor_forEach (Some sLine) (\<lambda>cs d. Some (sint (bracket_deepth cs), False)) 0"

definition line_step :: "Lines \<Rightarrow> nat \<Rightarrow> string \<Rightarrow> (Lines \<times> line_action) option" where
  "line_step st0 uLinesNum sLineOrigin = do {
     l0 \<leftarrow> strsCopy sLineOrigin;
     (st, sLine) \<leftarrow> connect_line st0 l0;
     if sLine \<noteq> [] \<and> last sLine = CH_BS then
       Some (st\<lparr>bIsLineConnection := True, aLineConnection := aLineConnection st @ butlast sLine\<rparr>, Next_line)
     else if Parser_isVoidLine sLine then Some (st, Next_line)
     else do {
       doc \<leftarrow> Parser_checkIsDocstring sLine (bIsInDocstring st);
       (case doc of
          Some (sDocstring, bSingle) \<Rightarrow> doc_line st sDocstring bSingle
        | None \<Rightarrow>
            if bIsInDocstring st then Some (st\<lparr>aDocstring := aDocstring st @ sLine @ [CH_NL]\<rparr>, Next_line)
            else do {
              r1 \<leftarrow> strsReplace sLine [CH_TAB] (Some ''    '');
              l1 \<leftarrow> r1;
              r2 \<leftarrow> strsReplace l1 [CH_CR] (Some []);
              l2 \<leftarrow> r2;
              d \<leftarrow> bracket_end l2;
              if uLinesIndex st < uLinesNum \<and> 0 < d then
                Some (st\<lparr>bIsLineConnection := True, bIsLineConnectionForBracket := True,
                  aLineConnection := aLineConnection st @ l2\<rparr>, Next_line)
              else if d \<noteq> 0 then Some (st, Bracket_error)
              else Some (st, Parse_line l2)
            })
     }
   }"

text \<open>The code of a line is assembled or collected; a line that is not accepted ends the program.\<close>

definition store_code :: "Lines \<Rightarrow> string \<Rightarrow> Lines option" where
  "store_code st sBackendCode =
     (if isGenBytecode (parser st) then do {
        bf \<leftarrow> bytecode_frame_p (parser st);
        (g, bf') \<leftarrow> byteCodeFrame_appendFromAsm (ins_set st) bf sBackendCode;
        Some (st\<lparr>ins_set := g, parser := (parser st)\<lparr>bytecode_frame_p := Some bf'\<rparr>\<rparr>)
      } else do {
        a \<leftarrow> strsAppend (aBackendCode st) sBackendCode;
        Some (st\<lparr>aBackendCode := a\<rparr>)
      })"

text \<open>The state after the line and whether to go on.\<close>

definition parse_line :: "ast2Target \<Rightarrow> Lines \<Rightarrow> string \<Rightarrow> (Lines \<times> bool) option" where
  "parse_line fn_ast2Target st sLine =
     (if equ sLine ''#!label'' then do {
        bf \<leftarrow> bytecode_frame_p (parser st);
        Some (st\<lparr>parser := (parser st)\<lparr>bytecode_frame_p := Some (bf\<lparr>label_pc := int (ia_size (instruct_array bf))\<rparr>)\<rparr>\<rparr>, True)
      }
      else do {
        (p, code) \<leftarrow> parser_line2Target fn_ast2Target (parser st) sLine;
        let st1 = st\<lparr>parser := p\<rparr>;
        (case code of
           None \<Rightarrow> Some (st1, False)
         | Some c \<Rightarrow> do { st2 \<leftarrow> store_code st1 c; Some (st2, True) })
      })"

definition next_offset :: "Lines \<Rightarrow> nat \<Rightarrow> string \<Rightarrow> Lines" where
  "next_offset st uLinesNum sLineOrigin =
     (if uLinesIndex st < uLinesNum then st\<lparr>uLinesOffset := uLinesOffset st + strGetSize sLineOrigin + 1\<rparr> else st)"

partial_function (option) lines_loop2 :: "ast2Target \<Rightarrow> nat \<Rightarrow> string \<Rightarrow> Lines \<Rightarrow> (Lines \<times> bool) option" where
  "lines_loop2 fn_ast2Target uLinesNum sPyLines st0 =
     (let st = st0\<lparr>uLinesIndex := (uLinesIndex st0 + 1) mod 65536\<rparr> in
      if uLinesNum + 1 \<le> uLinesIndex st then parse_line fn_ast2Target st []
      else do {
        sLineOrigin \<leftarrow> strsGetFirstToken (drop (uLinesOffset st) sPyLines) CH_NL;
        (st1, what) \<leftarrow> line_step st uLinesNum sLineOrigin;
        (st2, go_on) \<leftarrow> (case what of
            Next_line \<Rightarrow> Some (st1, True)
          | Bracket_error \<Rightarrow> Some (st1, False)
          | Parse_line l \<Rightarrow> parse_line fn_ast2Target st1 l);
        if \<not> go_on then Some (st2, False)
        else lines_loop2 fn_ast2Target uLinesNum sPyLines (next_offset st2 uLinesNum sLineOrigin)
      })"

declare lines_loop2.simps [code]

definition Lines_init :: "Parser \<Rightarrow> VMInsSet \<Rightarrow> Lines" where
  "Lines_init self g = \<lparr> parser = self, ins_set = g, uLinesOffset = 0, uLinesIndex = 0, bIsInDocstring = False,
     bIsLineConnection = False, bIsLineConnectionForBracket = False, aLineConnection = [], aDocstring = [], aBackendCode = [] \<rparr>"

text \<open>The last state and whether every line was accepted; the collected code is \<open>aBackendCode\<close>.\<close>

definition parser_lines2Target :: "ast2Target \<Rightarrow> VMInsSet \<Rightarrow> Parser \<Rightarrow> string \<Rightarrow> (Lines \<times> bool) option" where
  "parser_lines2Target fn_ast2Target g self sPyLines =
     lines_loop2 fn_ast2Target (nat (strCountSign sPyLines CH_NL + 1) mod 65536) sPyLines (Lines_init self g)"

text \<open>
  The code generator compiles further source text inside a line. The number bounds how deep such
  texts are nested in each other.
\<close>

definition lines_asm :: "ast2Target \<Rightarrow> lines_code" where
  "lines_asm fn_ast2Target sPyLines = do {
     (st, res) \<leftarrow> parser_lines2Target fn_ast2Target g_PikaVMInsSet parser_create sPyLines;
     if res then strsCopy (aBackendCode st) else None
   }"

definition line_asm :: "ast2Target \<Rightarrow> line_code" where
  "line_asm fn_ast2Target sLine bd = do {
     oAst \<leftarrow> line2Ast_withBlockDeepth sLine (int bd);
     c \<leftarrow> fn_ast2Target oAst;
     c
   }"

primrec parser_ast2Asm :: "nat \<Rightarrow> ast2Target" where
  "parser_ast2Asm 0 = (\<lambda>_. None)"
| "parser_ast2Asm (Suc n) = AST_genAsm_top (lines_asm (parser_ast2Asm n)) (line_asm (parser_ast2Asm n))"

definition pika_lines2Asm :: "nat \<Rightarrow> string \<Rightarrow> string option option" where
  "pika_lines2Asm n multi_line = do {
     (st, res) \<leftarrow> parser_lines2Target (parser_ast2Asm n) g_PikaVMInsSet parser_create multi_line;
     if res then map_option Some (strsCopy (aBackendCode st)) else Some None
   }"

definition pika_lines2Bytes :: "nat \<Rightarrow> VMInsSet \<Rightarrow> ByteCodeFrame \<Rightarrow> string \<Rightarrow> (VMInsSet \<times> ByteCodeFrame \<times> PIKA_RES) option" where
  "pika_lines2Bytes n g bf py_lines = do {
     (st, res) \<leftarrow> parser_lines2Target (parser_ast2Asm n) g (parser_create\<lparr>isGenBytecode := True, bytecode_frame_p := Some bf\<rparr>) py_lines;
     bf' \<leftarrow> bytecode_frame_p (parser st);
     Some (ins_set st, bf', if res then PIKA_RES_OK else PIKA_RES_ERR_SYNTAX_ERROR)
   }"

end
