(* ===== verification/Pika_LineText.thy ===== *)
theory Pika_LineText
  imports Pika_Expr Pika_Lines
begin

text \<open>
  What the line parser makes of a line that is a statement or the condition of an \<open>if\<close> or \<open>while\<close> block: its
  tokens, that it is not rewritten, its form and its tree.
\<close>

section \<open>The tokens of a line\<close>

text \<open>The lexer behind leading blanks and a keyword.\<close>

lemma word_blank: "Lexer_word cn (CHR '' '' # r) = None"
  by (simp add: Lexer_word_def Let_def str_at_def)

lemma loop_blank:
  assumes "iSymbolStartIndex st = None" "bInString st = 0" "r \<noteq> []"
  shows "\<exists>st'. Lexer_loop (a @ CHR '' '' # r) (length a) st = Lexer_loop (a @ CHR '' '' # r) (Suc (length a)) st' \<and>
    aTokenStream st' = aTokenStream st \<and> iSymbolStartIndex st' = None \<and> bInString st' = 0"
proof -
  let ?s = "a @ CHR '' '' # r"
  let ?st = "(Lexer_mark ?s (length a) st)\<lparr>iSymbolStartIndex := None\<rparr>"
  have "Lexer_step ?s (length a) st = Some (?st, Some (Suc (length a)))"
    using assms by (simp add: Lexer_step_def Lexer_body_def Let_def word_blank Lexer_mark_def Lexer_space_def nth_append str_at_def
        strGetSize_def dividers_def op_chars_def)
  then show ?thesis
    using assms(1,2) by (intro exI [of _ ?st]) (subst Lexer_loop.simps, simp add: strGetSize_def Lexer_mark_def)
qed

lemma loop_blanks:
  assumes "iSymbolStartIndex st = None" "bInString st = 0" "r \<noteq> []"
  shows "\<exists>st'. Lexer_loop (a @ replicate k CHR '' '' @ r) (length a) st = Lexer_loop (a @ replicate k CHR '' '' @ r) (length a + k) st' \<and>
    aTokenStream st' = aTokenStream st \<and> iSymbolStartIndex st' = None \<and> bInString st' = 0"
  using assms(1,2)
proof (induction k arbitrary: a st)
  case (Suc k)
  obtain st1 where 1: "Lexer_loop (a @ CHR '' '' # replicate k CHR '' '' @ r) (length a) st =
      Lexer_loop (a @ CHR '' '' # replicate k CHR '' '' @ r) (Suc (length a)) st1"
    "aTokenStream st1 = aTokenStream st" "iSymbolStartIndex st1 = None" "bInString st1 = 0"
    using loop_blank [OF Suc.prems, of "replicate k CHR '' '' @ r" a] assms(3) by auto
  then show ?case using Suc.IH [of st1 "a @ '' ''"] by fastforce
qed auto

text \<open>A word that ends at a blank.\<close>

lemma step_word_char:
  assumes "is_word_char (str_at s i)" "Lexer_word (if 1 \<le> i then str_at s (i - 1) else NUL) (drop i s) = None"
    and "bInString st = 0" "Suc i < length s"
  shows "Lexer_step s i st = Some (Lexer_mark s i st, Some (Suc i))"
proof -
  have "bInString (Lexer_mark s i st) = 0" using assms(3) by (simp add: Lexer_mark_def)
  then show ?thesis
    using word_chars [OF assms(1)] assms(2,4) by (simp add: Lexer_step_def Lexer_body_def Let_def Lexer_space_def strGetSize_def)
qed

lemma loop_word:
  assumes "\<forall>c \<in> set (u @ v). is_word_char c" "u @ v \<noteq> []" "\<And>cn. Lexer_word cn ((u @ v) @ CHR '' '' # r) = None"
    and "aTokenStream st = stream ts" "\<forall>t \<in> set ts. tok_ok t" "bInString st = 0"
    and "iSymbolStartIndex st = (if u = [] then None else Some (length a))" "r \<noteq> []"
  shows "\<exists>st'. Lexer_loop (a @ (u @ v) @ CHR '' '' # r) (length a + length u) st =
      Lexer_loop (a @ (u @ v) @ CHR '' '' # r) (length a + length (u @ v) + 1) st' \<and>
    aTokenStream st' = stream (ts @ [wtok (u @ v)]) \<and> iSymbolStartIndex st' = None \<and> bInString st' = 0"
  using assms
proof (induction v arbitrary: u st)
  case Nil
  let ?s = "a @ u @ CHR '' '' # r" and ?i = "length a + length u"
  have u: "u \<noteq> []" "cstring u" "SEP \<notin> set u" using Nil.prems(1,2) word_chars by (fastforce simp: cstring_def)+
  have m: "Lexer_mark ?s ?i st = st" using Nil.prems(7) u(1) by (simp add: Lexer_mark_def)
  have "Lexer_setSymbel ?s ?i st = Some (st\<lparr>aTokenStream := stream (ts @ [wtok u]), iSymbolStartIndex := None\<rparr>)"
    using Nil.prems u by (intro setSymbel_word [of _ _ _ "CHR '' '' # r"]) simp_all
  then have "Lexer_step ?s ?i st = Some (st\<lparr>aTokenStream := stream (ts @ [wtok u]), iSymbolStartIndex := None\<rparr>, Some (Suc ?i))"
    using Nil.prems(6,7,8) u(1) by (simp add: Lexer_step_def m Lexer_body_def Let_def word_blank Lexer_space_def nth_append str_at_def
        strGetSize_def dividers_def op_chars_def)
  then show ?case using Nil.prems(6) by (intro exI, subst Lexer_loop.simps) (auto simp: strGetSize_def)
next
  case (Cons c v)
  let ?s = "a @ (u @ c # v) @ CHR '' '' # r" and ?i = "length a + length u"
  have c: "is_word_char c" using Cons.prems(1) by simp
  have c0: "str_at ?s ?i = c" "drop ?i ?s = (c # v) @ CHR '' '' # r" by (simp_all add: str_at_def nth_append)
  have w: "Lexer_word cn ((c # v) @ CHR '' '' # r) = None" if "u = [] \<or> cn = last u" for cn
  proof (cases "u = []")
    case True
    then show ?thesis using Cons.prems(3) by simp
  next
    case False
    then show ?thesis using that Cons.prems(1) last_in_set [of u] by (simp add: Lexer_word_def)
  qed
  have p: "u = [] \<or> (1 \<le> ?i \<and> str_at ?s (?i - 1) = last u)"
  proof (cases "u = []")
    case False
    then obtain u0 x where "u = u0 @ [x]" by (metis rev_exhaust)
    then show ?thesis by (simp add: str_at_def nth_append)
  qed simp
  have "Lexer_word (if 1 \<le> ?i then str_at ?s (?i - 1) else NUL) (drop ?i ?s) = None" unfolding c0(2)
    by (rule w) (use p in auto)
  then have st: "Lexer_step ?s ?i st = Some (Lexer_mark ?s ?i st, Some (Suc ?i))"
    using c Cons.prems(6) c0(1) by (intro step_word_char) auto
  then have "Lexer_loop ?s ?i st = Lexer_loop ?s (Suc ?i) (Lexer_mark ?s ?i st)"
    by (subst Lexer_loop.simps) (simp add: strGetSize_def)
  moreover have "\<exists>st'. Lexer_loop (a @ ((u @ [c]) @ v) @ CHR '' '' # r) (length a + length (u @ [c])) (Lexer_mark ?s ?i st) =
      Lexer_loop (a @ ((u @ [c]) @ v) @ CHR '' '' # r) (length a + length ((u @ [c]) @ v) + 1) st' \<and>
    aTokenStream st' = stream (ts @ [wtok ((u @ [c]) @ v)]) \<and> iSymbolStartIndex st' = None \<and> bInString st' = 0"
    by (rule Cons.IH) (use Cons.prems in \<open>auto simp: Lexer_mark_def\<close>)
  ultimately show ?case by simp
qed

lemma loop_if:
  assumes "iSymbolStartIndex st = None" "bInString st = 0" "aTokenStream st = stream ts" "\<forall>t \<in> set ts. tok_ok t"
    and "a = [] \<or> last a = CHR '' ''"
  shows "\<exists>st'. Lexer_loop (a @ ''if '' @ r) (length a) st = Lexer_loop (a @ ''if '' @ r) (length a + 3) st' \<and>
    aTokenStream st' = stream (ts @ [(TOKEN_keyword, '' if '')]) \<and> iSymbolStartIndex st' = None \<and> bInString st' = 0"
proof -
  let ?s = "a @ ''if '' @ r" and ?i = "length a"
  let ?cn = "if 1 \<le> ?i then str_at ?s (?i - 1) else NUL"
  let ?st = "(Lexer_mark ?s ?i st)\<lparr>aTokenStream := stream (ts @ [(TOKEN_keyword, '' if '')]), iSymbolStartIndex := None\<rparr>"
  have c0: "str_at ?s ?i = CHR ''i''" "drop ?i ?s = ''if '' @ r" by (simp_all add: str_at_def nth_append)
  have "\<not> is_word_char ?cn"
  proof (cases "a = []")
    case False
    then obtain a0 where "a = a0 @ '' ''" using assms(5) by (metis append_butlast_last_id)
    then show ?thesis by (simp add: str_at_def nth_append is_word_char_def is_digit_def)
  qed (simp add: is_word_char_def is_digit_def)
  then have w: "Lexer_word ?cn (''if '' @ r) = Some (TOKEN_keyword, '' if '', 2)" by (simp add: Lexer_word_def str_at_def Let_def)
  have st: "aTokenStream (Lexer_mark ?s ?i st) = stream ts" "bInString (Lexer_mark ?s ?i st) = 0"
    "iSymbolStartIndex (Lexer_mark ?s ?i st) = Some ?i"
    using assms(1-3) by (simp_all add: Lexer_mark_def)
  have "tok_ok (TOKEN_keyword, '' if '')" by (simp add: tok_ok_def cstring_def)
  then have "Lexer_emit ?s ?i TOKEN_keyword '' if '' (Lexer_mark ?s ?i st) = Some ?st"
    using setToken_eq [OF assms(4)] st by (simp add: Lexer_emit_def Lexer_setSymbel_def)
  then have "Lexer_step ?s ?i st = Some (?st, Some (?i + 2 + 1))"
    using st(2) w unfolding Lexer_step_def Lexer_body_def Let_def c0 by (simp add: dividers_def op_chars_def)
  then have "Lexer_loop ?s ?i st = Lexer_loop ?s (?i + 3) ?st"
    by (subst Lexer_loop.simps) (simp add: strGetSize_def eval_nat_numeral)
  then show ?thesis using st(2) by (intro exI [of _ ?st]) simp
qed

section \<open>Lines\<close>

text \<open>The text of a line: a statement, or a condition with the keyword of the block it opens.\<close>

definition core_text :: "string option \<Rightarrow> stmt \<Rightarrow> string" where
  "core_text b s = (case b of None \<Rightarrow> print s | Some k \<Rightarrow> k @ '' '' @ print s @ '':'')"

definition colon :: tok where "colon = (TOKEN_devider, '':'')"

definition core_toks :: "string option \<Rightarrow> stmt \<Rightarrow> tok list" where
  "core_toks b s = (case b of None \<Rightarrow> ptoks s
     | Some k \<Rightarrow> (if k = ''if'' then (TOKEN_keyword, '' if '') else wtok k) # ptoks s @ [colon])"

abbreviation "keys \<equiv> {None, Some ''if'', Some ''while''}"

definition indented :: "nat \<Rightarrow> string \<Rightarrow> string" where
  "indented d t = replicate (4 * d) CHR '' '' @ t"

lemma cond_simple:
  assumes "stmt_wf n s"
  shows "simple (print s @ '':'')" "scan [] (print s @ '':'') = ptoks s @ [colon]"
proof -
  show "simple (print s @ '':'')" using print_simple [OF assms] by (simp add: simple_append dividers_def)
  have c: "\<not> is_word_char CHR '':''" by (simp add: is_word_char_def is_digit_def)
  then show "scan [] (print s @ '':'') = ptoks s @ [colon]" using scan_print [OF assms, of "'':''"] by (simp add: colon_def dividers_def)
qed

lemma lexes_from:
  assumes "Lexer_loop (a @ r) 0 lexer0 = Lexer_loop (a @ r) (length a) st" "simple r"
    and "aTokenStream st = stream ts" "\<forall>t \<in> set ts. tok_ok t" "bInString st = 0" "iSymbolStartIndex st = None"
    and "length (payloads ts) \<le> 2 * length a"
  shows "lexes (a @ r) (ts @ scan [] r)"
proof -
  have "\<exists>st'. Lexer_loop (a @ [] @ r) (length a + length ([] :: string)) st = Some st' \<and> aTokenStream st' = stream (ts @ scan [] r)"
    using assms by (intro loop_simple) simp_all
  moreover have ok: "\<forall>t \<in> set (ts @ scan [] r). tok_ok t" using scan_ok [OF assms(2), of "[]"] assms(4) by auto
  moreover have "cstring (stream (ts @ scan [] r))" using ok by (intro cstring_stream) simp
  moreover have "payloads (ts @ scan [] r) = payloads ts @ r" by (simp add: payloads_scan)
  ultimately show ?thesis using assms(1,7) by (auto simp: lexes_def Lexer_getTokenStream_def strsCopy_eq)
qed

lemma while_word: "Lexer_word cn (''while '' @ r) = None"
  by (simp add: Lexer_word_def Let_def str_at_def)

lemma lexes_line:
  assumes "stmt_wf n s" "b \<in> keys"
  shows "lexes (indented d (core_text b s)) (core_toks b s)"
proof -
  let ?a = "replicate (4 * d) CHR '' ''"
  have ne: "core_text b s \<noteq> []" using print_simple [OF assms(1)] by (auto simp: core_text_def split: option.splits)
  obtain st where st: "Lexer_loop (?a @ core_text b s) 0 lexer0 = Lexer_loop (?a @ core_text b s) (4 * d) st"
    "aTokenStream st = stream []" "iSymbolStartIndex st = None" "bInString st = 0"
    using loop_blanks [of lexer0 "core_text b s" "[]" "4 * d"] ne by (auto simp: lexer0_def)
  have a: "?a = [] \<or> last ?a = CHR '' ''" by (cases d) simp_all
  consider "b = None" | "b = Some ''if''" | "b = Some ''while''" using assms(2) by auto
  then show ?thesis
  proof cases
    case 1
    then have "lexes (?a @ print s) ([] @ scan [] (print s))"
      using st print_simple [OF assms(1)] by (intro lexes_from [of _ _ st]) (simp_all add: core_text_def)
    then show ?thesis using scan_print [OF assms(1), of "[]"] by (simp add: 1 core_text_def core_toks_def indented_def)
  next
    case 2
    then have t: "core_text b s = ''if '' @ print s @ '':''" by (simp add: core_text_def)
    obtain st1 where 1: "Lexer_loop (?a @ ''if '' @ print s @ '':'') (length ?a) st = Lexer_loop (?a @ ''if '' @ print s @ '':'') (length (?a @ ''if '')) st1"
      "aTokenStream st1 = stream [(TOKEN_keyword, '' if '')]" "iSymbolStartIndex st1 = None" "bInString st1 = 0"
      using loop_if [OF st(3,4,2) _ a, of "print s @ '':''"] by (auto simp: eval_nat_numeral)
    have "lexes ((?a @ ''if '') @ (print s @ '':'')) ([(TOKEN_keyword, '' if '')] @ scan [] (print s @ '':''))"
      using st 1 cond_simple [OF assms(1)] by (intro lexes_from [of _ _ st1]) (simp_all add: t tok_ok_def cstring_def)
    then show ?thesis using cond_simple [OF assms(1)] by (simp add: 2 core_text_def core_toks_def indented_def)
  next
    case 3
    then have t: "core_text b s = ''while'' @ CHR '' '' # print s @ '':''" by (simp add: core_text_def)
    have w: "\<forall>c \<in> set ''while''. is_word_char c" by (simp add: is_word_char_def is_digit_def)
    obtain st1 where 1: "Lexer_loop (?a @ ''while'' @ CHR '' '' # print s @ '':'') (length ?a) st =
        Lexer_loop (?a @ ''while'' @ CHR '' '' # print s @ '':'') (length (?a @ ''while '')) st1"
      "aTokenStream st1 = stream [wtok ''while'']" "iSymbolStartIndex st1 = None" "bInString st1 = 0"
      using loop_word [of "[]" "''while''" "print s @ '':''" st "[]" ?a] st w while_word [of _ "print s @ '':''"] by (auto simp: eval_nat_numeral)
    have "lexes ((?a @ ''while '') @ (print s @ '':'')) ([wtok ''while''] @ scan [] (print s @ '':''))"
      using st 1 cond_simple [OF assms(1)] w
      by (intro lexes_from [of _ _ st1]) (simp_all add: t wtok_def symbol_type_def tok_ok_def cstring_def)
    then show ?thesis using cond_simple [OF assms(1)] by (simp add: 3 core_text_def core_toks_def indented_def)
  qed
qed

text \<open>A line of the program: a condition is not an assignment.\<close>

definition line_ok :: "nat \<Rightarrow> string option \<Rightarrow> stmt \<Rightarrow> bool" where
  "line_ok n b s \<longleftrightarrow> b \<in> keys \<and> stmt_wf n s \<and> (b \<noteq> None \<longrightarrow> (\<exists>k x as. s = Stmt None k x as))"

lemma core_chars:
  assumes "line_ok n b s" "c \<in> set (core_text b s)"
  shows "is_word_char c \<or> c \<in> set ''(),=: ''"
proof -
  have p: "c \<in> set (print s) \<Longrightarrow> is_word_char c \<or> c \<in> set ''(),=''" using print_set [of n s c] assms(1) by (simp add: line_ok_def)
  have k: "\<forall>c \<in> set ''ifwhle''. is_word_char c" by (simp add: is_word_char_def is_digit_def)
  show ?thesis using assms p k by (auto simp: core_text_def line_ok_def)
qed

lemma core_not:
  assumes "line_ok n b s" "c \<in> set [CH_BS, CH_SQ, CH_DQ, CHR ''#'', CH_CR, CH_NL, CH_TAB, CHR ''@'', CHR '';'', NUL]"
  shows "c \<notin> set (core_text b s)"
  using core_chars [OF assms(1), of c] assms(2) by (auto simp: is_word_char_def is_digit_def)

lemma core_start:
  assumes "line_ok n b s"
  shows "core_text b s \<noteq> []" "is_word_char (hd (core_text b s))"
proof -
  have "print s \<noteq> []" "is_word_char (hd (print s))"
    using print_simple [of n s] assms by (auto simp: line_ok_def str_at_def hd_conv_nth split: if_splits)
  then show "core_text b s \<noteq> []" "is_word_char (hd (core_text b s))"
    using assms by (auto simp: core_text_def line_ok_def is_word_char_def split: option.splits)
qed

lemma indented_not:
  assumes "line_ok n b s" "c \<in> set [CH_BS, CH_SQ, CH_DQ, CHR ''#'', CH_CR, CH_NL, CH_TAB, CHR ''@'', CHR '';'', NUL]"
  shows "c \<notin> set (indented d (core_text b s))"
  using core_not [OF assms] assms(2) by (auto simp: indented_def)

lemma cstring_line: "line_ok n b s \<Longrightarrow> cstring (indented d (core_text b s))"
  using indented_not [of n b s NUL d] by (simp add: cstring_def)

lemma indented_0 [simp]: "indented 0 t = t"
  by (simp add: indented_def)

lemma comment_none: "{CH_BS, CH_SQ, CH_DQ, CHR ''#''} \<inter> set s = {} \<Longrightarrow> comment_loop s i False False False = None"
  by (induction s arbitrary: i) auto

lemma removeComment_line: "line_ok n b s \<Longrightarrow> Parser_removeComment (indented d (core_text b s)) = indented d (core_text b s)"
  using indented_not [of n b s _ d] by (subst Parser_removeComment_def, subst comment_none) auto

lemma indent_replicate: "t = [] \<or> hd t \<noteq> CHR '' '' \<Longrightarrow> strGetIndent (replicate k CHR '' '' @ t) = k"
proof (induction k)
  case 0
  then show ?case by (cases t) auto
qed simp

lemma depth_line: "line_ok n b s \<Longrightarrow> Parser_getPyLineBlockDeepth (indented d (core_text b s)) = int d"
proof -
  assume l: "line_ok n b s"
  then have "hd (core_text b s) \<noteq> CHR '' ''" using core_start(2) [OF l] word_chars by blast
  then have "strGetIndent (indented d (core_text b s)) = 4 * d" by (simp add: indented_def indent_replicate)
  then show ?thesis by (simp add: Parser_getPyLineBlockDeepth_def PIKA_BLOCK_SPACE_def)
qed

lemma starts_iff: "t \<noteq> [] \<Longrightarrow> starts s t \<longleftrightarrow> take (length t) s = t"
  by (cases t; cases s) (auto simp: starts_def strIsStartWith_def str_at_def strGetSize_def)

lemma starts_blank: "CHR '' '' \<notin> set s \<Longrightarrow> CHR '' '' \<in> set t \<Longrightarrow> \<not> starts s t"
  using in_set_takeD [of "CHR '' ''" "length t" s] by (cases "t = []") (auto simp: starts_iff)

lemma print_no_blank: "stmt_wf n s \<Longrightarrow> CHR '' '' \<notin> set (print s)"
  using print_set [of n s "CHR '' ''"] by (auto simp: is_word_char_def is_digit_def)

lemma core_not_starts:
  assumes "line_ok n b s" "t \<in> {''import '', ''from '', ''@docstring'', ''for '', ''return '', ''raise '', ''assert '', ''global '', ''del '', ''def '', ''class ''}"
  shows "\<not> starts (core_text b s) t"
proof (cases b)
  case None
  then have "b = None" "CHR '' '' \<notin> set (core_text b s)" "CHR ''@'' \<notin> set (core_text b s)"
    using print_no_blank [of n s] core_not [OF assms(1), of "CHR ''@''"] assms(1) by (auto simp: core_text_def line_ok_def)
  moreover have "CHR ''@'' \<in> set (take (length t) (core_text b s))" if "t = ''@docstring''" "starts (core_text b s) t"
    using that by (subst (asm) starts_iff) auto
  ultimately show ?thesis using assms(2) starts_blank [of "core_text b s" t] by (auto dest: in_set_takeD)
next
  case (Some k)
  then show ?thesis using assms by (auto simp: starts_iff core_text_def line_ok_def)
qed

lemma import_loop_line:
  assumes "s \<noteq> []" "cstring s" "CH_NL \<notin> set s" "\<not> starts s ''import ''"
  shows "import_loop s a = a @ s @ [CH_NL]"
proof -
  have "strPopFirstToken s CH_NL = (s, length s)" using assms(3) by (simp add: strPopFirstToken_def scan_fwd_eq)
  moreover have "import_loop [] x = x" for x by (subst import_loop.simps) (simp add: strPopFirstToken_def)
  ultimately show ?thesis using assms by (subst import_loop.simps) simp
qed

lemma Suger_import_line:
  assumes "line_ok n b s"
  shows "Suger_import (core_text b s) = Some (core_text b s)"
proof -
  have c: "cstring (core_text b s)" "CH_NL \<notin> set (core_text b s)"
    using cstring_line [OF assms, of 0] core_not [OF assms, of CH_NL] by simp_all
  show ?thesis
    using core_not_starts [OF assms] import_loop_line [OF core_start(1) [OF assms] c] c
    by (simp add: Suger_import_def Suger_import_as_def Suger_from_import_as_def strsCopy_eq)
qed

lemma Suger_semicolon_line: "line_ok n b s \<Longrightarrow> Suger_semicolon (core_text b s) = Some (core_text b s)"
  using core_not [of n b s "CHR '';''"] strstr_missing [of "CHR '';''" "core_text b s"]
  by (simp add: Suger_semicolon_def Cursor_count_def Cursor_count_ex_def)

section \<open>Lines that are not rewritten\<close>

lemma vok_body:
  assumes "stmt_wf n (Stmt None k x as)" "P '')''" "\<And>q. word_ok q \<Longrightarrow> P q"
  shows "vok d n P (ptoks (Stmt None k x as))"
proof -
  have x: "vok d n P [wtok x]" using stmt_parts(5) [OF assms(1)] assms(3) by (rule vok_word)
  show ?thesis
  proof (cases "k = KCall")
    case True
    then have n: "n = Suc (n - 1)" using assms(1) by simp
    have "vok (Suc d) (n - 1) (\<lambda>_. True) (commas comma (map ptoks as))"
      using assms(1) True vok_mono [OF vok_ptoks [of "n - 1"], of _ "n - 1" "\<lambda>_. True"] by (intro vok_commas) auto
    then have "vok d (Suc (n - 1)) P (lparen # commas comma (map ptoks as) @ [rparen])" using assms(2) by (rule vok_paren)
    then show ?thesis using vok_append [OF x] True n by (simp add: left_toks_def)
  qed (use x in \<open>simp add: left_toks_def\<close>)
qed

lemma vok_core:
  assumes "line_ok n b s" "b \<noteq> None"
  shows "vok 0 n (\<lambda>p. p \<noteq> ''='') (core_toks b s)"
proof -
  obtain k x as where s: "s = Stmt None k x as" using assms by (auto simp: line_ok_def)
  have w: "word_ok q \<Longrightarrow> q \<noteq> ''=''" for q using word_not_bracket by auto
  have wf: "stmt_wf n (Stmt None k x as)" using assms(1) unfolding line_ok_def s by blast
  have "vok 0 n (\<lambda>p. p \<noteq> ''='') (ptoks s)" using w unfolding s by (intro vok_body [OF wf]) simp_all
  moreover have "vok 0 n (\<lambda>p. p \<noteq> ''='') [(TOKEN_keyword, '' if '')]" "vok 0 n (\<lambda>p. p \<noteq> ''='') [colon]"
    by (intro vok_tok; simp add: bracket_step_def strEqu_def colon_def)+
  moreover have "vok 0 n (\<lambda>p. p \<noteq> ''='') [wtok ''while'']"
    using w by (intro vok_word) (simp_all add: word_ok_def is_word_char_def is_digit_def)
  ultimately have "vok 0 n (\<lambda>p. p \<noteq> ''='') ((if b = Some ''if'' then [(TOKEN_keyword, '' if '')] else [wtok ''while'']) @ ptoks s @ [colon])"
    by (intro vok_append) simp_all
  then show ?thesis using assms by (auto simp: core_toks_def line_ok_def)
qed

lemma deep_core: "line_ok n b s \<Longrightarrow> deep 0 (core_toks b s) = 0"
proof (cases "b = None")
  case True
  assume "line_ok n b s"
  then have "vok 0 n (\<lambda>p. p \<noteq> '','') (ptoks s)" by (intro vok_ptoks) (simp add: line_ok_def)
  then show ?thesis using True by (simp add: vok_def core_toks_def)
next
  case False
  assume "line_ok n b s"
  from vok_core [OF this False] show ?thesis by (simp add: vok_def)
qed

lemma lexes_core:
  assumes "line_ok n b s"
  shows "lexes (indented d (core_text b s)) (core_toks b s)" "core_toks b s \<noteq> []"
  using assms lexes_line [of n s b d] ptoks_not_Nil by (auto simp: line_ok_def core_toks_def split: option.splits)

lemma bracket_end_line:
  assumes "line_ok n b s" "short (indented d (core_text b s))"
  shows "bracket_end (indented d (core_text b s)) = Some 0"
proof -
  have "run (\<lambda>(ty, p, e) v. Some (sint (e :: 8 word), False)) (vs @ [(ty', p', e')]) v = Some (sint e')" for vs :: "tview list" and ty' p' e' v
    by (induction vs arbitrary: v) auto
  moreover have "bracket_end (indented d (core_text b s)) = run (\<lambda>(ty, p, e) v. Some (sint e, False))
      (tviews 0 (core_toks b s) @ [(TOKEN_strEnd, [], deep 0 (core_toks b s))]) 0"
    unfolding bracket_end_def by (rule forEach_views [OF lexes_core(1) [OF assms(1)] assms(2) lexes_core(2) [OF assms(1)]]) (simp add: view_of_def)
  ultimately show ?thesis using deep_core [OF assms(1)] by simp
qed

definition assign_view :: "tview \<Rightarrow> bool \<times> string \<times> string \<Rightarrow> ((bool \<times> string \<times> string) \<times> bool) option" where
  "assign_view t v = (case (t, v) of ((ty, p, e), (b, a, l)) \<Rightarrow>
     if e = 0 \<and> equ p ''='' then Some ((True, a, l), False)
     else if b then do { x \<leftarrow> strsAppend a p; Some ((b, x, l), False) }
     else do { x \<leftarrow> strsAppend l p; Some ((b, a, x), False) })"

lemma assign_body_view: "assign_body c v = assign_view (view_of c) v"
  by (simp add: assign_body_def assign_view_def view_of_def split: prod.splits)

lemma assign_none:
  assumes "\<forall>(ty, p, e) \<in> set vs. cstring p \<and> \<not> (e = 0 \<and> p = ''='')" "cstring l"
  shows "run assign_view vs (False, a, l) = Some (False, a, l @ texts vs)"
  using assms by (induction vs arbitrary: l) (auto simp: assign_view_def strsAppend_eq)

lemma assign_found:
  assumes "\<forall>(ty, p, e) \<in> set vs. cstring p" "cstring a"
  shows "\<exists>a'. run assign_view vs (True, a, l) = Some (True, a', l)"
  using assms by (induction vs arbitrary: a) (auto simp: assign_view_def strsAppend_eq)

lemma multi_assign_word:
  assumes "word_ok y" "short y"
  shows "check_is_multi_assign y = Some False"
proof -
  have "simple y" using assms(1) simple_word by (simp add: word_ok_def)
  then have lx: "lexes y [wtok y]" using lexes_simple scan_name [OF assms(1), of "[]"] by fastforce
  show ?thesis
    unfolding check_is_multi_assign_def
    by (subst forEach_views [OF lx assms(2), where g = "\<lambda>(ty, p, e) v. Some (v \<or> (e = 0 \<and> equ p '',''), False)"])
       (use word_not_bracket [OF assms(1)] in \<open>simp_all add: view_of_def wtok_def\<close>)
qed

lemma short_more: "short (a @ t) \<Longrightarrow> short t"
  by (simp add: short_def)

lemma Suger_multiAssign_line:
  assumes "line_ok n b s" "short (core_text b s)" "n < 126"
  shows "Suger_multiAssign (core_text b s) = Some (core_text b s)"
proof -
  let ?ts = "core_toks b s"
  let ?vs = "tviews 0 ?ts @ [(TOKEN_strEnd, [], deep 0 ?ts)]"
  have lx: "lexes (core_text b s) ?ts" "?ts \<noteq> []" using lexes_core(1) [OF assms(1), of 0] lexes_core(2) [OF assms(1)] by simp_all
  have each: "Cursor_forEach (Some (core_text b s)) assign_body v = run assign_view ?vs v" for v
    by (rule forEach_views [OF lx(1) assms(2) lx(2)]) (rule assign_body_view)
  have c: "\<forall>(ty, p, e) \<in> set ?vs. cstring p" using lx tviews_cstring [of ?ts 0] by (auto simp: lexes_def)
  have n: "n < 256" using assms(3) by simp
  have plain: "Suger_multiAssign (core_text b s) = Some (core_text b s)" if vok: "vok 0 n (\<lambda>p. p \<noteq> ''='') ?ts"
  proof -
    have "\<not> (e = 0 \<and> p = ''='')" if v: "(ty, p, e) \<in> set (tviews 0 ?ts)" for ty p e
    proof -
      obtain j where j: "j \<le> n" "e = of_nat j" "j = 0 \<longrightarrow> p \<noteq> ''=''" using vokD [OF vok, of ty p e] v by auto
      then have "unat e = j" using n unat_of_nat_byte [of j] by simp
      then show ?thesis using j(3) by auto
    qed
    then have "run assign_view ?vs (False, [], []) = Some (False, [], [] @ texts ?vs)" using c by (intro assign_none) auto
    then show ?thesis by (simp add: Suger_multiAssign_def each)
  qed
  show ?thesis
  proof (cases "b = None")
    case True
    obtain l k x as where s: "s = Stmt l k x as" by (cases s)
    have wf: "stmt_wf n (Stmt l k x as)" using assms(1) unfolding line_ok_def s by blast
    note parts = stmt_parts [OF wf]
    have ts: "?ts = left_toks l @ body_toks k x as" using parts(2) by (simp add: True core_toks_def s del: ptoks.simps)
    show ?thesis
    proof (cases l)
      case None
      have w: "word_ok q \<Longrightarrow> q \<noteq> ''=''" for q using word_not_bracket by auto
      have "vok 0 n (\<lambda>p. p \<noteq> ''='') (ptoks (Stmt None k x as))" using w by (intro vok_body [OF parts(3)]) simp_all
      then show ?thesis using plain by (simp add: True core_toks_def s None del: ptoks.simps)
    next
      case (Some y)
      have y: "word_ok y" "cstring y" "short y"
        using parts(4) [OF Some] name_cstring name_word assms(2) parts(1)
        by (auto simp: True core_text_def s Some left_text_def short_def simp del: print.simps)
      let ?R = "tviews 0 (body_toks k x as) @ [(TOKEN_strEnd, [], deep 0 ?ts)]"
      have v: "?vs = (fst (wtok y), y, 0) # (TOKEN_operator, ''='', 0) # ?R"
        using y(1) by (simp add: ts Some left_toks_def wtok_def bracket_step_simps)
      then have "\<forall>(ty, p, e) \<in> set ?R. cstring p" using c by auto
      then obtain a' where "run assign_view ?R (True, [], y) = Some (True, a', y)" using assign_found by fastforce
      then have "run assign_view ?vs (False, [], []) = Some (True, a', y)"
        unfolding v using y(2) word_not_bracket [OF y(1)] by (simp add: assign_view_def strsAppend_eq)
      then show ?thesis using multi_assign_word [OF y(1,3)] by (simp add: Suger_multiAssign_def each)
    qed
  qed (use plain vok_core [OF assms(1)] in blast)
qed

lemma sugerProcessOnce_line:
  assumes "line_ok n b s" "short (core_text b s)" "n < 126"
  shows "Parser_sugerProcessOnce (core_text b s) = Some (core_text b s)"
proof -
  have "count_list (core_text b s) CH_NL = 0" using core_not [OF assms(1), of CH_NL] by (simp add: count_list_0_iff)
  then show ?thesis
    using Suger_import_line [OF assms(1)] Suger_semicolon_line [OF assms(1)] Suger_multiAssign_line [OF assms]
    by (simp add: Parser_sugerProcessOnce_def Suger_processor_list_def strCountSign_eq)
qed

lemma pop_single:
  assumes "cstring t" "CH_NL \<notin> set t"
  shows "strsPopToken t CH_NL = Some (t, [])"
proof -
  have "dropWhile (\<lambda>c. c \<noteq> CH_NL) t = []" using assms(2) by (auto simp: dropWhile_eq_Nil_conv)
  with strsPopToken_eq [OF assms(1), of CH_NL] takeWhile_neq [OF assms(2)] show ?thesis by (metis drop_Nil)
qed

lemma suger_core:
  assumes "line_ok n b s" "short (core_text b s)" "n < 126"
  shows "suger_lines [core_text b s] = Some [core_text b s]"
  using sugerProcessOnce_line [OF assms] depth_line [OF assms(1), of 0]
  by (subst suger_lines.simps) (simp add: suger_lines.simps [of "[]"] PIKA_BLOCK_SPACE_def)

lemma indent_line:
  assumes "t \<noteq> []" "CH_NL \<notin> set t"
  shows "indent_text k t = replicate k CHR '' '' @ t"
proof -
  have "indent_rest k False t = t" using assms(2) by (induction t) auto
  then show ?thesis using assms indent_rest_lines [of k t] by (cases t) auto
qed

lemma suger_indented:
  assumes "line_ok n b s" "short (indented d (core_text b s))" "n < 126"
  shows "suger_lines [indented d (core_text b s)] = Some [indented d (core_text b s)]"
proof (cases "d = 0")
  case False
  let ?t = "core_text b s"
  have sh: "short ?t" using assms(2) short_more unfolding indented_def by blast
  have t: "?t \<noteq> []" "CH_NL \<notin> set ?t" "cstring ?t"
    using core_start(1) [OF assms(1)] core_not [OF assms(1), of CH_NL] cstring_line [OF assms(1), of 0] by simp_all
  have "drop (d * 4) (indented d ?t) = ?t" "\<not> equ (indented d ?t) ?t" using False by (simp_all add: indented_def mult.commute)
  moreover have "strsAddIndentation ?t (int d * 4) = Some (indented d ?t)"
    using strsAddIndentation_eq [OF t(3), of "4 * d"] indent_line [OF t(1,2)] by (simp add: indented_def mult.commute)
  moreover have "nat (strCountSign ?t CH_NL + 1) = Suc 0" using t(2) by (simp add: strCountSign_eq count_list_0_iff)
  ultimately show ?thesis
    using depth_line [OF assms(1), of d] sugerProcessOnce_line [OF assms(1) sh assms(3)] suger_core [OF assms(1) sh assms(3)]
      pop_single [OF t(3,2)] strsCopy_eq [OF t(3)]
    by (subst suger_lines.simps) (simp add: suger_lines.simps [of "[]"] PIKA_BLOCK_SPACE_def)
qed (use suger_core assms in simp)

lemma linePreProcess_line:
  assumes "line_ok n b s" "short (indented d (core_text b s))" "n < 126"
  shows "Parser_linePreProcess (indented d (core_text b s)) = Some (Some (indented d (core_text b s)))"
proof -
  let ?L = "indented d (core_text b s)"
  have "Lexer_isError ?L = Some 0" using lexes_core(1) [OF assms(1), of d] by (simp add: lexes_def Lexer_isError_def)
  moreover have "strsDeleteChar ?L CH_CR = Some ?L"
    using strsDeleteChar_eq [OF cstring_line [OF assms(1)]] indented_not [OF assms(1), of CH_CR d] by (auto simp: filter_id_conv)
  ultimately show ?thesis
    using removeComment_line [OF assms(1), of d] suger_indented [OF assms] depth_line [OF assms(1), of d]
    by (simp add: Parser_linePreProcess_def Parser_sugerProcess_def)
qed

section \<open>The form of a line\<close>

text \<open>Statements that are not taken for keywords.\<close>

definition not_keyword :: "stmt \<Rightarrow> bool" where
  "not_keyword s \<longleftrightarrow> (case s of Stmt l k x as \<Rightarrow> l = None \<longrightarrow> x \<notin> {''break'', ''continue'', ''return'', ''raise'', ''del''})"

lemma print_head:
  assumes "stmt_wf n (Stmt l k x as)"
  shows "takeWhile is_word_char (print (Stmt l k x as)) = (case l of None \<Rightarrow> x | Some y \<Rightarrow> y)"
    and "dropWhile is_word_char (print (Stmt l k x as)) = (case l of None \<Rightarrow> if k = KCall then CHR ''('' # commas CHR '','' (map print as) @ '')'' else []
      | Some y \<Rightarrow> CHR ''='' # body_text k x as)"
proof -
  note p = stmt_parts [OF assms]
  have w: "word_ok y \<Longrightarrow> r = [] \<or> \<not> is_word_char (hd r) \<Longrightarrow> takeWhile is_word_char (y @ r) = y \<and> dropWhile is_word_char (y @ r) = r" for y r
    by (cases r) (simp_all add: word_ok_def)
  have "\<And>y. l = Some y \<Longrightarrow> word_ok y" using p(4) name_word by blast
  then show "takeWhile is_word_char (print (Stmt l k x as)) = (case l of None \<Rightarrow> x | Some y \<Rightarrow> y)"
    "dropWhile is_word_char (print (Stmt l k x as)) = (case l of None \<Rightarrow> if k = KCall then CHR ''('' # commas CHR '','' (map print as) @ '')'' else []
      | Some y \<Rightarrow> CHR ''='' # body_text k x as)"
    using w [of x] w p(5) word_char_dividers unfolding p(1)
    by (cases l; simp add: left_text_def body_text_def; fail)+
qed

lemma print_keyword:
  assumes "stmt_wf n s" "not_keyword s"
  shows "print s \<notin> {''break'', ''continue'', ''return'', ''raise''}" "\<not> starts (print s) ''del(''"
proof -
  obtain l k x as where s: "s = Stmt l k x as" by (cases s)
  note h = print_head [OF assms(1) [unfolded s]]
  have w: "\<forall>c \<in> set t. is_word_char c" if "t \<in> {''break'', ''continue'', ''return'', ''raise'', ''del''}" for t
    using that by (auto simp: is_word_char_def)
  have lx: "l = None \<and> x = t" if "print s = t" "\<forall>c \<in> set t. is_word_char c" for t
  proof -
    have "takeWhile is_word_char (print s) = t" "dropWhile is_word_char (print s) = []" using that by simp_all
    then show ?thesis using h unfolding s by (cases l) (simp_all del: print.simps dropWhile_eq_Nil_conv)
  qed
  have nk: "l = None \<Longrightarrow> x \<notin> {''break'', ''continue'', ''return'', ''raise'', ''del''}" using assms(2) by (simp add: not_keyword_def s)
  have "print s \<noteq> t" if t: "t \<in> {''break'', ''continue'', ''return'', ''raise''}" for t
  proof
    assume "print s = t"
    moreover have "\<forall>c \<in> set t. is_word_char c" using t by (intro w) blast
    ultimately have "l = None" "x = t" using lx by simp_all
    then show False using nk t by blast
  qed
  then show "print s \<notin> {''break'', ''continue'', ''return'', ''raise''}" by blast
  show "\<not> starts (print s) ''del(''"
  proof
    assume "starts (print s) ''del(''"
    then have "take 4 (print s) = ''del(''" by (simp add: starts_iff eval_nat_numeral)
    then have "print s = ''del('' @ drop 4 (print s)" by (metis append_take_drop_id)
    moreover have "takeWhile is_word_char (''del('' @ q) = ''del'' \<and> dropWhile is_word_char (''del('' @ q) = CHR ''('' # q" for q
      using word_char_dividers by (simp add: is_word_char_def is_digit_def)
    ultimately have "takeWhile is_word_char (print s) = ''del''" "hd (dropWhile is_word_char (print s)) = CHR ''(''" by (metis list.sel(1))+
    then show False using h assms(2) unfolding s not_keyword_def by (cases l) (auto simp del: print.simps)
  qed
qed

lemma str_at_cases: "str_at s i = NUL \<or> str_at s i \<in> set s"
  by (simp add: str_at_def)

lemma form_plain:
  assumes "line_ok n None s" "not_keyword s"
  shows "line_form (core_text None s) = Some (Some ([], None, Some (print s)))"
proof -
  let ?t = "print s"
  have wf: "stmt_wf n s" and t: "core_text None s = ?t" using assms(1) by (simp_all add: line_ok_def core_text_def)
  note k = print_keyword [OF wf assms(2)]
  have b: "CHR '' '' \<notin> set ?t" "CHR '':'' \<notin> set ?t" 
    using print_no_blank [OF wf] print_set [OF wf, of "CHR '':''"] by (auto simp: is_word_char_def is_digit_def)
  then have a: "str_at ?t i \<noteq> CHR '' ''" "str_at ?t i \<noteq> CHR '':''" for i using str_at_cases [of ?t i] by auto
  have "\<not> (starts ?t q \<and> str_at ?t (strGetSize q) \<in> {CHR '' '', NUL})" if "q \<in> set control_keywords" for q
  proof
    assume h: "starts ?t q \<and> str_at ?t (strGetSize q) \<in> {CHR '' '', NUL}"
    have "NUL \<notin> set ?t" using core_not [OF assms(1), of NUL] t by simp
    then have "length ?t \<le> length q" using h a by (auto simp: str_at_def strGetSize_def dest: nth_mem split: if_splits)
    moreover have "take (length q) ?t = q" using h that by (subst (asm) starts_iff) (auto simp: control_keywords_def)
    ultimately have "?t = q" by simp
    then show False using that k(1) by (auto simp: control_keywords_def)
  qed
  then have c: "find (\<lambda>k. starts ?t k \<and> str_at ?t (strGetSize k) \<in> {CHR '' '', NUL}) control_keywords = None" by (auto simp: find_None_iff)
  have m: "form_mark q ?t = ([], None, Some ?t)" for q using a by (simp add: form_mark_def)
  have f: "find (\<lambda>k. starts ?t k \<and> str_at ?t (strGetSize k) = CHR '' '') normal_keywords = None" using a by (auto simp: find_None_iff)
  show ?thesis
    using core_not_starts [OF assms(1)] k unfolding t line_form_def f c option.case m by simp
qed

lemma form_cond:
  assumes "line_ok n (Some k) s"
  shows "line_form (core_text (Some k) s) = Some (Some ([Set_attr ''block'' k], Some k, Some (print s)))"
proof -
  have k: "k = ''if'' \<or> k = ''while''" using assms by (simp add: line_ok_def)
  have c: "cstring (k @ CHR '' '' # print s @ '':'')" using cstring_line [OF assms, of 0] by (simp add: core_text_def)
  have "CHR '' '' \<notin> set k" using k by auto
  then have "strsCut (core_text (Some k) s) CHR '' '' CHR '':'' = Some (Some (print s))"
    using strsCut_ends [OF c] by (simp add: core_text_def)
  moreover have "find (\<lambda>q. starts (core_text (Some k) s) q \<and> str_at (core_text (Some k) s) (strGetSize q) = CHR '' '') normal_keywords = Some k"
    using k by (elim disjE; simp add: normal_keywords_def starts_iff core_text_def strGetSize_def str_at_def)
  ultimately show ?thesis by (simp add: line_form_def)
qed

section \<open>The tree of a line\<close>

lemma each_Nil: "Cursor_forEach (Some []) body v = Some v"
  using forEach_run [of "[]" "[]" body v] lexes_simple [of "[]"] by (simp add: short_def visits_def)

lemma stmt_calls_Nil: "stmt_calls [] = Some []"
proof -
  have m: "Lexer_matchStmtType [] = Some STMT_none"
    by (simp add: Lexer_matchStmtType_def each_Nil remove_sub_stmt_def Cursor_removeTokensBetween_def strsCopy_eq StmtFlags_init_def)
  have "Cursor_isContain [] TOKEN_operator (c # q) = Some False" for c q
    by (simp add: Cursor_isContain_def Cursor_count_def Cursor_count_ex_def strstr_missing)
  then have "stmt_sides [] = Some (None, [])"
    by (simp add: stmt_sides_def Parser_checkIsDirect_def Cursor_splitCollect_def each_Nil strsCopy_eq Suger_selfOperator_def selfOperators_def)
  then show ?thesis using m
    by (simp add: stmt_calls_def Suger_leftSlice_def Suger_format_def parse_right_def strsCopy_eq)
qed

lemma calls_tree_on:
  assumes "stmt_wf n s" "n < 126" "short (print s)"
  shows "AST_parseStmt (AST a []) (print s) = Some (Some (AST (a ++ attrs (tree s)) (sub_stmts (tree s))))"
proof -
  obtain l k x as where s: "s = Stmt l k x as" by (cases s)
  have "\<exists>k. stmt_calls (print y) = Some k \<and> AST_calls AST_create k = Some (Some (tree y))" if "k = KCall" "y \<in> set as" for y
    using that assms(1,2) short_arg [OF assms(3,1) [unfolded s]] unfolding s by (intro calls_tree [of "n - 1"]) auto
  then show ?thesis
    using stmt_calls_eq [OF assms(1-3) [unfolded s]] assms(1) unfolding s
    by (cases k; cases l)
       (auto simp: AST_parseStmt_def kind_calls_def AST_calls_subs AST_calls.simps [of _ "[]"] AST_calls.simps [of _ "Set_attr _ _ # _"]
          AST_setNodeAttr_def node_attrs_def simp del: print.simps)
qed

definition line_tree :: "string option \<Rightarrow> stmt \<Rightarrow> AST" where
  "line_tree b s = AST ((case b of None \<Rightarrow> Map.empty | Some k \<Rightarrow> [''block'' \<mapsto> k]) ++ attrs (tree s)) (sub_stmts (tree s))"

lemma finish_print:
  assumes "stmt_wf n s" "n < 126" "short (print s)"
  shows "finish_line (AST a []) (Some (print s)) = Some (Some (AST (a ++ attrs (tree s)) (sub_stmts (tree s))))"
  using getCleanStmt_eq [OF print_lexes [OF assms(1)] assms(3)] payloads_ptoks [OF assms(1)] calls_tree_on [OF assms]
  by (simp add: finish_line_def)

lemma i8_signed: "- 128 \<le> x \<Longrightarrow> x < 128 \<Longrightarrow> i8 x = x"
  by (simp add: i8_def)

end
