(* ===== verification/Pika_Compiler.thy ===== *)
theory Pika_Compiler
  imports Pika_ByteCode Pika_Args
begin

text \<open>
  The compiler driver, \<open>src/src/PikaCompiler.c\<close>: the byte code file that \<open>pikaCompile\<close> writes in three
  passes, and its parts in a cell of bytes.

  A file is the list of the bytes written to it. The parser is an argument of \<open>pikaCompile\<close>: the
  assembly texts that it hands to \<open>byteCodeFrame_appendFromAsm\<close>, and its result code.
\<close>

section \<open>The byte code file\<close>

text \<open>\<open>pika_lines2Bytes\<close> with the parser as the texts it produces.\<close>

primrec append_all :: "VMInsSet \<Rightarrow> ByteCodeFrame \<Rightarrow> string list \<Rightarrow> (VMInsSet \<times> ByteCodeFrame) option" where
  "append_all g bf [] = Some (g, bf)"
| "append_all g bf (s # ss) = do { (g1, bf1) \<leftarrow> byteCodeFrame_appendFromAsm g bf s; append_all g1 bf1 ss }"

definition with_redirects :: "redirect \<Rightarrow> redirect \<Rightarrow> ByteCodeFrame \<Rightarrow> ByteCodeFrame" where
  "with_redirects rc ri bf = bf\<lparr>const_pool := (const_pool bf)\<lparr>cp_output_redirect_fun := rc\<rparr>,
     instruct_array := (instruct_array bf)\<lparr>ia_output_redirect_fun := ri\<rparr>\<rparr>"

definition zero_frame :: ByteCodeFrame where
  "zero_frame = \<lparr> bf_name = None, bf_name_hash = 0,
     const_pool = constPool_init\<lparr>cp_size := 0\<rparr>, instruct_array = instructArray_init, label_pc = 0 \<rparr>"

text \<open>
  The first pass measures, the second one writes the instructions, the third one the constants. A
  syntax error leaves the file empty.
\<close>

definition pikaCompile :: "VMInsSet \<Rightarrow> bool \<Rightarrow> string list \<Rightarrow> PIKA_RES \<Rightarrow> (PIKA_RES \<times> byte list option) option" where
  "pikaCompile g opened asms parsed =
     (if \<not> opened then Some (PIKA_RES_ERR_IO_ERROR, None)
      else do {
        (g1, bf1) \<leftarrow> append_all g (with_redirects To_buff To_none (byteCodeFrame_init zero_frame)) asms;
        if parsed \<noteq> PIKA_RES_OK then Some (parsed, Some [])
        else do {
          let const_pool_size = cp_size (const_pool bf1);
          let instruct_array_size = ia_size (instruct_array bf1);
          let bytecode_size = u32_add (u32_add const_pool_size instruct_array_size) 8;
          (g2, bf2) \<leftarrow> append_all g1 (with_redirects To_buff To_file (byteCodeFrame_init bf1)) asms;
          (g3, bf3) \<leftarrow> append_all g2 (with_redirects To_file To_none (byteCodeFrame_init bf2)) asms;
          Some (PIKA_RES_OK, Some (magic_code_pyo @ le_bytes 4 bytecode_size @ le_bytes 4 instruct_array_size @
            ia_output_f (instruct_array bf2) @ le_bytes 4 const_pool_size @ [0] @ cp_output_f (const_pool bf3)))
        }
      })"

text \<open>A byte code file in a cell of bytes: the code behind its header, and its size.\<close>

definition arg_getBytecode :: "byte list \<Rightarrow> byte list option" where
  "arg_getBytecode bytes = do {
     magic \<leftarrow> check_magic bytes magic_code_pyo;
     Some (if magic then drop 8 bytes else bytes)
   }"

definition arg_getBytecodeSize :: "byte list \<Rightarrow> nat \<Rightarrow> nat option" where
  "arg_getBytecodeSize bytes size_all = do {
     magic \<leftarrow> check_magic bytes magic_code_pyo;
     if magic then if size_all < 8 then None else Some (size_all - 8) else Some size_all
   }"

section \<open>What the passes build\<close>

text \<open>The instructions and the constants of a sequence of assembly texts, and the image of both.\<close>

fun prog_run :: "string list \<Rightarrow> asm_stmt list list \<Rightarrow> InstructUnit list \<times> string list" where
  "prog_run strs [] = ([], strs)"
| "prog_run strs (ss # prog) =
     (fst (asm_run 0 False strs ss) @ fst (prog_run (snd (asm_run 0 False strs ss)) prog),
      snd (prog_run (snd (asm_run 0 False strs ss)) prog))"

definition prog_ok :: "asm_stmt list list \<Rightarrow> bool" where
  "prog_ok prog \<longleftrightarrow> (\<forall>ss \<in> set prog. \<forall>s \<in> set ss. asm_ok s)"

definition prog_data :: "asm_stmt list list \<Rightarrow> nat" where
  "prog_data prog = sum_list (map data_size (concat prog))"

definition code_image :: "InstructUnit list \<Rightarrow> string list \<Rightarrow> byte list" where
  "code_image us strs = le_bytes 4 (4 * length us) @ concat (map unit_bytes us) @
     le_bytes 4 (length (pool_bytes strs)) @ pool_bytes strs"

lemma prog_run_pool: "\<exists>ts. snd (prog_run strs prog) = strs @ ts"
proof (induction prog arbitrary: strs)
  case (Cons ss prog)
  then show ?case using asm_run_pool [of 0 False strs ss] by (metis append.assoc prog_run.simps(2) snd_conv)
qed simp

lemma asm_run_length: "length (fst (asm_run b nl strs ss)) \<le> length ss"
  by (induction b nl strs ss rule: asm_run.induct) (auto split: prod.splits)

lemma prog_run_length: "length (fst (prog_run strs prog)) \<le> length (concat prog)"
  by (induction prog arbitrary: strs) (auto intro: add_mono asm_run_length)

lemma append_all_rep:
  assumes "prog_ok prog" "frame_rep bf us strs" "recent g = VM_default_instruction_set"
    and "length (pool_bytes strs) + prog_data prog \<le> 65535"
    and "fits (4 * length us + 4 * length (concat prog))"
  shows "\<exists>bf'. append_all g bf (map asm_lines prog) = Some (g, bf') \<and>
    frame_rep bf' (us @ fst (prog_run strs prog)) (snd (prog_run strs prog)) \<and>
    length (pool_bytes (snd (prog_run strs prog))) \<le> 65535 \<and>
    cp_output_redirect_fun (const_pool bf') = cp_output_redirect_fun (const_pool bf) \<and>
    ia_output_redirect_fun (instruct_array bf') = ia_output_redirect_fun (instruct_array bf)"
  using assms
proof (induction prog arbitrary: bf us strs)
  case Nil
  then show ?case by simp
next
  case (Cons ss prog)
  let ?us = "us @ fst (asm_run 0 False strs ss)" and ?strs = "snd (asm_run 0 False strs ss)"
  have sz: "cp_size (const_pool bf) = length (pool_bytes strs)" "ia_size (instruct_array bf) = 4 * length us"
    using Cons.prems(2) by (simp_all add: frame_rep_def pool_rep_def arr_rep_def)
  obtain bf1 where b1: "byteCodeFrame_appendFromAsm g bf (asm_lines ss) = Some (g, bf1)" "frame_rep bf1 ?us ?strs"
    "cp_output_redirect_fun (const_pool bf1) = cp_output_redirect_fun (const_pool bf)"
    "ia_output_redirect_fun (instruct_array bf1) = ia_output_redirect_fun (instruct_array bf)"
    using asm_append_rep [of ss bf us strs g] Cons.prems sz by (auto simp: prog_ok_def prog_data_def)
  have "length (pool_bytes ?strs) + prog_data prog \<le> 65535"
    using asm_run_size [of 0 False strs ss] Cons.prems(4) by (simp add: prog_data_def)
  moreover have "fits (4 * length ?us + 4 * length (concat prog))"
    using asm_run_length [of 0 False strs ss] Cons.prems(5) by simp
  ultimately show ?case
    using Cons.IH [of bf1 ?us ?strs] Cons.prems(1,3) b1 by (simp add: prog_ok_def)
qed

lemma frame_rep_start:
  assumes "rc \<noteq> To_none"
  shows "frame_rep (with_redirects rc ri (byteCodeFrame_init bf)) [] []"
  using assms
  by (cases ri) (simp_all add: frame_rep_def with_redirects_def byteCodeFrame_init_def pool_rep_def arr_rep_def
      constPool_init_def instructArray_init_def)

section \<open>Reading an image\<close>

lemma bytes_str_more: "bytes_str xs = Some s \<Longrightarrow> bytes_str (xs @ ys) = Some s"
  by (auto simp: bytes_str_def split: if_splits)

definition pool_of :: "string list \<Rightarrow> byte list \<Rightarrow> ConstPool" where
  "pool_of strs rest = constPool_init\<lparr>cp_arg_buff := Some (pool_bytes strs @ rest),
     cp_content_start := Some (pool_bytes strs @ rest), cp_size := length (pool_bytes strs)\<rparr>"

lemma pool_of_rep: "\<forall>s \<in> set strs. cstring s \<Longrightarrow> pool_rep (pool_of strs []) strs"
  by (simp add: pool_of_def pool_rep_def constPool_init_def)

lemma unit_view_start: "cp_content_start cp = cp_content_start cp' \<Longrightarrow> unit_view cp u = unit_view cp' u"
  by (simp add: unit_view_def constPool_getByOffset_def)

lemma unit_view_rest:
  assumes "unit_view (pool_of strs []) u = Some v"
  shows "unit_view (pool_of (strs @ ts) rest) u = Some v"
proof -
  obtain r where r: "pool_bytes (strs @ ts) @ rest = pool_bytes strs @ r"
    by (simp add: pool_bytes_def)
  have "constPool_getByOffset (pool_of (strs @ ts) rest) n = Some s"
    if "constPool_getByOffset (pool_of strs []) n = Some s" for n s
    using that bytes_str_more [of "drop n (pool_bytes strs)"]
    by (simp add: constPool_getByOffset_def pool_of_def r del: drop_append) (simp add: drop_append)
  then show ?thesis using assms by (auto simp: unit_view_def bind_eq_Some_conv)
qed

lemma prog_run_views:
  assumes "prog_ok prog" "\<forall>s \<in> set (snd (prog_run strs prog)). cstring s"
    and "length (pool_bytes (snd (prog_run strs prog))) \<le> 65535"
  shows "map (unit_view (pool_of (snd (prog_run strs prog)) rest)) (fst (prog_run strs prog)) =
    map Some (concat (map (asm_instrs 0 False) prog))"
  using assms
proof (induction prog arbitrary: strs)
  case Nil
  then show ?case by simp
next
  case (Cons ss prog)
  let ?s1 = "snd (asm_run 0 False strs ss)"
  obtain ts where ts: "snd (prog_run ?s1 prog) = ?s1 @ ts" using prog_run_pool by blast
  have "map (unit_view (pool_of ?s1 [])) (fst (asm_run 0 False strs ss)) = map Some (asm_instrs 0 False ss)"
    using asm_run_views [of ss 0 "pool_of ?s1 []" False strs] pool_of_rep [of ?s1] Cons.prems ts
      pool_bytes_more [of ?s1 ts]
    by (simp add: prog_ok_def pool_of_def)
  then have "map (unit_view (pool_of (?s1 @ ts) rest)) (fst (asm_run 0 False strs ss)) = map Some (asm_instrs 0 False ss)"
    using unit_view_rest [of ?s1] by (auto simp: list_eq_iff_nth_eq)
  moreover have "map (unit_view (pool_of (?s1 @ ts) rest)) (fst (prog_run ?s1 prog)) =
      map Some (concat (map (asm_instrs 0 False) prog))"
    using Cons.IH [of ?s1] Cons.prems ts by (simp add: prog_ok_def)
  ultimately show ?case using ts by simp
qed

text \<open>An image does not start with the magic code: the size of the instructions is a multiple of four.\<close>

lemma image_no_magic: "check_magic (code_image us strs @ rest) magic_code_pyo = Some False"
proof -
  have "(of_nat (4 * n mod 256) :: byte) \<noteq> 15" for n
  proof
    assume "(of_nat (4 * n mod 256) :: byte) = 15"
    then have "unat (of_nat (4 * n mod 256) :: byte) = 15" by simp
    then have "4 * n mod 256 = 15" by (simp only: unat_of_nat_byte)
    then have "4 * n mod 256 mod 4 = 3" by simp
    then show False by (simp add: mod_mod_cancel)
  qed
  moreover have "le_bytes 4 x = of_nat (x mod 256) # le_bytes 3 (x div 256)" for x
    using le_bytes.simps(2) [of 3 x] by (simp del: le_bytes.simps)
  ultimately show ?thesis unfolding code_image_def magic_code_pyo_def by (simp only: append_Cons check_magic.simps if_False)
qed

lemma load_image:
  assumes "4 * length us < U32" "length (pool_bytes strs) < U32"
  shows "do_byteCodeFrame_loadByteCode bf (code_image us strs @ rest) None True = Some (bf\<lparr>
      instruct_array := (instruct_array bf)\<lparr>ia_size := 4 * length us,
        ia_content_start := Some (concat (map unit_bytes us) @ le_bytes 4 (length (pool_bytes strs)) @ pool_bytes strs @ rest)\<rparr>,
      const_pool := (const_pool bf)\<lparr>cp_size := length (pool_bytes strs),
        cp_content_start := Some (pool_bytes strs @ rest)\<rparr>\<rparr>)"
proof -
  have u: "U32 = 256 ^ 4" by (simp add: U32_def)
  have g: "get_le 4 (code_image us strs @ rest) = Some (4 * length us)"
    using assms(1) unfolding u code_image_def append_assoc by (rule get_le_le_bytes)
  have d: "drop 4 (code_image us strs @ rest) = concat (map unit_bytes us) @ le_bytes 4 (length (pool_bytes strs)) @ pool_bytes strs @ rest"
    by (simp add: code_image_def)
  have c: "get_le 4 (le_bytes 4 (length (pool_bytes strs)) @ pool_bytes strs @ rest) = Some (length (pool_bytes strs))"
    using assms(2) unfolding u by (rule get_le_le_bytes)
  have e: "drop (4 * length us) (concat (map unit_bytes us) @ xs) = xs" for xs by simp
  have f: "drop 4 (le_bytes 4 x @ xs) = xs" for x xs by simp
  show ?thesis
    unfolding do_byteCodeFrame_loadByteCode_def image_no_magic
    by (simp only: bind.simps if_False g d e f c Let_def) (simp add: byteCodeFrame_setName_def)
qed

lemma load_image_views:
  assumes "4 * length us < U32" "length (pool_bytes strs) < U32"
    and "map (unit_view (pool_of strs rest)) us = map Some instrs"
  shows "\<exists>bf'. byteCodeFrame_loadByteCode bf (code_image us strs @ rest) = Some bf' \<and> disassemble bf' = Some instrs"
proof -
  obtain bf' where bf': "byteCodeFrame_loadByteCode bf (code_image us strs @ rest) = Some bf'"
    and i: "ia_content_start (instruct_array bf') = Some (concat (map unit_bytes us) @
      le_bytes 4 (length (pool_bytes strs)) @ pool_bytes strs @ rest)" "ia_size (instruct_array bf') = 4 * length us"
    and c: "cp_content_start (const_pool bf') = Some (pool_bytes strs @ rest)"
    using load_image [OF assms(1,2), of bf rest] by (simp add: byteCodeFrame_loadByteCode_def)
  have "unit_view (const_pool bf') = unit_view (pool_of strs rest)"
    by (intro ext unit_view_start) (simp add: c pool_of_def)
  then show ?thesis using disassemble_eq [OF i] assms(3) bf' by simp
qed

lemma load_magic: "do_byteCodeFrame_loadByteCode bf (magic_code_pyo @ le_bytes 4 n @ code_image us strs @ rest) nm k =
  do_byteCodeFrame_loadByteCode bf (code_image us strs @ rest) nm k"
proof -
  have m: "check_magic (magic_code_pyo @ xs) magic_code_pyo = Some True" for xs by (simp add: magic_code_pyo_def)
  have d: "drop 8 (magic_code_pyo @ le_bytes 4 n @ xs) = xs" for xs by (simp add: magic_code_pyo_def)
  show ?thesis unfolding do_byteCodeFrame_loadByteCode_def m image_no_magic by (simp only: d bind.simps if_True if_False)
qed

lemma pikaCompile_image:
  assumes "prog_ok prog" "recent g = VM_default_instruction_set"
    and "prog_data prog + 1 \<le> 65535" "4 * length (concat prog) + 65543 < U32"
  defines "us \<equiv> fst (prog_run [] prog)" and "strs \<equiv> snd (prog_run [] prog)"
  shows "pikaCompile g True (map asm_lines prog) PIKA_RES_OK = Some (PIKA_RES_OK,
      Some (magic_code_pyo @ le_bytes 4 (length (code_image us strs)) @ code_image us strs))"
    and "\<forall>s \<in> set strs. cstring s" "length (pool_bytes strs) \<le> 65535"
proof -
  have pass: "\<exists>bf'. append_all g (with_redirects rc ri (byteCodeFrame_init bf)) (map asm_lines prog) = Some (g, bf') \<and>
      frame_rep bf' us strs \<and> length (pool_bytes strs) \<le> 65535 \<and>
      cp_output_redirect_fun (const_pool bf') = rc \<and> ia_output_redirect_fun (instruct_array bf') = ri"
    if "rc \<noteq> To_none" for rc ri bf
    using append_all_rep [OF assms(1) frame_rep_start [OF that] assms(2), of ri bf] assms(3,4)
    by (simp add: us_def strs_def with_redirects_def)
  obtain bf1 where b1: "append_all g (with_redirects To_buff To_none (byteCodeFrame_init zero_frame)) (map asm_lines prog) = Some (g, bf1)"
    and r1: "frame_rep bf1 us strs" "length (pool_bytes strs) \<le> 65535"
    using pass [of To_buff To_none zero_frame] by blast
  obtain bf2 where b2: "append_all g (with_redirects To_buff To_file (byteCodeFrame_init bf1)) (map asm_lines prog) = Some (g, bf2)"
    and r2: "ia_output_f (instruct_array bf2) = concat (map unit_bytes us)"
    using pass [of To_buff To_file bf1] by (auto simp: frame_rep_def arr_rep_def)
  obtain bf3 where b3: "append_all g (with_redirects To_file To_none (byteCodeFrame_init bf2)) (map asm_lines prog) = Some (g, bf3)"
    and r3: "cp_output_f (const_pool bf3) = concat (map str_bytes strs)"
    using pass [of To_file To_none bf2] by (auto simp: frame_rep_def pool_rep_def)
  have sz: "cp_size (const_pool bf1) = length (pool_bytes strs)" "ia_size (instruct_array bf1) = 4 * length us"
    using r1(1) by (simp_all add: frame_rep_def pool_rep_def arr_rep_def)
  have "length us \<le> length (concat prog)" unfolding us_def by (rule prog_run_length)
  then have "u32_add (length (pool_bytes strs)) (4 * length us) = length (pool_bytes strs) + 4 * length us"
    "u32_add (length (pool_bytes strs) + 4 * length us) 8 = length (code_image us strs)"
    using assms(4) r1(2) by (simp_all add: u32_add_small code_image_def)
  moreover have "pool_bytes strs = [0] @ concat (map str_bytes strs)" by (simp add: pool_bytes_def str_bytes_def)
  ultimately show "pikaCompile g True (map asm_lines prog) PIKA_RES_OK = Some (PIKA_RES_OK,
      Some (magic_code_pyo @ le_bytes 4 (length (code_image us strs)) @ code_image us strs))"
    by (simp add: pikaCompile_def b1 b2 b3 sz r2 r3 code_image_def Let_def)
  show "\<forall>s \<in> set strs. cstring s" using r1(1) by (simp add: frame_rep_def pool_rep_def)
  show "length (pool_bytes strs) \<le> 65535" by (rule r1(2))
qed

section \<open>Properties\<close>

text \<open>C29: Compiling: for any sequence of assembly texts whose numbers fit the fields and whose constants
  fit a 16-bit pool, the three passes succeed and agree with each other: the file they write in
  pieces states its own size, and loading it, with any bytes behind it, gives a frame from which
  exactly the instructions of the texts are read, each with its own constant.\<close>

theorem pikaCompile_load:
  assumes "prog_ok prog" "recent g = VM_default_instruction_set"
    and "prog_data prog + 1 \<le> 65535" "4 * length (concat prog) + 65543 < U32"
  shows "\<exists>file bf'. pikaCompile g True (map asm_lines prog) PIKA_RES_OK = Some (PIKA_RES_OK, Some file) \<and>
    get_le 4 (drop 4 file) = Some (length file - 8) \<and>
    byteCodeFrame_loadByteCode bf (file @ rest) = Some bf' \<and>
    disassemble bf' = Some (concat (map (asm_instrs 0 False) prog))"
proof -
  let ?us = "fst (prog_run [] prog)" and ?strs = "snd (prog_run [] prog)"
  let ?file = "magic_code_pyo @ le_bytes 4 (length (code_image ?us ?strs)) @ code_image ?us ?strs"
  note c = pikaCompile_image [OF assms]
  have l: "4 * length ?us < U32" "length (pool_bytes ?strs) < U32" "length (code_image ?us ?strs) < U32"
    using prog_run_length [of "[]" prog] c(3) assms(4) by (simp_all add: code_image_def)
  obtain bf' where "byteCodeFrame_loadByteCode bf (code_image ?us ?strs @ rest) = Some bf'"
    "disassemble bf' = Some (concat (map (asm_instrs 0 False) prog))"
    using load_image_views [OF l(1,2) prog_run_views [OF assms(1) c(2,3)]] by blast
  moreover have "byteCodeFrame_loadByteCode bf (?file @ rest) = byteCodeFrame_loadByteCode bf (code_image ?us ?strs @ rest)"
    by (simp add: byteCodeFrame_loadByteCode_def load_magic)
  moreover have "get_le 4 (drop 4 ?file) = Some (length ?file - 8)"
    using get_le_le_bytes [of "length (code_image ?us ?strs)" 4 "code_image ?us ?strs"] l(3)
    by (simp add: magic_code_pyo_def U32_def)
  ultimately show ?thesis using c(1) by metis
qed

theorem pikaCompile_load_witness:
  "\<exists>file bf'. pikaCompile g_PikaVMInsSet True (map asm_lines [[Block 0, Ins 0 INS_NUM ''1''], [Block 1, Ins 0 INS_OUT ''a'']])
      PIKA_RES_OK = Some (PIKA_RES_OK, Some file) \<and>
    byteCodeFrame_loadByteCode frame0 (file @ [1, 2]) = Some bf' \<and>
    disassemble bf' = Some [(0, 0, True, 5, ''1''), (1, 0, True, 4, ''a'')]"
proof -
  let ?p = "[[Block 0, Ins 0 INS_NUM ''1''], [Block 1, Ins 0 INS_OUT ''a'']]"
  have "PIKA_INS INS_NUM = 5" "PIKA_INS INS_OUT = 4" by (simp_all add: PIKA_INS_def instruction_table_def)
  then have "concat (map (asm_instrs 0 False) ?p) = [(0, 0, True, 5, ''1''), (1, 0, True, 4, ''a'')]" by simp
  moreover have "prog_ok ?p" "prog_data ?p + 1 \<le> 65535" "4 * length (concat ?p) + 65543 < U32"
    by (simp_all add: prog_ok_def prog_data_def U32_def)
  moreover have "recent g_PikaVMInsSet = VM_default_instruction_set" by (simp add: g_PikaVMInsSet_def)
  ultimately show ?thesis using pikaCompile_load [of ?p g_PikaVMInsSet frame0 "[1, 2]"] by metis
qed

end
