(* ===== verification/Pika_Program.thy ===== *)
theory Pika_Program
  imports Pika_LineText Pika_Compiler
begin

text \<open>
  What the line parser makes of programs: assignments and calls in nested \<open>if\<close> and \<open>while\<close> blocks, from
  the indented text to the instructions in the byte code.
\<close>

section \<open>From a line to its tree\<close>

text \<open>A statement is not taken for a keyword, and the parser is at the depth of the first line, 0.\<close>

definition code_line :: "nat \<Rightarrow> string option \<Rightarrow> stmt \<Rightarrow> bool" where
  "code_line n b s \<longleftrightarrow> line_ok n b s \<and> (b = None \<longrightarrow> not_keyword s)"

definition at_line :: "nat \<Rightarrow> string list \<Rightarrow> Parser \<Rightarrow> bool" where
  "at_line d st p \<longleftrightarrow> block_stack p = st \<and> block_deepth p = 0 \<and> d \<le> length st \<and> length st < 16 \<and>
     (blockDeepthOrigin p = 0 \<or> blockDeepthOrigin p = VAL_NEED_INIT \<and> d = 0 \<and> st = [])"

definition push_block :: "string option \<Rightarrow> string list \<Rightarrow> string list" where
  "push_block b st = (case b of None \<Rightarrow> st | Some k \<Rightarrow> k # st)"

definition closed :: "nat \<Rightarrow> string list \<Rightarrow> string list" where
  "closed d st = take (length st - d) st"

definition still_open :: "nat \<Rightarrow> string list \<Rightarrow> string list" where
  "still_open d st = drop (length st - d) st"

lemma line_form_line:
  assumes "code_line n b s"
  shows "line_form (core_text b s) = Some (Some ((case b of None \<Rightarrow> [] | Some k \<Rightarrow> [Set_attr ''block'' k]), b, Some (print s)))"
  using assms form_plain [of n s] form_cond [of n] by (cases b) (auto simp: code_line_def)

lemma line2Ast_line:
  assumes "code_line n b s" "n < 126" "short (indented d (core_text b s))" "at_line d st p"
  shows "parser_line2Ast p (indented d (core_text b s)) =
    Some (p\<lparr>blockDeepthOrigin := 0, block_stack := push_block b (still_open d st)\<rparr>,
      Some \<lparr> ta_tree = line_tree b s, ta_blockDeepth = d, ta_exitBlock = (if length st = d then None else Some (closed d st)) \<rparr>)"
proof -
  let ?L = "indented d (core_text b s)" and ?p = "p\<lparr>blockDeepthOrigin := 0\<rparr>"
  have l: "line_ok n b s" using assms(1) by (simp add: code_line_def)
  have pa: "block_stack p = st" "block_deepth p = 0" "d \<le> length st" "length st < 16"
    "blockDeepthOrigin p = 0 \<or> blockDeepthOrigin p = VAL_NEED_INIT \<and> d = 0 \<and> st = []"
    using assms(4) by (simp_all add: at_line_def)
  have doc: "\<not> starts ?L ''@docstring''"
  proof
    assume "starts ?L ''@docstring''"
    then have "take 10 ?L = ''@docstring''" by (simp add: starts_iff eval_nat_numeral)
    then have "CHR ''@'' \<in> set ?L" by (metis in_set_takeD list.set_intros(1))
    then show False using indented_not [OF l, of "CHR ''@''" d] by simp
  qed
  have d0: "i8 (Parser_getPyLineBlockDeepth ?L) = int d" using depth_line [OF l, of d] pa(3,4) by (simp add: i8_signed)
  have o1: "(if blockDeepthOrigin p = VAL_NEED_INIT then p\<lparr>blockDeepthOrigin := int d\<rparr> else p) = ?p"
    using pa(5) by (auto simp: VAL_NEED_INIT_def)
  have fin: "finish_line (AST a []) (Some (print s)) = Some (Some (AST (a ++ attrs (tree s)) (sub_stmts (tree s))))" for a
  proof (rule finish_print)
    show "stmt_wf n s" using l by (simp add: line_ok_def)
    show "short (print s)" using assms(3) by (cases b) (simp_all add: indented_def core_text_def short_def)
  qed (fact assms(2))
  have drop: "drop (nat (int d * 4)) ?L = core_text b s" by (simp add: indented_def nat_mult_distrib mult.commute)
  have len: "int d * 4 \<le> int (length ?L)" by (simp add: indented_def)
  have i: "i8 (int d + block_deepth ?p) = int d" using pa(2-4) by (simp add: i8_signed)
  have n: "(if length (block_stack ?p) = 0 then 0
      else nat (i8 (int (length (block_stack ?p)) + block_deepth ?p + blockDeepthOrigin ?p) - int d)) = length st - d"
    using pa(1-4) by (auto simp: i8_signed nat_diff_distrib)
  have start: "(int d - block_deepth ?p) * 4 = int d * 4" using pa(2) by simp
  have pop: "pop_blocks (length st - d) (block_stack ?p) = Some (closed d st, still_open d st)"
    using pa(1) by (simp add: pop_blocks_def closed_def still_open_def)
  have calls: "AST_calls AST_create (case b of None \<Rightarrow> [] | Some k \<Rightarrow> [Set_attr ''block'' k]) =
      Some (Some (AST (case b of None \<Rightarrow> Map.empty | Some k \<Rightarrow> [''block'' \<mapsto> k]) []))"
    by (cases b) (simp_all add: AST_calls.simps [of _ "[]"] AST_calls.simps [of _ "Set_attr _ _ # _"] AST_create_def AST_setNodeAttr_def)
  have "length st - d = 0 \<longleftrightarrow> length st = d" using pa(3) by auto
  then show ?thesis
    using doc len line_form_line [OF assms(1)] calls fin
    unfolding parser_line2Ast_def Let_def d0 o1 i n start pop drop
    by (cases b) (simp_all add: push_block_def line_tree_def)
qed

section \<open>From the tree of a line to its code\<close>

text \<open>Leaving blocks, and the code of a line behind it.\<close>

fun close :: "nat \<Rightarrow> string list \<Rightarrow> asm_stmt list" where
  "close d [] = []"
| "close d (t # ts) = (if t = ''while'' then [Block (d + length ts), Ins 0 INS_JMP ''-1''] else []) @ close d ts"

definition jump_code :: "string option \<Rightarrow> asm_stmt list" where
  "jump_code b = (case b of None \<Rightarrow> [] | Some k \<Rightarrow> [Ins 0 INS_JEZ (if k = ''if'' then ''1'' else ''2'')])"

definition line_code :: "nat \<Rightarrow> string list \<Rightarrow> string option \<Rightarrow> stmt \<Rightarrow> asm_stmt list" where
  "line_code d st b s = close d (closed d st) @ Block d # stmt_code 0 s @ jump_code b"

lemma addBlock_eq:
  assumes "cstring asm" "bd + off < 256"
  shows "ASM_addBlockDeepth bd asm off = Some (asm @ asm_lines [Block (bd + off)])"
proof -
  have "cstring (decimal (bd + off))" using decimal_chars [of NUL "bd + off"] by (auto simp: cstring_def)
  then show ?thesis using assms by (simp add: ASM_addBlockDeepth_def strsAppend_eq itoa_name U32_def)
qed

lemma ins_lines: "asm_lines [Ins 0 i v] = ''0 '' @ ins_name i @ '' '' @ v @ [CH_NL]"
  by (simp add: decimal.simps digit_def char_of_def bit_0)

lemma append_line: "cstring asm \<Longrightarrow> cstring l \<Longrightarrow> append_lines asm [l] = Some (asm @ l @ [CH_NL])"
  by (simp add: append_lines_def strsAppend_eq)

lemma exit_loop_eq:
  assumes "set ts \<subseteq> {''if'', ''while''}" "cstring asm" "bd + length ts < 256"
  shows "exit_loop bd ts asm = Some (asm @ asm_lines (close bd ts))"
  using assms
proof (induction ts arbitrary: asm)
  case (Cons t ts)
  have j: "''0 JMP -1'' @ [CH_NL] = asm_lines [Ins 0 INS_JMP ''-1'']" unfolding ins_lines by (simp add: ins_name_def PIKA_INS_def instruction_table_def)
  have j: "append_lines x [''0 JMP -1''] = Some (x @ asm_lines [Ins 0 INS_JMP ''-1''])" if "cstring x" for x
    using append_line [OF that, of "''0 JMP -1''"] unfolding ins_lines by (simp add: ins_name_def PIKA_INS_def instruction_table_def cstring_def)
  have c: "cstring (asm_lines [Block n])" "cstring (asm_lines [Ins 0 INS_JMP ''-1''])" for n
    using decimal_chars [of NUL n] unfolding ins_lines by (auto simp: cstring_def ins_name_def PIKA_INS_def instruction_table_def)
  show ?case
  proof (cases "t = ''while''")
    case True
    have "ASM_addBlockDeepth bd asm (length ts mod 256) = Some (asm @ asm_lines [Block (bd + length ts)])"
      using addBlock_eq [OF Cons.prems(2), of bd "length ts"] Cons.prems(3) by simp
    then show ?thesis using Cons True j c by (simp add: Let_def)
  next
    case False
    then have "t = ''if''" using Cons.prems(1) by simp
    then show ?thesis using Cons by (simp add: Let_def)
  qed
qed simp

definition block_attr :: "string option \<Rightarrow> string \<Rightarrow> string option" where
  "block_attr b = (case b of None \<Rightarrow> Map.empty | Some k \<Rightarrow> [''block'' \<mapsto> k])"

lemma block_attr_other: "x \<noteq> ''block'' \<Longrightarrow> (block_attr b ++ f) x = f x"
  by (cases b) (auto simp: block_attr_def map_add_def split: option.splits)

lemma block_attr_tree: "(block_attr b ++ attrs (tree s)) ''block'' = b"
  by (cases s; cases b) (auto simp: block_attr_def map_add_def node_attrs_def split: kind.splits option.splits)

lemma codes_not_block: "(r, i) \<in> set rule_codes \<Longrightarrow> gr_ast r \<noteq> ''block''"
  by (auto simp: rule_codes_def rules_after_def rule_def)

lemma line_tree_eq: "line_tree b s = AST (block_attr b ++ attrs (tree s)) (sub_stmts (tree s))"
  by (simp add: line_tree_def block_attr_def)

lemma post_line_tree: "post 0 (line_tree b s) = stmt_code 0 s"
proof -
  obtain a subs where t: "tree s = AST a subs" by (cases "tree s")
  have "rule_stmt 0 (block_attr b ++ a) r = rule_stmt 0 a r" if "r \<in> set rule_codes" for r
  proof -
    obtain q i where r: "r = (q, i)" by (cases r)
    have "(block_attr b ++ a) (gr_ast q) = a (gr_ast q)" using codes_not_block [of q i] that r by (intro block_attr_other) simp
    then show ?thesis by (simp add: r rule_stmt_def)
  qed
  then have "map (rule_stmt 0 (block_attr b ++ a)) rule_codes = map (rule_stmt 0 a) rule_codes" by simp
  then have "post 0 (line_tree b s) = post 0 (tree s)" using block_attr_other by (simp add: line_tree_eq t del: map_eq_conv)
  then show ?thesis by (simp add: post_tree)
qed

lemma line_tree_ok:
  assumes "stmt_wf n s"
  shows "attrs_ok (line_tree b s)"
    and "x \<in> set ([''docstring'', ''comprehension''] @ map gr_ast rules_topAst) \<Longrightarrow> attrs (line_tree b s) x = None"
proof -
  obtain a subs where t: "tree s = AST a subs" by (cases "tree s")
  have ok: "attrs_ok (AST a subs)" "plain_line (tree s)" using tree_ok [OF assms] t by simp_all
  have "(block_attr b ++ a) (gr_ast r) = a (gr_ast r)" if "(r, i) \<in> set rule_codes" for r i
    using codes_not_block [OF that] by (rule block_attr_other)
  then show "attrs_ok (line_tree b s)" using ok(1) by (fastforce simp: line_tree_eq t)
  show "attrs (line_tree b s) x = None" if x: "x \<in> set ([''docstring'', ''comprehension''] @ map gr_ast rules_topAst)"
  proof -
    have "x \<noteq> ''block''" using x by (auto simp: rules_topAst_def rule_def)
    then show ?thesis using x ok(2) block_attr_other unfolding plain_line_def line_tree_eq by auto
  qed
qed

definition exits :: "nat \<Rightarrow> string list \<Rightarrow> string list option" where
  "exits d st = (if length st = d then None else Some (closed d st))"

lemma exit_code:
  assumes "set st \<subseteq> {''if'', ''while''}" "length st < 16" "d \<le> length st"
  shows "\<exists>a0. (case exits d st of None \<Rightarrow> Some [] | Some ts \<Rightarrow> exit_loop d ts []) = Some a0 \<and>
      ASM_addBlockDeepth d a0 0 = Some (asm_lines (close d (closed d st) @ [Block d]))"
    and "cstring (asm_lines (close d (closed d st) @ [Block d]))"
proof -
  have s: "set (closed d st) \<subseteq> {''if'', ''while''}" using assms(1) set_take_subset by (fastforce simp: closed_def)
  have l: "d + length (closed d st) < 256" "d < 256" using assms(2,3) by (simp_all add: closed_def)
  have "set ts \<subseteq> {''if'', ''while''} \<Longrightarrow> cstring (asm_lines (close d ts))" for ts
  proof (induction ts)
    case (Cons t ts)
    have "cstring (asm_lines [Block n])" "cstring (asm_lines [Ins 0 INS_JMP ''-1''])" for n
      using decimal_chars [of NUL n] unfolding ins_lines by (auto simp: cstring_def ins_name_def PIKA_INS_def instruction_table_def)
    then show ?case using Cons by simp
  qed simp
  then have c: "cstring (asm_lines (close d (closed d st)))" using s by blast
  moreover have "cstring (decimal d)" using decimal_chars [of NUL d] by (auto simp: cstring_def)
  ultimately show "cstring (asm_lines (close d (closed d st) @ [Block d]))" by simp
  show "\<exists>a0. (case exits d st of None \<Rightarrow> Some [] | Some ts \<Rightarrow> exit_loop d ts []) = Some a0 \<and>
      ASM_addBlockDeepth d a0 0 = Some (asm_lines (close d (closed d st) @ [Block d]))"
    using exit_loop_eq [OF s, of "[]" d] l addBlock_eq [OF c, of d 0] addBlock_eq [of "[]" d 0]
    by (auto simp: exits_def closed_def)
qed

lemma genAsm_line:
  assumes "stmt_wf n s" "b \<in> keys" "set st \<subseteq> {''if'', ''while''}" "length st < 16" "d \<le> length st"
  shows "AST_genAsm_top lc lcode (Some \<lparr> ta_tree = line_tree b s, ta_blockDeepth = d, ta_exitBlock = exits d st \<rparr>) =
    Some (Some (asm_lines (line_code d st b s)))"
proof -
  let ?T = "line_tree b s" and ?a = "asm_lines (close d (closed d st) @ [Block d])"
  obtain a0 where e: "(case exits d st of None \<Rightarrow> Some [] | Some ts \<Rightarrow> exit_loop d ts []) = Some a0" "ASM_addBlockDeepth d a0 0 = Some ?a"
    "cstring ?a" using exit_code [OF assms(3-5)] by blast
  note t = line_tree_ok [OF assms(1), where b = b]
  have none: "attrs ?T ''docstring'' = None" "attrs ?T ''comprehension'' = None"
    "find_rule (\<lambda>r. attrs ?T (gr_ast r) \<noteq> None) rules_topAst = None" "attrs ?T ''block'' = b"
    using t(2) block_attr_tree by (auto simp: find_rule_None line_tree_eq)
  have g: "AST_genAsm lc d (attrs ?T) 0 ?T ?a = Some (?a @ asm_lines (stmt_code 0 s))" "cstring (asm_lines (stmt_code 0 s))"
    using AST_genAsm_post [where root = "attrs ?T" and d = 0, OF none(2) t(1) e(3)] by (simp_all add: post_line_tree)
  show ?thesis
  proof (cases b)
    case None
    then have "find_rule (\<lambda>r. attrs ?T ''block'' = Some (gr_ast r)) rules_block = None" using none(4) by (simp add: find_rule_None)
    then show ?thesis using none e g None
      by (simp add: AST_genAsm_top_def Let_def line_code_def jump_code_def)
  next
    case (Some k)
    let ?j = "if k = ''if'' then ''1'' else ''2''"
    have k: "k = ''if'' \<or> k = ''while''" using assms(2) Some by simp
    then have r: "find_rule (\<lambda>r. Some k = Some (gr_ast r)) rules_block = Some (rule ''JEZ'' VAL_STATIC k ?j)"
      by (elim disjE; simp add: rules_block_def rule_def)
    have x: "ins_text 0 ''JEZ'' @ ?j @ [CH_NL] = asm_lines [Ins 0 INS_JEZ ?j]" "cstring ?j"
      unfolding ins_lines by (simp_all add: ins_text_def int_text_def decimal.simps digit_def char_of_def bit_0 ins_name_def PIKA_INS_def instruction_table_def cstring_def)
    have "GenRule_toAsm lc (rule ''JEZ'' VAL_STATIC k ?j) d ?T ?a 0 = Some (?a @ asm_lines (stmt_code 0 s) @ asm_lines [Ins 0 INS_JEZ ?j])"
    proof -
      have c: "cstring (ins_text 0 ''JEZ'')"
        by (simp add: ins_text_def int_text_def decimal.simps digit_def char_of_def bit_0 cstring_def)
      have q: "gr_ins (rule ''JEZ'' VAL_STATIC k ?j) = ''JEZ''" "gr_type (rule ''JEZ'' VAL_STATIC k ?j) = VAL_STATIC"
        "gr_val (rule ''JEZ'' VAL_STATIC k ?j) = ?j" by (simp_all add: rule_def)
      show ?thesis
        unfolding GenRule_toAsm_def g(1) q x(1) [symmetric] using c x(2) e(3) g(2) by (simp add: strsAppend_eq)
    qed
    then show ?thesis using none e r k g Some
      by (auto simp: AST_genAsm_top_def Let_def line_code_def jump_code_def)
  qed
qed

section \<open>The code of a line in the parser\<close>

definition after_line :: "nat \<Rightarrow> string option \<Rightarrow> string list \<Rightarrow> Parser \<Rightarrow> Parser" where
  "after_line d b st p = p\<lparr>blockDeepthOrigin := 0, block_stack := push_block b (still_open d st)\<rparr>"

lemma line2Target_line:
  assumes "code_line n b s" "n < 126" "short (indented d (core_text b s))" "at_line d st p" "set st \<subseteq> {''if'', ''while''}"
  shows "parser_line2Target (AST_genAsm_top lc lcode) p (indented d (core_text b s)) =
    Some (after_line d b st p, Some (asm_lines (line_code d st b s)))"
proof -
  let ?L = "indented d (core_text b s)"
  have l: "line_ok n b s" using assms(1) by (simp add: code_line_def)
  have at: "CHR ''@'' \<notin> set ?L" "CH_NL \<notin> set ?L" using indented_not [OF l] by simp_all
  have doc: "\<not> starts ?L ''@docstring''" "\<not> equ ''@annotation'' ?L"
    using at(1) in_set_takeD [of "CHR ''@''" 10 ?L] by (simp add: starts_iff eval_nat_numeral, force) (metis at(1) list.set_intros(1) strEqu_iff)
  have pop: "strsPopToken ?L CH_NL = Some (?L, [])" using cstring_line [OF l] at(2) by (intro pop_single)
  have "nat (strCountSign ?L CH_NL + 1) mod 256 = Suc 0" using at(2) by (simp add: strCountSign_eq count_list_0_iff)
  moreover have "AST_genAsm_top lc lcode (Some \<lparr> ta_tree = line_tree b s, ta_blockDeepth = d, ta_exitBlock = exits d st \<rparr>) =
      Some (Some (asm_lines (line_code d st b s)))"
    using assms(1,4,5) by (intro genAsm_line) (auto simp: code_line_def line_ok_def at_line_def)
  ultimately show ?thesis
    using doc pop linePreProcess_line [OF l assms(3,2)] line2Ast_line [OF assms(1-4)]
    by (simp add: parser_line2Target_def after_line_def exits_def)
qed

text \<open>The empty line at the end closes the blocks.\<close>

lemma line2Target_end:
  assumes "at_line 0 st p" "set st \<subseteq> {''if'', ''while''}"
  shows "parser_line2Target (AST_genAsm_top lc lcode) p [] = Some (after_line 0 None st p, Some (asm_lines (close 0 st @ [Block 0])))"
proof -
  have st: "block_stack p = st" "block_deepth p = 0" "length st < 16"
    "blockDeepthOrigin p = 0 \<or> blockDeepthOrigin p = VAL_NEED_INIT \<and> st = []"
    using assms(1) by (auto simp: at_line_def)
  have lex: "Lexer_isError [] = Some 0" using lexes_simple [of "[]"] by (simp add: Lexer_isError_def lexes_def)
  have imp: "Suger_import [] = Some []"
    by (simp add: Suger_import_def Suger_import_as_def Suger_from_import_as_def starts_iff strsCopy_eq import_loop.simps [of "[]"] strPopFirstToken_def)
  have once: "Parser_sugerProcessOnce [] = Some []"
    by (simp add: Parser_sugerProcessOnce_def Suger_processor_list_def imp Suger_semicolon_def Suger_multiAssign_def Cursor_count_def
        Cursor_count_ex_def strstr_missing strCountSign_eq)
  have "suger_lines [[]] = Some [[]]"
    using once by (subst suger_lines.simps) (simp add: suger_lines.simps [of "[]"] Parser_getPyLineBlockDeepth_def)
  then have pre: "Parser_linePreProcess [] = Some (Some [])"
    using lex by (simp add: Parser_linePreProcess_def Parser_removeComment_def strsDeleteChar_eq Parser_sugerProcess_def Parser_getPyLineBlockDeepth_def)
  have form: "line_form [] = Some (Some ([], None, Some []))"
    by (simp add: line_form_def normal_keywords_def control_keywords_def starts_iff form_mark_def)
  have clean: "Cursor_getCleanStmt [] = Some []" using getCleanStmt_eq [of "[]" "[]"] lexes_simple [of "[]"] by (simp add: short_def)
  have fin: "finish_line AST_create (Some []) = Some (Some AST_create)"
    using clean stmt_calls_Nil by (simp add: finish_line_def AST_parseStmt_def AST_calls.simps [of _ "[]"])
  have o1: "(if blockDeepthOrigin p = VAL_NEED_INIT then p\<lparr>blockDeepthOrigin := 0\<rparr> else p) = p\<lparr>blockDeepthOrigin := 0\<rparr>"
    using st(4) by (auto simp: VAL_NEED_INIT_def)
  have i: "i8 0 = 0" "i8 (int (length st)) = int (length st)" using st(3) by (simp_all add: i8_signed)
  have ast: "parser_line2Ast p [] = Some (after_line 0 None st p,
      Some \<lparr> ta_tree = AST_create, ta_blockDeepth = 0, ta_exitBlock = exits 0 st \<rparr>)"
    using st(1,2) form fin
    by (simp add: parser_line2Ast_def Let_def starts_iff Parser_getPyLineBlockDeepth_def i o1 pop_blocks_def after_line_def push_block_def
        still_open_def exits_def closed_def AST_calls.simps [of _ "[]"])
  obtain a0 where e: "(case exits 0 st of None \<Rightarrow> Some [] | Some ts \<Rightarrow> exit_loop 0 ts []) = Some a0"
    "ASM_addBlockDeepth 0 a0 0 = Some (asm_lines (close 0 st @ [Block 0]))" "cstring (asm_lines (close 0 st @ [Block 0]))"
    using exit_code [OF assms(2) st(3), of 0] by (auto simp: closed_def)
  have "concat (map (rule_stmt 0 (\<lambda>_. None)) rs) = []" for rs by (induction rs) (auto simp: rule_stmt_def)
  then have "post 0 AST_create = []" by (simp add: AST_create_def)
  then have "AST_genAsm lc 0 (attrs AST_create) 0 AST_create (asm_lines (close 0 st @ [Block 0])) = Some (asm_lines (close 0 st @ [Block 0]))"
    using AST_genAsm_post [where root = "attrs AST_create" and d = 0 and T = AST_create, OF _ _ e(3)]
    by (auto simp: AST_create_def simp del: post.simps)
  then have "AST_genAsm_top lc lcode (Some \<lparr> ta_tree = AST_create, ta_blockDeepth = 0, ta_exitBlock = exits 0 st \<rparr>) =
      Some (Some (asm_lines (close 0 st @ [Block 0])))"
    using e by (simp add: AST_genAsm_top_def Let_def AST_create_def find_rule_None [THEN iffD2])
  then show ?thesis
    using pre ast strsPopToken_eq [of "[]" CH_NL] by (simp add: parser_line2Target_def starts_iff strCountSign_eq)
qed

section \<open>The lines of a program\<close>

lemma docstring_none:
  assumes "CH_SQ \<notin> set l" "CH_DQ \<notin> set l"
  shows "docstring_loop l False i False 0 None = (False, 0, None, False)"
proof (induction "length l - i" arbitrary: i rule: less_induct)
  case less
  show ?case
  proof (cases "i + 2 < length l")
    case True
    then have "l ! i \<noteq> CH_SQ \<and> l ! i \<noteq> CH_DQ" using assms nth_mem [of i l] by fastforce
    then show ?thesis using True less [of "Suc i"] by (subst docstring_loop.simps) (simp add: strGetSize_def)
  next
    case False
    then show ?thesis by (subst docstring_loop.simps) (simp add: strGetSize_def)
  qed
qed

definition plain_state :: "Lines \<Rightarrow> bool" where
  "plain_state S \<longleftrightarrow> \<not> bIsInDocstring S \<and> \<not> bIsLineConnection S"

lemma line_step_plain:
  assumes "cstring L" "{CH_BS, CH_SQ, CH_DQ, CH_TAB, CH_CR} \<inter> set L = {}" "\<not> Parser_isVoidLine L" "bracket_end L = Some 0" "plain_state S"
  shows "line_step S N L = Some (S, Parse_line L)"
proof -
  have ne: "L \<noteq> []" using assms(3) by (auto simp: Parser_isVoidLine_def)
  then have "last L \<noteq> CH_BS" using assms(2) last_in_set [OF ne] by (metis Int_iff empty_iff insertCI)
  moreover have "Parser_checkIsDocstring L False = Some None"
    using docstring_none [of L 0] assms(2) by (simp add: Parser_checkIsDocstring_def)
  moreover have "strstr L [CH_TAB] = None" "strstr L [CH_CR] = None" using assms(2) by (auto intro: strstr_missing)
  then have "strsReplace L [CH_TAB] w = Some (Some L)" "strsReplace L [CH_CR] w = Some (Some L)" for w
    by (simp_all add: strsReplace_def)
  ultimately show ?thesis
    using assms(3-5) ne strsCopy_eq [OF assms(1)] by (simp add: line_step_def connect_line_def plain_state_def)
qed

lemma line_step_line:
  assumes "line_ok n b s" "n < 126" "short (indented d (core_text b s))" "plain_state S"
  shows "line_step S N (indented d (core_text b s)) = Some (S, Parse_line (indented d (core_text b s)))"
proof (rule line_step_plain)
  have "hd (core_text b s) \<in> set (indented d (core_text b s))" using core_start(1) [OF assms(1)] by (simp add: indented_def)
  moreover have "hd (core_text b s) \<noteq> CHR '' ''" using word_chars [OF core_start(2) [OF assms(1)]] by simp
  ultimately show "\<not> Parser_isVoidLine (indented d (core_text b s))" unfolding Parser_isVoidLine_def by blast
  show "cstring (indented d (core_text b s))" by (rule cstring_line [OF assms(1)])
  show "bracket_end (indented d (core_text b s)) = Some 0" by (rule bracket_end_line [OF assms(1,3)])
  show "{CH_BS, CH_SQ, CH_DQ, CH_TAB, CH_CR} \<inter> set (indented d (core_text b s)) = {}"
    using indented_not [OF assms(1), of _ d] by simp
qed (rule assms(4))

type_synonym line = "nat \<times> string option \<times> stmt"

definition line_text :: "line \<Rightarrow> string" where
  "line_text l = (case l of (d, b, s) \<Rightarrow> indented d (core_text b s))"

text \<open>The lines of a program with the blocks that are open before each, and their code.\<close>

primrec lines_ok :: "nat \<Rightarrow> string list \<Rightarrow> line list \<Rightarrow> bool" where
  "lines_ok n st [] \<longleftrightarrow> True"
| "lines_ok n st (l # ls) \<longleftrightarrow> (case l of (d, b, s) \<Rightarrow> code_line n b s \<and> short (line_text l) \<and> d \<le> length st \<and>
     length (push_block b (still_open d st)) < 16 \<and> lines_ok n (push_block b (still_open d st)) ls)"

primrec chunks :: "string list \<Rightarrow> line list \<Rightarrow> asm_stmt list list" where
  "chunks st [] = [close 0 st @ [Block 0]]"
| "chunks st (l # ls) = (case l of (d, b, s) \<Rightarrow> line_code d st b s # chunks (push_block b (still_open d st)) ls)"

lemma line_text_chars: "code_line n b s \<Longrightarrow> cstring (line_text (d, b, s)) \<and> CH_NL \<notin> set (line_text (d, b, s)) \<and> CHR ''#'' \<notin> set (line_text (d, b, s))"
  using cstring_line [of n b s d] indented_not [of n b s _ d] by (simp add: line_text_def code_line_def)

lemma join_lines_Cons: "join_lines (l # ls) = l @ (if ls = [] then [] else CH_NL # join_lines ls)"
  by (cases ls) simp_all

lemma lines_ok_chars: "lines_ok n st ls \<Longrightarrow> l \<in> set ls \<Longrightarrow> cstring (line_text l) \<and> CH_NL \<notin> set (line_text l)"
  using line_text_chars by (induction ls arbitrary: st) (fastforce split: prod.splits)+

lemma cstring_join_lines: "\<forall>l \<in> set ls. cstring l \<Longrightarrow> cstring (join_lines ls)"
  by (induction ls) (auto simp: join_lines_Cons)

definition bytes_state :: "Lines \<Rightarrow> VMInsSet \<Rightarrow> ByteCodeFrame \<Rightarrow> bool" where
  "bytes_state S g bf \<longleftrightarrow> plain_state S \<and> isGenBytecode (parser S) \<and> ins_set S = g \<and> bytecode_frame_p (parser S) = Some bf"

lemma parse_line_bytes:
  assumes "parser_line2Target fn (parser S) L = Some (after_line d b st (parser S), Some c)" "CHR ''#'' \<notin> set L"
    and "bytes_state S g bf" "byteCodeFrame_appendFromAsm g bf c = Some (g', bf')"
  shows "\<exists>S'. parse_line fn S L = Some (S', True) \<and> bytes_state S' g' bf' \<and> block_stack (parser S') = push_block b (still_open d st) \<and>
    block_deepth (parser S') = block_deepth (parser S) \<and> blockDeepthOrigin (parser S') = 0 \<and>
    uLinesOffset S' = uLinesOffset S \<and> uLinesIndex S' = uLinesIndex S"
proof -
  have "L \<noteq> ''#!label''" using assms(2) by auto
  then show ?thesis
    using assms(1,3,4) by (simp add: parse_line_def store_code_def bytes_state_def plain_state_def after_line_def)
qed

lemma push_keys: "set st \<subseteq> {''if'', ''while''} \<Longrightarrow> b \<in> keys \<Longrightarrow> set (push_block b (still_open d st)) \<subseteq> {''if'', ''while''}"
  using set_drop_subset [of "length st - d" st] by (auto simp: push_block_def still_open_def)

definition parser_at :: "string list \<Rightarrow> Parser \<Rightarrow> bool" where
  "parser_at st p \<longleftrightarrow> block_stack p = st \<and> block_deepth p = 0 \<and> length st < 16 \<and> set st \<subseteq> {''if'', ''while''} \<and>
     (blockDeepthOrigin p = 0 \<or> blockDeepthOrigin p = VAL_NEED_INIT \<and> st = [])"

lemma lines_loop_end:
  assumes "parser_at st (parser S)" "bytes_state S g bf" "uLinesIndex S = N" "N < 65535"
    and "byteCodeFrame_appendFromAsm g bf (asm_lines (close 0 st @ [Block 0])) = Some (g', bf')"
  shows "\<exists>S'. lines_loop2 (AST_genAsm_top lc lcode) N txt S = Some (S', True) \<and> bytes_state S' g' bf'"
proof -
  let ?S = "S\<lparr>uLinesIndex := Suc N\<rparr>"
  have "at_line 0 st (parser S)" "set st \<subseteq> {''if'', ''while''}" using assms(1) by (auto simp: parser_at_def at_line_def)
  then have t: "parser_line2Target (AST_genAsm_top lc lcode) (parser ?S) [] =
      Some (after_line 0 None st (parser ?S), Some (asm_lines (close 0 st @ [Block 0])))" using line2Target_end by simp
  have b: "bytes_state ?S g bf" using assms(2) by (simp add: bytes_state_def plain_state_def)
  obtain S' where "parse_line (AST_genAsm_top lc lcode) ?S [] = Some (S', True)" "bytes_state S' g' bf'"
    using parse_line_bytes [OF t _ b assms(5)] by auto
  then show ?thesis using assms(3,4) by (subst lines_loop2.simps) (simp add: Let_def)
qed

lemma lines_loop_bytes:
  assumes "lines_ok n st ls" "n < 126" "parser_at st (parser S)" "bytes_state S g bf"
    and "drop (uLinesOffset S) txt = join_lines (map line_text ls) \<or> ls = []" "uLinesIndex S + length ls = N" "N < 65535"
    and "append_all g bf (map asm_lines (chunks st ls)) = Some (g', bf')"
  shows "\<exists>S'. lines_loop2 (AST_genAsm_top lc lcode) N txt S = Some (S', True) \<and> bytes_state S' g' bf'"
  using assms
proof (induction ls arbitrary: st S g bf)
  case Nil
  then show ?case by (intro lines_loop_end) (auto simp: bind_eq_Some_conv)
next
  case (Cons l ls)
  obtain d b s where l: "l = (d, b, s)" by (cases l)
  let ?fn = "AST_genAsm_top lc lcode" and ?L = "line_text l" and ?S = "S\<lparr>uLinesIndex := Suc (uLinesIndex S)\<rparr>"
  let ?st = "push_block b (still_open d st)"
  have ok: "code_line n b s" "short ?L" "d \<le> length st" "length ?st < 16" "lines_ok n ?st ls"
    using Cons.prems(1) by (simp_all add: l)
  have L: "?L = indented d (core_text b s)" by (simp add: l line_text_def)
  note ch = line_text_chars [OF ok(1), of d, folded l]
  have at: "at_line d st (parser S)" "set st \<subseteq> {''if'', ''while''}" "b \<in> keys" "line_ok n b s"
    using Cons.prems(3) ok(1,3) by (auto simp: parser_at_def at_line_def code_line_def line_ok_def)
  obtain g1 bf1 where app: "byteCodeFrame_appendFromAsm g bf (asm_lines (line_code d st b s)) = Some (g1, bf1)"
    "append_all g1 bf1 (map asm_lines (chunks ?st ls)) = Some (g', bf')"
    using Cons.prems(8) by (auto simp: l bind_eq_Some_conv)
  have b: "bytes_state ?S g bf" "parser ?S = parser S" using Cons.prems(4) by (simp_all add: bytes_state_def plain_state_def)
  have t: "parser_line2Target ?fn (parser ?S) ?L = Some (after_line d b st (parser ?S), Some (asm_lines (line_code d st b s)))"
    unfolding L b(2) by (rule line2Target_line [OF ok(1) Cons.prems(2) ok(2) [unfolded L] at(1,2)])
  obtain S1 where S1: "parse_line ?fn ?S ?L = Some (S1, True)" "bytes_state S1 g1 bf1" "block_stack (parser S1) = ?st"
    "block_deepth (parser S1) = block_deepth (parser S)" "blockDeepthOrigin (parser S1) = 0"
    "uLinesOffset S1 = uLinesOffset S" "uLinesIndex S1 = Suc (uLinesIndex S)"
    using parse_line_bytes [OF t _ b(1) app(1)] ch by auto
  have tx: "drop (uLinesOffset S) txt = ?L @ (if ls = [] then [] else CH_NL # join_lines (map line_text ls))"
    using Cons.prems(5) by (simp add: join_lines_Cons)
  have "cstring (join_lines (map line_text (l # ls)))" using lines_ok_chars [OF Cons.prems(1)] by (intro cstring_join_lines) auto
  then have "strsGetFirstToken (drop (uLinesOffset S) txt) CH_NL = Some (takeWhile (\<lambda>c. c \<noteq> CH_NL) (drop (uLinesOffset S) txt))"
    using Cons.prems(5) by (intro strsGetFirstToken_eq) simp
  also have "takeWhile (\<lambda>c. c \<noteq> CH_NL) (drop (uLinesOffset S) txt) = ?L"
    unfolding tx using ch takeWhile_upto [of CH_NL ?L] takeWhile_neq [of CH_NL ?L] by auto
  finally have first: "strsGetFirstToken (drop (uLinesOffset S) txt) CH_NL = Some ?L" .
  have step: "line_step ?S N ?L = Some (?S, Parse_line ?L)"
    unfolding L using b(1) by (intro line_step_line [OF at(4) Cons.prems(2) ok(2) [unfolded L]]) (simp add: bytes_state_def)
  let ?S2 = "next_offset S1 N ?L"
  have loop: "lines_loop2 ?fn N txt S = lines_loop2 ?fn N txt ?S2"
    using Cons.prems(6,7) first step S1(1) by (subst lines_loop2.simps) (simp add: Let_def)
  have S2: "parser ?S2 = parser S1" "bytes_state ?S2 g1 bf1" "uLinesIndex ?S2 = Suc (uLinesIndex S)"
    using S1(2,7) by (simp_all add: next_offset_def bytes_state_def plain_state_def)
  have "drop (uLinesOffset ?S2) txt = join_lines (map line_text ls) \<or> ls = []"
  proof (cases "ls = []")
    case False
    then have "Suc (uLinesIndex S) < N" using Cons.prems(6) by (cases ls) auto
    then have "uLinesOffset ?S2 = uLinesOffset S + (length ?L + 1)"
      using S1(6,7) Cons.prems(6) by (simp add: next_offset_def strGetSize_def)
    then have "drop (uLinesOffset ?S2) txt = drop (length ?L + 1) (drop (uLinesOffset S) txt)" by (simp add: add.commute)
    then show ?thesis unfolding tx using False by simp
  qed simp
  moreover have "parser_at ?st (parser ?S2)"
    using S1(3-5) S2(1) Cons.prems(3) ok(4) push_keys [OF at(2,3)] by (simp add: parser_at_def)
  ultimately show ?case
    unfolding loop using Cons.prems(2,6,7) S2 app(2) ok(5) by (intro Cons.IH) auto
qed

end
