(* ===== verification/Pika_Source.thy ===== *)
theory Pika_Source
  imports Pika_Program
begin

text \<open>
  Programs: statements in nested \<open>if\<close> and \<open>while\<close> blocks, their lines, their text and the code that
  the compiler makes of the text.
\<close>

section \<open>Programs\<close>

datatype prog = Simple stmt | If stmt "prog list" | While stmt "prog list"

text \<open>The lines of a program at a depth, and its code: a condition jumps over the block behind it, and
  the end of a loop jumps back to its condition.\<close>

fun prog_lines :: "nat \<Rightarrow> prog \<Rightarrow> line list" where
  "prog_lines d (Simple s) = [(d, None, s)]"
| "prog_lines d (If c ps) = (d, Some ''if'', c) # concat (map (prog_lines (Suc d)) ps)"
| "prog_lines d (While c ps) = (d, Some ''while'', c) # concat (map (prog_lines (Suc d)) ps)"

fun prog_code :: "nat \<Rightarrow> prog \<Rightarrow> asm_stmt list" where
  "prog_code d (Simple s) = Block d # stmt_code 0 s"
| "prog_code d (If c ps) = Block d # stmt_code 0 c @ Ins 0 INS_JEZ ''1'' # concat (map (prog_code (Suc d)) ps)"
| "prog_code d (While c ps) = Block d # stmt_code 0 c @ Ins 0 INS_JEZ ''2'' # concat (map (prog_code (Suc d)) ps) @
     [Block d, Ins 0 INS_JMP ''-1'']"

definition prog_text :: "prog list \<Rightarrow> string" where
  "prog_text ps = join_lines (map line_text (concat (map (prog_lines 0) ps)))"

text \<open>The calls of a statement are nested at most \<open>n\<close> deep, no statement starts like a keyword, a condition
  is not an assignment, and the blocks are nested at most 15 deep.\<close>

fun prog_wf :: "nat \<Rightarrow> nat \<Rightarrow> prog \<Rightarrow> bool" where
  "prog_wf n d (Simple s) \<longleftrightarrow> code_line n None s \<and> d < 16"
| "prog_wf n d (If c ps) \<longleftrightarrow> code_line n (Some ''if'') c \<and> d < 15 \<and> (\<forall>p \<in> set ps. prog_wf n (Suc d) p)"
| "prog_wf n d (While c ps) \<longleftrightarrow> code_line n (Some ''while'') c \<and> d < 15 \<and> (\<forall>p \<in> set ps. prog_wf n (Suc d) p)"

section \<open>The chunks of a program are its code\<close>

text \<open>Going over some lines, from the blocks that are open before them to those behind them, with the
  code that comes out meanwhile.\<close>

definition over :: "nat \<Rightarrow> string list \<Rightarrow> line list \<Rightarrow> string list \<Rightarrow> asm_stmt list \<Rightarrow> bool" where
  "over n st L st' out \<longleftrightarrow> (\<forall>ls. concat (chunks st (L @ ls)) = out @ concat (chunks st' ls)) \<and>
     (\<forall>ls. lines_ok n st' ls \<longrightarrow> lines_ok n st (L @ ls))"

lemma over_Nil: "over n st [] st []"
  by (simp add: over_def)

lemma over_append: "over n st L st1 out1 \<Longrightarrow> over n st1 L' st2 out2 \<Longrightarrow> over n st (L @ L') st2 (out1 @ out2)"
  by (simp add: over_def)

lemma over_line:
  assumes "code_line n b s" "short (line_text (d, b, s))" "d \<le> length st" "length (push_block b (still_open d st)) < 16"
  shows "over n st [(d, b, s)] (push_block b (still_open d st)) (line_code d st b s)"
  using assms by (simp add: over_def)

lemma close_append: "close d (xs @ ys) = close (d + length ys) xs @ close d ys"
  by (induction xs) (simp_all add: ac_simps)

lemma close_split:
  assumes "e \<le> length st" "d \<le> e"
  shows "close d (closed d st) = close e (closed e st) @ close d (closed d (still_open e st))"
proof -
  let ?k = "length st - e"
  have "closed d st = take ?k st @ take (e - d) (drop ?k st)"
    using assms take_add [of ?k "e - d" st] by (simp add: closed_def)
  then have "closed d st = closed e st @ closed d (still_open e st)" using assms by (simp add: closed_def still_open_def)
  moreover have "length (closed d (still_open e st)) = e - d" using assms by (simp add: closed_def still_open_def)
  ultimately show ?thesis using close_append [of d "closed e st" "closed d (still_open e st)"] assms(2) by simp
qed

lemma still_open_more: "e \<le> length st \<Longrightarrow> d \<le> e \<Longrightarrow> still_open d (still_open e st) = still_open d st"
  by (simp add: still_open_def)

lemma length_still_open [simp]: "d \<le> length st \<Longrightarrow> length (still_open d st) = d"
  by (simp add: still_open_def)

lemma closed_all [simp]: "closed (length st) st = []" "closed 0 st = st" "still_open (length st) st = st"
  by (simp_all add: closed_def still_open_def)

text \<open>The lines of a program at depth \<open>d\<close> put out its code behind the end of the blocks before it, up
  to the end of the blocks that it leaves open.\<close>

definition emits :: "nat \<Rightarrow> nat \<Rightarrow> string list \<Rightarrow> line list \<Rightarrow> asm_stmt list \<Rightarrow> bool" where
  "emits n d st L c \<longleftrightarrow> (\<exists>st' out. over n st L st' out \<and> d \<le> length st' \<and> still_open d st' = still_open d st \<and>
     out @ close d (closed d st') = close d (closed d st) @ c)"

lemma emitsI:
  assumes "over n st L st' out" "d \<le> length st'" "still_open d st' = still_open d st"
    and "out @ close d (closed d st') = close d (closed d st) @ c"
  shows "emits n d st L c"
  using assms unfolding emits_def by blast

lemma emits_concat:
  assumes "\<And>p st. p \<in> set ps \<Longrightarrow> d \<le> length st \<Longrightarrow> emits n d st (prog_lines d p) (prog_code d p)" "d \<le> length st"
  shows "emits n d st (concat (map (prog_lines d) ps)) (concat (map (prog_code d) ps))"
  using assms
proof (induction ps arbitrary: st)
  case Nil
  then show ?case using over_Nil [of n st] by (auto simp: emits_def)
next
  case (Cons p ps)
  obtain st1 out1 where p: "over n st (prog_lines d p) st1 out1" "d \<le> length st1" "still_open d st1 = still_open d st"
    "out1 @ close d (closed d st1) = close d (closed d st) @ prog_code d p"
    using Cons.prems by (force simp: emits_def)
  obtain st2 out2 where q: "over n st1 (concat (map (prog_lines d) ps)) st2 out2" "d \<le> length st2" "still_open d st2 = still_open d st1"
    "out2 @ close d (closed d st2) = close d (closed d st1) @ concat (map (prog_code d) ps)"
    using Cons.IH [of st1] Cons.prems(1) p(2) by (force simp: emits_def)
  have "(out1 @ out2) @ close d (closed d st2) = close d (closed d st) @ concat (map (prog_code d) (p # ps))"
  proof -
    have "(out1 @ out2) @ close d (closed d st2) = out1 @ close d (closed d st1) @ concat (map (prog_code d) ps)" using q(4) by simp
    also have "\<dots> = (close d (closed d st) @ prog_code d p) @ concat (map (prog_code d) ps)" unfolding p(4) [symmetric] by simp
    finally show ?thesis by simp
  qed
  moreover have "over n st (concat (map (prog_lines d) (p # ps))) st2 (out1 @ out2)"
    using over_append [OF p(1) q(1)] by simp
  ultimately show ?case using p(3) q(2,3) by (intro emitsI [where st' = st2 and out = "out1 @ out2"]) simp_all
qed

lemma emits_block:
  assumes "code_line n (Some k) c" "short (line_text (d, Some k, c))" "d \<le> length st" "d < 15"
    and "\<And>st. Suc d \<le> length st \<Longrightarrow> emits n (Suc d) st L body"
  shows "emits n d st ((d, Some k, c) # L) (Block d # stmt_code 0 c @ jump_code (Some k) @ body @ close d [k])"
proof -
  let ?st = "k # still_open d st"
  have l: "length ?st = Suc d" using assms(3) by simp
  have head: "over n st [(d, Some k, c)] ?st (line_code d st (Some k) c)"
    using over_line [OF assms(1-3)] assms(3,4) by (simp add: push_block_def)
  obtain st' out where b: "over n ?st L st' out" "Suc d \<le> length st'" "still_open (Suc d) st' = still_open (Suc d) ?st"
    "out @ close (Suc d) (closed (Suc d) st') = close (Suc d) (closed (Suc d) ?st) @ body"
    using assms(5) [of ?st] l by (auto simp: emits_def)
  have s: "closed (Suc d) ?st = []" "still_open (Suc d) ?st = ?st" using closed_all [of ?st] l by simp_all
  have "still_open d ?st = still_open d st" "closed d ?st = [k]" using assms(3) by (simp_all add: still_open_def closed_def)
  then have "still_open d st' = still_open d st" "close d (closed d st') = close (Suc d) (closed (Suc d) st') @ close d [k]"
    using still_open_more [OF b(2), of d] close_split [OF b(2), of d] b(3) s(2) by simp_all
  moreover have "out @ close (Suc d) (closed (Suc d) st') = body" using b(4) s(1) by simp
  ultimately have "still_open d st' = still_open d st"
    "(line_code d st (Some k) c @ out) @ close d (closed d st') =
      close d (closed d st) @ Block d # stmt_code 0 c @ jump_code (Some k) @ body @ close d [k]"
    unfolding line_code_def by simp_all
  moreover have "over n st ((d, Some k, c) # L) st' (line_code d st (Some k) c @ out)"
    using over_append [OF head b(1)] by simp
  ultimately show ?thesis using b(2) by (intro emitsI [where out = "line_code d st (Some k) c @ out"]) simp_all
qed

lemma prog_emits:
  assumes "prog_wf n d p" "\<forall>l \<in> set (prog_lines d p). short (line_text l)" "d \<le> length st"
  shows "emits n d st (prog_lines d p) (prog_code d p)"
  using assms
proof (induction d p arbitrary: st rule: prog_lines.induct)
  case (1 d s)
  let ?st = "still_open d st"
  have "over n st [(d, None, s)] ?st (line_code d st None s)"
    using over_line [of n None s d st] 1 by (simp add: push_block_def)
  moreover have "closed d ?st = []" "still_open d ?st = ?st" using closed_all [of ?st] 1(3) by simp_all
  ultimately show ?case using 1(3) by (intro emitsI [where st' = ?st and out = "line_code d st None s"]) (simp_all add: line_code_def jump_code_def)
next
  case (2 d c ps)
  have "emits n (Suc d) st (concat (map (prog_lines (Suc d)) ps)) (concat (map (prog_code (Suc d)) ps))" if "Suc d \<le> length st" for st
    using emits_concat [of ps "Suc d" n st] 2 that by auto
  from emits_block [OF _ _ 2(4) _ this, of "''if''" c] show ?case using 2(2,3) by (simp add: jump_code_def)
next
  case (3 d c ps)
  have "emits n (Suc d) st (concat (map (prog_lines (Suc d)) ps)) (concat (map (prog_code (Suc d)) ps))" if "Suc d \<le> length st" for st
    using emits_concat [of ps "Suc d" n st] 3 that by auto
  from emits_block [OF _ _ 3(4) _ this, of "''while''" c] show ?case using 3(2,3) by (simp add: jump_code_def)
qed

lemma progs_chunks:
  assumes "\<forall>p \<in> set ps. prog_wf n 0 p" "\<forall>l \<in> set (concat (map (prog_lines 0) ps)). short (line_text l)"
  shows "concat (chunks [] (concat (map (prog_lines 0) ps))) = concat (map (prog_code 0) ps) @ [Block 0]"
    and "lines_ok n [] (concat (map (prog_lines 0) ps))"
proof -
  have "emits n 0 [] (concat (map (prog_lines 0) ps)) (concat (map (prog_code 0) ps))"
    using assms prog_emits by (intro emits_concat) auto
  then obtain st out where o: "over n [] (concat (map (prog_lines 0) ps)) st out" "out @ close 0 st = concat (map (prog_code 0) ps)"
    by (auto simp: emits_def closed_def)
  show "concat (chunks [] (concat (map (prog_lines 0) ps))) = concat (map (prog_code 0) ps) @ [Block 0]"
    using o(1) [unfolded over_def, THEN conjunct1, rule_format, of "[]"] o(2) by simp
  show "lines_ok n [] (concat (map (prog_lines 0) ps))"
    using o(1) [unfolded over_def, THEN conjunct2, rule_format, of "[]"] by simp
qed

section \<open>The frame behind a program\<close>

lemma asm_run_stored: "Ins k i d \<in> set ss \<Longrightarrow> d \<noteq> [] \<Longrightarrow> snd (asm_run b nl strs ss) \<noteq> []"
proof (induction b nl strs ss rule: asm_run.induct)
  case (3 b nl strs k' i' d' ss)
  obtain ts where "snd (asm_run b False (pool_add strs d') ss) = pool_add strs d' @ ts" using asm_run_pool by blast
  then show ?case using 3 by (auto simp: pool_add_def split: prod.splits if_splits)
qed auto

lemma prog_run_stored: "Ins k i d \<in> set (concat prog) \<Longrightarrow> d \<noteq> [] \<Longrightarrow> snd (prog_run strs prog) \<noteq> []"
proof (induction prog arbitrary: strs)
  case (Cons ss prog)
  obtain ts where ts: "snd (prog_run (snd (asm_run 0 False strs ss)) prog) = snd (asm_run 0 False strs ss) @ ts" using prog_run_pool by blast
  show ?case
  proof (cases "Ins k i d \<in> set ss")
    case True
    then show ?thesis using ts asm_run_stored [of k i d ss 0 False strs] Cons.prems(2) by simp
  next
    case False
    then have "snd (prog_run (snd (asm_run 0 False strs ss)) prog) \<noteq> []" using Cons.prems by (intro Cons.IH) simp_all
    then show ?thesis by simp
  qed
qed simp

lemma append_all_disassemble:
  assumes "frame_ok bf" "disassemble bf = Some old" "recent g = VM_default_instruction_set" "prog_ok prog"
    and "Ins k i d \<in> set (concat prog)" "d \<noteq> []"
    and "cp_size (const_pool bf) + prog_data prog \<le> 65535" "fits (ia_size (instruct_array bf) + 4 * length (concat prog))"
  shows "\<exists>bf'. append_all g bf (map asm_lines prog) = Some (g, bf') \<and> frame_ok bf' \<and>
    disassemble bf' = Some (old @ concat (map (asm_instrs 0 False) prog))"
proof -
  obtain us strs where rep: "frame_rep bf us strs" and to: "cp_output_redirect_fun (const_pool bf) = To_buff"
    "ia_output_redirect_fun (instruct_array bf) = To_buff"
    using assms(1) by (auto simp: frame_ok_def)
  let ?new = "fst (prog_run strs prog)" and ?strs = "snd (prog_run strs prog)"
  have size: "cp_size (const_pool bf) = length (pool_bytes strs)" "ia_size (instruct_array bf) = 4 * length us"
    using rep by (simp_all add: frame_rep_def pool_rep_def arr_rep_def)
  obtain bf' where bf': "append_all g bf (map asm_lines prog) = Some (g, bf')"
    and rep': "frame_rep bf' (us @ ?new) ?strs" and le: "length (pool_bytes ?strs) \<le> 65535"
    and to': "cp_output_redirect_fun (const_pool bf') = To_buff" "ia_output_redirect_fun (instruct_array bf') = To_buff"
    using append_all_rep [OF assms(4) rep assms(3)] assms(7,8) size to by auto
  have pools: "pool_rep (const_pool bf) strs" "pool_rep (const_pool bf') ?strs"
    using rep rep' by (simp_all add: frame_rep_def)
  have buff: "cp_arg_buff (const_pool bf') = Some (pool_bytes ?strs)" "cp_content_start (const_pool bf') = Some (pool_bytes ?strs)"
    using pools(2) prog_run_stored [OF assms(5,6), of strs] by (auto simp: pool_rep_def)
  obtain ts where ts: "?strs = strs @ ts" using prog_run_pool by blast
  have "those (map (unit_view (const_pool bf)) us) = Some old"
    using assms(2) frame_rep_disassemble [OF rep to(2)] by simp
  then have "those (map (unit_view (const_pool bf')) us) = Some old"
    by (rule those_Some_map) (use unit_view_more [OF pools(1)] pools(2) buff ts in simp)
  moreover have "unit_view (const_pool bf') = unit_view (pool_of ?strs [])"
    by (intro ext unit_view_start) (simp add: buff pool_of_def)
  then have "those (map (unit_view (const_pool bf')) ?new) = Some (concat (map (asm_instrs 0 False) prog))"
    using prog_run_views [OF assms(4) _ le, of "[]"] pools(2) by (simp add: pool_rep_def del: map_map)
  ultimately have "disassemble bf' = Some (old @ concat (map (asm_instrs 0 False) prog))"
    using frame_rep_disassemble [OF rep' to'(2)] by (simp add: those_append)
  then show ?thesis using bf' rep' to' by (auto simp: frame_ok_def)
qed

lemma asm_instrs_at_Block: "ys = [] \<or> (\<exists>d ys'. ys = Block d # ys') \<Longrightarrow> asm_instrs b nl (xs @ ys) = asm_instrs b nl xs @ asm_instrs 0 False ys"
  by (induction b nl xs rule: asm_instrs.induct) auto

lemma asm_instrs_chunks:
  assumes "\<forall>c \<in> set cs. \<exists>d c'. c = Block d # c'"
  shows "concat (map (asm_instrs 0 False) cs) = asm_instrs 0 False (concat cs)"
  using assms
proof (induction cs)
  case (Cons c cs)
  have "concat cs = [] \<or> (\<exists>d c'. concat cs = Block d # c')" using Cons.prems by (cases cs) auto
  then show ?case using Cons asm_instrs_at_Block [of "concat cs" 0 False c] by simp
qed simp

lemma close_start: "close d ts = [] \<or> (\<exists>e c. close d ts = Block e # c)"
  by (induction ts) auto

lemma chunks_start: "c \<in> set (chunks st ls) \<Longrightarrow> \<exists>d c'. c = Block d # c'"
proof (induction ls arbitrary: st)
  case Nil
  then show ?case using close_start [of 0 st] by auto
next
  case (Cons l ls)
  obtain d b s where l: "l = (d, b, s)" by (cases l)
  then show ?case using Cons close_start [of d "closed d st"] by (auto simp: line_code_def)
qed

section \<open>Sizes\<close>

definition text_size :: "line list \<Rightarrow> nat" where
  "text_size ls = sum_list (map (\<lambda>l. Suc (length (line_text l))) ls)"

lemma text_size_simps [simp]: "text_size [] = 0" "text_size (l # ls) = Suc (length (line_text l)) + text_size ls"
  "text_size (ls @ ls') = text_size ls + text_size ls'"
  by (simp_all add: text_size_def)

lemma length_join_lines: "ls \<noteq> [] \<Longrightarrow> Suc (length (join_lines (map line_text ls))) = text_size ls"
  by (induction ls) (auto simp: join_lines_Cons)

lemma length_le_text_size: "length ls \<le> text_size ls"
  by (induction ls) simp_all

lemma text_size_line: "l \<in> set ls \<Longrightarrow> Suc (length (line_text l)) \<le> text_size ls"
  by (induction ls) auto

definition code_size_ok :: "asm_stmt list \<Rightarrow> nat \<Rightarrow> bool" where
  "code_size_ok c m \<longleftrightarrow> sum_list (map data_size c) \<le> m \<and> length c \<le> m"

lemma code_size_concat:
  "(\<And>p. p \<in> set ps \<Longrightarrow> code_size_ok (prog_code d p) (text_size (prog_lines d p))) \<Longrightarrow>
    code_size_ok (concat (map (prog_code d) ps)) (text_size (concat (map (prog_lines d) ps)))"
  by (induction ps) (fastforce simp: code_size_ok_def)+

lemma prog_size: "prog_wf n d p \<Longrightarrow> code_size_ok (prog_code d p) (text_size (prog_lines d p))"
proof (induction d p rule: prog_lines.induct)
  case (1 d s)
  then show ?case using stmt_code_size [of n s 0]
    by (simp add: code_size_ok_def code_line_def line_ok_def line_text_def indented_def core_text_def)
next
  case (2 d c ps)
  then have "code_size_ok (concat (map (prog_code (Suc d)) ps)) (text_size (concat (map (prog_lines (Suc d)) ps)))"
    by (intro code_size_concat) simp
  then show ?case using stmt_code_size [of n c 0] 2(2)
    by (simp add: code_size_ok_def code_line_def line_ok_def line_text_def indented_def core_text_def)
next
  case (3 d c ps)
  then have "code_size_ok (concat (map (prog_code (Suc d)) ps)) (text_size (concat (map (prog_lines (Suc d)) ps)))"
    by (intro code_size_concat) simp
  then show ?case using stmt_code_size [of n c 0] 3(2)
    by (simp add: code_size_ok_def code_line_def line_ok_def line_text_def indented_def core_text_def)
qed

lemma prog_code_ok: "prog_wf n d p \<Longrightarrow> n < 16 \<Longrightarrow> t \<in> set (prog_code d p) \<Longrightarrow> asm_ok t"
proof (induction d p rule: prog_code.induct)
  case (1 d s)
  then show ?case using code_ok [of n s 0 t] by (auto simp: code_line_def line_ok_def)
next
  case (2 d c ps)
  then show ?case using code_ok [of n c 0 t] by (auto simp: code_line_def line_ok_def cstring_def)
next
  case (3 d c ps)
  then show ?case using code_ok [of n c 0 t] by (auto simp: code_line_def line_ok_def cstring_def)
qed

lemma prog_code_data: "prog_wf n d p \<Longrightarrow> \<exists>i v. Ins 0 i v \<in> set (prog_code d p) \<and> v \<noteq> []"
proof (cases p)
  case (Simple s)
  assume w: "prog_wf n d p"
  obtain l k x as where s: "s = Stmt l k x as" by (cases s)
  have "stmt_wf n (Stmt l k x as)" using w unfolding Simple s prog_wf.simps code_line_def line_ok_def by blast
  then have "x \<noteq> []" using stmt_parts(5) by (simp add: word_ok_def)
  moreover have "Ins 0 (case k of KNum \<Rightarrow> INS_NUM | KName \<Rightarrow> INS_REF | KCall \<Rightarrow> INS_RUN) x \<in> set (prog_code d p)"
    by (simp add: Simple s)
  ultimately show ?thesis by blast
next
  case (If c ps)
  then have "Ins 0 INS_JEZ ''1'' \<in> set (prog_code d p)" by simp
  then show ?thesis by blast
next
  case (While c ps)
  then have "Ins 0 INS_JEZ ''2'' \<in> set (prog_code d p)" by simp
  then show ?thesis by blast
qed

lemma count_NL_join: "(\<forall>l \<in> set ls. CH_NL \<notin> set (line_text l)) \<Longrightarrow> ls \<noteq> [] \<Longrightarrow> Suc (count_list (join_lines (map line_text ls)) CH_NL) = length ls"
  by (induction ls) (auto simp: join_lines_Cons count_list_append count_list_0_iff)

section \<open>Programs compile\<close>

lemma program_compiles_frame:
  assumes "ps \<noteq> []" "\<forall>p \<in> set ps. prog_wf n 0 p" "n < 16" "short (prog_text ps)"
    and "frame_ok bf" "disassemble bf = Some old" "recent g = VM_default_instruction_set"
    and "cp_size (const_pool bf) + length (prog_text ps) < 65535"
    and "ia_size (instruct_array bf) + 4 * length (prog_text ps) + 36 < U32"
  shows "\<exists>bf'. pika_lines2Bytes (Suc m) g bf (prog_text ps) = Some (g, bf', PIKA_RES_OK) \<and> frame_ok bf' \<and>
    disassemble bf' = Some (old @ asm_instrs 0 False (concat (map (prog_code 0) ps)))"
proof -
  let ?ls = "concat (map (prog_lines 0) ps)" and ?code = "concat (map (prog_code 0) ps)" and ?cs = "chunks [] (concat (map (prog_lines 0) ps))"
  obtain p ps' where ps: "ps = p # ps'" using assms(1) by (cases ps) auto
  have ne: "?ls \<noteq> []" by (cases p) (simp_all add: ps)
  have size: "Suc (length (prog_text ps)) = text_size ?ls" using length_join_lines [OF ne] by (simp add: prog_text_def)
  have short: "\<forall>l \<in> set ?ls. short (line_text l)"
    using text_size_line [of _ ?ls] size assms(4) by (fastforce simp: short_def)
  note chunks = progs_chunks [OF assms(2) short]
  have count: "Suc (count_list (prog_text ps) CH_NL) = length ?ls"
    using count_NL_join [OF _ ne] lines_ok_chars [OF chunks(2)] by (simp add: prog_text_def)
  have len: "length ?ls < 65535" using length_le_text_size [of ?ls] size assms(4) by (simp add: short_def)
  have "code_size_ok ?code (text_size ?ls)" using assms(2) prog_size by (intro code_size_concat) blast
  then have sizes: "prog_data ?cs \<le> length (prog_text ps) + 1" "length (concat ?cs) \<le> length (prog_text ps) + 2"
    using size by (simp_all add: code_size_ok_def prog_data_def chunks(1))
  have "\<forall>t \<in> set (concat ?cs). asm_ok t" unfolding chunks(1) using assms(2,3) prog_code_ok by fastforce
  then have ok: "prog_ok ?cs" by (simp add: prog_ok_def)
  obtain i v where v: "Ins 0 i v \<in> set (concat ?cs)" "v \<noteq> []"
    unfolding chunks(1) using prog_code_data [of n 0 p] assms(2) by (auto simp: ps)
  obtain bf' where app: "append_all g bf (map asm_lines ?cs) = Some (g, bf')"
    and bf': "frame_ok bf'" "disassemble bf' = Some (old @ concat (map (asm_instrs 0 False) ?cs))"
    using append_all_disassemble [OF assms(5-7) ok v] sizes assms(8,9) by auto
  have "concat (map (asm_instrs 0 False) ?cs) = asm_instrs 0 False (concat ?cs)"
    using chunks_start by (intro asm_instrs_chunks) blast
  also have "\<dots> = asm_instrs 0 False ?code"
    unfolding chunks(1) using asm_instrs_at_Block [of "[Block 0]" 0 False ?code] by simp
  finally have code: "concat (map (asm_instrs 0 False) ?cs) = asm_instrs 0 False ?code" .
  let ?p = "parser_create\<lparr>isGenBytecode := True, bytecode_frame_p := Some bf\<rparr>"
  have N: "nat (strCountSign (prog_text ps) CH_NL + 1) mod 65536 = length ?ls"
    using count len by (simp add: strCountSign_eq nat_add_distrib)
  let ?S = "Lines_init ?p g"
  have init: "parser_at [] (parser ?S)" "bytes_state ?S g bf" "uLinesIndex ?S + length ?ls = length ?ls"
    "drop (uLinesOffset ?S) (prog_text ps) = join_lines (map line_text ?ls) \<or> ?ls = []"
    by (simp_all add: parser_at_def Lines_init_def parser_create_def bytes_state_def plain_state_def prog_text_def)
  have "n < 126" using assms(3) by simp
  from lines_loop_bytes [OF chunks(2) this init(1,2,4,3) len app] obtain S where
    S: "lines_loop2 (parser_ast2Asm (Suc m)) (length ?ls) (prog_text ps) ?S = Some (S, True)" "bytes_state S g bf'"
    unfolding parser_ast2Asm.simps by blast
  then have "pika_lines2Bytes (Suc m) g bf (prog_text ps) = Some (g, bf', PIKA_RES_OK)"
    unfolding pika_lines2Bytes_def parser_lines2Target_def N by (simp add: bytes_state_def del: parser_ast2Asm.simps)
  then show ?thesis using bf' code by simp
qed

text \<open>C1: A whole program compiles. The text of a program of assignments, calls and nested \<open>if\<close> and
  \<open>while\<close> blocks, indented by four spaces a block and with calls nested at most 15 deep, is cut into
  lines, parsed and assembled, and the frame then holds exactly the old instructions followed by those
  of the program, in order, at their block depths: each condition, its jump, its body, and behind a
  loop the jump back.\<close>

theorem program_compiles:
  assumes "ps \<noteq> []" "\<forall>p \<in> set ps. prog_wf n 0 p" "n < 16" "short (prog_text ps)"
    and "frame_ok bf" "disassemble bf = Some old" "recent g = VM_default_instruction_set"
    and "cp_size (const_pool bf) + length (prog_text ps) < 65535"
    and "ia_size (instruct_array bf) + 4 * length (prog_text ps) + 36 < U32"
  shows "\<exists>bf'. pika_lines2Bytes (Suc m) g bf (prog_text ps) = Some (g, bf', PIKA_RES_OK) \<and> frame_ok bf' \<and>
    disassemble bf' = Some (old @ asm_instrs 0 False (concat (map (prog_code 0) ps)))"
  by (rule program_compiles_frame [OF assms])

definition demo_prog :: "prog list" where
  "demo_prog = [While (Stmt None KCall ''f'' [Stmt None KName ''x'' []])
     [Simple (Stmt (Some ''x'') KCall ''g'' [Stmt None KNum ''1'' []]), If (Stmt None KName ''x'' []) [Simple (Stmt None KCall ''h'' [])]],
   Simple (Stmt (Some ''y'') KName ''x'' [])]"

lemma demo_prog_ok: "\<forall>p \<in> set demo_prog. prog_wf 1 0 p"
  by (simp add: demo_prog_def code_line_def line_ok_def not_keyword_def name_ok_def word_ok_def is_word_char_def is_digit_def)

lemma demo_prog_text: "prog_text demo_prog = ''while f(x):'' @ CH_NL # ''    x=g(1)'' @ CH_NL # ''    if x:'' @ CH_NL #
    ''        h()'' @ CH_NL # ''y=x''"
  by (simp add: demo_prog_def prog_text_def line_text_def indented_def core_text_def left_text_def eval_nat_numeral)

lemma demo_prog_sizes: "short (prog_text demo_prog)" "cp_size (const_pool frame0) + length (prog_text demo_prog) < 65535"
  "ia_size (instruct_array frame0) + 4 * length (prog_text demo_prog) + 36 < U32"
  by (simp_all add: demo_prog_text short_def U32_def frame0_def byteCodeFrame_init_def constPool_init_def instructArray_init_def)

lemma demo_frame0: "frame_ok frame0" "disassemble frame0 = Some []"
  using frame_ok_init by (simp_all add: frame0_def)

theorem program_compiles_witness:
  "\<exists>bf'. pika_lines2Bytes 1 g_PikaVMInsSet frame0 (''while f(x):'' @ CH_NL # ''    x=g(1)'' @ CH_NL # ''    if x:'' @ CH_NL #
      ''        h()'' @ CH_NL # ''y=x'') = Some (g_PikaVMInsSet, bf', PIKA_RES_OK) \<and>
    disassemble bf' = Some [(0, 1, True, PIKA_INS INS_REF, ''x''), (0, 0, False, PIKA_INS INS_RUN, ''f''), (0, 0, False, PIKA_INS INS_JEZ, ''2''),
      (1, 1, True, PIKA_INS INS_NUM, ''1''), (1, 0, False, PIKA_INS INS_RUN, ''g''), (1, 0, False, PIKA_INS INS_OUT, ''x''),
      (1, 0, True, PIKA_INS INS_REF, ''x''), (1, 0, False, PIKA_INS INS_JEZ, ''1''), (2, 0, True, PIKA_INS INS_RUN, ''h''),
      (0, 0, True, PIKA_INS INS_JMP, ''-1''), (0, 0, True, PIKA_INS INS_REF, ''x''), (0, 0, False, PIKA_INS INS_OUT, ''y'')]"
proof -
  have "recent g_PikaVMInsSet = VM_default_instruction_set" "demo_prog \<noteq> []" by (simp_all add: g_PikaVMInsSet_def demo_prog_def)
  from program_compiles [OF this(2) demo_prog_ok _ demo_prog_sizes(1) demo_frame0 this(1) demo_prog_sizes(2,3), of 0] obtain bf' where
    "pika_lines2Bytes 1 g_PikaVMInsSet frame0 (prog_text demo_prog) = Some (g_PikaVMInsSet, bf', PIKA_RES_OK)"
    "disassemble bf' = Some (asm_instrs 0 False (concat (map (prog_code 0) demo_prog)))" by auto
  then show ?thesis unfolding demo_prog_text by (intro exI [of _ bf'] conjI) (simp_all add: demo_prog_def)
qed

end
