(* ===== verification/Pika_Jumps.thy ===== *)
theory Pika_Jumps
  imports Pika_Source
begin

text \<open>
  Control flow of compiled programs: where the jumps that the code generator writes take the virtual
  machine.
\<close>

section \<open>Jumps over instructions\<close>

definition new_line :: "instr \<Rightarrow> bool" where
  "new_line i = fst (snd (snd i))"

definition lead :: "nat \<Rightarrow> instr \<Rightarrow> bool" where
  "lead d i \<longleftrightarrow> new_line i \<and> fst i \<le> d"

text \<open>The first line behind an instruction that is not nested deeper than \<open>d\<close>, or the end.\<close>

definition next_line :: "nat \<Rightarrow> instr list \<Rightarrow> nat \<Rightarrow> nat \<Rightarrow> bool" where
  "next_line d xs j t \<longleftrightarrow> j < t \<and> t \<le> length xs \<and> (\<forall>m. j < m \<and> m < t \<longrightarrow> \<not> lead d (xs ! m)) \<and> (t < length xs \<longrightarrow> lead d (xs ! t))"

definition last_line :: "nat \<Rightarrow> instr list \<Rightarrow> nat \<Rightarrow> nat \<Rightarrow> bool" where
  "last_line d xs j t \<longleftrightarrow> t < j \<and> new_line (xs ! t) \<and> fst (xs ! t) = d \<and> (\<forall>m. t < m \<and> m < j \<longrightarrow> \<not> (new_line (xs ! m) \<and> fst (xs ! m) = d))"

definition jump_ok :: "instr list \<Rightarrow> nat \<times> int \<times> nat \<Rightarrow> bool" where
  "jump_ok xs jvt \<longleftrightarrow> (case jvt of (j, v, t) \<Rightarrow> j < length xs \<and> (let d = fst (xs ! j) in
     v = 1 \<and> next_line d xs j t \<or>
     v = 2 \<and> (\<exists>s < length xs. next_line d xs j s \<and> next_line d xs s t) \<or>
     v = -1 \<and> last_line d xs j t))"

definition views :: "InstructUnit list \<Rightarrow> instr list \<Rightarrow> bool" where
  "views us xs \<longleftrightarrow> length us = length xs \<and> (\<forall>j < length xs. instructUnit_getBlockDeepth (us ! j) = fst (xs ! j) \<and>
     (instructUnit_getIsNewLine (us ! j) \<noteq> 0 \<longleftrightarrow> new_line (xs ! j)))"

lemma frame_views:
  assumes "frame_ok bf" "disassemble bf = Some xs" "xs \<noteq> []"
  shows "\<exists>us. code_rep bf us \<and> views us xs"
proof -
  obtain us strs where rep: "frame_rep bf us strs" and to: "ia_output_redirect_fun (instruct_array bf) = To_buff"
    using assms(1) by (auto simp: frame_ok_def)
  have d: "those (map (unit_view (const_pool bf)) us) = Some xs" using frame_rep_disassemble [OF rep to] assms(2) by simp
  note v = those_SomeD [OF d]
  then have "us \<noteq> []" using assms(3) by auto
  then have c: "code_rep bf us" using rep to by (simp add: code_rep_def frame_rep_def arr_rep_def)
  have "instructUnit_getBlockDeepth (us ! j) = fst (xs ! j) \<and> (instructUnit_getIsNewLine (us ! j) \<noteq> 0 \<longleftrightarrow> new_line (xs ! j))"
    if "j < length xs" for j
  proof -
    have "unit_view (const_pool bf) (us ! j) = Some (xs ! j)" using v that by (metis length_map nth_map)
    then show ?thesis using isNewLine_flag [of "us ! j"] by (cases "xs ! j") (auto simp: unit_view_def new_line_def bind_eq_Some_conv)
  qed
  then show ?thesis using c v by (auto simp: views_def)
qed

lemma views_leads: "views us xs \<Longrightarrow> m < length xs \<Longrightarrow> leads d (us ! m) \<longleftrightarrow> lead d (xs ! m)"
  by (simp add: views_def leads_def lead_def)

section \<open>The machine's search\<close>

lemma forward_skip:
  assumes "code_rep (bytecode_frame vm) us" "pc vm = 4 * int p" "\<forall>m. p + k < m \<and> m \<le> p + k + e \<longrightarrow> \<not> leads d (us ! m)"
    and "p + k + e < length us" "n < jmp vm"
  shows "jmpForward_loop vm d n (4 * int k) = jmpForward_loop vm d n (4 * int (k + e))"
  using assms(3,4)
proof (induction e)
  case (Suc e)
  have "jmpForward_loop vm d n (4 * int (k + e)) = jmpForward_loop vm d n (4 * int (Suc (k + e)))"
    using jmpForward_step(2) [OF assms(1,2), of "k + e" d n] Suc.prems assms(5) by (simp add: Let_def add.assoc)
  then show ?case using Suc by simp
qed simp

lemma forward_line:
  assumes "code_rep (bytecode_frame vm) us" "views us xs" "pc vm = 4 * int p" "next_line d xs (p + k) t" "n < jmp vm" "0 \<le> n" "n < 127"
  shows "t < length xs \<Longrightarrow> n + 1 < jmp vm \<Longrightarrow> jmpForward_loop vm d n (4 * int k) = jmpForward_loop vm d (n + 1) (4 * int (t - p))"
    and "t = length xs \<or> jmp vm = n + 1 \<Longrightarrow> jmpForward_loop vm d n (4 * int k) = Some (4 * int (t - p))"
proof -
  have l: "length us = length xs" using assms(2) by (simp add: views_def)
  have t: "p + k < t" "t \<le> length xs" "\<And>m. p + k < m \<Longrightarrow> m < t \<Longrightarrow> \<not> leads d (us ! m)" "t < length xs \<Longrightarrow> leads d (us ! t)"
    using assms(4) views_leads [OF assms(2)] by (auto simp: next_line_def)
  let ?e = "t - Suc (p + k)"
  have e: "Suc (k + ?e) = t - p" "p + (t - p) = t" using t(1) by simp_all
  have "jmpForward_loop vm d n (4 * int k) = jmpForward_loop vm d n (4 * int (k + ?e))"
    using t(1-3) l assms(5) by (intro forward_skip [OF assms(1,3)]) auto
  note skip = this and step = jmpForward_step [OF assms(1,3), of "k + ?e" d n, unfolded e l]
  show "jmpForward_loop vm d n (4 * int k) = jmpForward_loop vm d (n + 1) (4 * int (t - p))" if "t < length xs" "n + 1 < jmp vm"
    using step(2) t(4) that assms(6,7) unfolding skip by (simp add: i8_small)
  show "jmpForward_loop vm d n (4 * int k) = Some (4 * int (t - p))" if "t = length xs \<or> jmp vm = n + 1"
    using step t(2,4) that assms(6,7) unfolding skip by (cases "t = length xs") (simp_all add: i8_small)
qed

lemma jmpBackward_step:
  assumes "code_rep (bytecode_frame vm) us" "pc vm = 4 * int p" "Suc k \<le> p" "p < length us"
  shows "jmpBackward_loop vm d n (- (4 * int k)) =
    (let u = us ! (p - Suc k); n' = if instructUnit_getIsNewLine u \<noteq> 0 \<and> instructUnit_getBlockDeepth u = d then i8 (n - 1) else n
     in if n' \<le> jmp vm then Some (- (4 * int (Suc k))) else jmpBackward_loop vm d n' (- (4 * int (Suc k))))"
proof -
  have o: "- (4 * int k) - 4 = - (4 * int (Suc k))" "pc vm + - (4 * int (Suc k)) = 4 * int (p - Suc k)"
    using assms(2,3) by simp_all
  have "PikaVMFrame_getInstructUnitWithOffset vm (- (4 * int (Suc k))) = Some (us ! (p - Suc k))"
    unfolding PikaVMFrame_getInstructUnitWithOffset_def o(2) using assms(3,4) by (intro code_unit [OF assms(1)]) simp
  then show ?thesis by (subst jmpBackward_loop.simps) (simp add: o(1) Let_def del: of_nat_Suc)
qed

lemma backward_line:
  assumes "code_rep (bytecode_frame vm) us" "views us xs" "pc vm = 4 * int p" "p < length xs" "last_line d xs p t" "jmp vm = -1"
  shows "jmpBackward_loop vm d 0 0 = Some (- (4 * int (p - t)))"
proof -
  have l: "length us = length xs" and v: "\<And>m. m < length xs \<Longrightarrow> instructUnit_getBlockDeepth (us ! m) = fst (xs ! m) \<and>
      (instructUnit_getIsNewLine (us ! m) \<noteq> 0 \<longleftrightarrow> new_line (xs ! m))"
    using assms(2) by (simp_all add: views_def)
  have t: "t < p" "new_line (xs ! t)" "fst (xs ! t) = d" "\<And>m. t < m \<Longrightarrow> m < p \<Longrightarrow> \<not> (new_line (xs ! m) \<and> fst (xs ! m) = d)"
    using assms(5) by (simp_all add: last_line_def)
  have skip: "jmpBackward_loop vm d 0 0 = jmpBackward_loop vm d 0 (- (4 * int e))" if "t + e < p" for e
    using that
  proof (induction e)
    case (Suc e)
    have "\<not> (new_line (xs ! (p - Suc e)) \<and> fst (xs ! (p - Suc e)) = d)" using t(4) [of "p - Suc e"] Suc.prems by simp
    then have c: "\<not> (instructUnit_getIsNewLine (us ! (p - Suc e)) \<noteq> 0 \<and> instructUnit_getBlockDeepth (us ! (p - Suc e)) = d)"
      using v [of "p - Suc e"] assms(4) by simp
    have "jmpBackward_loop vm d 0 (- (4 * int e)) = jmpBackward_loop vm d 0 (- (4 * int (Suc e)))"
      using jmpBackward_step [OF assms(1,3), of e d 0, unfolded Let_def if_not_P [OF c]] Suc.prems assms(4,6) l by simp
    then show ?case using Suc by simp
  qed simp
  let ?e = "p - Suc t"
  have e: "Suc ?e = p - t" "p - Suc ?e = t" using t(1) by simp_all
  have "jmpBackward_loop vm d 0 (- (4 * int ?e)) = Some (- (4 * int (p - t)))"
    using jmpBackward_step [OF assms(1,3), of ?e d 0, unfolded e] t(1-3) v [of t] assms(4,6) l by (simp add: Let_def i8_def)
  then show ?thesis using skip [of ?e] t(1) by simp
qed

lemma jump_lands:
  assumes "frame_ok (bytecode_frame vm)" "disassemble (bytecode_frame vm) = Some xs" "jump_ok xs (j, v, t)"
    and "pc vm = 4 * int j" "jmp vm = v"
  shows "vm_nextPc vm = Some (vm, 4 * int t)"
proof -
  have j: "j < length xs" using assms(3) by (simp add: jump_ok_def)
  then have "xs \<noteq> []" by auto
  then obtain us where us: "code_rep (bytecode_frame vm) us" "views us xs" using frame_views [OF assms(1,2)] by blast
  let ?d = "fst (xs ! j)"
  have now: "PikaVMFrame_getBlockDeepthNow vm = Some ?d"
    using code_now [OF us(1) assms(4)] j us(2) by (simp add: PikaVMFrame_getBlockDeepthNow_def views_def)
  note line = forward_line [OF us assms(4)]
  from assms(3) consider "v = 1" "next_line ?d xs j t" | s where "v = 2" "s < length xs" "next_line ?d xs j s" "next_line ?d xs s t"
    | "v = -1" "last_line ?d xs j t" by (auto simp: jump_ok_def Let_def)
  then have "PikaVMFrame_getAddrOffsetFromJmp vm = Some (4 * int t - 4 * int j) \<and> (v = 1 \<or> v = 2 \<or> v = -1)"
  proof cases
    case 1
    then show ?thesis
      using line(2) [of ?d 0 t 0] now assms(5) by (simp add: PikaVMFrame_getAddrOffsetFromJmp_def next_line_def of_nat_diff)
  next
    case 2
    have "j < s" "s < t" using 2(3,4) by (simp_all add: next_line_def)
    then show ?thesis
      using line(1) [of ?d 0 s 0] line(2) [of ?d "s - j" t 1] 2 now assms(5)
      by (simp add: PikaVMFrame_getAddrOffsetFromJmp_def of_nat_diff)
  next
    case 3
    have "t < j" using 3(2) by (simp add: last_line_def)
    then show ?thesis
      using backward_line [OF us assms(4) j 3(2)] 3(1) now assms(5) by (simp add: PikaVMFrame_getAddrOffsetFromJmp_def of_nat_diff)
  qed
  then show ?thesis
    using assms(4,5) by (auto simp: vm_nextPc_def VM_JMP_EXIT_def VM_JMP_BREAK_def VM_JMP_CONTINUE_def VM_JMP_RAISE_def)
qed

section \<open>The instructions of programs\<close>

abbreviation instrs :: "nat \<Rightarrow> prog \<Rightarrow> instr list" where
  "instrs d p \<equiv> asm_instrs 0 False (prog_code d p)"

abbreviation all_instrs :: "nat \<Rightarrow> prog list \<Rightarrow> instr list" where
  "all_instrs d ps \<equiv> asm_instrs 0 False (concat (map (prog_code d) ps))"

abbreviation line_instrs :: "nat \<Rightarrow> stmt \<Rightarrow> instr list" where
  "line_instrs d s \<equiv> asm_instrs d True (stmt_code 0 s)"

lemma prog_code_start: "\<exists>ss. prog_code d p = Block d # ss"
  by (cases p) simp_all

lemma progs_code_start: "concat (map (prog_code d) ps) = [] \<or> (\<exists>e ss. concat (map (prog_code d) ps) = Block e # ss)"
proof (cases ps)
  case (Cons p qs)
  obtain ss where "prog_code d p = Block d # ss" using prog_code_start by blast
  then show ?thesis by (simp add: Cons)
qed simp

lemma asm_instrs_flag: "ss = [] \<or> (\<exists>e ss'. ss = Block e # ss') \<Longrightarrow> asm_instrs b nl ss = asm_instrs 0 False ss"
  by auto

lemma stmt_ins: "\<forall>t \<in> set (stmt_code 0 s). ins_stmt 0 t"
  using post_stmts [of _ 0 "tree s"] by (simp add: post_tree)

lemma all_instrs_Cons: "all_instrs d (p # ps) = instrs d p @ all_instrs d ps"
  using asm_instrs_at_Block [OF progs_code_start] by simp

lemma instrs_split:
  "instrs d (Simple s) = line_instrs d s"
  "instrs d (If c ps) = line_instrs d c @ (d, 0, False, PIKA_INS INS_JEZ, ''1'') # all_instrs (Suc d) ps"
  "instrs d (While c ps) = line_instrs d c @ (d, 0, False, PIKA_INS INS_JEZ, ''2'') # all_instrs (Suc d) ps @
     [(d, 0, True, PIKA_INS INS_JMP, ''-1'')]"
proof -
  have ne: "stmt_code 0 c \<noteq> []" for c by (cases c) simp
  have a: "asm_instrs d True (stmt_code 0 c @ Ins 0 INS_JEZ v # ys) =
      line_instrs d c @ (d, 0, False, PIKA_INS INS_JEZ, v) # asm_instrs d False ys" for c v ys
    using asm_instrs_append [OF stmt_ins, of d True c] ne by simp
  have b: "asm_instrs d False (concat (map (prog_code e) ps) @ ys) = all_instrs e ps @ asm_instrs 0 False ys"
    if "ys = [] \<or> (\<exists>d ys'. ys = Block d # ys')" for e ys
    using that asm_instrs_at_Block [OF that, of d False "concat (map (prog_code e) ps)"] asm_instrs_flag [OF progs_code_start, of d False e ps]
    by simp
  show "instrs d (Simple s) = line_instrs d s" by simp
  show "instrs d (If c ps) = line_instrs d c @ (d, 0, False, PIKA_INS INS_JEZ, ''1'') # all_instrs (Suc d) ps"
    using b [of "[]" "Suc d"] by (simp add: a)
  show "instrs d (While c ps) = line_instrs d c @ (d, 0, False, PIKA_INS INS_JEZ, ''2'') # all_instrs (Suc d) ps @
     [(d, 0, True, PIKA_INS INS_JMP, ''-1'')]"
    using b [of "[Block d, Ins 0 INS_JMP ''-1'']" "Suc d"] by (simp add: a)
qed

lemma ins_quiet: "\<forall>t \<in> set ss. ins_stmt 0 t \<Longrightarrow> i \<in> set (asm_instrs b False ss) \<Longrightarrow> fst i = b \<and> \<not> new_line i"
  by (induction ss) (auto simp: ins_stmt_def new_line_def)

lemma line_instrs_shape: "\<exists>u us. line_instrs d s = u # us \<and> fst u = d \<and> new_line u \<and> (\<forall>i \<in> set us. fst i = d \<and> \<not> new_line i)"
proof -
  have "stmt_code 0 s \<noteq> []" by (cases s) simp
  then obtain t ts where t: "stmt_code 0 s = t # ts" by (cases "stmt_code 0 s") auto
  moreover have "ins_stmt 0 t" "\<forall>t \<in> set ts. ins_stmt 0 t" using stmt_ins [of s] by (simp_all add: t)
  ultimately show ?thesis using ins_quiet [of ts _ d]
    by (cases t) (simp_all add: ins_stmt_def new_line_def)
qed

lemma all_instrs_depth:
  "i \<in> set (all_instrs e ps) \<Longrightarrow> (\<And>p. p \<in> set ps \<Longrightarrow> i \<in> set (instrs e p) \<Longrightarrow> e \<le> fst i) \<Longrightarrow> e \<le> fst i"
proof (induction ps)
  case (Cons p ps)
  then show ?case unfolding all_instrs_Cons by auto
qed simp

lemma instrs_depth: "i \<in> set (instrs d p) \<Longrightarrow> d \<le> fst i"
proof (induction d p rule: prog_code.induct)
  case (1 d s)
  then show ?case using line_instrs_shape [of d s] unfolding instrs_split by force
next
  case (2 d c ps)
  have "Suc d \<le> fst i" if "i \<in> set (all_instrs (Suc d) ps)"
    using that 2(1) by (rule all_instrs_depth)
  then show ?case using 2(2) line_instrs_shape [of d c] unfolding instrs_split by force
next
  case (3 d c ps)
  have "Suc d \<le> fst i" if "i \<in> set (all_instrs (Suc d) ps)"
    using that 3(1) by (rule all_instrs_depth)
  then show ?case using 3(2) line_instrs_shape [of d c] unfolding instrs_split by force
qed

lemma instrs_start: "\<exists>u us. instrs d p = u # us \<and> lead d u"
proof -
  obtain s r where "instrs d p = line_instrs d s @ r" by (cases p) (simp_all only: instrs_split, force+)
  then show ?thesis using line_instrs_shape [of d s] by (auto simp: lead_def)
qed

section \<open>The jumps of a program\<close>

definition code_len :: "asm_stmt list \<Rightarrow> nat" where
  "code_len c = length (filter (\<lambda>s. case s of Block _ \<Rightarrow> False | Ins _ _ _ \<Rightarrow> True) c)"

text \<open>The jumps of a program whose instructions start at number \<open>k\<close>: where they stand, the value
  they leave in \<open>jmp\<close>, and where they lead. A false condition leads behind the block; the end of a
  loop leads to the start of its condition.\<close>

fun jumps :: "nat \<Rightarrow> prog \<Rightarrow> (nat \<times> int \<times> nat) list"
  and all_jumps :: "nat \<Rightarrow> prog list \<Rightarrow> (nat \<times> int \<times> nat) list" where
  "jumps k (Simple s) = []"
| "jumps k (If c ps) = (k + code_len (stmt_code 0 c), 1, k + code_len (prog_code 0 (If c ps))) #
     all_jumps (Suc (k + code_len (stmt_code 0 c))) ps"
| "jumps k (While c ps) = (k + code_len (stmt_code 0 c), 2, k + code_len (prog_code 0 (While c ps))) #
     (k + code_len (prog_code 0 (While c ps)) - 1, -1, k) # all_jumps (Suc (k + code_len (stmt_code 0 c))) ps"
| "all_jumps k [] = []"
| "all_jumps k (p # ps) = jumps k p @ all_jumps (k + code_len (prog_code 0 p)) ps"

lemma code_len_simps [simp]: "code_len [] = 0" "code_len (Block n # c) = code_len c" "code_len (Ins k i v # c) = Suc (code_len c)"
  "code_len (c @ c') = code_len c + code_len c'"
  by (simp_all add: code_len_def)

lemma length_instrs: "length (asm_instrs b nl c) = code_len c"
  by (induction b nl c rule: asm_instrs.induct) simp_all

lemma code_len_concat: "(\<And>p. p \<in> set ps \<Longrightarrow> code_len (f p) = code_len (g p)) \<Longrightarrow> code_len (concat (map f ps)) = code_len (concat (map g ps))"
  by (induction ps) simp_all

lemma code_len_depth: "code_len (prog_code d p) = code_len (prog_code e p)"
proof (induction d p arbitrary: e rule: prog_code.induct)
  case (2 d c ps)
  then have "code_len (concat (map (prog_code (Suc d)) ps)) = code_len (concat (map (prog_code (Suc e)) ps))"
    by (intro code_len_concat) blast
  then show ?case by simp
next
  case (3 d c ps)
  then have "code_len (concat (map (prog_code (Suc d)) ps)) = code_len (concat (map (prog_code (Suc e)) ps))"
    by (intro code_len_concat) blast
  then show ?case by simp
qed simp

definition ahead :: "nat \<Rightarrow> instr list \<Rightarrow> bool" where
  "ahead d zs \<longleftrightarrow> zs = [] \<or> lead d (hd zs)"

lemma next_line_at:
  assumes "xs = L @ i # B @ zs" "\<forall>b \<in> set B. \<not> lead d b" "ahead d zs"
  shows "next_line d xs (length L) (length L + Suc (length B))"
proof -
  have "\<not> lead d (xs ! m)" if "length L < m" "m < length L + Suc (length B)" for m
  proof -
    have "xs ! m = B ! (m - Suc (length L))" using that by (auto simp: assms(1) nth_append nth_Cons')
    then show ?thesis using that assms(2) by simp
  qed
  moreover have "lead d (xs ! (length L + Suc (length B)))" if "zs \<noteq> []"
    using that assms(3) by (simp add: assms(1) nth_append ahead_def hd_conv_nth)
  ultimately show ?thesis by (auto simp: next_line_def assms(1))
qed

lemma last_line_at:
  assumes "xs = L @ u # B @ zs" "new_line u" "fst u = d" "\<forall>b \<in> set B. \<not> (new_line b \<and> fst b = d)"
  shows "last_line d xs (length L + Suc (length B)) (length L)"
proof -
  have "\<not> (new_line (xs ! m) \<and> fst (xs ! m) = d)" if "length L < m" "m < length L + Suc (length B)" for m
  proof -
    have "xs ! m = B ! (m - Suc (length L))" using that by (auto simp: assms(1) nth_append nth_Cons')
    then show ?thesis using that assms(4) by simp
  qed
  then show ?thesis using assms(2,3) by (auto simp: last_line_def assms(1))
qed

lemma all_instrs_deep: "i \<in> set (all_instrs d ps) \<Longrightarrow> d \<le> fst i"
  using all_instrs_depth instrs_depth by blast

lemma ahead_all_instrs: "ahead d zs \<Longrightarrow> ahead d (all_instrs d ps @ zs)"
proof (cases ps)
  case (Cons p qs)
  obtain u us where "instrs d p = u # us" "lead d u" using instrs_start by blast
  then have "all_instrs d ps = u # us @ all_instrs d qs" unfolding Cons all_instrs_Cons by simp
  with \<open>lead d u\<close> show ?thesis by (simp add: ahead_def)
qed simp

lemma if_jump:
  assumes "xs = pre @ instrs d (If c ps) @ zs" "ahead d zs"
  shows "jump_ok xs (length pre + code_len (stmt_code 0 c), 1, length pre + code_len (prog_code 0 (If c ps)))"
proof -
  let ?L = "pre @ line_instrs d c" and ?B = "all_instrs (Suc d) ps" and ?j = "(d, 0, False, PIKA_INS INS_JEZ, ''1'') :: instr"
  have x: "xs = ?L @ ?j # ?B @ zs" using assms(1) unfolding instrs_split by simp
  have "\<forall>b \<in> set ?B. \<not> lead d b" using all_instrs_deep [of _ "Suc d" ps] by (force simp: lead_def)
  then have n: "next_line d xs (length ?L) (length ?L + Suc (length ?B))" using x assms(2) by (intro next_line_at)
  have "length ?L = length pre + code_len (stmt_code 0 c)" "length ?L + Suc (length ?B) = length pre + code_len (prog_code 0 (If c ps))"
    using code_len_depth [of d "If c ps" 0] by (simp_all add: length_instrs)
  moreover have "fst (xs ! length ?L) = d" "length ?L < length xs" unfolding x by simp_all
  ultimately show ?thesis using n by (simp add: jump_ok_def add.assoc)
qed

lemma while_jump:
  assumes "xs = pre @ instrs d (While c ps) @ zs" "ahead d zs"
  defines "w \<equiv> code_len (prog_code 0 (While c ps))"
  shows "jump_ok xs (length pre + code_len (stmt_code 0 c), 2, length pre + w)" "jump_ok xs (length pre + w - 1, -1, length pre)"
proof -
  let ?L = "pre @ line_instrs d c" and ?B = "all_instrs (Suc d) ps" and ?j = "(d, 0, False, PIKA_INS INS_JEZ, ''2'') :: instr"
  let ?b = "(d, 0, True, PIKA_INS INS_JMP, ''-1'') :: instr" and ?s = "length pre + w - 1"
  obtain u us where u: "line_instrs d c = u # us" "fst u = d" "new_line u" "\<forall>i \<in> set us. fst i = d \<and> \<not> new_line i"
    using line_instrs_shape by blast
  have deep: "\<forall>b \<in> set ?B. Suc d \<le> fst b" using all_instrs_deep by blast
  have x: "xs = ?L @ ?j # ?B @ ?b # zs" "xs = (?L @ ?j # ?B) @ ?b # [] @ zs" "xs = pre @ u # (us @ ?j # ?B) @ ?b # zs"
    using assms(1) u(1) unfolding instrs_split by simp_all
  have l: "length ?L = length pre + code_len (stmt_code 0 c)" "length ?L + Suc (length ?B) = ?s" "length (?L @ ?j # ?B) = ?s"
    "length pre + Suc (length (us @ ?j # ?B)) = ?s"
    using code_len_depth [of d "While c ps" 0] length_instrs [of d True "stmt_code 0 c"] u(1) by (simp_all add: length_instrs w_def)
  have n: "next_line d xs (length ?L) (length ?L + Suc (length ?B))"
    using deep by (intro next_line_at [OF x(1)]) (auto simp: ahead_def lead_def new_line_def)
  have m: "next_line d xs (length (?L @ ?j # ?B)) (length (?L @ ?j # ?B) + Suc (length ([] :: instr list)))"
    using assms(2) by (intro next_line_at [OF x(2)]) simp_all
  have r: "last_line d xs (length pre + Suc (length (us @ ?j # ?B))) (length pre)"
    using u(2-4) deep by (intro last_line_at [OF x(3)]) (auto simp: new_line_def)
  have d: "fst (xs ! length ?L) = d" "length ?L < length xs" unfolding x(1) by simp_all
  have "xs ! length (?L @ ?j # ?B) = ?b" by (subst x(2)) (rule nth_append_length)
  then have e: "fst (xs ! length (?L @ ?j # ?B)) = d" "length (?L @ ?j # ?B) < length xs" by (simp_all add: x(1))
  have "\<exists>s < length xs. next_line d xs (length ?L) s \<and> next_line d xs s (length pre + w)"
  proof (intro exI conjI)
    have "?s + Suc (length ([] :: instr list)) = length pre + w" by (simp add: w_def)
    then show "next_line d xs ?s (length pre + w)" using m unfolding l(3) by metis
    show "next_line d xs (length ?L) ?s" by (rule n [unfolded l(2)])
    show "?s < length xs" by (rule e(2) [unfolded l(3)])
  qed
  then show "jump_ok xs (length pre + code_len (stmt_code 0 c), 2, length pre + w)"
    using d unfolding l(1) by (simp add: jump_ok_def)
  show "jump_ok xs (length pre + w - 1, -1, length pre)"
    using r e unfolding l by (simp add: jump_ok_def)
qed

lemma jumps_ok:
  "xs = pre @ instrs d p @ zs \<Longrightarrow> ahead d zs \<Longrightarrow> k = length pre \<Longrightarrow> y \<in> set (jumps k p) \<Longrightarrow> jump_ok xs y"
  "xs = pre @ all_instrs d ps @ zs \<Longrightarrow> ahead d zs \<Longrightarrow> k = length pre \<Longrightarrow> y \<in> set (all_jumps k ps) \<Longrightarrow> jump_ok xs y"
proof (induction k p and k ps arbitrary: pre d zs and pre d zs rule: jumps_all_jumps.induct)
  case (2 k c ps)
  have "jump_ok xs y" if "y \<in> set (all_jumps (Suc (k + code_len (stmt_code 0 c))) ps)"
  proof (rule 2(1) [where pre = "pre @ line_instrs d c @ [(d, 0, False, PIKA_INS INS_JEZ, ''1'')]" and d = "Suc d"])
    show "ahead (Suc d) zs" using 2(3) by (auto simp: ahead_def lead_def)
  qed (use 2(2,4) that in \<open>simp_all add: instrs_split length_instrs del: prog_code.simps\<close>)
  then show ?case using if_jump [OF 2(2,3)] 2(4,5) by auto
next
  case (3 k c ps)
  have "jump_ok xs y" if "y \<in> set (all_jumps (Suc (k + code_len (stmt_code 0 c))) ps)"
  proof (rule 3(1) [where pre = "pre @ line_instrs d c @ [(d, 0, False, PIKA_INS INS_JEZ, ''2'')]" and d = "Suc d"
        and zs = "(d, 0, True, PIKA_INS INS_JMP, ''-1'') # zs"])
    show "ahead (Suc d) ((d, 0, True, PIKA_INS INS_JMP, ''-1'') # zs)" by (simp add: ahead_def lead_def new_line_def)
  qed (use 3(2,4) that in \<open>simp_all add: instrs_split length_instrs del: prog_code.simps\<close>)
  then show ?case using while_jump [OF 3(2,3)] 3(4,5) by auto
next
  case (5 k p ps)
  have x: "xs = pre @ instrs d p @ all_instrs d ps @ zs" using 5(3) unfolding all_instrs_Cons by simp
  have l: "length (instrs d p) = code_len (prog_code 0 p)" using code_len_depth [of d p 0] by (simp add: length_instrs)
  from 5(6) consider "y \<in> set (jumps k p)" | "y \<in> set (all_jumps (k + code_len (prog_code 0 p)) ps)" by auto
  then show ?case
  proof cases
    case 1
    then show ?thesis using 5(1) [OF x ahead_all_instrs [OF 5(4)] 5(5)] by blast
  next
    case 2
    then show ?thesis using 5(2) [of "pre @ instrs d p" d zs] x 5(4,5) l by simp
  qed
qed simp_all



end
