(* ===== verification/Pika_Library.thy ===== *)
theory Pika_Library
  imports Pika_Compiler
begin

text \<open>
  The library object of \<open>src/src/PikaCompiler.c\<close> with its modules, the library file that the linker
  writes, the functions that read it back, and the read-only file system on a library.

  A module object is a record of its attributes, the library the list of its modules in the order of
  its table. A file is the list of its bytes. A library in memory is its address and the bytes from
  there on, and a pointer into it is an offset.
\<close>

section \<open>The library object\<close>

record Module =
  md_key :: u32
  md_name :: string
  md_bytecode :: "byte list"
  md_buff :: "byte list"
  md_namelen :: int
  md_bytesize :: int

type_synonym LibObj = "Module list"

text \<open>A new module object has no attributes: \<open>obj_getInt\<close> of a missing one is \<open>_PIKA_INT_ERR\<close>.\<close>

definition new_module :: "u32 \<Rightarrow> Module" where
  "new_module key = \<lparr> md_key = key, md_name = '''', md_bytecode = [], md_buff = [],
     md_namelen = -999999999, md_bytesize = -999999999 \<rparr>"

text \<open>The module object of a name, new at the front of the table when there is none.\<close>

definition lib_put :: "u32 \<Rightarrow> (Module \<Rightarrow> Module) \<Rightarrow> LibObj \<Rightarrow> LibObj" where
  "lib_put key f lib =
     (if \<exists>m \<in> set lib. md_key m = key then map (\<lambda>m. if md_key m = key then f m else m) lib
      else f (new_module key) # lib)"

definition module_key :: "string \<Rightarrow> u32 option" where
  "module_key module_name = do { r \<leftarrow> strsReplace module_name ''.'' (Some ''|''); n \<leftarrow> r; Some (hash_time33 n) }"

definition LibObj_dynamicLink :: "LibObj \<Rightarrow> string \<Rightarrow> byte list \<Rightarrow> LibObj option" where
  "LibObj_dynamicLink self module_name bytecode = do {
     key \<leftarrow> module_key module_name;
     Some (lib_put key (\<lambda>m. m\<lparr>md_name := module_name, md_bytecode := bytecode\<rparr>) self)
   }"

definition LibObj_staticLink :: "LibObj \<Rightarrow> string \<Rightarrow> byte list \<Rightarrow> nat \<Rightarrow> LibObj option" where
  "LibObj_staticLink self module_name bytecode n =
     (if length bytecode < n \<or> \<not> fits (n + 9) then None
      else do {
        key \<leftarrow> module_key module_name;
        LibObj_dynamicLink (lib_put key (\<lambda>m. m\<lparr>md_buff := take n bytecode,
            md_namelen := int (strGetSize module_name mod 2 ^ 16), md_bytesize := int n\<rparr>) self)
          module_name (take n bytecode @ [0])
      })"

text \<open>
  The name of a module from the file name: the suffix is cut off, other points are replaced. The
  characters are tested from the end up to the first difference; a name that runs out before is read
  in front of its start.
\<close>

fun suffix_test :: "string \<Rightarrow> string \<Rightarrow> bool option" where
  "suffix_test s [] = Some True"
| "suffix_test [] (e # es) = None"
| "suffix_test (c # s) (e # es) = (if c = e then suffix_test s es else Some False)"

definition module_of_file :: "string \<Rightarrow> string \<Rightarrow> string option" where
  "module_of_file input_file_name path = do {
     module_name \<leftarrow> strsGetLastToken input_file_name CHR ''/'';
     pyo \<leftarrow> suffix_test (rev module_name) ''o.yp.'';
     nm \<leftarrow> (if pyo then Some (take (length module_name - 5) module_name)
            else do { r \<leftarrow> strsReplace module_name ''.'' (Some ''|''); r });
     strsPathJoin path nm
   }"

text \<open>The content of the file, or \<open>None\<close> when it cannot be read.\<close>

definition LibObj_staticLinkFileWithPath :: "LibObj \<Rightarrow> string \<Rightarrow> byte list option \<Rightarrow> string \<Rightarrow> (LibObj \<times> int) option" where
  "LibObj_staticLinkFileWithPath self input_file_name file path = (case file of
     None \<Rightarrow> Some (self, -1)
   | Some bytes \<Rightarrow> do {
       module_name \<leftarrow> module_of_file input_file_name path;
       byte_code \<leftarrow> arg_getBytecode (bytes @ [0]);
       code_size \<leftarrow> arg_getBytecodeSize (bytes @ [0]) (length bytes);
       lib \<leftarrow> LibObj_staticLink self module_name byte_code code_size;
       Some (lib, 0)
     })"

definition LibObj_staticLinkFile :: "LibObj \<Rightarrow> string \<Rightarrow> byte list option \<Rightarrow> (LibObj \<times> int) option" where
  "LibObj_staticLinkFile self input_file_name file = LibObj_staticLinkFileWithPath self input_file_name file ''''"

section \<open>The linker\<close>

record PikaLinker =
  out_file :: "byte list"
  module_num :: nat
  sum_size :: nat
  block_size :: nat
  written_size :: nat

definition linker_fwrite :: "PikaLinker \<Rightarrow> byte list \<Rightarrow> PikaLinker" where
  "linker_fwrite ctx bytes = ctx\<lparr>out_file := out_file ctx @ bytes, written_size := written_size ctx + length bytes\<rparr>"

text \<open>\<open>align_by\<close> on the 64-bit integer of an attribute: the division of C rounds to zero.\<close>

definition align_int :: "int \<Rightarrow> int" where
  "align_int n = (if n = 0 then 0 else (if n \<le> 0 then - ((1 - n) div 4) + 1 else (n - 1) div 4 + 1) * 4)"

definition to_u32 :: "int \<Rightarrow> nat" where "to_u32 n = nat (n mod 2 ^ 32)"

definition handler_libWriteBytecode :: "Module \<Rightarrow> PikaLinker \<Rightarrow> PikaLinker option" where
  "handler_libWriteBytecode m ctx =
     (let bytecode_size = length (md_buff m); align_size = align_by bytecode_size 4 - bytecode_size in
      if length (md_bytecode m) < bytecode_size then None
      else Some (linker_fwrite (linker_fwrite ctx (take bytecode_size (md_bytecode m))) (replicate align_size 0)))"

definition handler_libWriteIndex :: "Module \<Rightarrow> PikaLinker \<Rightarrow> PikaLinker option" where
  "handler_libWriteIndex m linker = do {
     let bytecode_size = to_u32 (md_bytesize m);
     r \<leftarrow> strsReplace (md_name m) ''|'' (Some ''.'');
     module_name \<leftarrow> r;
     b1 \<leftarrow> put_at (replicate (block_size linker) 0) 0 (str_bytes module_name);
     b2 \<leftarrow> (if block_size linker < 4 then None else put_at b1 (block_size linker - 4) (le_bytes 4 bytecode_size));
     Some (linker_fwrite linker b2)
   }"

definition handler_selectBlockSize :: "Module \<Rightarrow> PikaLinker \<Rightarrow> PikaLinker option" where
  "handler_selectBlockSize m linker =
     (let bs = to_u32 (align_int (md_namelen m) + 4) in
      Some (if bs > block_size linker then linker\<lparr>block_size := bs\<rparr> else linker))"

definition handler_libSumSize :: "Module \<Rightarrow> PikaLinker \<Rightarrow> PikaLinker option" where
  "handler_libSumSize m linker =
     Some (linker\<lparr>sum_size := u32_add (sum_size linker) (align_by (to_u32 (md_bytesize m)) 4)\<rparr>)"

definition handler_getModuleNum :: "Module \<Rightarrow> PikaLinker \<Rightarrow> PikaLinker option" where
  "handler_getModuleNum m linker = Some (linker\<lparr>module_num := u32_add (module_num linker) 1\<rparr>)"

primrec lib_foreach :: "(Module \<Rightarrow> 'c \<Rightarrow> 'c option) \<Rightarrow> LibObj \<Rightarrow> 'c \<Rightarrow> 'c option" where
  "lib_foreach handler [] ctx = Some ctx"
| "lib_foreach handler (m # ms) ctx = do { c \<leftarrow> handler m ctx; lib_foreach handler ms c }"

definition LIB_VERSION_NUMBER :: nat where "LIB_VERSION_NUMBER = 7"

definition magic_code_pya :: "byte list" where
  "magic_code_pya = 0x0F # map char_byte ''pya''"

text \<open>The file is not checked to be open; the result is its content.\<close>

definition LibObj_linkFile :: "LibObj \<Rightarrow> bool \<Rightarrow> byte list option" where
  "LibObj_linkFile self opened = do {
     l1 \<leftarrow> lib_foreach handler_getModuleNum self
            \<lparr> out_file = [], module_num = 0, sum_size = 0, block_size = 64, written_size = 0 \<rparr>;
     l2 \<leftarrow> lib_foreach handler_selectBlockSize self l1;
     l3 \<leftarrow> lib_foreach handler_libSumSize self l2;
     let totle_size = u32_add (u32_mul (block_size l3) (u32_add (module_num l3) 1)) (sum_size l3);
     m1 \<leftarrow> put_at (replicate (block_size l3) 0) 0 magic_code_pya;
     m2 \<leftarrow> put_at m1 8 (le_bytes 4 LIB_VERSION_NUMBER);
     m3 \<leftarrow> put_at m2 12 (le_bytes 4 (module_num l3));
     m4 \<leftarrow> put_at m3 4 (le_bytes 4 totle_size);
     m5 \<leftarrow> put_at m4 16 (le_bytes 4 (block_size l3));
     l4 \<leftarrow> (if opened then Some (linker_fwrite l3 m5) else None);
     l5 \<leftarrow> lib_foreach handler_libWriteIndex self l4;
     l6 \<leftarrow> lib_foreach handler_libWriteBytecode self l5;
     if totle_size \<noteq> written_size l6 then None else Some (out_file l6)
   }"

section \<open>Reading a library\<close>

text \<open>The values of the result codes.\<close>

primrec res_code :: "PIKA_RES \<Rightarrow> int" where
  "res_code PIKA_RES_OK = 0"
| "res_code PIKA_RES_ERR_RUNTIME_ERROR = -1"
| "res_code PIKA_RES_ERR_ARG_NO_FOUND = -2"
| "res_code PIKA_RES_ERR_UNKNOWN_INSTRUCTION = -3"
| "res_code PIKA_RES_ERR_OUT_OF_RANGE = -4"
| "res_code PIKA_RES_ERR_IO_ERROR = -5"
| "res_code PIKA_RES_ERR_INSUFFICIENT_RESOURCE = -6"
| "res_code PIKA_RES_ERR_INVALID_PARAM = -7"
| "res_code PIKA_RES_ERR_INVALID_PTR = -8"
| "res_code PIKA_RES_ERR_UNALIGNED_PTR = -9"
| "res_code PIKA_RES_ERR_INVALID_VERSION_NUMBER = -10"
| "res_code PIKA_RES_ERR_ILLEGAL_MAGIC_CODE = -11"
| "res_code PIKA_RES_ERR_OPERATION_FAILED = -12"
| "res_code PIKA_RES_ERR_UNKNOWN = -13"
| "res_code PIKA_RES_ERR_SYNTAX_ERROR = -14"
| "res_code PIKA_RES_ERR_IO = -15"
| "res_code PIKA_RES_ERR_ASSERT = -16"
| "res_code PIKA_RES_ERR_SIGNAL_EVENT_FULL = -17"
| "res_code PIKA_RES_ERR_SIGNAL_EVENT_EMPTY = -18"
| "res_code PIKA_RES_ERR_INDEX = -19"

definition to_i32 :: "nat \<Rightarrow> int" where
  "to_i32 n = (if n < 2 ^ 31 then int n else int n - 2 ^ 32)"

definition getModuleNum :: "nat \<Rightarrow> byte list \<Rightarrow> int option" where
  "getModuleNum addr library_bytes =
     (if addr mod 4 \<noteq> 0 then Some (res_code PIKA_RES_ERR_UNALIGNED_PTR)
      else do {
        version_num \<leftarrow> get_le 4 (drop 8 library_bytes);
        n \<leftarrow> get_le 4 (drop 12 library_bytes);
        magic \<leftarrow> check_magic library_bytes magic_code_pya;
        Some (if \<not> magic then res_code PIKA_RES_ERR_ILLEGAL_MAGIC_CODE
              else if version_num \<noteq> LIB_VERSION_NUMBER then res_code PIKA_RES_ERR_INVALID_VERSION_NUMBER
              else to_i32 n)
      })"

text \<open>
  The walk over the index: the offsets of the name and of the code, the size, and the offset of the
  next code.
\<close>

primrec block_loop :: "nat \<Rightarrow> byte list \<Rightarrow> nat \<Rightarrow> nat \<Rightarrow> nat \<times> nat \<times> nat \<times> nat \<Rightarrow> (nat \<times> nat \<times> nat \<times> nat) option" where
  "block_loop 0 lib bs off r = Some r"
| "block_loop (Suc i) lib bs off r = do {
     let bytecode_ptr_next = snd (snd (snd r));
     module_size \<leftarrow> (if bs + off + bs < 4 then None else get_le 4 (drop (bs + off + bs - 4) lib));
     block_loop i lib bs (off + bs)
       (bs + off, bytecode_ptr_next, module_size, bytecode_ptr_next + align_by module_size 4)
   }"

fun no_zero :: "byte list \<Rightarrow> nat \<Rightarrow> bool option" where
  "no_zero [] n = (if n = 0 then Some True else None)"
| "no_zero (b # bs) n = (if n = 0 then Some True else if b = 0 then Some False else no_zero bs (n - 1))"

text \<open>The bound \<open>module_size - 1\<close> has 32 bits: it is \<open>0xFFFFFFFF\<close> for an empty module.\<close>

definition loadModuleDataWithIndex :: "byte list \<Rightarrow> int \<Rightarrow> nat \<Rightarrow> (nat \<times> nat \<times> nat) option" where
  "loadModuleDataWithIndex library_bytes mnum module_index = do {
     bs \<leftarrow> get_le 4 (drop 16 library_bytes);
     let start = bs + u32_mul bs (to_u32 mnum);
     (module_name, bytecode_ptr, module_size, _) \<leftarrow> block_loop (module_index + 1) library_bytes bs 0 (0, start, 0, start);
     bIsString \<leftarrow> no_zero (drop bytecode_ptr library_bytes) (u32_sub module_size 1);
     if bIsString then do {
       b \<leftarrow> rd (drop bytecode_ptr library_bytes) (u32_sub module_size 1);
       Some (module_name, bytecode_ptr, if b = 0 then module_size - 1 else module_size)
     } else Some (module_name, bytecode_ptr, module_size)
   }"

fun name_loop :: "byte list \<Rightarrow> int \<Rightarrow> string \<Rightarrow> nat list \<Rightarrow> (int \<times> (nat \<times> nat) option) option" where
  "name_loop lib mnum module_name [] = Some (res_code PIKA_RES_ERR_ARG_NO_FOUND, None)"
| "name_loop lib mnum module_name (i # is) = do {
     (name_p, addr, n) \<leftarrow> loadModuleDataWithIndex lib mnum i;
     s \<leftarrow> bytes_str (drop name_p lib);
     nm \<leftarrow> strsGetLastToken s CHR ''/'';
     if strEqu (Some module_name) (Some nm) then Some (res_code PIKA_RES_OK, Some (addr, n))
     else name_loop lib mnum module_name is
   }"

definition loadModuleDataWithName :: "nat \<Rightarrow> byte list \<Rightarrow> string \<Rightarrow> (int \<times> (nat \<times> nat) option) option" where
  "loadModuleDataWithName base library_bytes module_name = do {
     n \<leftarrow> getModuleNum base library_bytes;
     if n < 0 then Some (n, None) else name_loop library_bytes n module_name [0..<nat n]
   }"

text \<open>The first module with the name, in the order of the table.\<close>

definition handler_LibObj_getModule :: "string \<Rightarrow> Module \<Rightarrow> Module option \<Rightarrow> Module option option" where
  "handler_LibObj_getModule module_name m ctx =
     Some (if ctx \<noteq> None then ctx
           else if strEqu (Some (md_name m)) (Some module_name) then Some m else ctx)"

definition LibObj_getModule :: "LibObj \<Rightarrow> string \<Rightarrow> Module option option" where
  "LibObj_getModule self module_name = lib_foreach (handler_LibObj_getModule module_name) self None"

primrec redirect_loop :: "nat \<Rightarrow> LibObj \<Rightarrow> string \<Rightarrow> string option" where
  "redirect_loop 0 self nm = Some nm"
| "redirect_loop (Suc i) self nm = do {
     m \<leftarrow> LibObj_getModule self nm;
     if m \<noteq> None then Some nm
     else redirect_loop i self (c_str (fst (strPopLastToken nm CHR ''.'')))
   }"

text \<open>The outer option is a fault, the inner one the null result.\<close>

definition LibObj_redirectModule :: "LibObj option \<Rightarrow> string \<Rightarrow> string option option" where
  "LibObj_redirectModule lib module_name = (case lib of
     None \<Rightarrow> Some None
   | Some self \<Rightarrow>
       (let token_num = strCountSign module_name CHR ''.'' in
        if token_num = 0 then Some None
        else do {
          m \<leftarrow> LibObj_getModule self module_name;
          if m \<noteq> None then Some (Some module_name)
          else map_option Some (redirect_loop (nat token_num + 1) self module_name)
        }))"

primrec load_loop :: "byte list \<Rightarrow> int \<Rightarrow> nat list \<Rightarrow> LibObj \<Rightarrow> LibObj option" where
  "load_loop lib mnum [] self = Some self"
| "load_loop lib mnum (i # is) self = do {
     (name_p, addr, n) \<leftarrow> loadModuleDataWithIndex lib mnum i;
     module_name \<leftarrow> bytes_str (drop name_p lib);
     self1 \<leftarrow> LibObj_dynamicLink self module_name (drop addr lib);
     load_loop lib mnum is self1
   }"

definition LibObj_loadLibrary :: "LibObj \<Rightarrow> nat \<Rightarrow> byte list \<Rightarrow> (LibObj \<times> int) option" where
  "LibObj_loadLibrary self base library_bytes = do {
     n \<leftarrow> getModuleNum base library_bytes;
     if n < 0 then Some (self, n)
     else do { lib \<leftarrow> load_loop library_bytes n [0..<nat n] self; Some (lib, res_code PIKA_RES_OK) }
   }"

definition LibObj_loadLibraryFile :: "LibObj \<Rightarrow> byte list option \<Rightarrow> nat \<Rightarrow> (LibObj \<times> int) option" where
  "LibObj_loadLibraryFile self file base = (case file of
     None \<Rightarrow> Some (self, res_code PIKA_RES_ERR_IO_ERROR)
   | Some bytes \<Rightarrow> do {
       (lib, r) \<leftarrow> LibObj_loadLibrary self base (bytes @ [0]);
       Some (lib, if r \<noteq> 0 then res_code PIKA_RES_ERR_OPERATION_FAILED else res_code PIKA_RES_OK)
     })"

section \<open>The file system on a library\<close>

text \<open>An open file: the bytes from \<open>addr\<close> on, the size and the position.\<close>

record pikafs_FILE =
  fs_addr :: "byte list"
  fs_size :: nat
  fs_pos :: nat

text \<open>The library is the attribute \<open>@libraw\<close>; the inner option is the null result.\<close>

definition pikafs_fopen :: "(nat \<times> byte list) option \<Rightarrow> string \<Rightarrow> pikafs_FILE option option" where
  "pikafs_fopen libraw file_name = (case libraw of
     None \<Rightarrow> Some None
   | Some (base, bytes) \<Rightarrow> do {
       (r, found) \<leftarrow> loadModuleDataWithName base bytes file_name;
       Some (if r \<noteq> res_code PIKA_RES_OK then None
             else map_option (\<lambda>(addr, n). \<lparr> fs_addr = drop addr bytes, fs_size = n, fs_pos = 0 \<rparr>) found)
     })"

definition pikafs_fopen_pack :: "byte list option \<Rightarrow> nat \<Rightarrow> string \<Rightarrow> pikafs_FILE option option" where
  "pikafs_fopen_pack pack base file_name = (case pack of
     None \<Rightarrow> Some None
   | Some bytes \<Rightarrow> pikafs_fopen (Some (base, bytes @ [0])) file_name)"

text \<open>The buffer after the call, the file and the number of items.\<close>

definition pikafs_fread :: "byte list \<Rightarrow> nat \<Rightarrow> nat \<Rightarrow> pikafs_FILE \<Rightarrow> (byte list \<times> pikafs_FILE \<times> int) option" where
  "pikafs_fread buf sz cnt f =
     (let want = sz * cnt mod 2 ^ 64 in
      if fs_pos f \<ge> fs_size f then Some (buf, f, 0)
      else let read_len = (if (fs_pos f + want) mod 2 ^ 64 > fs_size f then fs_size f else want) in
        if length (fs_addr f) < fs_pos f + read_len \<or> sz = 0 then None
        else do {
          buf' \<leftarrow> put_at buf 0 (take read_len (drop (fs_pos f) (fs_addr f)));
          Some (buf', f\<lparr>fs_pos := fs_pos f + read_len\<rparr>, to_i32 (read_len div sz mod 2 ^ 32))
        })"

definition pikafs_fwrite :: int where "pikafs_fwrite = -1"

text \<open>Unpacking: every module under its last name token, as far as the files can be opened.\<close>

fun unpack_loop :: "byte list \<Rightarrow> int \<Rightarrow> string \<Rightarrow> (string \<Rightarrow> bool) \<Rightarrow> nat list \<Rightarrow> (int \<times> (string \<times> byte list) list) option" where
  "unpack_loop lib mnum out_path can_open [] = Some (res_code PIKA_RES_OK, [])"
| "unpack_loop lib mnum out_path can_open (i # is) = do {
     (name_p, addr, n) \<leftarrow> loadModuleDataWithIndex lib mnum i;
     s \<leftarrow> bytes_str (drop name_p lib);
     nm \<leftarrow> strsGetLastToken s CHR ''/'';
     path \<leftarrow> strsPathJoin out_path nm;
     if \<not> can_open path then Some (res_code PIKA_RES_ERR_IO_ERROR, [])
     else if length (drop addr lib) < n then None
     else do {
       (r, files) \<leftarrow> unpack_loop lib mnum out_path can_open is;
       Some (r, (path, take n (drop addr lib)) # files)
     }
   }"

definition pikafs_unpack_files ::
  "byte list option \<Rightarrow> nat \<Rightarrow> string option \<Rightarrow> (string \<Rightarrow> bool) \<Rightarrow> (int \<times> (string \<times> byte list) list) option" where
  "pikafs_unpack_files pack base out_path can_open = (case pack of
     None \<Rightarrow> Some (res_code PIKA_RES_ERR_IO_ERROR, [])
   | Some bytes \<Rightarrow> do {
       n \<leftarrow> getModuleNum base (bytes @ [0]);
       if n < 0 then Some (n, [])
       else unpack_loop (bytes @ [0]) n (case out_path of None \<Rightarrow> ''./packout/'' | Some p \<Rightarrow> p) can_open [0..<nat n]
     })"

section \<open>Libraries as C arrays\<close>

definition hex_lower :: "nat \<Rightarrow> char" where "hex_lower d = ''0123456789abcdef'' ! d"

definition hex_byte :: "byte \<Rightarrow> string" where
  "hex_byte b = ''0x'' @ [hex_lower (unat b div 16), hex_lower (unat b mod 16)] @ '', ''"

fun array_loop :: "nat \<Rightarrow> byte list \<Rightarrow> string" where
  "array_loop i [] = []"
| "array_loop i (b # bs) = (if i mod 12 = 0 then CH_NL # ''    '' else []) @ hex_byte b @ array_loop (i + 1) bs"

text \<open>The path of the C file and its text; the result 1 without a file is \<open>Inl\<close>.\<close>

definition Lib_loadLibraryFileToArray :: "string \<Rightarrow> byte list option \<Rightarrow> string \<Rightarrow> (int + string \<times> string) option" where
  "Lib_loadLibraryFileToArray origin_file_name file out_folder = (case file of
     None \<Rightarrow> Some (Inl 1)
   | Some bytes \<Rightarrow> do {
       n1 \<leftarrow> strsGetLastToken origin_file_name CHR ''/'';
       n2 \<leftarrow> strsAppend ''__asset_'' n1;
       r3 \<leftarrow> strsReplace n2 ''.'' (Some ''_'');
       n3 \<leftarrow> r3;
       n4 \<leftarrow> strsAppend n3 ''.c'';
       output_file_path \<leftarrow> strsPathJoin out_folder n4;
       r5 \<leftarrow> strsReplace n1 ''.'' (Some ''_'');
       array_name \<leftarrow> r5;
       Some (Inr (output_file_path,
         ''#include '' @ [CH_DQ] @ ''PikaPlatform.h'' @ [CH_DQ, CH_NL] @
         ''/* warning: auto generated file, please do not modify */'' @ [CH_NL] @
         ''PIKA_BYTECODE_ALIGN const unsigned char '' @ array_name @ ''[] = {'' @
         array_loop 0 bytes @ [CH_NL] @ ''};'' @ [CH_NL]))
     })"

section \<open>Module names and keys\<close>

definition bars :: "string \<Rightarrow> string" where "bars s = map (\<lambda>c. if c = CHR ''.'' then CHR ''|'' else c) s"
definition dots :: "string \<Rightarrow> string" where "dots s = map (\<lambda>c. if c = CHR ''|'' then CHR ''.'' else c) s"

lemma strsReplace_char:
  assumes "cstring s" "b \<noteq> NUL"
  shows "strsReplace s [a] (Some [b]) = Some (Some (map (\<lambda>c. if c = a then b else c) s))"
proof -
  have "join [b] (pieces [a] s) = map (\<lambda>c. if c = a then b else c) s"
  proof (induction s)
    case Nil
    then show ?case by (simp add: pieces_Nil)
  next
    case (Cons c s)
    then show ?case by (simp add: replace_Cons)
  qed
  then show ?thesis using assms by (simp add: strsReplace_eq)
qed

lemma cstring_bars_dots [simp]: "cstring (bars s) \<longleftrightarrow> cstring s" "cstring (dots s) \<longleftrightarrow> cstring s"
  "length (bars s) = length s" "length (dots s) = length s" "bars (dots s) = bars s"
  by (auto simp: bars_def dots_def cstring_def)

lemma module_key_eq: "cstring s \<Longrightarrow> module_key s = Some (hash_time33 (bars s))"
  by (simp add: module_key_def strsReplace_char bars_def)

section \<open>Libraries of linked modules\<close>

definition mod_ok :: "Module \<Rightarrow> bool" where
  "mod_ok m \<longleftrightarrow> cstring (md_name m) \<and> length (md_name m) < 2 ^ 16 \<and> md_namelen m = int (length (md_name m)) \<and>
     md_bytesize m = int (length (md_buff m)) \<and> fits (length (md_buff m) + 9) \<and>
     take (length (md_buff m)) (md_bytecode m) = md_buff m \<and> md_key m = hash_time33 (bars (md_name m))"

definition lib_ok :: "LibObj \<Rightarrow> bool" where
  "lib_ok lib \<longleftrightarrow> (\<forall>m \<in> set lib. mod_ok m) \<and> distinct (map md_key lib)"

lemma new_module_key [simp]: "md_key (new_module k) = k"
  by (simp add: new_module_def)

lemma lib_put_key: "(\<And>m. md_key (f m) = md_key m) \<Longrightarrow>
  map md_key (lib_put k f lib) = (if k \<in> md_key ` set lib then map md_key lib else k # map md_key lib)"
  by (auto simp: lib_put_def image_iff)

lemma lib_put_set:
  "m \<in> set (lib_put k f lib) \<Longrightarrow> m \<in> set lib \<and> md_key m \<noteq> k \<or> (\<exists>m0. md_key m0 = k \<and> m = f m0)"
  unfolding lib_put_def by (simp split: if_splits) (blast, metis new_module_key)

lemma lib_put_in:
  assumes "\<And>m. md_key (f m) = md_key m"
  shows "\<exists>m0. md_key m0 = k \<and> f m0 \<in> set (lib_put k f lib)"
proof (cases "\<exists>m \<in> set lib. md_key m = k")
  case True
  then show ?thesis by (force simp: lib_put_def)
next
  case False
  then show ?thesis by (intro exI [of _ "new_module k"]) (simp add: lib_put_def)
qed

lemma lib_put_other: "m \<in> set lib \<Longrightarrow> md_key m \<noteq> k \<Longrightarrow> m \<in> set (lib_put k f lib)"
  by (force simp: lib_put_def)

lemma lib_put_twice:
  assumes "\<And>m. md_key (f m) = md_key m"
  shows "lib_put k g (lib_put k f lib) = lib_put k (g \<circ> f) lib"
proof (cases "\<exists>m \<in> set lib. md_key m = k")
  case True
  then have "\<exists>m \<in> set (lib_put k f lib). md_key m = k" using assms by (force simp: lib_put_def)
  then show ?thesis using True assms by (simp add: lib_put_def [of k _ lib] lib_put_def [of k g])
next
  case False
  then have "map (\<lambda>m. if md_key m = k then h m else m) lib = lib" for h by (induction lib) auto
  then show ?thesis using False assms by (simp add: lib_put_def)
qed

definition linked :: "string \<Rightarrow> byte list \<Rightarrow> Module \<Rightarrow> Module" where
  "linked nm code m = m\<lparr>md_name := nm, md_bytecode := code @ [0], md_buff := code,
     md_namelen := int (length nm), md_bytesize := int (length code)\<rparr>"

lemma LibObj_staticLink_eq:
  assumes "cstring nm" "length nm < 2 ^ 16" "n \<le> length bytes" "fits (n + 9)"
  shows "LibObj_staticLink lib nm bytes n = Some (lib_put (hash_time33 (bars nm)) (linked nm (take n bytes)) lib)"
proof -
  have "(\<lambda>m. m\<lparr>md_name := nm, md_bytecode := take n bytes @ [0]\<rparr>) \<circ>
      (\<lambda>m. m\<lparr>md_buff := take n bytes, md_namelen := int (length nm), md_bytesize := int n\<rparr>) = linked nm (take n bytes)"
    using assms(3) by (auto simp: fun_eq_iff linked_def min_def)
  then show ?thesis
    using assms by (simp add: LibObj_staticLink_def LibObj_dynamicLink_def module_key_eq lib_put_twice strGetSize_def)
qed

lemma linked_fields [simp]: "md_name (linked nm code m) = nm" "md_buff (linked nm code m) = code"
  "md_key (linked nm code m) = md_key m"
  by (simp_all add: linked_def)

lemma linked_ok: "cstring nm \<Longrightarrow> length nm < 2 ^ 16 \<Longrightarrow> fits (length code + 9) \<Longrightarrow>
  md_key m = hash_time33 (bars nm) \<Longrightarrow> mod_ok (linked nm code m)"
  by (simp add: mod_ok_def linked_def)

lemma staticLink_lib_ok:
  assumes "lib_ok lib" "cstring nm" "length nm < 2 ^ 16" "fits (length code + 9)"
  shows "lib_ok (lib_put (hash_time33 (bars nm)) (linked nm code) lib)"
proof -
  have "md_key (linked nm code m) = md_key m" for m by (simp add: linked_def)
  then have "distinct (map md_key (lib_put (hash_time33 (bars nm)) (linked nm code) lib))"
    using assms(1) by (auto simp: lib_put_key lib_ok_def)
  then show ?thesis
    using assms by (auto simp: lib_ok_def dest!: lib_put_set intro: linked_ok)
qed

section \<open>The file that the linker writes\<close>

definition lib_block :: "LibObj \<Rightarrow> nat \<Rightarrow> nat" where
  "lib_block lib b = fold (\<lambda>m b. max b (pad4 (length (md_name m)) + 4)) lib b"

definition lib_code :: "LibObj \<Rightarrow> nat" where
  "lib_code lib = sum_list (map (\<lambda>m. pad4 (length (md_buff m))) lib)"

definition lib_total :: "LibObj \<Rightarrow> nat" where
  "lib_total lib = lib_block lib 64 * (length lib + 1) + lib_code lib"

definition index_block :: "nat \<Rightarrow> Module \<Rightarrow> byte list" where
  "index_block bs m = take (bs - 4) (str_bytes (dots (md_name m)) @ replicate bs 0) @ le_bytes 4 (length (md_buff m))"

definition code_block :: "Module \<Rightarrow> byte list" where
  "code_block m = md_buff m @ replicate (pad4 (length (md_buff m)) - length (md_buff m)) 0"

definition meta_block :: "nat \<Rightarrow> nat \<Rightarrow> nat \<Rightarrow> byte list" where
  "meta_block bs n t = magic_code_pya @ le_bytes 4 t @ le_bytes 4 LIB_VERSION_NUMBER @ le_bytes 4 n @
     le_bytes 4 bs @ replicate (bs - 20) 0"

definition lib_file :: "LibObj \<Rightarrow> byte list" where
  "lib_file lib = meta_block (lib_block lib 64) (length lib) (lib_total lib) @
     concat (map (index_block (lib_block lib 64)) lib) @ concat (map code_block lib)"

lemma lib_block_Cons [simp]: "lib_block (m # lib) b = lib_block lib (max b (pad4 (length (md_name m)) + 4))" "lib_block [] b = b"
  by (simp_all add: lib_block_def)

lemma lib_block_ge: "b \<le> lib_block lib b" "m \<in> set lib \<Longrightarrow> pad4 (length (md_name m)) + 4 \<le> lib_block lib b"
proof -
  show ge: "b \<le> lib_block lib b" for b lib by (induction lib arbitrary: b) (auto intro: order_trans [OF max.cobounded1])
  show "m \<in> set lib \<Longrightarrow> pad4 (length (md_name m)) + 4 \<le> lib_block lib b"
  proof (induction lib arbitrary: b)
    case (Cons x lib)
    then show ?case using ge [of "max b (pad4 (length (md_name m)) + 4)"] by auto
  qed simp
qed

lemma align_int_pad4: "n < 2 ^ 16 \<Longrightarrow> to_u32 (align_int (int n) + 4) = pad4 n + 4"
proof -
  assume n: "n < 2 ^ 16"
  have "align_int (int n) = int (pad4 n)"
    unfolding align_int_def pad4_def by (cases n) (simp_all add: zdiv_int, presburger)
  moreover have "pad4 n + 4 < 2 ^ 32" using pad4_bound [of n] n by simp
  ultimately show ?thesis unfolding to_u32_def by (simp add: nat_mod_distrib nat_add_distrib)
qed

lemma foreach_selectBlockSize:
  "\<forall>m \<in> set lib. mod_ok m \<Longrightarrow> lib_foreach handler_selectBlockSize lib l = Some (l\<lparr>block_size := lib_block lib (block_size l)\<rparr>)"
  by (induction lib arbitrary: l) (auto simp: handler_selectBlockSize_def mod_ok_def align_int_pad4 Let_def max_def)

lemma to_u32_size: "mod_ok m \<Longrightarrow> to_u32 (md_bytesize m) = length (md_buff m)"
  by (simp add: mod_ok_def to_u32_def U32_def)

lemma align_size: "mod_ok m \<Longrightarrow> align_by (length (md_buff m)) 4 = pad4 (length (md_buff m))"
  by (simp add: mod_ok_def align_by_pad4)

lemma foreach_libSumSize:
  "\<forall>m \<in> set lib. mod_ok m \<Longrightarrow> sum_size l + lib_code lib < U32 \<Longrightarrow>
    lib_foreach handler_libSumSize lib l = Some (l\<lparr>sum_size := sum_size l + lib_code lib\<rparr>)"
  by (induction lib arbitrary: l)
    (auto simp: handler_libSumSize_def to_u32_size align_size lib_code_def u32_add_small add.assoc)

lemma foreach_getModuleNum:
  "module_num l + length lib < U32 \<Longrightarrow>
    lib_foreach handler_getModuleNum lib l = Some (l\<lparr>module_num := module_num l + length lib\<rparr>)"
  by (induction lib arbitrary: l) (auto simp: handler_getModuleNum_def)

lemma linker_fwrite_twice: "linker_fwrite (linker_fwrite l xs) ys = linker_fwrite l (xs @ ys)"
  by (simp add: linker_fwrite_def)

lemma linker_fwrite_fields [simp]: "block_size (linker_fwrite l xs) = block_size l"
  "out_file (linker_fwrite l xs) = out_file l @ xs" "written_size (linker_fwrite l xs) = written_size l + length xs"
  by (simp_all add: linker_fwrite_def)

lemma linker_fwrite_Nil: "linker_fwrite l [] = l"
  by (simp add: linker_fwrite_def)

lemma libWriteIndex_eq:
  assumes "mod_ok m" "pad4 (length (md_name m)) + 4 \<le> block_size l"
  shows "handler_libWriteIndex m l = Some (linker_fwrite l (index_block (block_size l) m))"
proof -
  let ?n = "dots (md_name m)"
  have r: "strsReplace (md_name m) ''|'' (Some ''.'') = Some (Some ?n)"
    using assms(1) strsReplace_char [of "md_name m"] by (simp add: mod_ok_def dots_def)
  have l: "length (md_name m) + 4 \<le> block_size l" using assms(2) pad4_ge [of "length (md_name m)"] by linarith
  then have "put_at (replicate (block_size l) 0) 0 (str_bytes ?n) =
      Some (str_bytes ?n @ replicate (block_size l - length (md_name m) - 1) 0)"
    by (simp add: put_at_def)
  then show ?thesis
    using l r by (simp add: handler_libWriteIndex_def put_at_def to_u32_size [OF assms(1)] index_block_def)
qed

lemma foreach_libWriteIndex:
  "\<forall>m \<in> set lib. mod_ok m \<and> pad4 (length (md_name m)) + 4 \<le> block_size l \<Longrightarrow>
    lib_foreach handler_libWriteIndex lib l = Some (linker_fwrite l (concat (map (index_block (block_size l)) lib)))"
  by (induction lib arbitrary: l) (auto simp: libWriteIndex_eq linker_fwrite_twice linker_fwrite_Nil)

lemma foreach_libWriteBytecode:
  "\<forall>m \<in> set lib. mod_ok m \<Longrightarrow>
    lib_foreach handler_libWriteBytecode lib l = Some (linker_fwrite l (concat (map code_block lib)))"
proof (induction lib arbitrary: l)
  case Nil
  then show ?case by (simp add: linker_fwrite_Nil)
next
  case (Cons m lib)
  then have b: "take (length (md_buff m)) (md_bytecode m) = md_buff m" by (simp add: mod_ok_def)
  then have "length (md_buff m) \<le> length (md_bytecode m)" by (metis length_take min.cobounded1)
  then show ?case
    using Cons b by (simp add: handler_libWriteBytecode_def align_size linker_fwrite_twice code_block_def Let_def)
qed

lemma length_index_block: "4 \<le> bs \<Longrightarrow> length (index_block bs m) = bs"
  by (simp add: index_block_def)

lemma length_index_blocks: "4 \<le> bs \<Longrightarrow> length (concat (map (index_block bs) lib)) = bs * length lib"
  by (induction lib) (simp_all add: length_index_block)

lemma length_code_blocks: "length (concat (map code_block lib)) = lib_code lib"
proof (induction lib)
  case (Cons m lib)
  then show ?case using pad4_ge [of "length (md_buff m)"] by (simp add: code_block_def lib_code_def)
qed (simp add: lib_code_def)

lemma length_meta: "20 \<le> bs \<Longrightarrow> length (meta_block bs n t) = bs"
  by (simp add: meta_block_def magic_code_pya_def)

lemma length_lib_file: "length (lib_file lib) = lib_total lib"
  using lib_block_ge(1) [of 64 lib]
  by (simp add: lib_file_def length_meta length_index_blocks length_code_blocks lib_total_def)

lemma put_at_mid: "length ys = length zs \<Longrightarrow> length xs = k \<Longrightarrow> put_at (xs @ ys @ rest) k zs = Some (xs @ zs @ rest)"
  by (simp add: put_at_def)

lemma meta_puts:
  assumes "20 \<le> bs"
  shows "do {
     m1 \<leftarrow> put_at (replicate bs 0) 0 magic_code_pya;
     m2 \<leftarrow> put_at m1 8 (le_bytes 4 LIB_VERSION_NUMBER);
     m3 \<leftarrow> put_at m2 12 (le_bytes 4 n);
     m4 \<leftarrow> put_at m3 4 (le_bytes 4 t);
     m5 \<leftarrow> put_at m4 16 (le_bytes 4 bs);
     f m5
   } = f (meta_block bs n t)"
proof -
  let ?z = "replicate 4 0 :: byte list" and ?r = "replicate (bs - 20) 0 :: byte list"
  have "bs = 4 + (4 + (4 + (4 + (4 + (bs - 20)))))" using assms by simp
  then have r: "replicate bs 0 = ?z @ ?z @ ?z @ ?z @ ?z @ ?r" by (metis replicate_add)
  have m: "length magic_code_pya = 4" by (simp add: magic_code_pya_def)
  note mid = put_at_mid [of "replicate 4 0" "le_bytes 4 x" for x]
  have p1: "put_at (replicate bs 0) 0 magic_code_pya = Some (magic_code_pya @ ?z @ ?z @ ?z @ ?z @ ?r)"
    using put_at_mid [of ?z magic_code_pya "[]"] m by (simp only: r) simp
  have p2: "put_at (magic_code_pya @ ?z @ ?z @ ?z @ ?z @ ?r) 8 (le_bytes 4 v) =
      Some (magic_code_pya @ ?z @ le_bytes 4 v @ ?z @ ?z @ ?r)" for v
    using mid [of v "magic_code_pya @ ?z"] m by simp
  have p3: "put_at (magic_code_pya @ ?z @ le_bytes 4 v @ ?z @ ?z @ ?r) 12 (le_bytes 4 n) =
      Some (magic_code_pya @ ?z @ le_bytes 4 v @ le_bytes 4 n @ ?z @ ?r)" for v
    using mid [of n "magic_code_pya @ ?z @ le_bytes 4 v"] m by simp
  have p4: "put_at (magic_code_pya @ ?z @ le_bytes 4 v @ le_bytes 4 n @ ?z @ ?r) 4 (le_bytes 4 t) =
      Some (magic_code_pya @ le_bytes 4 t @ le_bytes 4 v @ le_bytes 4 n @ ?z @ ?r)" for v
    using mid [of t magic_code_pya] m by simp
  have p5: "put_at (magic_code_pya @ le_bytes 4 t @ le_bytes 4 v @ le_bytes 4 n @ ?z @ ?r) 16 (le_bytes 4 bs) =
      Some (magic_code_pya @ le_bytes 4 t @ le_bytes 4 v @ le_bytes 4 n @ le_bytes 4 bs @ ?r)" for v
    using mid [of bs "magic_code_pya @ le_bytes 4 t @ le_bytes 4 v @ le_bytes 4 n"] m by simp
  show ?thesis by (simp only: p1 p2 p3 p4 p5 bind.simps meta_block_def)
qed

lemma LibObj_linkFile_eq:
  assumes "\<forall>m \<in> set lib. mod_ok m" "lib_total lib < U32"
  shows "LibObj_linkFile lib True = Some (lib_file lib)"
proof -
  let ?bs = "lib_block lib 64"
  have bs: "64 \<le> ?bs" by (rule lib_block_ge)
  have a: "?bs * (length lib + 1) < U32" "lib_code lib < U32" using assms(2) by (simp_all add: lib_total_def)
  have "length lib + 1 \<le> ?bs * (length lib + 1)"
    using mult_le_mono1 [of 1 ?bs "length lib + 1"] bs by (simp only: nat_mult_1)
  from le_less_trans [OF this a(1)] have n: "length lib + 1 < U32" .
  let ?l = "\<lparr> out_file = [], module_num = length lib, sum_size = lib_code lib, block_size = ?bs, written_size = 0 \<rparr>"
  have t: "u32_add (u32_mul ?bs (Suc (length lib))) (lib_code lib) = lib_total lib"
    using assms(2) a(1) by (simp add: lib_total_def u32_mul_small u32_add_small)
  have len: "lib_total lib = ?bs + ?bs * length lib + lib_code lib" by (simp add: lib_total_def)
  let ?m = "meta_block ?bs (length lib) (lib_total lib)"
  have w: "lib_foreach handler_libWriteIndex lib (linker_fwrite ?l ?m) =
      Some (linker_fwrite ?l (?m @ concat (map (index_block ?bs) lib)))"
    using foreach_libWriteIndex [of lib "linker_fwrite ?l ?m"] assms(1) lib_block_ge(2) [of _ lib 64]
    by (simp add: linker_fwrite_twice)
  show ?thesis
    unfolding LibObj_linkFile_def
    using assms(1) n bs a(2)
    by (simp add: foreach_getModuleNum foreach_selectBlockSize foreach_libSumSize t meta_puts w
        foreach_libWriteBytecode linker_fwrite_twice lib_file_def length_meta length_index_blocks length_code_blocks
        Let_def) (simp add: len)
qed

section \<open>Reading the file\<close>

lemma drop_mid: "length xs = k \<Longrightarrow> drop k (xs @ ys) = ys"
  by simp

lemma get_le_mid: "length xs = k \<Longrightarrow> x < U32 \<Longrightarrow> get_le 4 (drop k (xs @ le_bytes 4 x @ ys)) = Some x"
  using get_le_le_bytes [of x 4 ys] by (simp add: U32_def)

lemma split_at: "k < length xs \<Longrightarrow> concat (map f xs) = concat (map f (take k xs)) @ f (xs ! k) @ concat (map f (drop (Suc k) xs))"
  by (metis concat.simps(2) concat_append id_take_nth_drop list.simps(9) map_append)

lemma read_meta:
  assumes "t < U32" "n < U32" "bs < U32" "20 \<le> bs"
  shows "get_le 4 (drop 8 (meta_block bs n t @ rest)) = Some LIB_VERSION_NUMBER"
    and "get_le 4 (drop 12 (meta_block bs n t @ rest)) = Some n"
    and "get_le 4 (drop 16 (meta_block bs n t @ rest)) = Some bs"
    and "check_magic (meta_block bs n t @ rest) magic_code_pya = Some True"
proof -
  have m: "length magic_code_pya = 4" by (simp add: magic_code_pya_def)
  have v: "LIB_VERSION_NUMBER < U32" by (simp add: LIB_VERSION_NUMBER_def U32_def)
  show "get_le 4 (drop 8 (meta_block bs n t @ rest)) = Some LIB_VERSION_NUMBER"
    using get_le_mid [of "magic_code_pya @ le_bytes 4 t", OF _ v] m by (simp add: meta_block_def)
  show "get_le 4 (drop 12 (meta_block bs n t @ rest)) = Some n"
    using get_le_mid [of "magic_code_pya @ le_bytes 4 t @ le_bytes 4 LIB_VERSION_NUMBER", OF _ assms(2)] m
    by (simp add: meta_block_def)
  show "get_le 4 (drop 16 (meta_block bs n t @ rest)) = Some bs"
    using get_le_mid [of "magic_code_pya @ le_bytes 4 t @ le_bytes 4 LIB_VERSION_NUMBER @ le_bytes 4 n", OF _ assms(3)] m
    by (simp add: meta_block_def)
  show "check_magic (meta_block bs n t @ rest) magic_code_pya = Some True"
    by (simp add: meta_block_def magic_code_pya_def)
qed

lemma at_index:
  assumes "k < length lib"
  shows "\<exists>r. drop (lib_block lib 64 + lib_block lib 64 * k) (lib_file lib @ rest) = index_block (lib_block lib 64) (lib ! k) @ r"
proof -
  let ?bs = "lib_block lib 64" and ?m = "meta_block (lib_block lib 64) (length lib) (lib_total lib)"
  have bs: "20 \<le> ?bs" using lib_block_ge(1) [of 64 lib] by simp
  let ?p = "concat (map (index_block ?bs) (take k lib))"
  have "lib_file lib @ rest = (?m @ ?p) @ index_block ?bs (lib ! k) @
      concat (map (index_block ?bs) (drop (Suc k) lib)) @ concat (map code_block lib) @ rest"
    unfolding lib_file_def split_at [OF assms, of "index_block ?bs"] by simp
  moreover have "length (?m @ ?p) = ?bs + ?bs * k"
    using bs assms by (simp add: length_meta length_index_blocks min_def)
  ultimately show ?thesis using drop_mid by metis
qed

lemma at_code:
  assumes "k < length lib"
  shows "\<exists>r. drop (lib_block lib 64 * (length lib + 1) + lib_code (take k lib)) (lib_file lib @ rest) =
    code_block (lib ! k) @ r"
proof -
  let ?bs = "lib_block lib 64" and ?m = "meta_block (lib_block lib 64) (length lib) (lib_total lib)"
  have bs: "20 \<le> ?bs" using lib_block_ge(1) [of 64 lib] by simp
  let ?i = "concat (map (index_block ?bs) lib)" and ?p = "concat (map code_block (take k lib))"
  have "lib_file lib @ rest = (?m @ ?i @ ?p) @ code_block (lib ! k) @ concat (map code_block (drop (Suc k) lib)) @ rest"
    unfolding lib_file_def split_at [OF assms, of code_block] by simp
  moreover have "length (?m @ ?i @ ?p) = ?bs * (length lib + 1) + lib_code (take k lib)"
    using bs by (simp add: length_meta length_index_blocks length_code_blocks)
  ultimately show ?thesis using drop_mid by metis
qed

lemma read_size:
  assumes "k < length lib" "mod_ok (lib ! k)"
  shows "get_le 4 (drop (lib_block lib 64 + lib_block lib 64 * k + lib_block lib 64 - 4) (lib_file lib @ rest)) =
    Some (length (md_buff (lib ! k)))"
proof -
  let ?bs = "lib_block lib 64" and ?F = "lib_file lib @ rest"
  have bs: "4 \<le> ?bs" using lib_block_ge(1) [of 64 lib] by simp
  obtain r where r: "drop (?bs + ?bs * k) ?F = index_block ?bs (lib ! k) @ r" using at_index [OF assms(1)] by blast
  have "drop (?bs + ?bs * k + ?bs - 4) ?F = drop (?bs - 4) (drop (?bs + ?bs * k) ?F)"
    using bs by (simp add: drop_drop add.commute del: drop_append)
  also have "\<dots> = le_bytes 4 (length (md_buff (lib ! k))) @ r"
    unfolding r index_block_def append_assoc by (rule drop_mid) simp
  finally show ?thesis
    using get_le_le_bytes [of "length (md_buff (lib ! k))" 4 r] assms(2) by (simp add: mod_ok_def U32_def)
qed

lemma lib_code_take_Suc: "k < length lib \<Longrightarrow> lib_code (take (Suc k) lib) = lib_code (take k lib) + pad4 (length (md_buff (lib ! k)))"
  by (simp add: lib_code_def take_Suc_conv_app_nth)

lemma block_loop_eq:
  assumes "\<forall>m \<in> set lib. mod_ok m" "k + i \<le> length lib" "0 < i"
  defines "bs \<equiv> lib_block lib 64" and "st \<equiv> lib_block lib 64 * (length lib + 1)"
  shows "block_loop i (lib_file lib @ rest) bs (bs * k) (a, b, c, st + lib_code (take k lib)) =
    Some (bs * (k + i), st + lib_code (take (k + i - 1) lib), length (md_buff (lib ! (k + i - 1))),
      st + lib_code (take (k + i) lib))"
  using assms(2,3)
proof (induction i arbitrary: k a b c)
  case (Suc i)
  have k: "k < length lib" "mod_ok (lib ! k)" using Suc.prems assms(1) by simp_all
  have bs: "64 \<le> bs" unfolding bs_def by (rule lib_block_ge)
  have step: "block_loop (Suc i) (lib_file lib @ rest) bs (bs * k) (a, b, c, st + lib_code (take k lib)) =
      block_loop i (lib_file lib @ rest) bs (bs * Suc k)
        (bs * Suc k, st + lib_code (take k lib), length (md_buff (lib ! k)), st + lib_code (take (Suc k) lib))"
    using read_size [OF k, of rest] bs align_size [OF k(2)]
    by (simp add: bs_def [symmetric] lib_code_take_Suc [OF k(1)] add_ac del: drop_append)
  show ?case
  proof (cases "i = 0")
    case True
    then show ?thesis using step by simp
  next
    case False
    then show ?thesis using step Suc.IH [of "Suc k"] Suc.prems by simp
  qed
qed simp

text \<open>The size that the reader reports: without the last terminator of a text.\<close>

definition file_size :: "byte list \<Rightarrow> nat" where
  "file_size b = (if 0 \<notin> set (butlast b) \<and> last b = 0 then length b - 1 else length b)"

definition code_pos :: "LibObj \<Rightarrow> nat \<Rightarrow> nat" where
  "code_pos lib k = lib_block lib 64 * (length lib + 1) + lib_code (take k lib)"

lemma no_zero_eq: "n \<le> length bs \<Longrightarrow> no_zero bs n = Some (0 \<notin> set (take n bs))"
  by (induction bs n rule: no_zero.induct) (auto simp: take_Cons')

lemma lib_bounds:
  assumes "lib_total lib < U32"
  shows "lib_block lib 64 < U32" "length lib < 2 ^ 31" "lib_block lib 64 * length lib < U32"
proof -
  have b: "64 \<le> lib_block lib 64" by (rule lib_block_ge)
  have t: "lib_block lib 64 + lib_block lib 64 * length lib < U32" using assms by (simp add: lib_total_def)
  then show "lib_block lib 64 < U32" "lib_block lib 64 * length lib < U32" by linarith+
  have "64 * length lib \<le> lib_block lib 64 * length lib" using b by (rule mult_le_mono1)
  then have "64 * length lib < U32" using t by linarith
  then show "length lib < 2 ^ 31" by (simp add: U32_def)
qed

lemma read_code:
  assumes "k < length lib"
  shows "\<exists>r. drop (code_pos lib k) (lib_file lib @ rest) = md_buff (lib ! k) @ r"
  using at_code [OF assms, of rest] by (simp add: code_pos_def code_block_def del: drop_append) blast

lemma load_index_walk:
  assumes "\<forall>m \<in> set lib. mod_ok m" "lib_total lib < U32" "k < length lib"
  shows "loadModuleDataWithIndex (lib_file lib @ rest) (int (length lib)) k = (
    let c = drop (code_pos lib k) (lib_file lib @ rest); s = length (md_buff (lib ! k)) in do {
      bIsString \<leftarrow> no_zero c (u32_sub s 1);
      if bIsString then do {
        b \<leftarrow> rd c (u32_sub s 1);
        Some (lib_block lib 64 * Suc k, code_pos lib k, if b = 0 then s - 1 else s)
      } else Some (lib_block lib 64 * Suc k, code_pos lib k, s)
    })"
proof -
  let ?F = "lib_file lib @ rest" and ?bs = "lib_block lib 64"
  have b64: "64 \<le> ?bs" by (rule lib_block_ge)
  have g: "get_le 4 (drop 16 ?F) = Some ?bs"
    using read_meta(3) [of "lib_total lib" "length lib" ?bs] lib_bounds [OF assms(2)] assms(2) b64
    by (simp add: lib_file_def U32_def del: drop_append)
  have st: "?bs + u32_mul ?bs (to_u32 (int (length lib))) = code_pos lib 0"
    using lib_bounds [OF assms(2)] by (simp add: code_pos_def lib_code_def to_u32_def u32_mul_small)
  have i: "block_loop (k + 1) ?F ?bs 0 (0, code_pos lib 0, 0, code_pos lib 0) =
      Some (?bs * Suc k, code_pos lib k, length (md_buff (lib ! k)), code_pos lib (Suc k))"
    using block_loop_eq [OF assms(1), of 0 "k + 1" rest 0 "code_pos lib 0" 0] assms(3)
    by (simp add: code_pos_def lib_code_def del: block_loop.simps)
  show ?thesis unfolding loadModuleDataWithIndex_def g bind.simps Let_def st i prod.case ..
qed

lemma load_index_eq:
  assumes "\<forall>m \<in> set lib. mod_ok m" "lib_total lib < U32" "k < length lib" "md_buff (lib ! k) \<noteq> []"
  shows "loadModuleDataWithIndex (lib_file lib @ rest) (int (length lib)) k =
    Some (lib_block lib 64 * Suc k, code_pos lib k, file_size (md_buff (lib ! k)))"
proof -
  let ?F = "lib_file lib @ rest" and ?b = "md_buff (lib ! k)"
  obtain r where r: "drop (code_pos lib k) ?F = ?b @ r" using read_code [OF assms(3)] by blast
  have "mod_ok (lib ! k)" using assms(1,3) by simp
  then have "fits (length ?b)" by (simp add: mod_ok_def)
  then have u: "u32_sub (length ?b) 1 = length ?b - 1" using assms(4) by (cases ?b) (simp_all add: u32_sub_def U32_def)
  have z: "no_zero (?b @ r) (length ?b - 1) = Some (0 \<notin> set (butlast ?b))"
    by (simp add: no_zero_eq butlast_conv_take)
  have l: "rd (?b @ r) (length ?b - 1) = Some (last ?b)"
    using assms(4) by (cases ?b) (simp_all add: rd_def nth_append last_conv_nth)
  show ?thesis
    unfolding load_index_walk [OF assms(1-3)] Let_def r u z l by (simp add: file_size_def)
qed

lemma read_name:
  assumes "k < length lib" "cstring (md_name (lib ! k))" "length (md_name (lib ! k)) < lib_block lib 64 - 4"
  shows "bytes_str (drop (lib_block lib 64 * Suc k) (lib_file lib @ rest)) = Some (dots (md_name (lib ! k)))"
proof -
  let ?bs = "lib_block lib 64" and ?n = "dots (md_name (lib ! k))"
  obtain r where "drop (?bs * Suc k) (lib_file lib @ rest) = index_block ?bs (lib ! k) @ r"
    using at_index [OF assms(1), of rest] by auto
  moreover have "index_block ?bs (lib ! k) @ r = map char_byte ?n @ 0 #
      (replicate (?bs - 4 - length ?n - 1) 0 @ le_bytes 4 (length (md_buff (lib ! k))) @ r)"
    using assms(3) by (simp add: index_block_def str_bytes_def take_Cons' min_def)
  ultimately show ?thesis using bytes_str_map [of ?n] assms(2) by simp
qed

lemma getModuleNum_eq:
  assumes "lib_total lib < U32" "base mod 4 = 0"
  shows "getModuleNum base (lib_file lib @ rest) = Some (int (length lib))"
proof -
  have "20 \<le> lib_block lib 64" using lib_block_ge(1) [of 64 lib] by simp
  then show ?thesis
    using read_meta [of "lib_total lib" "length lib" "lib_block lib 64"] lib_bounds [OF assms(1)] assms
    by (simp add: getModuleNum_def lib_file_def U32_def to_i32_def del: drop_append)
qed

definition loaded :: "LibObj \<Rightarrow> byte list \<Rightarrow> nat \<Rightarrow> Module" where
  "loaded lib bytes k = (new_module (md_key (lib ! k)))\<lparr>md_name := dots (md_name (lib ! k)),
     md_bytecode := drop (code_pos lib k) bytes\<rparr>"

lemma load_loop_snoc: "load_loop lib n (is @ [i]) self = load_loop lib n is self \<bind> load_loop lib n [i]"
  by (induction "is" arbitrary: self) (auto split: bind_splits prod.splits)

lemma load_loop_eq:
  assumes "lib_ok lib" "lib_total lib < U32" "j \<le> length lib"
    and "\<forall>m \<in> set lib. md_buff m \<noteq> [] \<and> length (md_name m) < lib_block lib 64 - 4"
  shows "load_loop (lib_file lib @ rest) (int (length lib)) [0..<j] [] =
    Some (rev (map (loaded lib (lib_file lib @ rest)) [0..<j]))"
  using assms(3)
proof (induction j)
  case (Suc j)
  let ?F = "lib_file lib @ rest"
  have ok: "\<forall>m \<in> set lib. mod_ok m" "distinct (map md_key lib)" using assms(1) by (simp_all add: lib_ok_def)
  have m: "mod_ok (lib ! j)" "j < length lib" "md_buff (lib ! j) \<noteq> []" "length (md_name (lib ! j)) < lib_block lib 64 - 4"
    using Suc.prems ok(1) assms(4) by auto
  have key: "module_key (dots (md_name (lib ! j))) = Some (md_key (lib ! j))"
    using m(1) by (simp add: module_key_eq mod_ok_def)
  have "md_key (loaded lib ?F i) \<noteq> md_key (lib ! j)" if "i < j" for i
    using ok(2) that m(2) by (auto simp: loaded_def distinct_conv_nth)
  then have "lib_put (md_key (lib ! j)) f (rev (map (loaded lib ?F) [0..<j])) =
      f (new_module (md_key (lib ! j))) # rev (map (loaded lib ?F) [0..<j])" for f
    by (auto simp: lib_put_def)
  then show ?case
    using Suc load_index_eq [OF ok(1) assms(2) m(2,3), of rest] read_name [OF m(2) _ m(4), of rest] m(1)
    by (simp add: load_loop_snoc LibObj_dynamicLink_def key mod_ok_def del: drop_append) (simp add: loaded_def)
qed simp

lemma library_file_loads:
  assumes "lib_ok lib" "lib_total lib < U32" "base mod 4 = 0"
    and "\<forall>m \<in> set lib. md_buff m \<noteq> [] \<and> length (md_name m) < lib_block lib 64 - 4"
  shows "\<exists>file lib'. LibObj_linkFile lib True = Some file \<and> length file = lib_total lib \<and>
    LibObj_loadLibrary [] base (file @ rest) = Some (lib', 0) \<and>
    list_all2 (\<lambda>m l. md_key l = md_key m \<and> md_name l = dots (md_name m) \<and>
      take (length (md_buff m)) (md_bytecode l) = md_buff m) lib (rev lib')"
proof -
  let ?F = "lib_file lib @ rest" and ?n = "length lib"
  have ok: "\<forall>m \<in> set lib. mod_ok m" using assms(1) by (simp add: lib_ok_def)
  have "LibObj_loadLibrary [] base ?F = Some (rev (map (loaded lib ?F) [0..<?n]), 0)"
    using load_loop_eq [OF assms(1,2) order_refl assms(4)] getModuleNum_eq [OF assms(2,3)]
    by (simp add: LibObj_loadLibrary_def)
  moreover have "take (length (md_buff (lib ! k))) (drop (code_pos lib k) ?F) = md_buff (lib ! k)" if "k < ?n" for k
    using read_code [OF that, of rest] by fastforce
  then have "list_all2 (\<lambda>m l. md_key l = md_key m \<and> md_name l = dots (md_name m) \<and>
      take (length (md_buff m)) (md_bytecode l) = md_buff m) lib (map (loaded lib ?F) [0..<?n])"
    by (simp add: list_all2_conv_all_nth loaded_def del: drop_append)
  ultimately show ?thesis using LibObj_linkFile_eq [OF ok assms(2)] length_lib_file by auto
qed

section \<open>Finding a module\<close>

lemma strEqu_eq: "cstring s \<Longrightarrow> cstring t \<Longrightarrow> strEqu (Some s) (Some t) \<longleftrightarrow> s = t"
  by (auto simp: strEqu_def)

lemma getModule_foreach:
  assumes "cstring nm" "\<forall>m \<in> set lib. cstring (md_name m)"
  shows "lib_foreach (handler_LibObj_getModule nm) lib c =
    Some (if c \<noteq> None then c else find (\<lambda>m. md_name m = nm) lib)"
  using assms by (induction lib arbitrary: c) (auto simp: handler_LibObj_getModule_def strEqu_eq)

lemma LibObj_getModule_eq:
  "cstring nm \<Longrightarrow> \<forall>m \<in> set lib. cstring (md_name m) \<Longrightarrow> LibObj_getModule lib nm = Some (find (\<lambda>m. md_name m = nm) lib)"
  by (simp add: LibObj_getModule_def getModule_foreach)

lemma find_unique: "x \<in> set xs \<Longrightarrow> P x \<Longrightarrow> (\<And>y. y \<in> set xs \<Longrightarrow> P y \<Longrightarrow> y = x) \<Longrightarrow> find P xs = Some x"
  by (metis find_None_iff find_Some_iff nth_mem option.exhaust)

text \<open>In a library that was linked, written and loaded again, each module is found by its dotted name.\<close>

lemma loaded_found:
  assumes "lib_ok lib" "m \<in> set lib"
    and "list_all2 (\<lambda>m l. md_key l = md_key m \<and> md_name l = dots (md_name m) \<and> P m l) lib (rev lib')"
  shows "\<exists>l. LibObj_getModule lib' (dots (md_name m)) = Some (Some l) \<and> P m l"
proof -
  have len: "length lib' = length lib" using list_all2_lengthD [OF assms(3)] by simp
  have nth: "md_key (rev lib' ! i) = md_key (lib ! i) \<and> md_name (rev lib' ! i) = dots (md_name (lib ! i)) \<and> P (lib ! i) (rev lib' ! i)"
    if "i < length lib" for i using list_all2_nthD [OF assms(3) that] by simp
  have ok: "mod_ok (lib ! i)" if "i < length lib" for i using assms(1) that by (simp add: lib_ok_def)
  obtain i where i: "i < length lib" "lib ! i = m" using assms(2) by (auto simp: in_set_conv_nth)
  have all: "l \<in> set lib' \<longleftrightarrow> (\<exists>j < length lib. rev lib' ! j = l)" for l
    using len by (metis in_set_conv_nth length_rev set_rev)
  have uniq: "j = i" if "j < length lib" "dots (md_name (lib ! j)) = dots (md_name m)" for j
  proof -
    have "md_key (lib ! j) = md_key (lib ! i)"
      using ok [OF that(1)] ok [OF i(1)] that(2) i(2) cstring_bars_dots(5) unfolding mod_ok_def by metis
    then show ?thesis using assms(1) that(1) i(1) by (simp add: lib_ok_def distinct_conv_nth) metis
  qed
  have "find (\<lambda>l. md_name l = dots (md_name m)) lib' = Some (rev lib' ! i)"
  proof (rule find_unique)
    show "rev lib' ! i \<in> set lib'" using all i(1) by blast
    show "md_name (rev lib' ! i) = dots (md_name m)" using nth [OF i(1)] i(2) by simp
    fix l assume "l \<in> set lib'" "md_name l = dots (md_name m)"
    then obtain j where "j < length lib" "rev lib' ! j = l" using all by blast
    with \<open>md_name l = dots (md_name m)\<close> nth [of j] uniq [of j] show "l = rev lib' ! i" by simp
  qed
  moreover have "\<forall>l \<in> set lib'. cstring (md_name l)" using all nth ok by (metis cstring_bars_dots(2) mod_ok_def)
  moreover have "cstring (dots (md_name m))" using ok [OF i(1)] i(2) by (simp add: mod_ok_def)
  ultimately show ?thesis using nth [OF i(1)] i(2) by (simp add: LibObj_getModule_eq)
qed

section \<open>Linking a byte code file\<close>

lemma module_of_pyo:
  assumes "cstring p" "last_token CHR ''/'' p = nm @ ''.py.o''" "CH_BS \<notin> set nm"
  shows "module_of_file p '''' = Some nm"
proof -
  have "cstring (last_token CHR ''/'' p)" using assms(1) by (simp add: last_token_def)
  then have "cstring nm" using assms(2) by simp
  moreover have "slashes nm = nm" using assms(3) by (auto simp: slashes_def intro: map_idI)
  moreover have "strsPathJoin '''' nm = Some (c_str (slashes nm @ NUL # drop (Suc (length nm)) (getBuff (length nm + 1))))"
    by (simp add: strsPathJoin_def strPathJoin_def strPathFormat_spec strGetSize_def getBuff_def)
  ultimately show ?thesis
    using assms by (simp add: module_of_file_def strsGetLastToken_eq c_str_app_NUL)
qed

lemma staticLinkFile_image:
  assumes "cstring p" "last_token CHR ''/'' p = nm @ ''.py.o''" "CH_BS \<notin> set nm" "cstring nm" "length nm < 2 ^ 16"
    and "fits (length (code_image us strs) + 9)"
  shows "LibObj_staticLinkFile lib p (Some (magic_code_pyo @ le_bytes 4 n @ code_image us strs)) =
    Some (lib_put (hash_time33 (bars nm)) (linked nm (code_image us strs)) lib, 0)"
proof -
  let ?i = "code_image us strs" and ?f = "magic_code_pyo @ le_bytes 4 n @ code_image us strs"
  have m: "check_magic (magic_code_pyo @ xs) magic_code_pyo = Some True" "length magic_code_pyo = 4" for xs
    by (simp_all add: magic_code_pyo_def)
  have b: "arg_getBytecode (?f @ [0]) = Some (?i @ [0])" "arg_getBytecodeSize (?f @ [0]) (length ?f) = Some (length ?i)"
    using m by (simp_all add: arg_getBytecode_def arg_getBytecodeSize_def)
  show ?thesis
    using LibObj_staticLink_eq [OF assms(4,5), of "length ?i" "?i @ [0]" lib] assms(6)
    unfolding LibObj_staticLinkFile_def LibObj_staticLinkFileWithPath_def option.case module_of_pyo [OF assms(1-3)] b bind.simps
    by simp
qed

section \<open>Properties\<close>

text \<open>C37: Linking keeps the library well formed and does what it says: a module of that name with that
  code is in the library afterwards, its recorded lengths are those of its name and code, every module
  with another key is still there, and no key is there twice.\<close>

theorem staticLink_correct:
  assumes "lib_ok lib" "cstring nm" "length nm < 2 ^ 16" "n \<le> length bytes" "n + 37 < U32"
  shows "\<exists>lib'. LibObj_staticLink lib nm bytes n = Some lib' \<and> lib_ok lib' \<and>
    (\<exists>m \<in> set lib'. md_name m = nm \<and> md_buff m = take n bytes) \<and>
    {m \<in> set lib. md_key m \<noteq> hash_time33 (bars nm)} \<subseteq> set lib'"
proof -
  let ?l = "lib_put (hash_time33 (bars nm)) (linked nm (take n bytes)) lib"
  have "lib_ok ?l" using assms by (intro staticLink_lib_ok) (simp_all add: min_def)
  moreover have "\<exists>m \<in> set ?l. md_name m = nm \<and> md_buff m = take n bytes"
    using lib_put_in [of "linked nm (take n bytes)" "hash_time33 (bars nm)" lib] linked_fields by metis
  ultimately show ?thesis
    using LibObj_staticLink_eq [OF assms(2-4)] assms(5) by (auto intro: lib_put_other)
qed

theorem staticLink_correct_witness:
  "\<exists>lib'. LibObj_staticLink [] ''a.b'' [1, 2, 3] 2 = Some lib' \<and> (\<exists>m \<in> set lib'. md_name m = ''a.b'' \<and> md_buff m = [1, 2])"
proof -
  have "lib_ok []" "cstring ''a.b''" "(2 :: nat) + 37 < U32" by (simp_all add: lib_ok_def U32_def)
  then show ?thesis using staticLink_correct [of "[]" "''a.b''" 2 "[1, 2, 3]"] by auto
qed

text \<open>C30: A library survives the file: the linker's assertion holds, and loading the bytes it wrote,
  at an aligned address and with anything behind them, succeeds and gives one module per module,
  under its dotted name, whose byte code starts with the code that was linked. The names must be shorter than
  the name field and the codes not empty.\<close>

theorem library_link_load:
  assumes "lib_ok lib" "lib_total lib < U32" "base mod 4 = 0"
    and "\<forall>m \<in> set lib. md_buff m \<noteq> [] \<and> length (md_name m) < lib_block lib 64 - 4"
  shows "\<exists>file lib'. LibObj_linkFile lib True = Some file \<and> length file = lib_total lib \<and>
    LibObj_loadLibrary [] base (file @ rest) = Some (lib', 0) \<and>
    list_all2 (\<lambda>m l. md_key l = md_key m \<and> md_name l = dots (md_name m) \<and>
      take (length (md_buff m)) (md_bytecode l) = md_buff m) lib (rev lib')"
  by (rule library_file_loads [OF assms])

definition lib1 :: LibObj where
  "lib1 = lib_put (hash_time33 ''a|b'') (linked ''a.b'' [7, 0, 1]) []"

theorem library_link_load_witness:
  "\<exists>file lib'. LibObj_linkFile lib1 True = Some file \<and> length file = 132 \<and>
    LibObj_loadLibrary [] 16 (file @ [9]) = Some (lib', 0) \<and>
    map md_name lib' = [''a.b''] \<and> take 3 (md_bytecode (hd lib')) = [7, 0, 1]"
proof -
  have b: "bars ''a.b'' = ''a|b''" by (simp add: bars_def)
  have ok: "lib_ok lib1"
    unfolding lib1_def b [symmetric] by (rule staticLink_lib_ok) (simp_all add: lib_ok_def U32_def)
  have l: "lib1 = [linked ''a.b'' [7, 0, 1] (new_module (hash_time33 ''a|b''))]" by (simp add: lib1_def lib_put_def)
  have t: "lib_total lib1 = 132" "lib_block lib1 64 = 64"
    by (simp_all add: l lib_total_def lib_code_def linked_def pad4_def)
  have h: "\<forall>m \<in> set lib1. md_buff m \<noteq> [] \<and> length (md_name m) < lib_block lib1 64 - 4"
    by (simp add: t(2)) (simp add: l linked_def)
  obtain bytes lib' where r: "LibObj_linkFile lib1 True = Some bytes" "length bytes = 132"
    "LibObj_loadLibrary [] 16 (bytes @ [9]) = Some (lib', 0)"
    and a: "list_all2 (\<lambda>m l. md_key l = md_key m \<and> md_name l = dots (md_name m) \<and>
      take (length (md_buff m)) (md_bytecode l) = md_buff m) lib1 (rev lib')"
    using library_link_load [OF ok _ _ h, of 16 "[9]"] t(1) by (auto simp: U32_def)
  obtain x where x: "lib' = [x]" "md_name x = dots ''a.b''" "take 3 (md_bytecode x) = [7, 0, 1]"
    using a by (auto simp: l linked_def list_all2_Cons1 numeral_3_eq_3)
  then show ?thesis using r by (simp add: dots_def)
qed

text \<open>C38: A name that fills the name field to the last byte is written without a terminator: the size
  follows it at once, and the name that is read back is another one. The linker chooses the block so
  that such a name is accepted whenever its length is four less than the block.\<close>

theorem library_name_unterminated:
  assumes "\<forall>m \<in> set lib. mod_ok m" "lib_total lib < U32" "k < length lib"
    and "length (md_name (lib ! k)) = lib_block lib 64 - 4" "length (md_buff (lib ! k)) mod 256 \<noteq> 0"
  shows "\<exists>file name_p addr n. LibObj_linkFile lib True = Some file \<and>
    loadModuleDataWithIndex file (int (length lib)) k = Some (name_p, addr, n) \<and>
    bytes_str (drop name_p file) \<noteq> Some (dots (md_name (lib ! k)))"
proof -
  let ?bs = "lib_block lib 64" and ?n = "map char_byte (dots (md_name (lib ! k)))" and ?s = "length (md_buff (lib ! k))"
  have m: "mod_ok (lib ! k)" using assms(1,3) by simp
  obtain r where "drop (?bs * Suc k) (lib_file lib) = index_block ?bs (lib ! k) @ r"
    using at_index [OF assms(3), of "[]"] by auto
  moreover have "le_bytes 4 ?s = of_nat (?s mod 256) # le_bytes 3 (?s div 256)"
    using le_bytes.simps(2) [of 3 ?s] by (simp del: le_bytes.simps)
  ultimately have d: "drop (?bs * Suc k) (lib_file lib) = ?n @ of_nat (?s mod 256) # le_bytes 3 (?s div 256) @ r"
    using assms(4) by (simp add: index_block_def str_bytes_def)
  have z: "(of_nat (?s mod 256) :: byte) \<noteq> 0"
    using assms(5) unat_of_nat_byte [of ?s] by (metis unat_0)
  have "cstring (dots (md_name (lib ! k)))" using m by (simp add: mod_ok_def)
  then have n: "0 \<notin> set ?n" by (auto simp: cstring_def)
  have "bytes_str (drop (?bs * Suc k) (lib_file lib)) \<noteq> Some (dots (md_name (lib ! k)))"
  proof
    assume "bytes_str (drop (?bs * Suc k) (lib_file lib)) = Some (dots (md_name (lib ! k)))"
    then have "length (takeWhile (\<lambda>b. b \<noteq> 0) (?n @ of_nat (?s mod 256) # le_bytes 3 (?s div 256) @ r)) = length ?n"
      unfolding d bytes_str_def by (metis length_map option.inject option.distinct(1))
    moreover have "takeWhile (\<lambda>b. b \<noteq> 0) (?n @ x # ys) = ?n @ x # takeWhile (\<lambda>b. b \<noteq> 0) ys" if "x \<noteq> 0" for x ys
      using n that by (subst takeWhile_append2) auto
    ultimately show False using z by simp
  qed
  moreover have "md_buff (lib ! k) \<noteq> []" using assms(5) by auto
  ultimately show ?thesis
    using LibObj_linkFile_eq [OF assms(1,2)] load_index_eq [OF assms(1-3), of "[]"] by auto
qed

theorem library_name_unterminated_witness:
  "\<exists>file name_p addr n. LibObj_linkFile (lib_put (hash_time33 (replicate 60 CHR ''a'')) (linked (replicate 60 CHR ''a'') [5]) []) True =
      Some file \<and> loadModuleDataWithIndex file 1 0 = Some (name_p, addr, n) \<and>
    bytes_str (drop name_p file) \<noteq> Some (replicate 60 CHR ''a'')"
proof -
  let ?n = "replicate 60 CHR ''a''"
  let ?m = "linked ?n [5] (new_module (hash_time33 ?n))"
  have "bars ?n = ?n" "dots ?n = ?n" by (simp_all add: bars_def dots_def map_replicate_const)
  moreover have "cstring ?n" by (simp add: cstring_def)
  ultimately have m: "mod_ok ?m" "dots ?n = ?n" by (auto simp: linked_def mod_ok_def U32_def)
  have l: "lib_put (hash_time33 ?n) (linked ?n [5]) [] = [?m]" by (simp add: lib_put_def)
  have t: "lib_block [?m] 64 = 64" "lib_total [?m] < U32"
    by (simp_all add: lib_total_def lib_code_def pad4_def linked_def U32_def)
  show ?thesis
    unfolding l using library_name_unterminated [of "[?m]" 0] m t by simp
qed

lemma library_empty_module:
  assumes "\<forall>m \<in> set lib. mod_ok m" "lib_total lib < U32" "lib \<noteq> []" "md_buff (last lib) = []"
  shows "loadModuleDataWithIndex (lib_file lib) (int (length lib)) (length lib - 1) = None"
proof -
  let ?k = "length lib - 1"
  have k: "?k < length lib" "lib ! ?k = last lib" "take (Suc ?k) lib = lib"
    using assms(3) by (cases lib; simp add: last_conv_nth)+
  then have "lib_code (take ?k lib) = lib_code lib"
    using lib_code_take_Suc [OF k(1)] assms(4) by (simp add: pad4_def)
  then have "drop (code_pos lib ?k) (lib_file lib) = []"
    using length_lib_file [of lib] by (simp add: code_pos_def lib_total_def)
  moreover have "no_zero [] (u32_sub 0 1) = None" by (simp add: u32_sub_def U32_def)
  ultimately show ?thesis
    using load_index_walk [OF assms(1,2) k(1), of "[]"] k(2) assms(4) by (simp add: Let_def del: no_zero.simps)
qed

text \<open>Reading a packed file: a request inside the file yields the bytes at the position, all the
  items asked for, and moves the position behind them; at the end nothing is read.\<close>

theorem pikafs_fread_inside:
  assumes "fs_size f \<le> length (fs_addr f)" "0 < sz" "sz * cnt < 2 ^ 31" "length buf = sz * cnt"
    and "fs_pos f + sz * cnt \<le> fs_size f" "fs_size f < 2 ^ 63"
  shows "pikafs_fread buf sz cnt f =
    (if fs_pos f = fs_size f then Some (buf, f, 0)
     else Some (take (sz * cnt) (drop (fs_pos f) (fs_addr f)), f\<lparr>fs_pos := fs_pos f + sz * cnt\<rparr>, int cnt))"
proof (cases "fs_pos f = fs_size f")
  case False
  have "cnt \<le> sz * cnt" using assms(2) by simp
  then have c: "cnt < 2 ^ 31" using assms(3) by linarith
  have "put_at buf 0 (take (sz * cnt) (drop (fs_pos f) (fs_addr f))) = Some (take (sz * cnt) (drop (fs_pos f) (fs_addr f)))"
    using assms by (simp add: put_at_def)
  then show ?thesis using assms c False by (simp add: pikafs_fread_def to_i32_def Let_def)
qed (simp add: pikafs_fread_def)

theorem pikafs_fread_inside_witness:
  "pikafs_fread [0, 0] 1 2 \<lparr> fs_addr = [1, 2, 3, 4, 0], fs_size = 4, fs_pos = 1 \<rparr> =
    Some ([2, 3], \<lparr> fs_addr = [1, 2, 3, 4, 0], fs_size = 4, fs_pos = 3 \<rparr>, 2)"
  using pikafs_fread_inside [of "\<lparr> fs_addr = [1, 2, 3, 4, 0], fs_size = 4, fs_pos = 1 \<rparr>" 1 2 "[0, 0]"] by simp

text \<open>C39: Reading a packed file past its end after an earlier read: the code then copies as many bytes
  as the whole file has, not as many as are left. With a buffer of the size that was asked for the
  copy runs over its end.\<close>

theorem pikafs_fread_overrun:
  assumes "0 < fs_pos f" "fs_pos f < fs_size f" "fs_size f < fs_pos f + sz * cnt"
    and "sz * cnt < fs_size f" "fs_size f < 2 ^ 63" "length buf = sz * cnt"
  shows "pikafs_fread buf sz cnt f = None"
  using assms by (simp add: pikafs_fread_def put_at_def Let_def) linarith

theorem pikafs_fread_overrun_witness:
  "pikafs_fread [0, 0, 0] 1 3 \<lparr> fs_addr = [1, 2, 3, 4, 0, 0, 0, 0], fs_size = 4, fs_pos = 3 \<rparr> = None"
  using pikafs_fread_overrun [of "\<lparr> fs_addr = [1, 2, 3, 4, 0, 0, 0, 0], fs_size = 4, fs_pos = 3 \<rparr>" 1 3 "[0, 0, 0]"] by simp

end
