(* ===== verification/Pika_Lock.thy ===== *)
theory Pika_Lock
  imports Pika_Prelude
begin

text \<open>
  The recursive mutex of \<open>src/src/PikaPlatform.c\<close> and the global interpreter lock that
  \<open>src/src/PikaVM.c\<close> builds on it. The mutex of the operating system is a parameter: a type of its
  states and the four calls. A call that blocks has no result. A call of the recursive mutex is one
  step of the calling thread, whose number is an argument.
\<close>

section \<open>The recursive mutex\<close>

record 'p Platform =
  plat_zero :: 'p
  plat_init :: "'p \<Rightarrow> 'p \<times> int"
  plat_lock :: "'p \<Rightarrow> ('p \<times> int) option"
  plat_trylock :: "'p \<Rightarrow> 'p \<times> int"
  plat_unlock :: "'p \<Rightarrow> 'p \<times> int"
  plat_destroy :: "'p \<Rightarrow> 'p \<times> int"

record 'p recursive_mutex =
  os_mutex :: 'p
  is_init :: bool
  is_first_lock :: bool
  bare_lock :: int
  lock_owner :: nat
  lock_times :: int

text \<open>\<open>lock_times\<close> is a signed integer: counting past its range is undefined.\<close>

definition recursive_mutex_init :: "'p Platform \<Rightarrow> 'p recursive_mutex \<Rightarrow> 'p recursive_mutex \<times> int" where
  "recursive_mutex_init P m =
     (let (p, ret) = plat_init P (os_mutex m) in
      if ret \<noteq> 0 then (m\<lparr>os_mutex := p\<rparr>, ret)
      else (m\<lparr>os_mutex := p, lock_owner := 0, lock_times := 0\<rparr>, 0))"

definition lock_again :: "'p recursive_mutex \<Rightarrow> ('p recursive_mutex \<times> int) option" where
  "lock_again m = (if lock_times m = 2 ^ 31 - 1 then None else Some (m\<lparr>lock_times := lock_times m + 1\<rparr>, 0))"

definition recursive_mutex_lock :: "'p Platform \<Rightarrow> nat \<Rightarrow> 'p recursive_mutex \<Rightarrow> ('p recursive_mutex \<times> int) option" where
  "recursive_mutex_lock P self m =
     (if lock_owner m = self then lock_again m
      else do {
        (p, ret) \<leftarrow> plat_lock P (os_mutex m);
        Some (if ret \<noteq> 0 then (m\<lparr>os_mutex := p\<rparr>, ret)
              else (m\<lparr>os_mutex := p, lock_owner := self, lock_times := 1\<rparr>, 0))
      })"

definition recursive_mutex_trylock :: "'p Platform \<Rightarrow> nat \<Rightarrow> 'p recursive_mutex \<Rightarrow> ('p recursive_mutex \<times> int) option" where
  "recursive_mutex_trylock P self m =
     (if lock_owner m = self then lock_again m
      else let (p, ret) = plat_trylock P (os_mutex m) in
        Some (if ret \<noteq> 0 then (m\<lparr>os_mutex := p\<rparr>, ret)
              else (m\<lparr>os_mutex := p, lock_owner := self, lock_times := 1\<rparr>, 0)))"

definition recursive_mutex_unlock :: "'p Platform \<Rightarrow> nat \<Rightarrow> 'p recursive_mutex \<Rightarrow> 'p recursive_mutex \<times> int" where
  "recursive_mutex_unlock P self m =
     (if lock_owner m \<noteq> self then (m, -1)
      else let n = lock_times m - 1 in
        if n = 0 then
          let (p, ret) = plat_unlock P (os_mutex m) in
          (m\<lparr>os_mutex := p, lock_owner := 0, lock_times := 0\<rparr>, ret)
        else (m\<lparr>lock_times := n\<rparr>, 0))"

definition recursive_mutex_destroy :: "'p Platform \<Rightarrow> 'p recursive_mutex \<Rightarrow> 'p recursive_mutex \<times> int" where
  "recursive_mutex_destroy P m = (let (p, ret) = plat_destroy P (os_mutex m) in (m\<lparr>os_mutex := p\<rparr>, ret))"

section \<open>The global interpreter lock\<close>

definition pika_GIL_isInit :: "'p recursive_mutex \<Rightarrow> bool" where
  "pika_GIL_isInit g = is_init g"

text \<open>Before the lock is initialised, a flag takes its place.\<close>

definition pika_GIL_ENTER :: "'p Platform \<Rightarrow> nat \<Rightarrow> 'p recursive_mutex \<Rightarrow> ('p recursive_mutex \<times> int) option" where
  "pika_GIL_ENTER P self g =
     (if \<not> is_init g then
        if bare_lock g > 0 then Some (g, -1) else Some (g\<lparr>bare_lock := 1\<rparr>, 0)
      else do {
        (g1, ret) \<leftarrow> recursive_mutex_lock P self g;
        Some (g1\<lparr>is_first_lock := True\<rparr>, ret)
      })"

definition pika_GIL_getBareLock :: "'p recursive_mutex \<Rightarrow> int" where
  "pika_GIL_getBareLock g = bare_lock g"

definition pika_GIL_EXIT :: "'p Platform \<Rightarrow> nat \<Rightarrow> 'p recursive_mutex \<Rightarrow> 'p recursive_mutex \<times> int" where
  "pika_GIL_EXIT P self g =
     (if \<not> is_first_lock g \<or> \<not> is_init g then (g\<lparr>bare_lock := 0\<rparr>, 0)
      else recursive_mutex_unlock P self g)"

definition pika_GIL_deinit :: "'p Platform \<Rightarrow> 'p recursive_mutex" where
  "pika_GIL_deinit P = \<lparr> os_mutex = plat_zero P, is_init = False, is_first_lock = False, bare_lock = 0,
     lock_owner = 0, lock_times = 0 \<rparr>"

definition VM_lock_init :: "'p Platform \<Rightarrow> 'p recursive_mutex \<Rightarrow> 'p recursive_mutex \<times> int" where
  "VM_lock_init P g =
     (if is_init g then (g, 0)
      else let (g1, ret) = recursive_mutex_init P g in
        (if ret = 0 then g1\<lparr>is_init := True\<rparr> else g1, ret))"

definition VM_is_first_lock :: "'p recursive_mutex \<Rightarrow> bool" where
  "VM_is_first_lock g = is_first_lock g"

section \<open>Threads that share a lock\<close>

text \<open>
  What the code relies on of the mutex of the system: a held mutex blocks and refuses, a call that
  succeeds on a free one takes it, one that fails leaves it free, and unlocking a held one frees it.
\<close>

definition mutex_laws :: "'p Platform \<Rightarrow> ('p \<Rightarrow> bool) \<Rightarrow> bool" where
  "mutex_laws P held \<longleftrightarrow>
     (\<forall>p. held p \<longrightarrow> plat_lock P p = None) \<and>
     (\<forall>p p' r. \<not> held p \<longrightarrow> plat_lock P p = Some (p', r) \<longrightarrow> held p' = (r = 0)) \<and>
     (\<forall>p p' r. plat_trylock P p = (p', r) \<longrightarrow> (if held p then held p' \<and> r \<noteq> 0 else held p' = (r = 0))) \<and>
     (\<forall>p p' r. held p \<longrightarrow> plat_unlock P p = (p', r) \<longrightarrow> \<not> held p')"

text \<open>
  The threads have numbers other than zero; \<open>d t\<close> counts the successful locks of thread \<open>t\<close> that it
  has not undone. Any thread may call any operation at any time, also unlock what it does not hold.
\<close>

inductive lock_step :: "'p Platform \<Rightarrow> 'p recursive_mutex \<times> (nat \<Rightarrow> nat) \<Rightarrow> 'p recursive_mutex \<times> (nat \<Rightarrow> nat) \<Rightarrow> bool"
  for P where
  lock: "t \<noteq> 0 \<Longrightarrow> recursive_mutex_lock P t m = Some (m', r) \<Longrightarrow>
    lock_step P (m, d) (m', if r = 0 then d(t := d t + 1) else d)"
| trylock: "t \<noteq> 0 \<Longrightarrow> recursive_mutex_trylock P t m = Some (m', r) \<Longrightarrow>
    lock_step P (m, d) (m', if r = 0 then d(t := d t + 1) else d)"
| unlock: "t \<noteq> 0 \<Longrightarrow> recursive_mutex_unlock P t m = (m', r) \<Longrightarrow>
    lock_step P (m, d) (m', d(t := d t - 1))"

inductive lock_reach :: "'p Platform \<Rightarrow> 'p recursive_mutex \<times> (nat \<Rightarrow> nat) \<Rightarrow> 'p recursive_mutex \<times> (nat \<Rightarrow> nat) \<Rightarrow> bool"
  for P s where
  start: "lock_reach P s s"
| more: "lock_reach P s s1 \<Longrightarrow> lock_step P s1 s2 \<Longrightarrow> lock_reach P s s2"

inductive_cases lock_stepE: "lock_step P (m, d) s"

definition lock_inv :: "('p \<Rightarrow> bool) \<Rightarrow> 'p recursive_mutex \<Rightarrow> (nat \<Rightarrow> nat) \<Rightarrow> bool" where
  "lock_inv held m d \<longleftrightarrow> (\<exists>n. d = (\<lambda>_. 0)(lock_owner m := n) \<and> lock_times m = int n \<and>
     held (os_mutex m) = (0 < n) \<and> (lock_owner m \<noteq> 0) = (0 < n))"

lemma lock_invI: "d = (\<lambda>_. 0)(lock_owner m := n) \<Longrightarrow> lock_times m = int n \<Longrightarrow> held (os_mutex m) = (0 < n) \<Longrightarrow>
  (lock_owner m \<noteq> 0) = (0 < n) \<Longrightarrow> lock_inv held m d"
  unfolding lock_inv_def by blast

text \<open>A lock by the owner, by another thread with success, and without.\<close>

lemma lock_inv_again:
  assumes "lock_inv held m d" "t \<noteq> 0" "lock_owner m = t" "lock_again m = Some (m', r)"
  shows "lock_inv held m' (if r = 0 then d(t := d t + 1) else d)"
proof -
  obtain n where n: "d = (\<lambda>_. 0)(t := n)" "lock_times m = int n" "held (os_mutex m) = (0 < n)" "(t \<noteq> 0) = (0 < n)"
    using assms(1,3) unfolding lock_inv_def by blast
  have "r = 0" "m' = m\<lparr>lock_times := lock_times m + 1\<rparr>"
    using assms(4) by (simp_all add: lock_again_def split: if_splits)
  then show ?thesis using n assms(2,3) by (intro lock_invI [where n = "n + 1"]) simp_all
qed

lemma lock_inv_other:
  assumes "lock_inv held m d" "t \<noteq> 0" "lock_owner m \<noteq> t" "held p = (held (os_mutex m) \<or> q = 0)" "q = 0 \<Longrightarrow> \<not> held (os_mutex m)"
    and "(m', r) = (if q \<noteq> 0 then (m\<lparr>os_mutex := p\<rparr>, q) else (m\<lparr>os_mutex := p, lock_owner := t, lock_times := 1\<rparr>, 0))"
  shows "lock_inv held m' (if r = 0 then d(t := d t + 1) else d)"
proof -
  obtain n where n: "d = (\<lambda>_. 0)(lock_owner m := n)" "lock_times m = int n" "held (os_mutex m) = (0 < n)" "(lock_owner m \<noteq> 0) = (0 < n)"
    using assms(1) unfolding lock_inv_def by blast
  show ?thesis
  proof (cases "q = 0")
    case True
    then have "n = 0" using assms(5) n(3) by simp
    then have "d(t := d t + 1) = (\<lambda>_. 0)(t := 1)" using n(1) by auto
    moreover have "r = 0" "m' = m\<lparr>os_mutex := p, lock_owner := t, lock_times := 1\<rparr>" using True assms(6) by simp_all
    ultimately show ?thesis using True assms(2,4) by (intro lock_invI [where n = 1]) simp_all
  next
    case False
    then show ?thesis using n assms by (intro lock_invI [where n = n]) simp_all
  qed
qed

lemma lock_inv_lock:
  assumes "mutex_laws P held" "lock_inv held m d" "t \<noteq> 0" "recursive_mutex_lock P t m = Some (m', r)"
  shows "lock_inv held m' (if r = 0 then d(t := d t + 1) else d)"
proof (cases "lock_owner m = t")
  case True
  then show ?thesis using lock_inv_again [OF assms(2,3)] assms(4) by (simp add: recursive_mutex_lock_def)
next
  case False
  then obtain p q where p: "plat_lock P (os_mutex m) = Some (p, q)"
    and m': "(m', r) = (if q \<noteq> 0 then (m\<lparr>os_mutex := p\<rparr>, q) else (m\<lparr>os_mutex := p, lock_owner := t, lock_times := 1\<rparr>, 0))"
    using assms(4) by (auto simp: recursive_mutex_lock_def bind_eq_Some_conv)
  have f: "\<not> held (os_mutex m)" using p assms(1) unfolding mutex_laws_def by (metis option.distinct(1))
  then have "held p = (q = 0)" using p assms(1) unfolding mutex_laws_def by blast
  then show ?thesis using f lock_inv_other [OF assms(2,3) False _ _ m'] by simp
qed

lemma lock_inv_trylock:
  assumes "mutex_laws P held" "lock_inv held m d" "t \<noteq> 0" "recursive_mutex_trylock P t m = Some (m', r)"
  shows "lock_inv held m' (if r = 0 then d(t := d t + 1) else d)"
proof (cases "lock_owner m = t")
  case True
  then show ?thesis using lock_inv_again [OF assms(2,3)] assms(4) by (simp add: recursive_mutex_trylock_def)
next
  case False
  obtain p q where p: "plat_trylock P (os_mutex m) = (p, q)" by force
  then have m': "(m', r) = (if q \<noteq> 0 then (m\<lparr>os_mutex := p\<rparr>, q) else (m\<lparr>os_mutex := p, lock_owner := t, lock_times := 1\<rparr>, 0))"
    using assms(4) False by (simp add: recursive_mutex_trylock_def)
  have "if held (os_mutex m) then held p \<and> q \<noteq> 0 else held p = (q = 0)"
    using assms(1) p unfolding mutex_laws_def by blast
  then show ?thesis using lock_inv_other [OF assms(2,3) False _ _ m'] by (auto split: if_splits)
qed

lemma lock_inv_unlock:
  assumes "mutex_laws P held" "lock_inv held m d" "t \<noteq> 0" "recursive_mutex_unlock P t m = (m', r)"
  shows "lock_inv held m' (d(t := d t - 1))"
proof -
  obtain n where n: "d = (\<lambda>_. 0)(lock_owner m := n)" "lock_times m = int n" "held (os_mutex m) = (0 < n)" "(lock_owner m \<noteq> 0) = (0 < n)"
    using assms(2) unfolding lock_inv_def by blast
  consider "lock_owner m \<noteq> t" | "lock_owner m = t" "n = 1" | "lock_owner m = t" "1 < n" using n(4) assms(3) by linarith
  then show ?thesis
  proof cases
    case 1
    then have "m' = m" "d(t := d t - 1) = d" using assms(4) n(1) by (simp_all add: recursive_mutex_unlock_def fun_eq_iff)
    then show ?thesis using assms(2) by simp
  next
    case 2
    obtain p q where p: "plat_unlock P (os_mutex m) = (p, q)" by force
    have "held (os_mutex m)" using 2 n(3) by simp
    then have "\<not> held p" using p assms(1) unfolding mutex_laws_def by blast
    then show ?thesis
      using 2 n p assms(4) by (intro lock_invI [where n = 0]) (auto simp: recursive_mutex_unlock_def fun_eq_iff)
  next
    case 3
    then show ?thesis
      using n assms(3,4) by (intro lock_invI [where n = "n - 1"]) (auto simp: recursive_mutex_unlock_def of_nat_diff)
  qed
qed

lemma lock_reach_inv:
  assumes "lock_reach P s s'" "mutex_laws P held" "lock_inv held (fst s) (snd s)"
  shows "lock_inv held (fst s') (snd s')"
  using assms
proof (induction rule: lock_reach.induct)
  case (more s1 s2)
  obtain m d where s1: "s1 = (m, d)" by force
  have i: "lock_inv held m d" using more s1 by simp
  from more.hyps(2) show ?case
    unfolding s1
  proof cases
    case (lock t m' r)
    then show ?thesis using lock_inv_lock [OF more.prems(1) i] by simp
  next
    case (trylock t m' r)
    then show ?thesis using lock_inv_trylock [OF more.prems(1) i] by simp
  next
    case (unlock t m' r)
    then show ?thesis using lock_inv_unlock [OF more.prems(1) i unlock(2,3)] by (simp only: fst_conv snd_conv)
  qed
qed simp

section \<open>Properties\<close>


text \<open>A mutex of the system as a flag, and a run of two threads on it.\<close>

definition flag_platform :: "bool Platform" where
  "flag_platform = \<lparr> plat_zero = False, plat_init = (\<lambda>_. (False, 0)), plat_lock = (\<lambda>p. if p then None else Some (True, 0)),
     plat_trylock = (\<lambda>p. if p then (True, 16) else (True, 0)), plat_unlock = (\<lambda>p. (False, 0)),
     plat_destroy = (\<lambda>p. (p, 0)) \<rparr>"


end
