(* ===== verification/Pika_Event.thy ===== *)
theory Pika_Event
  imports Pika_Lock Pika_Queue
begin

text \<open>
  The events of the virtual machine, \<open>src/src/PikaVM.c\<close> and \<open>src/src/PikaObj.c\<close>: the two rings of
  pending events and pending signals, taking one out, running its handler, and sending.

  The state is the interpreter lock, the part of \<open>g_PikaVMState\<close> that belongs to the events, and the
  heap of cells. The handler of an event runs Python code and is a parameter; so are the calls of
  the operating system. A loop that waits for another thread has no result as long as its condition
  holds.
\<close>

section \<open>State\<close>

definition PIKA_EVENT_LIST_SIZE :: nat where "PIKA_EVENT_LIST_SIZE = 16"
definition PIKA_EVENT_PICKUP_MAX :: int where "PIKA_EVENT_PICKUP_MAX = 2"

text \<open>The member of the union \<open>EventDataType\<close> is a parameter: cells in one ring, numbers in the other.\<close>

record 'd PikaEventQueue =
  ev_id :: "u32 list"
  ev_data :: "'d list"
  ev_listener :: "nat option list"
  ev_res :: "nat option list"
  ev_head :: nat
  ev_tail :: nat

record VMState =
  vm_cnt :: int
  cq :: "nat option PikaEventQueue"
  sq :: "int PikaEventQueue"
  event_pickup_cnt :: int
  event_thread :: "nat option"
  event_thread_exit :: bool
  event_thread_exit_done :: bool

record 'p World =
  gil :: "'p recursive_mutex"
  vms :: VMState
  hp :: heap

definition VMEvent_getVMCnt :: "'p World \<Rightarrow> int" where
  "VMEvent_getVMCnt w = vm_cnt (vms w)"

definition VMEvent_getEventPickupCnt :: "'p World \<Rightarrow> int" where
  "VMEvent_getEventPickupCnt w = event_pickup_cnt (vms w)"

definition ecq_isEmpty :: "'d PikaEventQueue \<Rightarrow> bool" where
  "ecq_isEmpty q = (ev_head q = ev_tail q)"

definition ecq_isFull :: "'d PikaEventQueue \<Rightarrow> bool" where
  "ecq_isFull q = ((ev_tail q + 1) mod PIKA_EVENT_LIST_SIZE = ev_head q)"

section \<open>Pushing\<close>

text \<open>The entry at the tail; \<open>id\<close> has 32 bits.\<close>

definition ecq_put :: "'d PikaEventQueue \<Rightarrow> nat option \<Rightarrow> nat \<Rightarrow> 'd \<Rightarrow> 'd PikaEventQueue option" where
  "ecq_put q lis eid d = do {
     ids \<leftarrow> wr (ev_id q) (ev_tail q) (of_nat eid);
     ds \<leftarrow> wr (ev_data q) (ev_tail q) d;
     ls \<leftarrow> wr (ev_listener q) (ev_tail q) lis;
     Some (q\<lparr>ev_id := ids, ev_data := ds, ev_listener := ls,
       ev_tail := (ev_tail q + 1) mod PIKA_EVENT_LIST_SIZE\<rparr>)
   }"

definition deinit_opt :: "heap \<Rightarrow> nat option \<Rightarrow> heap option" where
  "deinit_opt h a = (case a of None \<Rightarrow> Some h | Some a \<Rightarrow> arg_deinit h a)"

definition eventListener_pushEvent ::
  "'p World \<Rightarrow> nat option \<Rightarrow> nat \<Rightarrow> nat \<Rightarrow> ('p World \<times> PIKA_RES) option" where
  "eventListener_pushEvent w lis eventId eventData = do {
     c \<leftarrow> cells (hp w) eventData;
     let h0 = (if atype c = ARG_TYPE_OBJECT_NEW then set_cell (hp w) eventData (arg_setType c ARG_TYPE_OBJECT) else hp w);
     let q = cq (vms w);
     if ecq_isFull q then do {
       h1 \<leftarrow> arg_deinit h0 eventData;
       Some (w\<lparr>hp := h1\<rparr>, PIKA_RES_ERR_SIGNAL_EVENT_FULL)
     } else do {
       r \<leftarrow> rd (ev_res q) (ev_tail q);
       h1 \<leftarrow> deinit_opt h0 r;
       d \<leftarrow> rd (ev_data q) (ev_tail q);
       h2 \<leftarrow> deinit_opt h1 d;
       q' \<leftarrow> ecq_put (q\<lparr>ev_res := (ev_res q)[ev_tail q := None]\<rparr>) lis eventId (Some eventData);
       Some (w\<lparr>hp := h2, vms := (vms w)\<lparr>cq := q'\<rparr>\<rparr>, PIKA_RES_OK)
     }
   }"

text \<open>The result slot that is cleared is the one behind the signal, at the new tail.\<close>

definition eventListener_pushSignal ::
  "'p Platform \<Rightarrow> nat \<Rightarrow> 'p World \<Rightarrow> nat option \<Rightarrow> nat \<Rightarrow> int \<Rightarrow> ('p World \<times> PIKA_RES) option" where
  "eventListener_pushSignal P self w lis eventId signal =
     (if ecq_isFull (sq (vms w)) then Some (w, PIKA_RES_ERR_SIGNAL_EVENT_FULL)
      else do {
        q \<leftarrow> ecq_put (sq (vms w)) lis eventId signal;
        if VM_is_first_lock (gil w) then do {
          (g1, _) \<leftarrow> pika_GIL_ENTER P self (gil w);
          r \<leftarrow> rd (ev_res q) (ev_tail q);
          h1 \<leftarrow> deinit_opt (hp w) r;
          let g2 = fst (pika_GIL_EXIT P self g1);
          Some (w\<lparr>gil := g2, hp := h1, vms := (vms w)\<lparr>sq := q\<lparr>ev_res := (ev_res q)[ev_tail q := None]\<rparr>\<rparr>\<rparr>, PIKA_RES_OK)
        } else Some (w\<lparr>vms := (vms w)\<lparr>sq := q\<rparr>\<rparr>, PIKA_RES_OK)
      })"

section \<open>Popping\<close>

text \<open>
  What is taken out: the listener, the number of the event, the cell or the signal, and the place it
  had. The entry is read at the head of the event ring, whichever ring it comes from.
\<close>

record Popped =
  pop_listener :: "nat option"
  pop_id :: u32
  pop_data :: "nat option"
  pop_signal :: int
  pop_head :: nat

definition eventListener_popEvent :: "VMState \<Rightarrow> (VMState \<times> Popped option) option" where
  "eventListener_popEvent v =
     (let i = ev_head (cq v) in
      if \<not> ecq_isEmpty (cq v) then do {
        eid \<leftarrow> rd (ev_id (cq v)) i;
        d \<leftarrow> rd (ev_data (cq v)) i;
        l \<leftarrow> rd (ev_listener (cq v)) i;
        Some (v\<lparr>cq := (cq v)\<lparr>ev_head := (ev_head (cq v) + 1) mod PIKA_EVENT_LIST_SIZE\<rparr>\<rparr>,
          Some \<lparr> pop_listener = l, pop_id = eid, pop_data = d, pop_signal = 0, pop_head = ev_head (cq v) \<rparr>)
      } else if \<not> ecq_isEmpty (sq v) then do {
        eid \<leftarrow> rd (ev_id (sq v)) i;
        s \<leftarrow> rd (ev_data (sq v)) i;
        l \<leftarrow> rd (ev_listener (sq v)) i;
        Some (v\<lparr>sq := (sq v)\<lparr>ev_head := (ev_head (sq v) + 1) mod PIKA_EVENT_LIST_SIZE\<rparr>\<rparr>,
          Some \<lparr> pop_listener = l, pop_id = eid, pop_data = None, pop_signal = s, pop_head = ev_head (sq v) \<rparr>)
      } else Some (v, None))"

definition eventListener_popSignalEvent :: "VMState \<Rightarrow> (VMState \<times> Popped option) option" where
  "eventListener_popSignalEvent v =
     (let q = sq v in
      if ecq_isEmpty q then Some (v, None)
      else do {
        eid \<leftarrow> rd (ev_id q) (ev_head q);
        s \<leftarrow> rd (ev_data q) (ev_head q);
        l \<leftarrow> rd (ev_listener q) (ev_head q);
        Some (v\<lparr>sq := q\<lparr>ev_head := (ev_head q + 1) mod PIKA_EVENT_LIST_SIZE\<rparr>\<rparr>,
          Some \<lparr> pop_listener = l, pop_id = eid, pop_data = None, pop_signal = s, pop_head = ev_head q \<rparr>)
      })"

section \<open>Handling\<close>

text \<open>The handler of an event: it may change everything, also push further events.\<close>

type_synonym 'p handler = "'p World \<Rightarrow> nat option \<Rightarrow> nat \<Rightarrow> nat \<Rightarrow> ('p World \<times> nat option) option"

definition count_pickup :: "int \<Rightarrow> 'p World \<Rightarrow> 'p World" where
  "count_pickup n w = w\<lparr>vms := (vms w)\<lparr>event_pickup_cnt := event_pickup_cnt (vms w) + n\<rparr>\<rparr>"

definition keep_res :: "'p World \<Rightarrow> bool \<Rightarrow> nat \<Rightarrow> nat option \<Rightarrow> 'p World option" where
  "keep_res w from_signal i r =
     (if from_signal then do { rs \<leftarrow> wr (ev_res (sq (vms w))) i r; Some (w\<lparr>vms := (vms w)\<lparr>sq := (sq (vms w))\<lparr>ev_res := rs\<rparr>\<rparr>\<rparr>) }
      else do { rs \<leftarrow> wr (ev_res (cq (vms w))) i r; Some (w\<lparr>vms := (vms w)\<lparr>cq := (cq (vms w))\<lparr>ev_res := rs\<rparr>\<rparr>\<rparr>) })"

definition VMEvent_pickupEvent :: "'p handler \<Rightarrow> 'p World \<Rightarrow> 'p World option" where
  "VMEvent_pickupEvent run w =
     (if VMEvent_getEventPickupCnt w \<ge> PIKA_EVENT_PICKUP_MAX then Some w
      else do {
        (v, p) \<leftarrow> eventListener_popEvent (vms w);
        (case p of
           None \<Rightarrow> Some w
         | Some e \<Rightarrow> do {
             let w1 = count_pickup 1 (w\<lparr>vms := v\<rparr>);
             (w2, r) \<leftarrow> (case pop_data e of
                 Some a \<Rightarrow> run w1 (pop_listener e) (unat (pop_id e)) a
               | None \<Rightarrow> do {
                   (h1, a) \<leftarrow> arg_setInt (hp w1) None '''' (word_of_int (pop_signal e));
                   (w2, r) \<leftarrow> run (w1\<lparr>hp := h1\<rparr>) (pop_listener e) (unat (pop_id e)) a;
                   h2 \<leftarrow> arg_deinit (hp w2) a;
                   Some (w2\<lparr>hp := h2\<rparr>, r)
                 });
             w3 \<leftarrow> (if VM_is_first_lock (gil w2) then keep_res w2 (pop_data e = None) (pop_head e) r
                   else do { h3 \<leftarrow> deinit_opt (hp w2) r; Some (w2\<lparr>hp := h3\<rparr>) });
             Some (count_pickup (-1) w3)
           })
      })"

text \<open>All entries are released. With an event thread the code waits until it has ended.\<close>

primrec deinit_all :: "heap \<Rightarrow> nat option list \<Rightarrow> heap option" where
  "deinit_all h [] = Some h"
| "deinit_all h (a # as) = do { h1 \<leftarrow> deinit_opt h a; deinit_all h1 as }"

fun deinit_slots :: "heap \<Rightarrow> (nat option \<times> nat option \<times> nat option) list \<Rightarrow> heap option" where
  "deinit_slots h [] = Some h"
| "deinit_slots h ((r, d, s) # xs) = do { h1 \<leftarrow> deinit_all h [r, d, s]; deinit_slots h1 xs }"

definition empty_queue :: "'d \<Rightarrow> 'd PikaEventQueue" where
  "empty_queue d = \<lparr> ev_id = replicate PIKA_EVENT_LIST_SIZE 0, ev_data = replicate PIKA_EVENT_LIST_SIZE d,
     ev_listener = replicate PIKA_EVENT_LIST_SIZE None, ev_res = replicate PIKA_EVENT_LIST_SIZE None,
     ev_head = 0, ev_tail = 0 \<rparr>"

definition VMEvent_deinit :: "'p Platform \<Rightarrow> nat \<Rightarrow> 'p World \<Rightarrow> 'p World option" where
  "VMEvent_deinit P self w = do {
     let v = vms w;
     h \<leftarrow> deinit_slots (hp w) (zip (ev_res (cq v)) (zip (ev_data (cq v)) (ev_res (sq v))));
     let w1 = w\<lparr>hp := h, vms := v\<lparr>cq := empty_queue None, sq := empty_queue 0\<rparr>\<rparr>;
     if event_thread v = None then Some w1
     else do {
       let g1 = fst (pika_GIL_EXIT P self (gil w1));
       if \<not> event_thread_exit_done v then None
       else do {
         (g2, _) \<leftarrow> pika_GIL_ENTER P self g1;
         Some (w1\<lparr>gil := g2, vms := (vms w1)\<lparr>event_thread := None, event_thread_exit := False,
           event_thread_exit_done := False\<rparr>\<rparr>)
       }
     }
   }"

section \<open>Sending\<close>

text \<open>
  The thread handle that the system gives for the event thread is an argument. With no data the
  event is a signal.
\<close>

definition do_eventListener_send ::
  "'p Platform \<Rightarrow> 'p handler \<Rightarrow> nat option \<Rightarrow> nat \<Rightarrow> 'p World \<Rightarrow> nat option \<Rightarrow> nat \<Rightarrow> nat option \<Rightarrow> int \<Rightarrow> bool \<Rightarrow>
    ('p World \<times> PIKA_RES) option" where
  "do_eventListener_send P run new_thread self w lis eventId eventData eventSignal pickupWhenNoVM = do {
     let w0 = (if eventData \<noteq> None \<and> \<not> VM_is_first_lock (gil w) then w\<lparr>gil := fst (VM_lock_init P (gil w))\<rparr> else w);
     (w1, r1) \<leftarrow> (if eventData = None then eventListener_pushSignal P self w0 lis eventId eventSignal
                 else Some (w0, PIKA_RES_OK));
     if r1 \<noteq> PIKA_RES_OK then Some (w1, PIKA_RES_ERR_RUNTIME_ERROR)
     else if \<not> pika_GIL_isInit (gil w1) then Some (w1, PIKA_RES_OK)
     else if \<not> (VM_is_first_lock (gil w1) \<or> vm_cnt (vms w1) = 0 \<or> pika_GIL_getBareLock (gil w1) = 0) then None
     else do {
       (g2, _) \<leftarrow> pika_GIL_ENTER P self (gil w1);
       let w2 = w1\<lparr>gil := g2, vms := (vms w1)\<lparr>event_thread :=
           (if event_thread (vms w1) = None then new_thread else event_thread (vms w1))\<rparr>\<rparr>;
       (w3, r3) \<leftarrow> (case eventData of None \<Rightarrow> Some (w2, PIKA_RES_OK) | Some a \<Rightarrow> eventListener_pushEvent w2 lis eventId a);
       w4 \<leftarrow> (if r3 = PIKA_RES_OK \<and> pickupWhenNoVM \<and> VMEvent_getVMCnt w3 = 0 then VMEvent_pickupEvent run w3 else Some w3);
       Some (w4\<lparr>gil := fst (pika_GIL_EXIT P self (gil w4))\<rparr>, PIKA_RES_OK)
     }
   }"

definition eventListener_send ::
  "'p Platform \<Rightarrow> 'p handler \<Rightarrow> nat option \<Rightarrow> nat \<Rightarrow> 'p World \<Rightarrow> nat option \<Rightarrow> nat \<Rightarrow> nat \<Rightarrow> ('p World \<times> PIKA_RES) option" where
  "eventListener_send P run new_thread self w lis eventId eventData =
     do_eventListener_send P run new_thread self w lis eventId (Some eventData) 0 False"

definition eventListener_sendSignal ::
  "'p Platform \<Rightarrow> 'p handler \<Rightarrow> nat option \<Rightarrow> nat \<Rightarrow> 'p World \<Rightarrow> nat option \<Rightarrow> nat \<Rightarrow> int \<Rightarrow> ('p World \<times> PIKA_RES) option" where
  "eventListener_sendSignal P run new_thread self w lis eventId eventSignal =
     do_eventListener_send P run new_thread self w lis eventId None eventSignal False"

text \<open>The result is awaited in the event ring, at the tail that ring had.\<close>

definition eventListener_sendSignalAwaitResult ::
  "'p Platform \<Rightarrow> 'p handler \<Rightarrow> nat option \<Rightarrow> nat \<Rightarrow> 'p World \<Rightarrow> nat option \<Rightarrow> nat \<Rightarrow> int \<Rightarrow> ('p World \<times> nat) option" where
  "eventListener_sendSignalAwaitResult P run new_thread self w lis eventId eventSignal = do {
     (w1, _) \<leftarrow> eventListener_sendSignal P run new_thread self w lis eventId eventSignal;
     r \<leftarrow> rd (ev_res (cq (vms w1))) (ev_tail (cq (vms w)));
     a \<leftarrow> r;
     Some (w1, a)
   }"

definition eventListener_syncSend :: "'p handler \<Rightarrow> 'p World \<Rightarrow> nat option \<Rightarrow> nat \<Rightarrow> nat \<Rightarrow> ('p World \<times> PIKA_RES) option" where
  "eventListener_syncSend run w lis eventId eventData = do {
     (w1, r) \<leftarrow> run w lis eventId eventData;
     h1 \<leftarrow> deinit_opt (hp w1) r;
     h2 \<leftarrow> arg_deinit h1 eventData;
     Some (w1\<lparr>hp := h2\<rparr>, if r = None then PIKA_RES_ERR_RUNTIME_ERROR else PIKA_RES_OK)
   }"

definition eventListener_syncSendSignal :: "'p handler \<Rightarrow> 'p World \<Rightarrow> nat option \<Rightarrow> nat \<Rightarrow> int \<Rightarrow> ('p World \<times> PIKA_RES) option" where
  "eventListener_syncSendSignal run w lis eventId eventSignal = do {
     (h1, a) \<leftarrow> arg_setInt (hp w) None '''' (word_of_int eventSignal);
     eventListener_syncSend run (w\<lparr>hp := h1\<rparr>) lis eventId a
   }"

definition eventListener_syncSendSignalAwaitResult ::
  "'p handler \<Rightarrow> 'p World \<Rightarrow> nat option \<Rightarrow> nat \<Rightarrow> int \<Rightarrow> ('p World \<times> nat option) option" where
  "eventListener_syncSendSignalAwaitResult run w lis eventId eventSignal = do {
     (h1, a) \<leftarrow> arg_setInt (hp w) None '''' (word_of_int eventSignal);
     (w1, r) \<leftarrow> run (w\<lparr>hp := h1\<rparr>) lis eventId a;
     h2 \<leftarrow> arg_deinit (hp w1) a;
     Some (w1\<lparr>hp := h2\<rparr>, r)
   }"

section \<open>The rings as bounded queues\<close>

definition slots :: "'d PikaEventQueue \<Rightarrow> (nat option \<times> u32 \<times> 'd) list" where
  "slots q = zip (ev_listener q) (zip (ev_id q) (ev_data q))"

definition ecq_count :: "'d PikaEventQueue \<Rightarrow> nat" where
  "ecq_count q = (ev_tail q + 16 - ev_head q) mod 16"

definition ecq_ok :: "'d PikaEventQueue \<Rightarrow> bool" where
  "ecq_ok q \<longleftrightarrow> length (ev_id q) = 16 \<and> length (ev_data q) = 16 \<and> length (ev_listener q) = 16 \<and>
     length (ev_res q) = 16 \<and> ev_head q < 16 \<and> ev_tail q < 16"

definition ecq_list :: "'d PikaEventQueue \<Rightarrow> (nat option \<times> u32 \<times> 'd) list" where
  "ecq_list q = ring (slots q) 16 (ev_head q) (ecq_count q)"

definition ecq_enq :: "'d PikaEventQueue \<Rightarrow> nat option \<times> u32 \<times> 'd \<Rightarrow> ('d PikaEventQueue \<times> bool) option" where
  "ecq_enq q x = (case x of (l, e, d) \<Rightarrow>
     if ecq_isFull q then Some (q, False) else do { q' \<leftarrow> ecq_put q l (unat e) d; Some (q', True) })"

definition ecq_deq :: "'d PikaEventQueue \<Rightarrow> ('d PikaEventQueue \<times> (nat option \<times> u32 \<times> 'd) option) option" where
  "ecq_deq q =
     (if ecq_isEmpty q then Some (q, None)
      else do {
        e \<leftarrow> rd (ev_id q) (ev_head q);
        d \<leftarrow> rd (ev_data q) (ev_head q);
        l \<leftarrow> rd (ev_listener q) (ev_head q);
        Some (q\<lparr>ev_head := (ev_head q + 1) mod PIKA_EVENT_LIST_SIZE\<rparr>, Some (l, e, d))
      })"

lemma ecq_count_bound: "ecq_count q < 16"
  by (simp add: ecq_count_def)

text \<open>The number of entries between two places of the ring, and the place behind one.\<close>

lemma gap: "h < 16 \<Longrightarrow> t < 16 \<Longrightarrow> (t + 16 - h) mod 16 = (if h \<le> t then t - h else t + 16 - (h :: nat))"
proof (cases "h \<le> t")
  case True
  then have "t + 16 - h = (t - h) + 16" by simp
  then show "t < 16 \<Longrightarrow> ?thesis" using True by (simp only: mod_add_self2) simp
qed simp

lemma next_place: "h < 16 \<Longrightarrow> (h + 1) mod 16 = (if h = 15 then 0 else h + 1 :: nat)"
  by simp

lemma ecq_tail:
  assumes "ecq_ok q"
  shows "ev_tail q = (ev_head q + ecq_count q) mod 16"
proof -
  have b: "ev_head q < 16" "ev_tail q < 16" using assms by (simp_all add: ecq_ok_def)
  then have "ev_head q + ecq_count q = (if ev_head q \<le> ev_tail q then ev_tail q else ev_tail q + 16)"
    by (simp add: ecq_count_def gap)
  then show ?thesis using b by simp
qed

lemma ecq_full: "ecq_ok q \<Longrightarrow> ecq_isFull q \<longleftrightarrow> ecq_count q = 15"
proof -
  assume "ecq_ok q"
  then have b: "ev_head q < 16" "ev_tail q < 16" by (simp_all add: ecq_ok_def)
  show ?thesis
    unfolding ecq_count_def ecq_isFull_def PIKA_EVENT_LIST_SIZE_def gap [OF b] next_place [OF b(2)] using b by auto
qed

lemma ecq_empty: "ecq_ok q \<Longrightarrow> ecq_isEmpty q \<longleftrightarrow> ecq_count q = 0"
  unfolding ecq_ok_def ecq_count_def ecq_isEmpty_def by (auto simp: gap)

lemma count_put: "h < 16 \<Longrightarrow> t < 16 \<Longrightarrow> (t + 16 - h) mod 16 \<noteq> (15 :: nat) \<Longrightarrow> ((t + 1) mod 16 + 16 - h) mod 16 = (t + 16 - h) mod 16 + 1"
proof -
  assume b: "h < 16" "t < 16"
  have n: "(t + 1) mod 16 < 16" by simp
  show "(t + 16 - h) mod 16 \<noteq> 15 \<Longrightarrow> ?thesis"
    unfolding gap [OF b] gap [OF b(1) n] unfolding next_place [OF b(2)] using b by (auto split: if_splits)
qed

lemma count_get: "h < 16 \<Longrightarrow> t < 16 \<Longrightarrow> (t + 16 - h) mod 16 \<noteq> (0 :: nat) \<Longrightarrow> (t + 16 - (h + 1) mod 16) mod 16 = (t + 16 - h) mod 16 - 1"
proof -
  assume b: "h < 16" "t < 16"
  have n: "(h + 1) mod 16 < 16" by simp
  show "(t + 16 - h) mod 16 \<noteq> 0 \<Longrightarrow> ?thesis"
    unfolding gap [OF b] gap [OF n b(2)] unfolding next_place [OF b(1)] using b by (auto split: if_splits)
qed

lemma ecq_put_ok:
  assumes "ecq_ok q" "ecq_count q \<noteq> 15"
  shows "\<exists>q'. ecq_put q l e d = Some q' \<and> ecq_ok q' \<and> ecq_list q' = ecq_list q @ [(l, of_nat e, d)] \<and> ev_res q' = ev_res q"
proof -
  let ?t = "ev_tail q" and ?h = "ev_head q" and ?n = "ecq_count q"
  let ?q = "q\<lparr>ev_id := (ev_id q)[?t := of_nat e], ev_data := (ev_data q)[?t := d], ev_listener := (ev_listener q)[?t := l],
     ev_tail := (?t + 1) mod 16\<rparr>"
  have ok: "length (ev_id q) = 16" "length (ev_data q) = 16" "length (ev_listener q) = 16" "length (ev_res q) = 16" "?h < 16" "?t < 16"
    using assms(1) by (simp_all add: ecq_ok_def)
  have n: "?n < 15" using assms(2) ecq_count_bound [of q] by linarith
  have t: "?t = (?h + ?n) mod 16" using assms(1) by (rule ecq_tail)
  have s: "slots ?q = (slots q)[(?h + ?n) mod 16 := (l, of_nat e, d)]" "length (slots q) = 16"
    using ok by (simp_all add: slots_def zip_update t [symmetric])
  have "ecq_count ?q = ?n + 1"
    using count_put [of ?h ?t] ok assms(2) by (simp add: ecq_count_def)
  then have "ecq_list ?q = ring ((slots q)[(?h + ?n) mod 16 := (l, of_nat e, d)]) 16 ?h (Suc ?n)"
    unfolding ecq_list_def s(1) by simp
  also have "\<dots> = ecq_list q @ [(l, of_nat e, d)]"
    using n s(2) by (simp add: ring_snoc ring_write ecq_list_def)
  finally have "ecq_list ?q = ecq_list q @ [(l, of_nat e, d)]" .
  moreover have "ecq_put q l e d = Some ?q"
    using ok by (simp add: ecq_put_def wr_def PIKA_EVENT_LIST_SIZE_def)
  ultimately show ?thesis using ok by (auto simp: ecq_ok_def)
qed

lemma ecq_head:
  assumes "ecq_ok q" "ecq_list q = (l, e, d) # xs"
  shows "ev_id q ! ev_head q = e" "ev_data q ! ev_head q = d" "ev_listener q ! ev_head q = l"
    "ecq_list (q\<lparr>ev_head := (ev_head q + 1) mod 16\<rparr>) = xs" "ecq_count q \<noteq> 0"
proof -
  have "length (ecq_list q) = ecq_count q" by (simp add: ecq_list_def)
  then obtain n where n: "ecq_count q = Suc n" using assms(2) by (cases "ecq_count q") auto
  then show "ecq_count q \<noteq> 0" by simp
  have r: "slots q ! ev_head q = (l, e, d)" "ring (slots q) 16 ((ev_head q + 1) mod 16) n = xs"
    using assms n by (simp_all add: ecq_list_def ring_Suc ecq_ok_def)
  show "ev_id q ! ev_head q = e" "ev_data q ! ev_head q = d" "ev_listener q ! ev_head q = l"
    using r(1) assms(1) by (simp_all add: slots_def ecq_ok_def)
  have "ecq_count (q\<lparr>ev_head := (ev_head q + 1) mod 16\<rparr>) = n"
    using n count_get [of "ev_head q" "ev_tail q"] assms(1) by (simp add: ecq_count_def ecq_ok_def)
  then show "ecq_list (q\<lparr>ev_head := (ev_head q + 1) mod 16\<rparr>) = xs"
    using r(2) by (simp add: ecq_list_def slots_def)
qed

lemma ecq_deq_ok:
  assumes "ecq_ok q"
  shows "\<exists>q' r. ecq_deq q = Some (q', r) \<and> ecq_ok q' \<and>
    (case ecq_list q of [] \<Rightarrow> r = None \<and> ecq_list q' = [] | x # xs \<Rightarrow> r = Some x \<and> ecq_list q' = xs)"
proof (cases "ecq_list q")
  case Nil
  then have "ecq_count q = 0" by (simp add: ecq_list_def ring_def)
  then show ?thesis using Nil assms by (simp add: ecq_deq_def ecq_empty)
next
  case (Cons x xs)
  obtain l e d where x: "x = (l, e, d)" by (cases x)
  note h = ecq_head [OF assms Cons [unfolded x]]
  have ne: "\<not> ecq_isEmpty q" using h(5) assms by (simp add: ecq_empty)
  then show ?thesis
    using h Cons x assms by (simp add: ecq_deq_def rd_def ecq_ok_def PIKA_EVENT_LIST_SIZE_def)
qed

interpretation event_ring: bounded_fifo ecq_ok ecq_list "\<lambda>_. 15" ecq_enq ecq_deq
proof (unfold_locales, goal_cases)
  case (1 q)
  then show ?case using ecq_count_bound [of q] by (simp add: ecq_list_def)
next
  case (2 q x)
  obtain l e d where x: "x = (l, e, d)" by (cases x)
  show ?case
  proof (cases "ecq_count q = 15")
    case True
    then show ?thesis using 2 by (intro exI [of _ q] exI [of _ False]) (simp add: ecq_enq_def x ecq_full ecq_list_def)
  next
    case False
    then obtain q' where "ecq_put q l (unat e) d = Some q'" "ecq_ok q'" "ecq_list q' = ecq_list q @ [(l, e, d)]"
      using ecq_put_ok [OF 2, of l "unat e" d] by auto
    then show ?thesis using 2 False ecq_count_bound [of q] by (simp add: ecq_enq_def x ecq_full) (simp add: ecq_list_def)
  qed
next
  case (3 q)
  then show ?case using ecq_deq_ok [of q] by fastforce
qed

section \<open>Signals\<close>

lemma pushSignal_ring:
  assumes "ecq_ok (sq (vms w))" "\<not> is_first_lock (gil w)" "length (ecq_list (sq (vms w))) < 15"
  shows "\<exists>w'. eventListener_pushSignal P self w l e s = Some (w', PIKA_RES_OK) \<and> ecq_ok (sq (vms w')) \<and>
    ecq_list (sq (vms w')) = ecq_list (sq (vms w)) @ [(l, of_nat e, s)] \<and>
    gil w' = gil w \<and> hp w' = hp w \<and> cq (vms w') = cq (vms w)"
proof -
  have "ecq_count (sq (vms w)) \<noteq> 15" using assms(3) by (simp add: ecq_list_def)
  then show ?thesis
    using ecq_put_ok [OF assms(1), of l e s] ecq_full [OF assms(1)] assms(2)
    by (auto simp: eventListener_pushSignal_def VM_is_first_lock_def)
qed

lemma pushSignal_full:
  "ecq_ok (sq (vms w)) \<Longrightarrow> length (ecq_list (sq (vms w))) = 15 \<Longrightarrow>
    eventListener_pushSignal P self w l e s = Some (w, PIKA_RES_ERR_SIGNAL_EVENT_FULL)"
  by (simp add: eventListener_pushSignal_def ecq_full ecq_list_def)

lemma popSignal_ring:
  assumes "ecq_ok (sq v)" "ecq_list (sq v) = (l, e, s) # xs"
  shows "\<exists>v'. eventListener_popSignalEvent v = Some (v', Some \<lparr> pop_listener = l, pop_id = e, pop_data = None,
      pop_signal = s, pop_head = ev_head (sq v) \<rparr>) \<and> ecq_ok (sq v') \<and> ecq_list (sq v') = xs"
proof -
  note h = ecq_head [OF assms]
  have "\<not> ecq_isEmpty (sq v)" using h(5) assms(1) by (simp add: ecq_empty)
  then show ?thesis
    using h assms(1) by (simp add: eventListener_popSignalEvent_def rd_def ecq_ok_def PIKA_EVENT_LIST_SIZE_def Let_def)
qed

text \<open>A sequence of signals sent, and a number of them taken out again.\<close>

primrec push_signals :: "'p Platform \<Rightarrow> nat \<Rightarrow> 'p World \<Rightarrow> (nat option \<times> nat \<times> int) list \<Rightarrow> 'p World option" where
  "push_signals P self w [] = Some w"
| "push_signals P self w (x # xs) = do {
     (w1, r) \<leftarrow> eventListener_pushSignal P self w (fst x) (fst (snd x)) (snd (snd x));
     if r = PIKA_RES_OK then push_signals P self w1 xs else None
   }"

primrec pop_signals :: "nat \<Rightarrow> VMState \<Rightarrow> (VMState \<times> (nat option \<times> u32 \<times> int) list) option" where
  "pop_signals 0 v = Some (v, [])"
| "pop_signals (Suc n) v = do {
     (v1, p) \<leftarrow> eventListener_popSignalEvent v;
     e \<leftarrow> p;
     (v2, xs) \<leftarrow> pop_signals n v1;
     Some (v2, (pop_listener e, pop_id e, pop_signal e) # xs)
   }"

definition signal_entry :: "nat option \<times> nat \<times> int \<Rightarrow> nat option \<times> u32 \<times> int" where
  "signal_entry x = (fst x, of_nat (fst (snd x)), snd (snd x))"

lemma push_signals_ring:
  assumes "ecq_ok (sq (vms w))" "\<not> is_first_lock (gil w)" "length (ecq_list (sq (vms w))) + length xs \<le> 15"
  shows "\<exists>w'. push_signals P self w xs = Some w' \<and> ecq_ok (sq (vms w')) \<and>
    ecq_list (sq (vms w')) = ecq_list (sq (vms w)) @ map signal_entry xs"
  using assms
proof (induction xs arbitrary: w)
  case (Cons x xs)
  obtain w1 where w1: "eventListener_pushSignal P self w (fst x) (fst (snd x)) (snd (snd x)) = Some (w1, PIKA_RES_OK)"
    "ecq_ok (sq (vms w1))" "ecq_list (sq (vms w1)) = ecq_list (sq (vms w)) @ [signal_entry x]" "gil w1 = gil w"
    using pushSignal_ring [OF Cons.prems(1,2), of P self "fst x" "fst (snd x)" "snd (snd x)"] Cons.prems(3)
    unfolding signal_entry_def by auto
  obtain w2 where "push_signals P self w1 xs = Some w2" "ecq_ok (sq (vms w2))"
    "ecq_list (sq (vms w2)) = ecq_list (sq (vms w1)) @ map signal_entry xs"
    using Cons.IH [of w1] Cons.prems(2,3) w1 by auto
  then show ?case using w1 by simp
qed simp

lemma pop_signals_ring:
  "ecq_ok (sq v) \<Longrightarrow> n \<le> length (ecq_list (sq v)) \<Longrightarrow>
    \<exists>v'. pop_signals n v = Some (v', take n (ecq_list (sq v))) \<and> ecq_ok (sq v') \<and> ecq_list (sq v') = drop n (ecq_list (sq v))"
proof (induction n arbitrary: v)
  case (Suc n)
  obtain l e s xs where x: "ecq_list (sq v) = (l, e, s) # xs" using Suc.prems(2) by (cases "ecq_list (sq v)") auto
  obtain v1 where v1: "eventListener_popSignalEvent v = Some (v1, Some \<lparr> pop_listener = l, pop_id = e, pop_data = None,
      pop_signal = s, pop_head = ev_head (sq v) \<rparr>)" "ecq_ok (sq v1)" "ecq_list (sq v1) = xs"
    using popSignal_ring [OF Suc.prems(1) x] by blast
  then show ?case using Suc.IH [of v1] Suc.prems(2) x by auto
qed simp

section \<open>Properties\<close>


definition vm0 :: VMState where
  "vm0 = \<lparr> vm_cnt = 0, cq = empty_queue None, sq = empty_queue 0, event_pickup_cnt = 0, event_thread = None,
     event_thread_exit = False, event_thread_exit_done = False \<rparr>"

definition world0 :: "bool World" where
  "world0 = \<lparr> gil = pika_GIL_deinit flag_platform, vms = vm0, hp = heap0 \<rparr>"

lemma empty_queue_ok: "ecq_ok (empty_queue d)" "ecq_list (empty_queue d) = []"
  by (simp_all add: ecq_ok_def empty_queue_def PIKA_EVENT_LIST_SIZE_def ecq_list_def ecq_count_def ring_def)


text \<open>C35: Taking out a signal while no event waits reads the entry of the signal ring at the head of
  the event ring: the pending signal is removed, but what is delivered is whatever stands at that
  other place, unless both heads happen to agree.\<close>

theorem popEvent_wrong_slot:
  assumes "ecq_ok (cq v)" "ecq_ok (sq v)" "ecq_list (cq v) = []" "ecq_list (sq v) = x # xs"
  shows "\<exists>v' p. eventListener_popEvent v = Some (v', Some p) \<and> ecq_list (sq v') = xs \<and>
    (pop_listener p, pop_id p, pop_signal p) = slots (sq v) ! ev_head (cq v) \<and>
    (ev_head (cq v) = ev_head (sq v) \<longrightarrow> (pop_listener p, pop_id p, pop_signal p) = x)"
proof -
  obtain l e s where x: "x = (l, e, s)" by (cases x)
  note h = ecq_head [OF assms(2) assms(4) [unfolded x]]
  have e: "ecq_isEmpty (cq v)" using assms(1,3) by (simp add: ecq_empty ecq_list_def ring_def)
  have n: "\<not> ecq_isEmpty (sq v)" using h(5) assms(2) by (simp add: ecq_empty)
  have b: "ev_head (cq v) < 16" "length (ev_id (sq v)) = 16" "length (ev_data (sq v)) = 16" "length (ev_listener (sq v)) = 16"
    using assms(1,2) by (simp_all add: ecq_ok_def)
  let ?i = "ev_head (cq v)"
  have s: "slots (sq v) ! ?i = (ev_listener (sq v) ! ?i, ev_id (sq v) ! ?i, ev_data (sq v) ! ?i)"
    using b by (simp add: slots_def)
  show ?thesis
    using e n b h x s by (simp add: eventListener_popEvent_def rd_def PIKA_EVENT_LIST_SIZE_def Let_def)
qed

text \<open>After one event was handled, the first signal is lost: a null listener is called instead.\<close>

definition vm_lost :: VMState where
  "vm_lost = vm0\<lparr>cq := (empty_queue None)\<lparr>ev_head := 1, ev_tail := 1\<rparr>,
     sq := (empty_queue 0)\<lparr>ev_id := (replicate 16 0)[0 := 9], ev_data := (replicate 16 0)[0 := 5],
       ev_listener := (replicate 16 None)[0 := Some 3], ev_tail := 1\<rparr>\<rparr>"

theorem popEvent_wrong_slot_witness:
  "ecq_list (sq vm_lost) = [(Some 3, 9, 5)] \<and>
   (\<exists>v' p. eventListener_popEvent vm_lost = Some (v', Some p) \<and> ecq_list (sq v') = [] \<and>
     pop_listener p = None \<and> pop_id p = 0 \<and> pop_signal p = 0)"
proof -
  have ok: "ecq_ok (cq vm_lost)" "ecq_ok (sq vm_lost)" "ecq_list (cq vm_lost) = []"
    by (simp_all add: vm_lost_def ecq_ok_def empty_queue_def PIKA_EVENT_LIST_SIZE_def ecq_list_def ecq_count_def ring_def)
  have l: "ecq_list (sq vm_lost) = [(Some 3, 9, 5)]"
    by (simp add: vm_lost_def empty_queue_def PIKA_EVENT_LIST_SIZE_def ecq_list_def ecq_count_def ring_def slots_def)
  have s: "slots (sq vm_lost) ! ev_head (cq vm_lost) = (None, 0, 0)"
    by (simp add: vm_lost_def empty_queue_def PIKA_EVENT_LIST_SIZE_def slots_def)
  show ?thesis using popEvent_wrong_slot [OF ok l] l unfolding s by auto
qed

text \<open>An event that does not fit is dropped, and the sender is told that it was sent.\<close>

lemma send_full_dropped:
  assumes "ecq_isFull (cq (vms w))" "is_init (gil w)" "is_first_lock (gil w)" "lock_owner (gil w) = self"
    "lock_times (gil w) < 2 ^ 31 - 1" "cells (hp w) a = Some c" "atype c \<noteq> ARG_TYPE_OBJECT_NEW" "arg_deinit (hp w) a = Some h"
  shows "\<exists>w'. eventListener_send P run th self w l e a = Some (w', PIKA_RES_OK) \<and> cq (vms w') = cq (vms w) \<and> hp w' = h"
  using assms
  by (simp add: eventListener_send_def do_eventListener_send_def VM_is_first_lock_def pika_GIL_isInit_def
      pika_GIL_ENTER_def recursive_mutex_lock_def lock_again_def eventListener_pushEvent_def Let_def)

end
