(* ===== verification/Spec2Isabelle.thy ===== *)
theory Spec2Isabelle
  imports Pika_Prelude Pika_String Pika_Memory Pika_Arg Pika_Args Pika_Queue Pika_Strs Pika_Lexer
    Pika_Cursor Pika_Stack Pika_ByteCode Pika_VM Pika_CodeGen Pika_Parser Pika_Expr Pika_Lines
    Pika_LineText Pika_Program Pika_Source Pika_Jumps Pika_Compiler Pika_Library Pika_Lock Pika_Event
begin

text \<open>
  A verification development for PikaPython (\<open>src/\<close>), a Python interpreter in C for small
  devices.

  \<^bold>\<open>The program.\<close> Source text is cut into lines and tokens by the lexer of \<open>PikaParser.c\<close>, parsed
  into assembly text, assembled into byte code (\<open>PikaParser.c\<close>, \<open>PikaVM.c\<close>), packed into byte code
  files and libraries (\<open>PikaCompiler.c\<close>) and run by the virtual machine (\<open>PikaVM.c\<close>) on objects
  (\<open>PikaObj.c\<close>). All of them keep their values in variable cells (\<open>dataArg.c\<close>), their variables,
  attributes and temporary buffers in name tables of cells (\<open>dataLink.c\<close>, \<open>dataArgs.c\<close>), pass
  values through queues and the value stack (\<open>dataQueue.c\<close>, \<open>dataStack.c\<close>) and take their memory
  from one allocator (\<open>dataMemory.c\<close>).

  \<^bold>\<open>The theories.\<close>
  \<^item> \<open>Pika_Prelude\<close>: characters, C strings, bounds-checked buffers, unsigned 32-bit arithmetic,
    little-endian encodings (locale \<open>byte_codec\<close>).
  \<^item> \<open>Pika_String\<close>: \<open>src/src/dataString.c\<close>, routine by routine; shows which buffer sizes are
    enough and what the routines compute.
  \<^item> \<open>Pika_Memory\<close>: \<open>src/src/dataMemory.c\<close>: bitmap, block pool, accounting. Locale
    \<open>block_allocator\<close> is the allocator's contract, interpreted on the pool; \<open>pool_reach\<close> are the
    states any history of allocations and releases leads to.
  \<^item> \<open>Pika_Arg\<close>: \<open>src/src/dataArg.c\<close>, \<open>src/src/dataArg.h\<close>: cells in an explicit store, with the
    memory they occupy, the reference counts of objects and the callbacks recorded as events.
  \<^item> \<open>Pika_Args\<close>: \<open>src/src/dataLink.c\<close>, \<open>src/src/dataLinkNode.c\<close>, \<open>src/src/dataArgs.c\<close>: lists and
    name tables threaded through the store. Locale \<open>keyed_store\<close> is the table's contract,
    interpreted for integers, floats and strings; \<open>rc_ok\<close> is the invariant that no object has
    more owning cells than its count.
  \<^item> \<open>Pika_Queue\<close>: the queue and the decimal conversion it names its cells with, and the byte ring
    buffers. Locale \<open>bounded_fifo\<close> is their contract, refined by the ring.
  \<^item> \<open>Pika_Strs\<close>: \<open>src/src/dataStrs.c\<close>: the string routines that take their own buffers; shows
    that the buffers are large enough and what replacing, joining and unescaping yield.
  \<^item> \<open>Pika_Lexer\<close>, \<open>Pika_Cursor\<close>: the lexer of \<open>src/src/PikaParser.c\<close> and the cursor over its token
    stream; shows that lexing ends, which characters reach the tokens, and that the cursor visits
    every token once.
  \<^item> \<open>Pika_Stack\<close>: \<open>src/src/dataStack.c\<close>: the value stack of the virtual machine on its two
    buffers. Locale \<open>lifo\<close> is its contract.
  \<^item> \<open>Pika_ByteCode\<close>: instruction units, instruction sets, constant pool, instruction array, frames
    and the assembler. Shows that reading a frame gives back what was assembled.
  \<^item> \<open>Pika_VM\<close>: the fetch loop, the jumps and the control instructions of \<open>src/src/PikaVM.c\<close> with
    the value instructions as a parameter. Locale \<open>vm_handlers\<close> states what a handler keeps;
    \<open>vm_reach\<close> are the states of a run.
  \<^item> \<open>Pika_CodeGen\<close>: the code generator of \<open>src/src/PikaParser.c\<close>, from the tree of a line to assembly
    text; shows that the machine counts the arguments of every node of an expression.
  \<^item> \<open>Pika_Parser\<close>: the statement parser of \<open>src/src/PikaParser.c\<close>: the forms it rewrites, the
    sub-statements it cuts out and the calls it makes on the tree of a statement.
  \<^item> \<open>Pika_Expr\<close>: assignments and nested calls, from the text through tokens, tree, assembly and byte
    code to what the virtual machine counts; shows that parsing undoes printing and which
    instructions a statement becomes.
  \<^item> \<open>Pika_Lines\<close>: the line parser of \<open>src/src/PikaParser.c\<close>: lines are joined, stripped of comments,
    rewritten, recognised and parsed with the blocks they open and close. The code generator compiles
    further source inside a line; the first argument of \<open>pika_lines2Asm\<close> and \<open>pika_lines2Bytes\<close> bounds how
    deep such texts are nested, and without comprehensions, loops over several names and default values 1 is enough.
  \<^item> \<open>Pika_LineText\<close>, \<open>Pika_Program\<close>, \<open>Pika_Source\<close>: indented lines of statements and of \<open>if\<close> and \<open>while\<close>
    conditions go unchanged through the rewriting of lines; each becomes its code behind the end of
    the blocks it leaves, and a program of nested blocks becomes exactly its instructions in the frame.
  \<^item> \<open>Pika_Jumps\<close>: the searches of the virtual machine on such a frame; shows that every jump of the
    program lands where the program goes on.
  \<^item> \<open>Pika_Lock\<close>, \<open>Pika_Event\<close>: the recursive mutex and the interpreter lock, with mutual exclusion of any threads,
    and the event and signal rings of the virtual machine (\<open>bounded_fifo\<close> again).
  \<^item> \<open>Pika_Compiler\<close>, \<open>Pika_Library\<close>: \<open>src/src/PikaCompiler.c\<close>: the byte code file, the library
    object, the linker, the library reader and the file system on a library.
  \<^item> This theory: the path from assembly text through file, library and loading back to
    instructions.

  \<^bold>\<open>Conventions.\<close> An operation returns an \<open>option\<close>: \<open>None\<close> is undefined behaviour (an access out
  of bounds, a dangling or null pointer used), a failed \<open>pika_assert\<close> (the default build aborts)
  or a loop that does not end; null results and error codes are ordinary values. The model is that
  of the default configuration on a 64-bit little-endian host; counters that the code keeps in 8,
  16 or 32 bits wrap as they do there. Loops over linked lists and searches without a bound are
  partial functions; the lemmas show on which states they return. No fuel is used but the nesting
  bound of \<open>Pika_Lines\<close>. From
  \<open>Pika_Strs\<close> on, a buffer cell is the list of its bytes; that the cells of \<open>Pika_Arg\<close> behave so
  is shown by \<open>args_getBuff_block\<close> and \<open>buff_append_arg_append\<close>. Code outside \<open>src/\<close> and code that
  is not modelled enters as arguments: the parser's texts, the content of files, the handlers.

  \<^bold>\<open>What is not modelled.\<close> The documentation output
  of the parser (\<open>parser_ast2Doc\<close>); the value and object instructions of the virtual machine,
  which call methods of objects; the objects, the garbage collector, the interactive prompt and the
  platform layer; formatted output (\<open>strsFormat\<close>, the printing of byte code); the build driver
  \<open>PikaMaker\<close>, whose steps are file accesses around the modelled compiler and linker; the cell
  cache (off by default). \<open>obj_deinit\<close>, which runs Python code, is an event.
\<close>

section \<open>From assembly text to a loaded module\<close>

lemma lib_block_small: "\<forall>m \<in> set lib. length (md_name m) < 60 \<Longrightarrow> lib_block lib 64 = 64"
proof (induction lib)
  case (Cons m lib)
  have "(length (md_name m) + 3) div 4 \<le> (59 + 3) div 4" using Cons.prems by (intro div_le_mono) simp
  then show ?case using Cons by (simp add: pad4_def max_def)
qed simp

lemma lib_put_name: "\<forall>m \<in> set lib. P m \<Longrightarrow> (\<And>m. P (f m)) \<Longrightarrow> \<forall>m \<in> set (lib_put k f lib). P m"
  using lib_put_set by fast

lemma lib_code_put:
  assumes "distinct (map md_key lib)"
  shows "lib_code (lib_put k (linked nm code) lib) \<le> lib_code lib + pad4 (length code)"
proof (cases "\<exists>m \<in> set lib. md_key m = k")
  case True
  then obtain xs m ys where l: "lib = xs @ m # ys" "md_key m = k" by (auto dest: split_list)
  then have "map (\<lambda>m. if md_key m = k then linked nm code m else m) xs = xs"
    "map (\<lambda>m. if md_key m = k then linked nm code m else m) ys = ys"
    using assms by (auto intro!: map_idI) (metis image_eqI)+
  then show ?thesis using True l by (simp add: lib_put_def lib_code_def)
next
  case False
  then show ?thesis by (simp add: lib_put_def lib_code_def)
qed

lemma length_lib_put: "length (lib_put k f lib) \<le> length lib + 1"
  by (simp add: lib_put_def)

text \<open>C28: From assembly text to a module in memory: compiling a program, linking the file into a
  library of modules with short names under the name of the file, writing the library and loading
  its bytes at an aligned address all succeed; the module is then found by its dotted name, and the
  frame loaded from its byte code holds exactly the instructions of the program.\<close>

theorem compile_link_load:
  assumes "prog_ok prog" "recent g = VM_default_instruction_set" "prog_data prog + 1 \<le> 65535"
    and "lib_ok lib" "\<forall>m \<in> set lib. md_buff m \<noteq> [] \<and> length (md_name m) < 60"
    and "cstring p" "Pika_String.last_token CHR ''/'' p = nm @ ''.py.o''" "CH_BS \<notin> set nm" "length nm < 60"
    and "64 * (length lib + 2) + lib_code lib + 4 * length (concat prog) + 65600 < U32" "base mod 4 = 0"
  shows "\<exists>file lib1 bytes lib2 m bf'.
    pikaCompile g True (map asm_lines prog) PIKA_RES_OK = Some (PIKA_RES_OK, Some file) \<and>
    LibObj_staticLinkFile lib p (Some file) = Some (lib1, 0) \<and> lib_ok lib1 \<and>
    LibObj_linkFile lib1 True = Some bytes \<and> LibObj_loadLibrary [] base (bytes @ rest) = Some (lib2, 0) \<and>
    LibObj_getModule lib2 (dots nm) = Some (Some m) \<and>
    byteCodeFrame_loadByteCode bf (md_bytecode m) = Some bf' \<and>
    disassemble bf' = Some (concat (map (asm_instrs 0 False) prog))"
proof -
  let ?us = "fst (prog_run [] prog)" and ?strs = "snd (prog_run [] prog)"
  let ?i = "code_image ?us ?strs"
  let ?file = "magic_code_pyo @ le_bytes 4 (length ?i) @ ?i"
  have sz: "4 * length (concat prog) + 65543 < U32" using assms(10) by linarith
  note c = pikaCompile_image [OF assms(1-3) sz]
  have i: "length ?i \<le> 4 * length (concat prog) + 65543" "?i \<noteq> []"
    using prog_run_length [of "[]" prog] c(3) by (simp add: code_image_def) (simp add: code_image_def pool_bytes_def str_bytes_def)
  have us: "4 * length ?us < U32" "length (pool_bytes ?strs) < U32"
    using prog_run_length [of "[]" prog] c(3) sz by simp_all
  have nm: "cstring nm" using assms(6,7) by (metis cstring_rev cstring_simps(3) cstring_takeWhile Pika_String.last_token_def)
  have pad: "pad4 (length ?i) < length ?i + 4" by (rule pad4_bound)
  have fit: "fits (length ?i + 9)" using i(1) assms(10) by linarith
  let ?l = "lib_put (hash_time33 (bars nm)) (linked nm ?i) lib"
  have ok: "lib_ok ?l" using assms(9) by (intro staticLink_lib_ok assms(4) nm fit) simp
  have names: "\<forall>m \<in> set ?l. md_buff m \<noteq> [] \<and> length (md_name m) < 60"
    using assms(5,9) i(2) by (intro lib_put_name) simp_all
  then have bl: "lib_block ?l 64 = 64" by (intro lib_block_small) blast
  have "lib_code ?l \<le> lib_code lib + pad4 (length ?i)" using assms(4) by (intro lib_code_put) (simp add: lib_ok_def)
  moreover have "length ?l \<le> length lib + 1" by (rule length_lib_put)
  ultimately have tot: "lib_total ?l < U32" using pad i(1) assms(10) by (simp add: lib_total_def bl)
  have big: "\<forall>m \<in> set ?l. md_buff m \<noteq> [] \<and> length (md_name m) < lib_block ?l 64 - 4"
    using names by (simp add: bl)
  obtain bytes lib2 where link: "LibObj_linkFile ?l True = Some bytes"
    and load: "LibObj_loadLibrary [] base (bytes @ rest) = Some (lib2, 0)"
    and all: "list_all2 (\<lambda>m l. md_key l = md_key m \<and> md_name l = dots (md_name m) \<and>
      take (length (md_buff m)) (md_bytecode l) = md_buff m) ?l (rev lib2)"
    using library_file_loads [OF ok tot assms(11) big, of rest] by blast
  obtain m0 where m0: "m0 \<in> set ?l" "md_name m0 = nm" "md_buff m0 = ?i"
    using lib_put_in [of "linked nm ?i" "hash_time33 (bars nm)" lib] linked_fields by metis
  obtain m where m: "LibObj_getModule lib2 (dots nm) = Some (Some m)" "take (length ?i) (md_bytecode m) = ?i"
    using loaded_found [OF ok m0(1) all] m0(2,3) by auto
  have "md_bytecode m = ?i @ drop (length ?i) (md_bytecode m)" using m(2) by (metis append_take_drop_id)
  then obtain bf' where bf: "byteCodeFrame_loadByteCode bf (md_bytecode m) = Some bf'"
    "disassemble bf' = Some (concat (map (asm_instrs 0 False) prog))"
    using load_image_views [OF us prog_run_views [OF assms(1) c(2,3)]] by metis
  have "LibObj_staticLinkFile lib p (Some ?file) = Some (?l, 0)"
    using assms(9) by (intro staticLinkFile_image assms(6-8) nm fit) simp
  with c(1) ok link load m(1) bf show ?thesis by blast
qed

theorem compile_link_load_witness:
  "\<exists>file lib1 bytes lib2 m bf'.
    pikaCompile g_PikaVMInsSet True (map asm_lines [[Block 0, Ins 0 INS_NUM ''1'', Ins 0 INS_OUT ''x'']]) PIKA_RES_OK =
      Some (PIKA_RES_OK, Some file) \<and>
    LibObj_staticLinkFile [] ''pikascript-api/a.b.py.o'' (Some file) = Some (lib1, 0) \<and>
    LibObj_linkFile lib1 True = Some bytes \<and> LibObj_loadLibrary [] 0 (bytes @ [0]) = Some (lib2, 0) \<and>
    LibObj_getModule lib2 ''a.b'' = Some (Some m) \<and>
    byteCodeFrame_loadByteCode frame0 (md_bytecode m) = Some bf' \<and>
    disassemble bf' = Some [(0, 0, True, 5, ''1''), (0, 0, False, 4, ''x'')]"
proof -
  let ?p = "[[Block 0, Ins 0 INS_NUM ''1'', Ins 0 INS_OUT ''x'']]"
  have "PIKA_INS INS_NUM = 5" "PIKA_INS INS_OUT = 4" by (simp_all add: PIKA_INS_def instruction_table_def)
  then have r: "concat (map (asm_instrs 0 False) ?p) = [(0, 0, True, 5, ''1''), (0, 0, False, 4, ''x'')]" "dots ''a.b'' = ''a.b''"
    by (simp_all add: dots_def)
  have p: "prog_ok ?p" "prog_data ?p + 1 \<le> 65535" "recent g_PikaVMInsSet = VM_default_instruction_set" "lib_ok []"
    by (simp_all add: prog_ok_def prog_data_def g_PikaVMInsSet_def lib_ok_def)
  have l: "Pika_String.last_token CHR ''/'' ''pikascript-api/a.b.py.o'' = ''a.b'' @ ''.py.o''"
    by (simp add: Pika_String.last_token_def)
  have s: "64 * (length ([] :: LibObj) + 2) + lib_code [] + 4 * length (concat ?p) + 65600 < U32" "(0 :: nat) mod 4 = 0"
    by (simp_all add: lib_code_def U32_def)
  have n: "\<forall>m \<in> set ([] :: LibObj). md_buff m \<noteq> [] \<and> length (md_name m) < 60" "cstring ''pikascript-api/a.b.py.o''"
    "CH_BS \<notin> set ''a.b''" "length ''a.b'' < 60"
    by simp_all
  show ?thesis
    using compile_link_load [OF p(1,3,2,4) n(1,2) l n(3,4) s, of "[0]" frame0] unfolding r by blast
qed

end
